(* ===== verification/Prelude.thy ===== *)
theory Prelude
  imports Main "HOL-Library.Word" "HOL-Library.Monad_Syntax"
begin

unbundle bit_operations_syntax

text \<open>
  Shared vocabulary of the development: the machine integer types of
  \<^verbatim>\<open>kernel/include/common/types.h\<close>, the error numbers the modelled operations
  return, the allocation oracle that stands for the outcome of \<open>kmalloc\<close>, and the
  generic facts on lists, options and words that the component theories use.

  Two conventions hold in every theory. An operation that can hit \<open>BUG\<close>,
  \<open>BUG_ON\<close>, \<open>llfree_assert\<close> or an access outside an object returns an
  \<open>option\<close>, and \<open>None\<close> is that crash; \<open>do\<close> blocks sequence such operations.
  A C error return is an ordinary value: a negative \<open>int\<close> or a datatype.
\<close>

type_synonym u8 = "8 word"
type_synonym u16 = "16 word"
type_synonym u32 = "32 word"
type_synonym u64 = "64 word"

named_theorems kernel_defs \<open>operations that client proofs unfold\<close>
named_theorems frame_simps \<open>fields an operation leaves unchanged\<close>

subsection \<open>Error numbers\<close>

text \<open>The positive constants of \<^verbatim>\<open>kernel/include/common/errno.h\<close>.\<close>

definition EPERM :: int where "EPERM = 1"
definition EAGAIN :: int where "EAGAIN = 11"
definition ENOMEM :: int where "ENOMEM = 12"
definition EFAULT :: int where "EFAULT = 14"
definition EINVAL :: int where "EINVAL = 22"
definition ENOSYS :: int where "ENOSYS = 38"
definition ECAPBILITY :: int where "ECAPBILITY = 200"

lemmas errno_defs = EPERM_def EAGAIN_def ENOMEM_def EFAULT_def EINVAL_def ENOSYS_def
  ECAPBILITY_def

subsection \<open>Crashing operations\<close>

text \<open>\<open>BUG_ON(c)\<close>: the execution stops when \<open>c\<close> holds.\<close>

definition bug_on :: "bool \<Rightarrow> unit option" where
  "bug_on c = (if c then None else Some ())"

lemma bug_on_simps [simp]:
  "bug_on True = None" "bug_on False = Some ()"
  by (simp_all add: bug_on_def)

lemma bug_on_bind_Some [simp]:
  "(bug_on c \<bind> f) = Some y \<longleftrightarrow> \<not> c \<and> f () = Some y"
  by (cases c) simp_all

lemma bind_eq_Some_iff:
  "(x \<bind> f) = Some y \<longleftrightarrow> (\<exists>a. x = Some a \<and> f a = Some y)"
  by (cases x) simp_all

lemma bind_Some_I: "x = Some a \<Longrightarrow> f a = Some y \<Longrightarrow> (x \<bind> f) = Some y"
  by simp

text \<open>Array accesses with the bound of the object written out.\<close>

definition load_at :: "'a list \<Rightarrow> nat \<Rightarrow> 'a option" where
  "load_at xs i = (if i < length xs then Some (xs ! i) else None)"

definition store_at :: "'a list \<Rightarrow> nat \<Rightarrow> 'a \<Rightarrow> 'a list option" where
  "store_at xs i v = (if i < length xs then Some (xs[i := v]) else None)"

lemma load_at_Some [simp]: "load_at xs i = Some v \<longleftrightarrow> i < length xs \<and> xs ! i = v"
  by (auto simp: load_at_def)

lemma store_at_Some [simp]:
  "store_at xs i v = Some ys \<longleftrightarrow> i < length xs \<and> ys = xs[i := v]"
  by (auto simp: store_at_def)

lemma load_at_in [simp]: "i < length xs \<Longrightarrow> load_at xs i = Some (xs ! i)"
  by simp

lemma store_at_in [simp]: "i < length xs \<Longrightarrow> store_at xs i v = Some (xs[i := v])"
  by simp

subsection \<open>Outcomes of the kernel allocator\<close>

text \<open>
  \<open>kmem\<close> lists the outcomes of the next allocations, in order; after its end every
  allocation succeeds. Quantifying over it covers every pattern of failures a run can meet.
\<close>

type_synonym kmem = "bool list"

fun kmalloc_outcome :: "kmem \<Rightarrow> bool \<times> kmem" where
  "kmalloc_outcome [] = (True, [])"
| "kmalloc_outcome (b # k) = (b, k)"

lemma kmalloc_outcome_set:
  "kmalloc_outcome k = (b, k') \<Longrightarrow> set k' \<subseteq> set k \<and> (\<not> b \<longrightarrow> False \<in> set k)"
  by (cases k) auto


subsection \<open>Memory tiers\<close>

text \<open>The enumeration \<open>mem_type\<close>; its constants are ordered by their numbers.\<close>

datatype mem_t = MT_INVALID | MT_PRIVATE | MT_SHARED | MT_USER_DEFAULT | MT_MAX_TYPE

primrec mem_number :: "mem_t \<Rightarrow> nat" where
  "mem_number MT_INVALID = 0"
| "mem_number MT_PRIVATE = 1"
| "mem_number MT_SHARED = 2"
| "mem_number MT_USER_DEFAULT = 3"
| "mem_number MT_MAX_TYPE = 4"

lemma mem_number_inj: "mem_number a = mem_number b \<Longrightarrow> a = b"
  by (cases a; cases b) auto

instantiation mem_t :: linorder
begin
definition less_eq_mem_t :: "mem_t \<Rightarrow> mem_t \<Rightarrow> bool" where
  "less_eq_mem_t a b \<longleftrightarrow> mem_number a \<le> mem_number b"
definition less_mem_t :: "mem_t \<Rightarrow> mem_t \<Rightarrow> bool" where
  "less_mem_t a b \<longleftrightarrow> mem_number a < mem_number b"
instance
  by standard (auto simp: less_eq_mem_t_def less_mem_t_def intro: mem_number_inj)
end

definition IS_VALID_MEM_TYPE :: "mem_t \<Rightarrow> bool" where
  "IS_VALID_MEM_TYPE mt \<longleftrightarrow> mt > MT_INVALID \<and> mt < MT_MAX_TYPE"

lemma IS_VALID_MEM_TYPE_iff: "IS_VALID_MEM_TYPE mt \<longleftrightarrow> mt \<in> {MT_PRIVATE, MT_SHARED, MT_USER_DEFAULT}"
  by (cases mt) (auto simp: IS_VALID_MEM_TYPE_def less_mem_t_def)

subsection \<open>Platform\<close>

definition PLAT_CPU_NUM :: nat where "PLAT_CPU_NUM = 12"
definition CLUSTER_MAX_MACHINE_NUM :: nat where "CLUSTER_MAX_MACHINE_NUM = 8"
definition KBASE :: nat where "KBASE = 0xFFFFFF0000000000"

definition phys_to_virt :: "nat \<Rightarrow> nat" where
  "phys_to_virt x = (x + KBASE) mod 2 ^ 64"

end
