(* ===== verification/Bitops.thy ===== *)
theory Bitops
  imports Prelude
begin

unbundle bit_operations_syntax

text \<open>
  The bitmap operations of \<^verbatim>\<open>kernel/include/common/bitops.h\<close>. A bitmap is the array
  of \<open>unsigned long\<close> words it is stored in; an access outside the array is a crash.
  The main result is that the word-and-bit double loop \<open>find_next_bit_helper\<close> computes
  the first matching index of the range, for every start and every sz the array covers.
  The locale \<open>bitmap\<close> is the contract the capability slot tables use.
\<close>

definition BITS_PER_LONG :: nat where
  "BITS_PER_LONG = 64"

definition DIV_ROUND_UP :: "nat \<Rightarrow> nat \<Rightarrow> nat" where
  "DIV_ROUND_UP n d = (n + d - 1) div d"

definition BITS_TO_LONGS :: "nat \<Rightarrow> nat" where
  "BITS_TO_LONGS nr = DIV_ROUND_UP nr BITS_PER_LONG"

type_synonym bmp = "u64 list"

definition set_bit_in :: "nat \<Rightarrow> bmp \<Rightarrow> bmp option" where
  "set_bit_in nr p =
     do { w \<leftarrow> load_at p (nr div BITS_PER_LONG);
          store_at p (nr div BITS_PER_LONG) (w OR push_bit (nr mod BITS_PER_LONG) 1) }"

definition get_bit_in :: "nat \<Rightarrow> bmp \<Rightarrow> bool option" where
  "get_bit_in nr p =
     do { w \<leftarrow> load_at p (nr div BITS_PER_LONG);
          Some (drop_bit (nr mod BITS_PER_LONG) w AND 1 \<noteq> 0) }"

definition clear_bit_in :: "nat \<Rightarrow> bmp \<Rightarrow> bmp option" where
  "clear_bit_in nr p =
     do { w \<leftarrow> load_at p (nr div BITS_PER_LONG);
          store_at p (nr div BITS_PER_LONG) (w AND NOT (push_bit (nr mod BITS_PER_LONG) 1)) }"

text \<open>
  \<open>sz - 1\<close> is computed on \<open>unsigned long\<close>: for \<open>sz = 0\<close> it wraps to the largest
  value.
\<close>

definition size_minus_1 :: "nat \<Rightarrow> nat" where
  "size_minus_1 sz = (if sz = 0 then 2 ^ 64 - 1 else sz - 1)"

function find_bit_loop ::
    "bmp \<Rightarrow> bool \<Rightarrow> nat \<Rightarrow> nat \<Rightarrow> nat \<Rightarrow> nat \<Rightarrow> nat \<Rightarrow> nat option" where
  "find_bit_loop p inverted sz max_elem cur_elem cur_bit res =
     (if max_elem < cur_elem then Some sz
      else if cur_bit \<le> (if cur_elem < max_elem then BITS_PER_LONG - 1
                         else size_minus_1 sz mod BITS_PER_LONG)
      then do { w \<leftarrow> load_at p cur_elem;
                if (w AND push_bit cur_bit 1 \<noteq> 0) \<noteq> inverted then Some res
                else find_bit_loop p inverted sz max_elem cur_elem (cur_bit + 1) (res + 1) }
      else find_bit_loop p inverted sz max_elem (cur_elem + 1) 0 res)"
  by pat_completeness auto
termination
proof (relation "measures [\<lambda>(p, i, s, m, e, b, r). Suc m - e, \<lambda>(p, i, s, m, e, b, r). 64 - b]")
  fix p :: bmp and i :: bool and s m e b r :: nat
  assume "b \<le> (if e < m then BITS_PER_LONG - 1 else size_minus_1 s mod BITS_PER_LONG)"
  then have "b < 64" using mod_less_divisor [of 64 "size_minus_1 s"]
    by (simp add: BITS_PER_LONG_def split: if_splits)
  then show "((p, i, s, m, e, b + 1, r + 1), (p, i, s, m, e, b, r))
      \<in> measures [\<lambda>(p, i, s, m, e, b, r). Suc m - e, \<lambda>(p, i, s, m, e, b, r). 64 - b]"
    by simp
qed auto

declare find_bit_loop.simps [simp del]

definition find_next_bit_helper :: "bmp \<Rightarrow> nat \<Rightarrow> nat \<Rightarrow> bool \<Rightarrow> nat option" where
  "find_next_bit_helper p sz start inverted =
     find_bit_loop p inverted sz (size_minus_1 sz div BITS_PER_LONG)
       (start div BITS_PER_LONG) (start mod BITS_PER_LONG) start"

definition find_next_zero_bit :: "bmp \<Rightarrow> nat \<Rightarrow> nat \<Rightarrow> nat option" where
  "find_next_zero_bit p sz start = find_next_bit_helper p sz start True"

definition find_next_bit :: "bmp \<Rightarrow> nat \<Rightarrow> nat \<Rightarrow> nat option" where
  "find_next_bit p sz start = find_next_bit_helper p sz start False"

subsection \<open>The set of bits a bitmap holds\<close>

definition bmp_at :: "bmp \<Rightarrow> nat \<Rightarrow> bool" where
  "bmp_at p i \<longleftrightarrow> bit (p ! (i div 64)) (i mod 64)"

lemma drop_bit_and_1: "(drop_bit b w AND 1 \<noteq> (0::'a::len word)) \<longleftrightarrow> bit w b"
  by (simp add: and_one_eq odd_iff_mod_2_eq_one [symmetric] bit_iff_odd_drop_bit)

lemma get_bit_in_Some:
  "i < 64 * length p \<Longrightarrow> get_bit_in i p = Some (bmp_at p i)"
  by (simp add: get_bit_in_def BITS_PER_LONG_def bmp_at_def drop_bit_and_1 less_mult_imp_div_less
      mult.commute)

lemma bmp_index: "i < 64 * length p \<Longrightarrow> i div 64 < length (p :: bmp)"
  by (simp add: less_mult_imp_div_less mult.commute)

lemma set_bit_in_Some:
  assumes "i < 64 * length p"
  obtains q where "set_bit_in i p = Some q" "length q = length p"
    "\<And>j. bmp_at q j \<longleftrightarrow> j = i \<or> bmp_at p j"
proof -
  let ?q = "p[i div 64 := p ! (i div 64) OR push_bit (i mod 64) 1]"
  have "set_bit_in i p = Some ?q"
    using bmp_index [OF assms] by (simp add: set_bit_in_def BITS_PER_LONG_def)
  moreover have "bmp_at ?q j \<longleftrightarrow> j = i \<or> bmp_at p j" for j
  proof (cases "j div 64 = i div 64")
    case True
    have "j = i \<longleftrightarrow> j mod 64 = i mod 64"
      using True by (metis div_mult_mod_eq)
    with True bmp_index [OF assms] show ?thesis
      by (auto simp: bmp_at_def bit_or_iff bit_exp_iff)
  qed (auto simp: bmp_at_def)
  ultimately show ?thesis using that by simp
qed

lemma clear_bit_in_Some:
  assumes "i < 64 * length p"
  obtains q where "clear_bit_in i p = Some q" "length q = length p"
    "\<And>j. bmp_at q j \<longleftrightarrow> j \<noteq> i \<and> bmp_at p j"
proof -
  let ?q = "p[i div 64 := p ! (i div 64) AND NOT (push_bit (i mod 64) 1)]"
  have "clear_bit_in i p = Some ?q"
    using bmp_index [OF assms] by (simp add: clear_bit_in_def BITS_PER_LONG_def)
  moreover have "bmp_at ?q j \<longleftrightarrow> j \<noteq> i \<and> bmp_at p j" for j
  proof (cases "j div 64 = i div 64")
    case True
    have "j = i \<longleftrightarrow> j mod 64 = i mod 64"
      using True by (metis div_mult_mod_eq)
    with True bmp_index [OF assms] show ?thesis
      by (auto simp: bmp_at_def bit_and_iff bit_not_iff bit_exp_iff)
  qed (auto simp: bmp_at_def)
  ultimately show ?thesis using that by simp
qed

lemma all_ones_iff: "(w :: u64) = NOT 0 \<longleftrightarrow> (\<forall>b < 64. bit w b)"
  by (auto simp: bit_eq_iff bit_not_iff)

subsection \<open>The search\<close>

text \<open>The reference: the first index of the range that satisfies a test, else the sz.\<close>

definition first_from :: "(nat \<Rightarrow> bool) \<Rightarrow> nat \<Rightarrow> nat \<Rightarrow> nat" where
  "first_from P sz start = (case find P [start..<sz] of None \<Rightarrow> sz | Some i \<Rightarrow> i)"

lemma first_from_ge: "sz \<le> start \<Longrightarrow> first_from P sz start = sz"
  by (simp add: first_from_def)

lemma first_from_step:
  "start < sz \<Longrightarrow>
     first_from P sz start = (if P start then start else first_from P sz (Suc start))"
  by (simp add: first_from_def upt_conv_Cons)

lemma first_from_Some:
  "first_from P sz start = i \<Longrightarrow> i < sz \<Longrightarrow>
     start \<le> i \<and> P i \<and> (\<forall>j. start \<le> j \<and> j < i \<longrightarrow> \<not> P j)"
proof (induction "sz - start" arbitrary: start)
  case 0
  then show ?case by (simp add: first_from_ge)
next
  case (Suc n)
  then have lt: "start < sz" by simp
  show ?case
  proof (cases "P start")
    case True
    with Suc.prems lt show ?thesis by (auto simp: first_from_step)
  next
    case False
    with Suc.prems lt have "first_from P sz (Suc start) = i" by (simp add: first_from_step)
    with Suc.hyps(1) [of "Suc start"] Suc.hyps(2) Suc.prems lt have
      "Suc start \<le> i \<and> P i \<and> (\<forall>j. Suc start \<le> j \<and> j < i \<longrightarrow> \<not> P j)" by simp
    with False show ?thesis using Suc_leI le_neq_implies_less by (metis Suc_leD)
  qed
qed

lemma first_from_None:
  "first_from P sz start \<ge> sz \<longleftrightarrow> (\<forall>j. start \<le> j \<and> j < sz \<longrightarrow> \<not> P j)"
  by (fastforce simp: first_from_def find_None_iff find_Some_iff split: option.splits
      dest: nth_mem)

lemma size_minus_1_pos: "0 < sz \<Longrightarrow> size_minus_1 sz = sz - 1"
  by (simp add: size_minus_1_def)

lemma find_bit_loop_correct:
  assumes "0 < sz" "sz \<le> 2 ^ 64" "sz \<le> 64 * length p"
    and "max_elem = size_minus_1 sz div 64" "cur_bit \<le> 64" "res = 64 * cur_elem + cur_bit"
  shows "find_bit_loop p inverted sz max_elem cur_elem cur_bit res =
           Some (first_from (\<lambda>i. bmp_at p i \<noteq> inverted) sz res)"
  using assms
proof (induction p inverted sz max_elem cur_elem cur_bit res rule: find_bit_loop.induct)
  case (1 p inverted sz max_elem cur_elem cur_bit res)
  have s1: "size_minus_1 sz = sz - 1" using 1 size_minus_1_pos by simp
  let ?mb = "if cur_elem < max_elem then BITS_PER_LONG - 1
             else size_minus_1 sz mod BITS_PER_LONG"
  obtain q r where cut: "sz = Suc (64 * q + r)" "r < 64"
    using 1(3) mod_less_divisor [of 64 "sz - 1"] mult_div_mod_eq [of 64 "sz - 1"]
    by (metis Suc_pred' zero_less_numeral)
  then have max: "max_elem = q" using 1(6) s1 by simp
  consider (past) "max_elem < cur_elem"
    | (bit) "\<not> max_elem < cur_elem" "cur_bit \<le> ?mb"
    | (word) "\<not> max_elem < cur_elem" "\<not> cur_bit \<le> ?mb" by blast
  then show ?case
  proof cases
    case past
    then have "sz \<le> res" using 1(8) max cut by simp
    with past show ?thesis by (simp add: find_bit_loop.simps first_from_ge)
  next
    case bit
    then have lt: "res < sz" and cb: "cur_bit < 64"
      using 1(8) max s1 cut
      by (simp_all add: BITS_PER_LONG_def split: if_splits)
    then have idx: "cur_elem < length p" using 1(5,8) by linarith
    have at: "bmp_at p res \<longleftrightarrow> bit (p ! cur_elem) cur_bit"
      using 1(8) cb by (simp add: bmp_at_def)
    show ?thesis
    proof (cases "bit (p ! cur_elem) cur_bit \<noteq> inverted")
      case True
      with bit idx lt at show ?thesis
        by (subst find_bit_loop.simps) (simp add: and_exp_eq_0_iff_not_bit first_from_step)
    next
      case False
      have "find_bit_loop p inverted sz max_elem cur_elem (cur_bit + 1) (res + 1) =
          Some (first_from (\<lambda>i. bmp_at p i \<noteq> inverted) sz (res + 1))"
        using bit idx False cb 1(3-8) by (intro 1(1)) (simp_all add: and_exp_eq_0_iff_not_bit)
      with bit idx lt at False show ?thesis
        by (subst find_bit_loop.simps) (simp add: and_exp_eq_0_iff_not_bit first_from_step)
    qed
  next
    case word
    have "cur_elem = max_elem \<or> cur_bit = 64"
      using word 1(7) by (auto simp: BITS_PER_LONG_def split: if_splits)
    moreover have "find_bit_loop p inverted sz max_elem cur_elem cur_bit res =
        find_bit_loop p inverted sz max_elem (cur_elem + 1) 0 res"
      using word by (subst find_bit_loop.simps) simp
    moreover have "find_bit_loop p inverted sz max_elem (cur_elem + 1) 0 res =
        Some (first_from (\<lambda>i. bmp_at p i \<noteq> inverted) sz res)" if "cur_elem = max_elem"
    proof -
      have "sz \<le> res"
        using that word 1(3,8) max cut s1 by (simp add: BITS_PER_LONG_def)
      with that show ?thesis by (subst find_bit_loop.simps) (simp add: first_from_ge)
    qed
    moreover have "find_bit_loop p inverted sz max_elem (cur_elem + 1) 0 res =
        Some (first_from (\<lambda>i. bmp_at p i \<noteq> inverted) sz res)" if "cur_bit = 64"
      using that word 1(3-8) by (intro 1(2)) simp_all
    ultimately show ?thesis by auto
  qed
qed

subsection \<open>The contract of a bitmap\<close>

text \<open>
  What the users of a bitmap rely on: the effect of setting and clearing one bit on all the
  others, and that the search returns an unused index exactly when there is one. The client
  lemmas are about an identifier allocator that takes the first zero bit and sets it.
\<close>

locale bitmap =
  fixes valid :: "'m \<Rightarrow> nat \<Rightarrow> bool"
    and at :: "'m \<Rightarrow> nat \<Rightarrow> bool"
    and setb :: "nat \<Rightarrow> 'm \<Rightarrow> 'm option"
    and clearb :: "nat \<Rightarrow> 'm \<Rightarrow> 'm option"
    and nextz :: "'m \<Rightarrow> nat \<Rightarrow> nat \<Rightarrow> nat option"
  assumes set_law: "\<lbrakk>valid m n; i < n\<rbrakk> \<Longrightarrow>
      \<exists>m'. setb i m = Some m' \<and> valid m' n \<and> (\<forall>j. at m' j \<longleftrightarrow> j = i \<or> at m j)"
    and clear_law: "\<lbrakk>valid m n; i < n\<rbrakk> \<Longrightarrow>
      \<exists>m'. clearb i m = Some m' \<and> valid m' n \<and> (\<forall>j. at m' j \<longleftrightarrow> j \<noteq> i \<and> at m j)"
    and next_law: "\<lbrakk>valid m n; 0 < n\<rbrakk> \<Longrightarrow>
      \<exists>i \<le> n. nextz m n start = Some i \<and>
        (i < n \<longrightarrow> start \<le> i \<and> \<not> at m i) \<and>
        (\<forall>j. start \<le> j \<and> j < i \<longrightarrow> at m j)"
begin

definition used :: "'m \<Rightarrow> nat \<Rightarrow> nat set" where
  "used m n = {i. i < n \<and> at m i}"

definition alloc_id :: "'m \<Rightarrow> nat \<Rightarrow> ('m \<times> nat) option" where
  "alloc_id m n =
     do { i \<leftarrow> nextz m n 0;
          if i < n then do { m' \<leftarrow> setb i m; Some (m', i) } else Some (m, n) }"

lemma alloc_id_fresh:
  assumes "valid m n" "0 < n" "used m n \<noteq> {0..<n}"
  obtains m' i where "alloc_id m n = Some (m', i)" "i < n" "i \<notin> used m n" "valid m' n"
    "used m' n = insert i (used m n)"
proof -
  from next_law [OF assms(1,2), of 0] obtain i where i: "i \<le> n" "nextz m n 0 = Some i"
    "i < n \<longrightarrow> \<not> at m i" "\<forall>j < i. at m j" by auto
  have "i < n"
  proof (rule ccontr)
    assume "\<not> i < n"
    with i have "used m n = {0..<n}" by (auto simp: used_def)
    with assms(3) show False by simp
  qed
  moreover from set_law [OF assms(1) this] obtain m' where "setb i m = Some m'" "valid m' n"
    "\<forall>j. at m' j \<longleftrightarrow> j = i \<or> at m j" by blast
  ultimately show ?thesis using that [of m' i] i by (auto simp: alloc_id_def used_def)
qed

lemma alloc_id_full:
  assumes "valid m n" "0 < n" "used m n = {0..<n}"
  shows "alloc_id m n = Some (m, n)"
proof -
  from next_law [OF assms(1,2), of 0] obtain i where i: "i \<le> n" "nextz m n 0 = Some i"
    "i < n \<longrightarrow> \<not> at m i" by auto
  moreover have "\<not> i < n"
  proof
    assume "i < n"
    with assms(3) have "i \<in> used m n" by simp
    with i show False by (simp add: used_def)
  qed
  ultimately show ?thesis by (simp add: alloc_id_def)
qed

lemma free_id_used:
  assumes "valid m n" "i < n"
  obtains m' where "clearb i m = Some m'" "valid m' n" "used m' n = used m n - {i}"
  using clear_law [OF assms] by (auto simp: used_def)

lemma free_alloc_id:
  assumes "valid m n" "0 < n" "used m n = {0..<n}" "i < n"
  shows "\<exists>m' m''. clearb i m = Some m' \<and> alloc_id m' n = Some (m'', i) \<and> used m'' n = {0..<n}"
proof -
  obtain m' where m': "clearb i m = Some m'" "valid m' n" "used m' n = used m n - {i}"
    by (rule free_id_used [OF assms(1,4)])
  have "i \<notin> used m' n" "i \<in> {0..<n}" using m'(3) assms(4) by simp_all
  then have ne: "used m' n \<noteq> {0..<n}" by blast
  obtain m'' j where j: "alloc_id m' n = Some (m'', j)" "j < n" "j \<notin> used m' n"
    "used m'' n = insert j (used m' n)" by (rule alloc_id_fresh [OF m'(2) assms(2) ne])
  have "j = i" using j(2,3) m'(3) assms(3) by simp
  moreover from this have "used m'' n = {0..<n}"
    unfolding j(4) m'(3) assms(3) using assms(4) by auto
  ultimately show ?thesis using m'(1) j(1) by blast
qed

end

definition bmp_valid :: "bmp \<Rightarrow> nat \<Rightarrow> bool" where
  "bmp_valid p n \<longleftrightarrow> n \<le> 64 * length p \<and> n \<le> 2 ^ 64"

lemma find_next_bit_helper_first:
  "\<lbrakk>0 < sz; bmp_valid p sz\<rbrakk> \<Longrightarrow>
     find_next_bit_helper p sz start inverted =
       Some (first_from (\<lambda>i. bmp_at p i \<noteq> inverted) sz start)"
  unfolding find_next_bit_helper_def
  by (rule find_bit_loop_correct) (simp_all add: BITS_PER_LONG_def bmp_valid_def)

lemma first_from_le: "first_from P sz start \<le> sz"
  by (auto simp: first_from_def find_Some_iff split: option.splits)

interpretation bm: bitmap bmp_valid bmp_at set_bit_in clear_bit_in find_next_zero_bit
proof (unfold_locales, goal_cases)
  case (1 m n i)
  then have "i < 64 * length m" by (simp add: bmp_valid_def)
  then obtain q where "set_bit_in i m = Some q" "length q = length m"
    "\<And>j. bmp_at q j \<longleftrightarrow> j = i \<or> bmp_at m j" by (rule set_bit_in_Some) blast
  with 1 show ?case by (simp add: bmp_valid_def)
next
  case (2 m n i)
  then have "i < 64 * length m" by (simp add: bmp_valid_def)
  then obtain q where "clear_bit_in i m = Some q" "length q = length m"
    "\<And>j. bmp_at q j \<longleftrightarrow> j \<noteq> i \<and> bmp_at m j" by (rule clear_bit_in_Some) blast
  with 2 show ?case by (simp add: bmp_valid_def)
next
  case (3 m n start)
  let ?i = "first_from (\<lambda>i. bmp_at m i \<noteq> True) n start"
  have "\<forall>j. start \<le> j \<and> j < ?i \<longrightarrow> bmp_at m j"
  proof (cases "?i < n")
    case True
    then show ?thesis using first_from_Some [OF refl True] by simp
  next
    case False
    then have "?i = n" using first_from_le [of "\<lambda>i. bmp_at m i \<noteq> True" n start] by simp
    then show ?thesis using first_from_None [of n "\<lambda>i. bmp_at m i \<noteq> True" start] by simp
  qed
  with 3 show ?case
    using first_from_Some [of "\<lambda>i. bmp_at m i \<noteq> True" n start ?i] first_from_le
    by (auto simp: find_next_zero_bit_def find_next_bit_helper_first)
qed



end
