(* ===== verification/Kernel_List.thy ===== *)
theory Kernel_List
  imports Prelude
begin

text \<open>
  The intrusive lists of \<^verbatim>\<open>kernel/include/common/list.h\<close>, at the level of their
  pointers. A \<open>list_heap\<close> gives the \<open>prev\<close> and \<open>next\<close> fields of every list node;
  each operation performs the assignments of the C function in their order. \<open>dlist h l xs\<close>
  says that the circular list with head node \<open>l\<close> links exactly the nodes \<open>xs\<close>, in that
  order and in both directions. The locale \<open>intrusive_list\<close> is the contract the rest of
  the kernel relies on; it is interpreted on the pointer code, and the other theories
  may therefore treat such a list as the sequence of its elements.
\<close>

type_synonym addr = nat

record list_heap =
  prev_of :: "addr \<Rightarrow> addr"
  next_of :: "addr \<Rightarrow> addr"

definition set_next :: "addr \<Rightarrow> addr \<Rightarrow> list_heap \<Rightarrow> list_heap" where
  "set_next p q h = h\<lparr>next_of := (next_of h)(p := q)\<rparr>"

definition set_prev :: "addr \<Rightarrow> addr \<Rightarrow> list_heap \<Rightarrow> list_heap" where
  "set_prev p q h = h\<lparr>prev_of := (prev_of h)(p := q)\<rparr>"

subsection \<open>The operations\<close>

definition init_list_head :: "addr \<Rightarrow> list_heap \<Rightarrow> list_heap" where
  "init_list_head l h = set_prev l l (set_next l l h)"

definition list_add :: "addr \<Rightarrow> addr \<Rightarrow> list_heap \<Rightarrow> list_heap" where
  "list_add new head h =
     (let h1 = set_next new (next_of h head) h;
          h2 = set_prev new head h1;
          h3 = set_prev (next_of h2 head) new h2
      in set_next head new h3)"

definition list_append :: "addr \<Rightarrow> addr \<Rightarrow> list_heap \<Rightarrow> list_heap" where
  "list_append new head h = list_add new (prev_of h head) h"

definition list_del :: "addr \<Rightarrow> list_heap \<Rightarrow> list_heap" where
  "list_del node h =
     (let h1 = set_next (prev_of h node) (next_of h node) h
      in set_prev (next_of h1 node) (prev_of h1 node) h1)"

definition list_empty :: "addr \<Rightarrow> list_heap \<Rightarrow> bool" where
  "list_empty head h \<longleftrightarrow> next_of h head = head"

text \<open>
  The loops \<open>for_each_in_list\<close> and \<open>for_each_in_list_backward\<close>: the nodes visited,
  or \<open>None\<close> when the bound on the number of steps is used up before the head is met.
\<close>

fun walk_fwd :: "nat \<Rightarrow> list_heap \<Rightarrow> addr \<Rightarrow> addr \<Rightarrow> addr list option" where
  "walk_fwd 0 h head cur = None"
| "walk_fwd (Suc k) h head cur =
     (if cur = head then Some []
      else map_option (\<lambda>xs. cur # xs) (walk_fwd k h head (next_of h cur)))"

fun walk_bwd :: "nat \<Rightarrow> list_heap \<Rightarrow> addr \<Rightarrow> addr \<Rightarrow> addr list option" where
  "walk_bwd 0 h head cur = None"
| "walk_bwd (Suc k) h head cur =
     (if cur = head then Some []
      else map_option (\<lambda>xs. cur # xs) (walk_bwd k h head (prev_of h cur)))"

definition for_each_in_list :: "nat \<Rightarrow> addr \<Rightarrow> list_heap \<Rightarrow> addr list option" where
  "for_each_in_list k head h = walk_fwd k h head (next_of h head)"

definition for_each_in_list_backward :: "nat \<Rightarrow> addr \<Rightarrow> list_heap \<Rightarrow> addr list option" where
  "for_each_in_list_backward k head h = walk_bwd k h head (prev_of h head)"

subsection \<open>The sequence a list represents\<close>

fun dseg :: "list_heap \<Rightarrow> addr \<Rightarrow> addr list \<Rightarrow> addr \<Rightarrow> bool" where
  "dseg h a [] b \<longleftrightarrow> next_of h a = b \<and> prev_of h b = a"
| "dseg h a (x # xs) b \<longleftrightarrow> next_of h a = x \<and> prev_of h x = a \<and> dseg h x xs b"

definition dlist :: "list_heap \<Rightarrow> addr \<Rightarrow> addr list \<Rightarrow> bool" where
  "dlist h l xs \<longleftrightarrow> distinct (l # xs) \<and> dseg h l xs l"

lemma set_next_sel [simp]:
  "next_of (set_next p q h) = (next_of h)(p := q)" "prev_of (set_next p q h) = prev_of h"
  by (simp_all add: set_next_def)

lemma set_prev_sel [simp]:
  "prev_of (set_prev p q h) = (prev_of h)(p := q)" "next_of (set_prev p q h) = next_of h"
  by (simp_all add: set_prev_def)

lemma dseg_append [simp]:
  "dseg h a (xs @ x # ys) b \<longleftrightarrow> dseg h a xs x \<and> dseg h x ys b"
  by (induction xs arbitrary: a) auto

lemma dseg_cong:
  assumes "\<And>n. n \<in> insert a (set xs) \<Longrightarrow> next_of h' n = next_of h n"
    and "\<And>n. n \<in> insert b (set xs) \<Longrightarrow> prev_of h' n = prev_of h n"
  shows "dseg h' a xs b \<longleftrightarrow> dseg h a xs b"
  using assms by (induction xs arbitrary: a) auto

lemma dseg_next: "dseg h a xs b \<Longrightarrow> next_of h a = hd (xs @ [b])"
  by (cases xs) auto

lemma dseg_prev: "dseg h a xs b \<Longrightarrow> prev_of h b = last (a # xs)"
  by (induction xs arbitrary: a) auto

lemma dseg_head_free:
  "dseg h a xs b \<Longrightarrow> hd (xs @ [b]) \<in> insert b (set xs)"
  by (cases xs) auto

text \<open>Inserting behind the first node of a segment.\<close>

lemma dseg_list_add:
  assumes seg: "dseg h y vs b" and new: "new \<notin> insert y (insert b (set vs))"
    and dist: "distinct (y # vs)" and b: "b \<notin> set vs"
  shows "dseg (list_add new y h) y (new # vs) b"
proof (cases vs)
  case Nil
  with seg new show ?thesis by (auto simp: list_add_def Let_def)
next
  case (Cons v ws)
  have "dseg (list_add new y h) v ws b \<longleftrightarrow> dseg h v ws b"
    using assms Cons by (intro dseg_cong) (auto simp: list_add_def Let_def)
  with seg new dist Cons show ?thesis by (auto simp: list_add_def Let_def)
qed

lemma dseg_list_add_frame:
  assumes "dseg h a us y" and "dseg h y vs b"
    and "new \<notin> insert a (insert y (set us))"
    and "y \<notin> insert a (set us)" and "hd (vs @ [b]) \<notin> insert y (set us)"
  shows "dseg (list_add new y h) a us y"
proof -
  have "next_of h y = hd (vs @ [b])" using assms(2) by (rule dseg_next)
  then have "dseg (list_add new y h) a us y \<longleftrightarrow> dseg h a us y"
    using assms by (intro dseg_cong) (auto simp: list_add_def Let_def)
  with assms(1) show ?thesis by simp
qed

subsection \<open>The operations on the represented sequence\<close>

lemma dlist_init: "dlist (init_list_head l h) l []"
  by (simp add: dlist_def init_list_head_def)

lemma dlist_add:
  assumes "dlist h l xs" and "new \<notin> set (l # xs)"
  shows "dlist (list_add new l h) l (new # xs)"
  using assms dseg_list_add [of h l xs l new] by (auto simp: dlist_def)

lemma dlist_add_after:
  assumes l: "dlist h l (xs @ y # ys)" and new: "new \<notin> set (l # xs @ y # ys)"
  shows "dlist (list_add new y h) l (xs @ y # new # ys)"
proof -
  have segs: "dseg h l xs y" "dseg h y ys l" and dist: "distinct (l # xs @ y # ys)"
    using l by (auto simp: dlist_def)
  have "dseg (list_add new y h) y (new # ys) l"
    using segs dist new by (intro dseg_list_add) auto
  moreover have "hd (ys @ [l]) \<notin> insert y (set xs)"
    using dseg_head_free [OF segs(2)] dist by auto
  then have "dseg (list_add new y h) l xs y"
    using segs dist new by (intro dseg_list_add_frame) auto
  ultimately show ?thesis using dist new by (auto simp: dlist_def)
qed

lemma dlist_append:
  assumes "dlist h l xs" and "new \<notin> set (l # xs)"
  shows "dlist (list_append new l h) l (xs @ [new])"
proof (cases xs rule: rev_cases)
  case Nil
  have "prev_of h l = l" using assms(1) Nil by (simp add: dlist_def)
  with dlist_add [OF assms] Nil show ?thesis by (simp add: list_append_def)
next
  case (snoc ys y)
  have "prev_of h l = y" using assms(1) snoc by (auto simp: dlist_def)
  with dlist_add_after [of h l ys y "[]" new] assms snoc show ?thesis
    by (simp add: list_append_def)
qed

lemma dlist_del:
  assumes "dlist h l (xs @ y # ys)"
  shows "dlist (list_del y h) l (xs @ ys)"
proof -
  define p where "p = last (l # xs)"
  define n where "n = hd (ys @ [l])"
  have segs: "dseg h l xs y" "dseg h y ys l" and dist: "distinct (l # xs @ y # ys)"
    using assms by (auto simp: dlist_def)
  have pn: "prev_of h y = p" "next_of h y = n"
    using dseg_prev [OF segs(1)] dseg_next [OF segs(2)] by (auto simp: p_def n_def)
  have p_in: "p \<in> insert l (set xs)" using last_in_set [of "l # xs"] by (simp add: p_def)
  have n_in: "n \<in> insert l (set ys)" using dseg_head_free [OF segs(2)] by (simp add: n_def)
  have del: "next_of (list_del y h) = (next_of h)(p := n)"
    "prev_of (list_del y h) = (prev_of h)(n := p)"
    using pn p_in dist by (auto simp: list_del_def Let_def)
  have left: "dseg (list_del y h) l xs n" if "dseg h l xs y"
    using that dist p_def n_in del
  proof (cases xs rule: rev_cases)
    case (snoc zs z)
    have "dseg (list_del y h) l zs z \<longleftrightarrow> dseg h l zs z"
      using dist snoc p_def n_in del by (intro dseg_cong) auto
    with that snoc p_def del show ?thesis by auto
  qed auto
  show ?thesis
  proof (cases ys)
    case Nil
    with left segs dist n_def show ?thesis by (auto simp: dlist_def)
  next
    case (Cons v ws)
    have "dseg (list_del y h) v ws l \<longleftrightarrow> dseg h v ws l"
      using dist Cons p_in n_def del by (intro dseg_cong) auto
    with left segs dist Cons n_def show ?thesis by (auto simp: dlist_def)
  qed
qed

lemma dlist_empty: "dlist h l xs \<Longrightarrow> list_empty l h \<longleftrightarrow> xs = []"
  by (cases xs) (auto simp: dlist_def list_empty_def)

lemma dlist_frame:
  assumes "\<And>n. n \<in> set (l # xs) \<Longrightarrow> next_of h' n = next_of h n"
    and "\<And>n. n \<in> set (l # xs) \<Longrightarrow> prev_of h' n = prev_of h n"
  shows "dlist h' l xs \<longleftrightarrow> dlist h l xs"
  using dseg_cong [of l xs h' h l] assms by (auto simp: dlist_def)

text \<open>A change to one list leaves a list on other nodes alone.\<close>

lemma dlist_add_other:
  assumes "dlist h l xs" and "y \<in> set (l # xs)"
    and "dlist h l' ys" and "set (l # xs) \<inter> set (l' # ys) = {}" and "new \<notin> set (l' # ys)"
  shows "dlist (list_add new y h) l' ys"
proof -
  have "next_of h y \<in> set (l # xs)"
  proof (cases "y = l")
    case True
    with assms(1) show ?thesis using dseg_next [of h l xs l] dseg_head_free [of h l xs l]
      by (auto simp: dlist_def)
  next
    case False
    then obtain us vs where "xs = us @ y # vs" using assms(2) by (auto dest: split_list)
    with assms(1) show ?thesis using dseg_next [of h y vs l] dseg_head_free [of h y vs l]
      by (auto simp: dlist_def)
  qed
  with assms(2,4,5) have "dlist (list_add new y h) l' ys \<longleftrightarrow> dlist h l' ys"
    by (intro dlist_frame) (auto simp: list_add_def Let_def)
  with assms(3) show ?thesis by simp
qed

lemma dlist_append_other:
  assumes "dlist h l xs" and "dlist h l' ys" and "set (l # xs) \<inter> set (l' # ys) = {}"
    and "new \<notin> set (l' # ys)"
  shows "dlist (list_append new l h) l' ys"
proof -
  have "prev_of h l \<in> set (l # xs)"
    using assms(1) dseg_prev [of h l xs l] last_in_set [of "l # xs"] by (auto simp: dlist_def)
  from dlist_add_other [OF assms(1) this assms(2-4)] show ?thesis by (simp add: list_append_def)
qed

lemma dlist_del_other:
  assumes "dlist h l (xs @ y # ys)" and "dlist h l' zs"
    and "set (l # xs @ y # ys) \<inter> set (l' # zs) = {}"
  shows "dlist (list_del y h) l' zs"
proof -
  have segs: "dseg h l xs y" "dseg h y ys l" using assms(1) by (auto simp: dlist_def)
  have "prev_of h y \<in> set (l # xs)" using dseg_prev [OF segs(1)] last_in_set [of "l # xs"]
    by auto
  moreover have "next_of h y \<in> insert l (set ys)"
    using dseg_next [OF segs(2)] dseg_head_free [OF segs(2)] by simp
  ultimately have "dlist (list_del y h) l' zs \<longleftrightarrow> dlist h l' zs"
    using assms(3) by (intro dlist_frame) (auto simp: list_del_def Let_def)
  with assms(2) show ?thesis by simp
qed

lemma dlist_unique:
  assumes "dlist h l xs" and "dlist h l ys"
  shows "xs = ys"
proof -
  have "xs = ys" if "dseg h a xs l" "dseg h a ys l" "l \<notin> set xs" "l \<notin> set ys" for a xs ys
    using that
  proof (induction xs arbitrary: a ys)
    case Nil
    then show ?case by (cases ys) auto
  next
    case (Cons x xs)
    then show ?case by (cases ys) auto
  qed
  from this [of l xs ys] assms show ?thesis by (auto simp: dlist_def)
qed

subsection \<open>Traversals\<close>

lemma walk_fwd_dseg:
  "dseg h a xs l \<Longrightarrow> l \<notin> set xs \<Longrightarrow> length xs < k \<Longrightarrow>
     walk_fwd k h l (next_of h a) = Some xs"
proof (induction xs arbitrary: a k)
  case Nil
  then show ?case by (cases k) auto
next
  case (Cons x xs)
  then show ?case by (cases k) auto
qed

lemma walk_bwd_dseg:
  "dseg h l xs b \<Longrightarrow> l \<notin> set xs \<Longrightarrow> length xs < k \<Longrightarrow>
     walk_bwd k h l (prev_of h b) = Some (rev xs)"
proof (induction xs arbitrary: b k rule: rev_induct)
  case Nil
  then show ?case by (cases k) auto
next
  case (snoc x xs)
  then show ?case by (cases k) auto
qed

lemma for_each_in_list_dlist:
  "dlist h l xs \<Longrightarrow> length xs < k \<Longrightarrow> for_each_in_list k l h = Some xs"
  by (simp add: dlist_def for_each_in_list_def walk_fwd_dseg)

lemma for_each_in_list_backward_dlist:
  "dlist h l xs \<Longrightarrow> length xs < k \<Longrightarrow> for_each_in_list_backward k l h = Some (rev xs)"
  by (simp add: dlist_def for_each_in_list_backward_def walk_bwd_dseg)

subsection \<open>The contract of an intrusive list\<close>

text \<open>
  What a user of \<^verbatim>\<open>list.h\<close> may rely on: \<open>repr h l xs\<close> is the abstraction, and
  every operation acts on it as on a sequence, while lists on other nodes do not change.
\<close>

locale intrusive_list =
  fixes repr :: "'h \<Rightarrow> 'p \<Rightarrow> 'p list \<Rightarrow> bool"
    and init :: "'p \<Rightarrow> 'h \<Rightarrow> 'h"
    and add :: "'p \<Rightarrow> 'p \<Rightarrow> 'h \<Rightarrow> 'h"
    and append :: "'p \<Rightarrow> 'p \<Rightarrow> 'h \<Rightarrow> 'h"
    and del :: "'p \<Rightarrow> 'h \<Rightarrow> 'h"
    and empty :: "'p \<Rightarrow> 'h \<Rightarrow> bool"
  assumes repr_distinct: "repr h l xs \<Longrightarrow> distinct (l # xs)"
    and repr_init: "repr (init l h) l []"
    and repr_add: "repr h l xs \<Longrightarrow> new \<notin> set (l # xs) \<Longrightarrow> repr (add new l h) l (new # xs)"
    and repr_append: "repr h l xs \<Longrightarrow> new \<notin> set (l # xs) \<Longrightarrow> repr (append new l h) l (xs @ [new])"
    and repr_del: "repr h l (xs @ y # ys) \<Longrightarrow> repr (del y h) l (xs @ ys)"
    and repr_empty: "repr h l xs \<Longrightarrow> empty l h \<longleftrightarrow> xs = []"
    and repr_del_other: "repr h l (xs @ y # ys) \<Longrightarrow> repr h l' zs \<Longrightarrow>
      set (l # xs @ y # ys) \<inter> set (l' # zs) = {} \<Longrightarrow> repr (del y h) l' zs"
    and repr_add_other: "repr h l xs \<Longrightarrow> repr h l' zs \<Longrightarrow>
      set (l # xs) \<inter> set (l' # zs) = {} \<Longrightarrow> new \<notin> set (l' # zs) \<Longrightarrow> repr (add new l h) l' zs"
    and repr_append_other: "repr h l xs \<Longrightarrow> repr h l' zs \<Longrightarrow>
      set (l # xs) \<inter> set (l' # zs) = {} \<Longrightarrow> new \<notin> set (l' # zs) \<Longrightarrow> repr (append new l h) l' zs"
    and repr_init_other: "repr h l' zs \<Longrightarrow> l \<notin> set (l' # zs) \<Longrightarrow> repr (init l h) l' zs"
begin

lemma repr_del_mem:
  assumes "repr h l xs" and "y \<in> set xs"
  shows "repr (del y h) l (remove1 y xs)"
proof -
  obtain us vs where xs: "xs = us @ y # vs" "y \<notin> set us"
    using split_list_first [OF assms(2)] by blast
  then have "remove1 y xs = us @ vs" by (simp add: remove1_append)
  with repr_del [of h l us y vs] assms(1) xs show ?thesis by simp
qed

lemma add_del_id:
  "repr h l xs \<Longrightarrow> new \<notin> set (l # xs) \<Longrightarrow> repr (del new (add new l h)) l xs"
  using repr_del_mem [of "add new l h" l "new # xs" new] repr_add by auto

text \<open>Enqueue at the tail and dequeue at the head: the ready queues of the schedulers.\<close>

fun enq_all :: "'p \<Rightarrow> 'p list \<Rightarrow> 'h \<Rightarrow> 'h" where
  "enq_all l [] h = h"
| "enq_all l (x # xs) h = enq_all l xs (append x l h)"

fun deq_all :: "'p list \<Rightarrow> 'h \<Rightarrow> 'h" where
  "deq_all [] h = h"
| "deq_all (x # xs) h = deq_all xs (del x h)"

lemma enq_all_repr:
  "repr h l ys \<Longrightarrow> distinct xs \<Longrightarrow> set xs \<inter> set (l # ys) = {} \<Longrightarrow>
     repr (enq_all l xs h) l (ys @ xs)"
proof (induction xs arbitrary: h ys)
  case (Cons x xs)
  then have "repr (append x l h) l (ys @ [x])" by (intro repr_append) auto
  with Cons.IH [of "append x l h" "ys @ [x]"] Cons.prems show ?case by auto
qed simp

lemma deq_all_repr: "repr h l (xs @ ys) \<Longrightarrow> repr (deq_all xs h) l ys"
proof (induction xs arbitrary: h)
  case (Cons x xs)
  then show ?case using repr_del [of h l "[]" x "xs @ ys"] by simp
qed simp

lemma fifo: "distinct xs \<Longrightarrow> l \<notin> set xs \<Longrightarrow> repr h l [] \<Longrightarrow>
    repr (enq_all l xs h) l xs \<and> repr (deq_all xs (enq_all l xs h)) l []"
  using enq_all_repr [of h l "[]" xs] deq_all_repr [of "enq_all l xs h" l xs "[]"] by auto

text \<open>Moving a node between two lists, as the schedulers and the slab lists do.\<close>

lemma repr_move:
  assumes "repr h l (xs @ y # ys)" and "repr h l' zs"
    and "set (l # xs @ y # ys) \<inter> set (l' # zs) = {}"
  shows "repr (add y l' (del y h)) l (xs @ ys)" and "repr (add y l' (del y h)) l' (y # zs)"
proof -
  have d: "repr (del y h) l (xs @ ys)" "repr (del y h) l' zs"
    using repr_del [OF assms(1)] repr_del_other [OF assms] by auto
  show "repr (add y l' (del y h)) l' (y # zs)"
    using assms(3) by (intro repr_add d(2)) auto
  show "repr (add y l' (del y h)) l (xs @ ys)"
    using assms(3) repr_distinct [OF assms(1)] by (intro repr_add_other [OF d(2) d(1)]) auto
qed

text \<open>
  Several lists in one heap, on disjoint nodes: the free lists of an allocator, the ready
  queues of a scheduler. \<open>F l\<close> is the sequence of the list with head \<open>l\<close>.
\<close>

definition family :: "'h \<Rightarrow> 'p set \<Rightarrow> ('p \<Rightarrow> 'p list) \<Rightarrow> bool" where
  "family h H F \<longleftrightarrow> (\<forall>l \<in> H. repr h l (F l)) \<and>
     (\<forall>l \<in> H. \<forall>l' \<in> H. l \<noteq> l' \<longrightarrow> set (l # F l) \<inter> set (l' # F l') = {})"

lemma family_repr: "family h H F \<Longrightarrow> l \<in> H \<Longrightarrow> repr h l (F l)"
  by (simp add: family_def)

lemma family_disjoint:
  "family h H F \<Longrightarrow> l \<in> H \<Longrightarrow> l' \<in> H \<Longrightarrow> l \<noteq> l' \<Longrightarrow> set (l # F l) \<inter> set (l' # F l') = {}"
  unfolding family_def by blast

lemma family_head: "family h H F \<Longrightarrow> l \<in> H \<Longrightarrow> l' \<in> H \<Longrightarrow> l' \<notin> set (F l)"
  using family_disjoint [of h H F l l'] family_repr [of h H F l] repr_distinct [of h l "F l"]
  by (cases "l = l'") auto

lemma family_distinct: "family h H F \<Longrightarrow> l \<in> H \<Longrightarrow> distinct (F l)"
  using family_repr repr_distinct by fastforce

lemma family_empty: "family h H F \<Longrightarrow> l \<in> H \<Longrightarrow> empty l h \<longleftrightarrow> F l = []"
  by (simp add: family_repr repr_empty)

lemma family_same: "family h H F \<Longrightarrow> (\<And>l. l \<in> H \<Longrightarrow> F' l = F l) \<Longrightarrow> family h H F'"
  by (simp add: family_def)

lemma family_update:
  assumes "family h H F" "l \<in> H" "repr h' l xs"
    and "\<And>l'. l' \<in> H \<Longrightarrow> l' \<noteq> l \<Longrightarrow> repr h' l' (F l')"
    and "\<And>l'. l' \<in> H \<Longrightarrow> l' \<noteq> l \<Longrightarrow> set xs \<inter> set (l' # F l') = {}"
  shows "family h' H (F(l := xs))"
  unfolding family_def
proof (intro conjI ballI impI)
  fix l1 assume "l1 \<in> H"
  then show "repr h' l1 ((F(l := xs)) l1)" using assms(3,4) by simp
next
  fix l1 l2 assume a: "l1 \<in> H" "l2 \<in> H" "l1 \<noteq> l2"
  have "set (l1 # F l1) \<inter> set (l2 # F l2) = {}" by (rule family_disjoint [OF assms(1) a])
  then show "set (l1 # (F(l := xs)) l1) \<inter> set (l2 # (F(l := xs)) l2) = {}"
    using a assms(5) [of l1] assms(5) [of l2] by (cases "l1 = l"; cases "l2 = l") auto
qed

lemma family_add:
  assumes "family h H F" "l \<in> H" "new \<notin> H" "\<And>l'. l' \<in> H \<Longrightarrow> new \<notin> set (F l')"
  shows "family (add new l h) H (F(l := new # F l))"
proof (rule family_update [OF assms(1,2)])
  show "repr (add new l h) l (new # F l)"
    using assms by (intro repr_add family_repr) auto
next
  fix l' assume a: "l' \<in> H" "l' \<noteq> l"
  have dis: "set (l # F l) \<inter> set (l' # F l') = {}"
    by (rule family_disjoint [OF assms(1,2) a(1)]) (use a in simp)
  show "repr (add new l h) l' (F l')"
    by (rule repr_add_other [OF family_repr [OF assms(1,2)] family_repr [OF assms(1) a(1)] dis])
      (use assms(3,4) a in auto)
  show "set (new # F l) \<inter> set (l' # F l') = {}" using dis a assms(3,4) by auto
qed

lemma family_append:
  assumes "family h H F" "l \<in> H" "new \<notin> H" "\<And>l'. l' \<in> H \<Longrightarrow> new \<notin> set (F l')"
  shows "family (append new l h) H (F(l := F l @ [new]))"
proof (rule family_update [OF assms(1,2)])
  show "repr (append new l h) l (F l @ [new])"
    using assms by (intro repr_append family_repr) auto
next
  fix l' assume a: "l' \<in> H" "l' \<noteq> l"
  have dis: "set (l # F l) \<inter> set (l' # F l') = {}"
    by (rule family_disjoint [OF assms(1,2) a(1)]) (use a in simp)
  show "repr (append new l h) l' (F l')"
    by (rule repr_append_other [OF family_repr [OF assms(1,2)] family_repr [OF assms(1) a(1)] dis])
      (use assms(3,4) a in auto)
  show "set (F l @ [new]) \<inter> set (l' # F l') = {}" using dis a assms(3,4) by auto
qed

lemma family_del:
  assumes "family h H F" "l \<in> H" "y \<in> set (F l)"
  shows "family (del y h) H (F(l := remove1 y (F l)))"
proof (rule family_update [OF assms(1,2)])
  show "repr (del y h) l (remove1 y (F l))"
    by (rule repr_del_mem [OF family_repr [OF assms(1,2)] assms(3)])
next
  fix l' assume a: "l' \<in> H" "l' \<noteq> l"
  have dis: "set (l # F l) \<inter> set (l' # F l') = {}"
    by (rule family_disjoint [OF assms(1,2) a(1)]) (use a in simp)
  obtain us vs where xs: "F l = us @ y # vs" using split_list [OF assms(3)] by blast
  show "repr (del y h) l' (F l')"
    by (rule repr_del_other [OF _ family_repr [OF assms(1) a(1)]])
      (use family_repr [OF assms(1,2)] dis xs in auto)
  show "set (remove1 y (F l)) \<inter> set (l' # F l') = {}"
    using dis set_remove1_subset [of y "F l"] by auto
qed

lemma family_init:
  assumes "family h H F" "l \<notin> H" "\<And>l'. l' \<in> H \<Longrightarrow> l \<notin> set (F l')"
  shows "family (init l h) (insert l H) (F(l := []))"
  unfolding family_def
proof (intro conjI ballI impI)
  fix l1 assume l1: "l1 \<in> insert l H"
  show "repr (init l h) l1 ((F(l := [])) l1)"
  proof (cases "l1 = l")
    case False
    with l1 show ?thesis
      using repr_init_other [OF family_repr [OF assms(1), of l1]] assms(3) by auto
  qed (simp add: repr_init)
next
  fix l1 l2 assume a: "l1 \<in> insert l H" "l2 \<in> insert l H" "l1 \<noteq> l2"
  then show "set (l1 # (F(l := [])) l1) \<inter> set (l2 # (F(l := [])) l2) = {}"
    using assms(2,3) family_disjoint [OF assms(1), of l1 l2] by auto
qed

end

interpretation dl: intrusive_list dlist init_list_head list_add list_append list_del list_empty
proof (unfold_locales, goal_cases)
  case (1 h l xs)
  then show ?case by (simp add: dlist_def)
next
  case (7 h l xs y ys l' zs)
  then show ?case by (rule dlist_del_other)
next
  case (8 h l xs l' zs new)
  then show ?case by (intro dlist_add_other) auto
next
  case (9 h l xs l' zs new)
  then show ?case by (rule dlist_append_other)
next
  case (10 h l' zs l)
  then show ?case by (subst dlist_frame [of l' zs "init_list_head l h" h]) (auto simp: init_list_head_def)
qed (auto intro: dlist_init dlist_add dlist_append dlist_del simp: dlist_empty)

lemma family_next:
  assumes "dl.family h H F" "l \<in> H"
  shows "next_of h l = hd (F l @ [l])"
  using dl.family_repr [OF assms] dseg_next by (auto simp: dlist_def)

subsection \<open>Hash lists\<close>

text \<open>
  The singly linked \<open>hlist\<close>. \<open>pprev\<close> is the address of the field that points to the
  node: the \<open>next\<close> field of the head or of the preceding node. \<open>NULL\<close> is \<open>None\<close>.
\<close>

datatype hfield = HeadNext addr | NodeNext addr

record hlist_heap =
  hfirst :: "addr \<Rightarrow> addr option"
  hnext :: "addr \<Rightarrow> addr option"
  hpprev :: "addr \<Rightarrow> hfield option"

fun write_field :: "hfield \<Rightarrow> addr option \<Rightarrow> hlist_heap \<Rightarrow> hlist_heap" where
  "write_field (HeadNext p) v h = h\<lparr>hfirst := (hfirst h)(p := v)\<rparr>"
| "write_field (NodeNext p) v h = h\<lparr>hnext := (hnext h)(p := v)\<rparr>"

definition init_hlist_head :: "addr \<Rightarrow> hlist_heap \<Rightarrow> hlist_heap" where
  "init_hlist_head head h = h\<lparr>hfirst := (hfirst h)(head := None)\<rparr>"

definition init_hlist_node :: "addr \<Rightarrow> hlist_heap \<Rightarrow> hlist_heap" where
  "init_hlist_node n h = h\<lparr>hnext := (hnext h)(n := None), hpprev := (hpprev h)(n := None)\<rparr>"

definition hlist_add :: "addr \<Rightarrow> addr \<Rightarrow> hlist_heap \<Rightarrow> hlist_heap" where
  "hlist_add new head h =
     (let h1 = h\<lparr>hnext := (hnext h)(new := hfirst h head)\<rparr>;
          h2 = h1\<lparr>hpprev := (hpprev h1)(new := Some (HeadNext head))\<rparr>;
          h3 = (case hfirst h2 head of None \<Rightarrow> h2
                | Some f \<Rightarrow> h2\<lparr>hpprev := (hpprev h2)(f := Some (NodeNext new))\<rparr>)
      in h3\<lparr>hfirst := (hfirst h3)(head := Some new)\<rparr>)"

text \<open>\<open>*node->pprev\<close> with a null \<open>pprev\<close> is a crash.\<close>

definition hlist_del :: "addr \<Rightarrow> hlist_heap \<Rightarrow> hlist_heap option" where
  "hlist_del node h =
     (let h1 = (case hnext h node of None \<Rightarrow> h
                | Some f \<Rightarrow> h\<lparr>hpprev := (hpprev h)(f := hpprev h node)\<rparr>)
      in case hpprev h1 node of None \<Rightarrow> None
         | Some fld \<Rightarrow> Some (write_field fld (hnext h1 node) h1))"

definition hlist_empty :: "addr \<Rightarrow> hlist_heap \<Rightarrow> bool" where
  "hlist_empty head h \<longleftrightarrow> hfirst h head = None"

fun hseg :: "hlist_heap \<Rightarrow> addr \<Rightarrow> addr list \<Rightarrow> bool" where
  "hseg h a [] \<longleftrightarrow> hnext h a = None"
| "hseg h a (x # xs) \<longleftrightarrow> hnext h a = Some x \<and> hpprev h x = Some (NodeNext a) \<and> hseg h x xs"

fun hchain :: "hlist_heap \<Rightarrow> addr \<Rightarrow> addr list \<Rightarrow> bool" where
  "hchain h head [] \<longleftrightarrow> hfirst h head = None"
| "hchain h head (x # xs) \<longleftrightarrow> hfirst h head = Some x \<and> hpprev h x = Some (HeadNext head) \<and> hseg h x xs"

definition hlist :: "hlist_heap \<Rightarrow> addr \<Rightarrow> addr list \<Rightarrow> bool" where
  "hlist h head xs \<longleftrightarrow> distinct xs \<and> hchain h head xs"

lemma hseg_cong:
  assumes "\<And>n. n \<in> insert a (set xs) \<Longrightarrow> hnext h' n = hnext h n"
    and "\<And>n. n \<in> set xs \<Longrightarrow> hpprev h' n = hpprev h n"
  shows "hseg h' a xs \<longleftrightarrow> hseg h a xs"
  using assms by (induction xs arbitrary: a) auto

lemma hlist_add_repr:
  assumes "hlist h head xs" and "new \<notin> set xs"
  shows "hlist (hlist_add new head h) head (new # xs)"
proof (cases xs)
  case Nil
  with assms show ?thesis by (simp add: hlist_def hlist_add_def Let_def)
next
  case (Cons x ys)
  have "hseg (hlist_add new head h) x ys \<longleftrightarrow> hseg h x ys"
    using assms Cons by (intro hseg_cong) (auto simp: hlist_add_def hlist_def Let_def)
  with assms Cons show ?thesis by (auto simp: hlist_def hlist_add_def Let_def)
qed

lemma hseg_append:
  "hseg h a (xs @ x # ys) \<longleftrightarrow>
     hseg (h\<lparr>hnext := (hnext h)(last (a # xs) := None)\<rparr>) a xs
     \<and> hnext h (last (a # xs)) = Some x \<and> hpprev h x = Some (NodeNext (last (a # xs)))
     \<and> hseg h x ys" if "distinct (a # xs @ x # ys)"
  using that
proof (induction xs arbitrary: a)
  case Nil
  then show ?case by simp
next
  case (Cons b xs)
  have "last (b # xs) \<noteq> a" using Cons.prems last_in_set [of "b # xs"] by auto
  with Cons show ?case by (auto simp del: last.simps simp: last_ConsR)
qed

lemma hseg_del:
  assumes "distinct (a # xs @ y # ys)" and "hseg h a (xs @ y # ys)"
  shows "\<exists>h'. hlist_del y h = Some h' \<and> hseg h' a (xs @ ys)
     \<and> hfirst h' = hfirst h \<and> (\<forall>n. n \<notin> set ys \<longrightarrow> hpprev h' n = hpprev h n)"
  using assms
proof (induction xs arbitrary: a)
  case Nil
  show ?case
  proof (cases ys)
    case Nil2: Nil
    with Nil show ?thesis by (auto simp: hlist_del_def)
  next
    case (Cons z zs)
    let ?h' = "write_field (NodeNext a) (Some z) (h\<lparr>hpprev := (hpprev h)(z := Some (NodeNext a))\<rparr>)"
    have "hlist_del y h = Some ?h'" using Nil Cons by (auto simp: hlist_del_def)
    moreover have "hseg ?h' z zs \<longleftrightarrow> hseg h z zs"
      using Nil Cons by (intro hseg_cong) auto
    ultimately show ?thesis using Nil Cons by auto
  qed
next
  case (Cons b xs)
  from Cons.IH [of b] Cons.prems
  obtain h' where h': "hlist_del y h = Some h'" "hseg h' b (xs @ ys)"
    "hfirst h' = hfirst h" "\<forall>n. n \<notin> set ys \<longrightarrow> hpprev h' n = hpprev h n" by auto
  have seg: "hnext h a = Some b" "hpprev h b = Some (NodeNext a)" "hseg h b (xs @ y # ys)"
    using Cons.prems by auto
  have pp: "hpprev h y = Some (NodeNext (last (b # xs)))"
    using hseg_append [of b xs y ys h] seg(3) Cons.prems(1) by simp
  have "a \<noteq> last (b # xs)" using Cons.prems(1) last_in_set [of "b # xs"] by auto
  then have "hnext h' a = hnext h a"
    using h'(1) pp Cons.prems(1)
    by (auto simp: hlist_del_def Let_def split: option.splits if_splits)
  with h' seg Cons.prems(1) show ?case by auto
qed

lemma hlist_del_repr:
  assumes "hlist h head (xs @ y # ys)"
  shows "\<exists>h'. hlist_del y h = Some h' \<and> hlist h' head (xs @ ys)"
proof (cases xs)
  case Nil
  show ?thesis
  proof (cases ys)
    case Nil2: Nil
    with Nil assms show ?thesis by (auto simp: hlist_del_def hlist_def)
  next
    case (Cons z zs)
    let ?h' = "write_field (HeadNext head) (Some z) (h\<lparr>hpprev := (hpprev h)(z := Some (HeadNext head))\<rparr>)"
    have "hlist_del y h = Some ?h'" using Nil Cons assms by (auto simp: hlist_del_def hlist_def)
    moreover have "hseg ?h' z zs \<longleftrightarrow> hseg h z zs"
      using Nil Cons assms by (intro hseg_cong) (auto simp: hlist_def)
    ultimately show ?thesis using Nil Cons assms by (auto simp: hlist_def)
  qed
next
  case (Cons x us)
  then obtain h' where "hlist_del y h = Some h'" "hseg h' x (us @ ys)" "hfirst h' = hfirst h"
    "hpprev h' x = hpprev h x"
    using hseg_del [of x us y ys h] assms by (fastforce simp: hlist_def)
  with Cons assms show ?thesis by (auto simp: hlist_def)
qed

lemma hlist_empty_repr: "hlist h head xs \<Longrightarrow> hlist_empty head h \<longleftrightarrow> xs = []"
  by (cases xs) (auto simp: hlist_def hlist_empty_def)

end
