(* ===== verification/Slot_Table.thy ===== *)
theory Slot_Table
  imports Bitops Kernel_List
begin

unbundle bit_operations_syntax

text \<open>
  The slot table of a capability group: \<^verbatim>\<open>kernel/object/cap_group.c\<close>
  (\<open>slot_table_init\<close>, \<open>expand_slot_table\<close>, \<open>alloc_slot_id\<close>) and the inline helpers of
  \<^verbatim>\<open>kernel/include/object/cap_group.h\<close> (\<open>free_slot_id\<close>, \<open>get_slot\<close>,
  \<open>install_slot\<close>). A table holds an array of slot pointers, a bitmap of the used
  identifiers and a summary bitmap with one bit for each full word of the first one.
  The outcome of each \<open>kzalloc\<close> comes from a list of outcomes (see \<open>kmalloc_outcome\<close>).
\<close>

definition memcpy_arr :: "'a list \<Rightarrow> 'a list \<Rightarrow> nat \<Rightarrow> 'a list option" where
  "memcpy_arr dst src n =
     (if n \<le> length dst \<and> n \<le> length src then Some (take n src @ drop n dst) else None)"

subsection \<open>The table and its operations\<close>

definition BASE_OBJECT_NUM :: nat where
  "BASE_OBJECT_NUM = BITS_PER_LONG"

record slot_table =
  slots_size :: nat
  slots :: "nat option list"
  full_slots_bmp :: bmp
  slots_bmp :: bmp

definition slot_table_init :: "nat \<Rightarrow> kmem \<Rightarrow> (int + slot_table) \<times> kmem" where
  "slot_table_init size0 k0 =
     (let sz = DIV_ROUND_UP size0 BASE_OBJECT_NUM * BASE_OBJECT_NUM mod 2 ^ 32;
          (ok1, k1) = kmalloc_outcome k0
      in if \<not> ok1 then (Inl (- ENOMEM), k1)
         else let (ok2, k2) = kmalloc_outcome k1
              in if \<not> ok2 then (Inl (- ENOMEM), k2)
                 else let (ok3, k3) = kmalloc_outcome k2
                      in if \<not> ok3 then (Inl (- ENOMEM), k3)
                         else (Inr \<lparr>slots_size = sz, slots = replicate sz None,
                                    full_slots_bmp =
                                      replicate (BITS_TO_LONGS (BITS_TO_LONGS sz)) 0,
                                    slots_bmp = replicate (BITS_TO_LONGS sz) 0\<rparr>, k3))"

definition expand_slot_table :: "slot_table \<Rightarrow> kmem \<Rightarrow> (int \<times> slot_table \<times> kmem) option" where
  "expand_slot_table st k =
     (let old_size = slots_size st;
          new_size = (old_size + BASE_OBJECT_NUM) mod 2 ^ 32
      in case slot_table_init new_size k of
           (Inl r, k') \<Rightarrow> Some (r, st, k')
         | (Inr nt, k') \<Rightarrow>
             do { s \<leftarrow> memcpy_arr (slots nt) (slots st) old_size;
                  b \<leftarrow> memcpy_arr (slots_bmp nt) (slots_bmp st) (BITS_TO_LONGS old_size);
                  f \<leftarrow> memcpy_arr (full_slots_bmp nt) (full_slots_bmp st)
                         (BITS_TO_LONGS (BITS_TO_LONGS old_size));
                  Some (0, st\<lparr>slots_size := new_size, slots := s, slots_bmp := b,
                             full_slots_bmp := f\<rparr>, k') })"

text \<open>The search of \<open>alloc_slot_id\<close>: \<open>Some None\<close> is the jump to \<open>expand\<close>.\<close>

definition find_empty_slot :: "slot_table \<Rightarrow> nat option option" where
  "find_empty_slot st =
     (let bmp_size = slots_size st; full_bmp_size = BITS_TO_LONGS bmp_size
      in do { e \<leftarrow> find_next_zero_bit (full_slots_bmp st) full_bmp_size 0;
              if full_bmp_size \<le> e then Some None
              else do { i \<leftarrow> find_next_zero_bit (slots_bmp st) bmp_size (e * BITS_PER_LONG);
                        Some (if bmp_size \<le> i then None else Some i) } })"

definition mark_slot_id :: "nat \<Rightarrow> slot_table \<Rightarrow> slot_table option" where
  "mark_slot_id i st =
     do { b \<leftarrow> set_bit_in i (slots_bmp st);
          w \<leftarrow> load_at b (i div BITS_PER_LONG);
          f \<leftarrow> (if w = NOT 0 then set_bit_in (i div BITS_PER_LONG) (full_slots_bmp st)
               else Some (full_slots_bmp st));
          Some (st\<lparr>slots_bmp := b, full_slots_bmp := f\<rparr>) }"

partial_function (option)
  alloc_slot_id :: "slot_table \<Rightarrow> kmem \<Rightarrow> (int \<times> slot_table \<times> kmem) option" where
  "alloc_slot_id st k =
     do { e \<leftarrow> find_empty_slot st;
          case e of
            None \<Rightarrow>
              do { (r, st', k') \<leftarrow> expand_slot_table st k;
                   if r < 0 then Some (r, st', k') else alloc_slot_id st' k' }
          | Some i \<Rightarrow> do { st' \<leftarrow> mark_slot_id i st; Some (int i, st', k) } }"

declare alloc_slot_id.simps [code]

text \<open>
  A negative \<open>int\<close> identifier becomes a large unsigned bit number, and a negative index is
  an access outside the array.
\<close>

definition u32_of_int :: "int \<Rightarrow> nat" where
  "u32_of_int z = nat (z mod 2 ^ 32)"

definition u64_of_int :: "int \<Rightarrow> nat" where
  "u64_of_int z = nat (z mod 2 ^ 64)"

definition store_int :: "'a list \<Rightarrow> int \<Rightarrow> 'a \<Rightarrow> 'a list option" where
  "store_int xs i v = (if i < 0 then None else store_at xs (nat i) v)"

definition free_slot_id :: "int \<Rightarrow> slot_table \<Rightarrow> slot_table option" where
  "free_slot_id slot_id st =
     do { b \<leftarrow> clear_bit_in (u32_of_int slot_id) (slots_bmp st);
          f \<leftarrow> clear_bit_in (u64_of_int slot_id div BITS_PER_LONG mod 2 ^ 32) (full_slots_bmp st);
          s \<leftarrow> store_int (slots st) slot_id None;
          Some (st\<lparr>slots_bmp := b, full_slots_bmp := f, slots := s\<rparr>) }"

definition get_slot :: "slot_table \<Rightarrow> int \<Rightarrow> nat option option" where
  "get_slot st slot_id =
     (if slot_id < 0 \<or> int (slots_size st) \<le> slot_id then Some None
      else load_at (slots st) (nat slot_id))"

definition install_slot :: "int \<Rightarrow> nat \<Rightarrow> slot_table \<Rightarrow> slot_table option" where
  "install_slot slot_id slot st =
     do { b \<leftarrow> get_bit_in (u32_of_int slot_id) (slots_bmp st);
          bug_on (\<not> b);
          s \<leftarrow> store_int (slots st) slot_id (Some slot);
          Some (st\<lparr>slots := s\<rparr>) }"

definition is_valid_slot_id :: "slot_table \<Rightarrow> int \<Rightarrow> bool option" where
  "is_valid_slot_id st slot_id =
     (if slot_id < 0 \<or> int (slots_size st) \<le> slot_id then Some False
      else do { b \<leftarrow> get_bit_in (nat slot_id) (slots_bmp st);
                if \<not> b then Some False
                else do { p \<leftarrow> load_at (slots st) (nat slot_id);
                          bug_on (p = None);
                          Some True } })"

subsection \<open>Well-formed tables\<close>

text \<open>
  The bitmaps have the lengths the size asks for, a summary bit that is set stands for a full
  word, and the summary bits beyond the last word are clear.
\<close>

definition table_wf :: "slot_table \<Rightarrow> bool" where
  "table_wf st \<longleftrightarrow>
     (\<exists>n > 0. slots_size st = 64 * n \<and> length (slots st) = 64 * n \<and>
        length (slots_bmp st) = n \<and> length (full_slots_bmp st) = BITS_TO_LONGS n \<and>
        64 * n < 2 ^ 32 \<and>
        (\<forall>i. bmp_at (full_slots_bmp st) i \<and> i < 64 * length (full_slots_bmp st) \<longrightarrow>
             i < n \<and> slots_bmp st ! i = NOT 0))"

definition used_ids :: "slot_table \<Rightarrow> nat set" where
  "used_ids st = {i. i < slots_size st \<and> bmp_at (slots_bmp st) i}"

text \<open>Between operations an identifier is in use exactly when its slot pointer is set.\<close>

definition slots_consistent :: "slot_table \<Rightarrow> bool" where
  "slots_consistent st \<longleftrightarrow>
     (\<forall>i < slots_size st. bmp_at (slots_bmp st) i \<longleftrightarrow> slots st ! i \<noteq> None)"

lemma u_of_int_small [simp]:
  "i < 2 ^ 32 \<Longrightarrow> u32_of_int (int i) = i" "i < 2 ^ 32 \<Longrightarrow> u64_of_int (int i) = i"
  by (simp_all add: u32_of_int_def u64_of_int_def)

lemma store_int_int [simp]: "store_int xs (int i) v = store_at xs i v"
  by (simp add: store_int_def)

lemma BITS_TO_LONGS_mult [simp]: "BITS_TO_LONGS (64 * n) = n"
  by (simp add: BITS_TO_LONGS_def DIV_ROUND_UP_def BITS_PER_LONG_def)

lemma BITS_TO_LONGS_ge: "n \<le> 64 * BITS_TO_LONGS n"
proof -
  have "n + 63 = 64 * ((n + 63) div 64) + (n + 63) mod 64" by simp
  moreover have "(n + 63) mod 64 \<le> 63" using mod_less_divisor [of 64 "n + 63"] by linarith
  ultimately show ?thesis
    unfolding BITS_TO_LONGS_def DIV_ROUND_UP_def BITS_PER_LONG_def by simp
qed

lemma BITS_TO_LONGS_mono: "m \<le> n \<Longrightarrow> BITS_TO_LONGS m \<le> BITS_TO_LONGS n"
  by (simp add: BITS_TO_LONGS_def DIV_ROUND_UP_def BITS_PER_LONG_def div_le_mono)

lemma full_word_used:
  assumes "bmp ! e = (NOT 0 :: u64)" "e * 64 \<le> i" "i < e * 64 + 64"
  shows "bmp_at bmp i"
proof -
  have "i div 64 = e" using assms(2,3) by (simp add: div_nat_eqI)
  then show ?thesis using assms(1) all_ones_iff [of "bmp ! e"] by (simp add: bmp_at_def)
qed

lemma words_full_below:
  assumes "\<And>j. j < e \<Longrightarrow> bmp ! j = (NOT 0 :: u64)" "i < e * 64"
  shows "bmp_at bmp i"
proof (rule full_word_used [of bmp "i div 64"])
  show "bmp ! (i div 64) = NOT 0" using assms by (intro assms(1)) simp
qed (simp_all add: dividend_less_div_times)

lemma find_empty_slot_wf:
  assumes wf: "table_wf st"
  shows "(\<exists>i. find_empty_slot st = Some (Some i) \<and> i < slots_size st \<and> i \<notin> used_ids st \<and>
              {0..<i} \<subseteq> used_ids st) \<or>
         (find_empty_slot st = Some None \<and> used_ids st = {0..<slots_size st})"
proof -
  from wf obtain n where n: "0 < n" "slots_size st = 64 * n" "length (slots_bmp st) = n"
    "length (full_slots_bmp st) = BITS_TO_LONGS n" "64 * n < 2 ^ 32"
    and full: "\<And>i. bmp_at (full_slots_bmp st) i \<Longrightarrow> i < 64 * length (full_slots_bmp st) \<Longrightarrow>
      slots_bmp st ! i = NOT 0" unfolding table_wf_def by blast
  have vf: "bmp_valid (full_slots_bmp st) n" and vb: "bmp_valid (slots_bmp st) (64 * n)"
    using n BITS_TO_LONGS_ge [of n] by (simp_all add: bmp_valid_def)
  from bm.next_law [OF vf n(1), of 0] obtain e where e: "e \<le> n"
    "find_next_zero_bit (full_slots_bmp st) n 0 = Some e"
    "\<And>j. j < e \<Longrightarrow> bmp_at (full_slots_bmp st) j" by auto
  have words: "slots_bmp st ! j = NOT 0" if "j < e" for j
    using that e(1) n(4) BITS_TO_LONGS_ge [of n] by (intro full e(3)) auto
  have below: "bmp_at (slots_bmp st) j" if "j < e * 64" for j
    using words_full_below [OF words that] .
  from n(1) have "0 < 64 * n" by simp
  from bm.next_law [OF vb this, of "e * 64"] obtain i where i: "i \<le> 64 * n"
    "find_next_zero_bit (slots_bmp st) (64 * n) (e * 64) = Some i"
    "i < 64 * n \<Longrightarrow> \<not> bmp_at (slots_bmp st) i"
    "\<And>j. e * 64 \<le> j \<Longrightarrow> j < i \<Longrightarrow> bmp_at (slots_bmp st) j" by auto
  have upto: "bmp_at (slots_bmp st) j" if "j < i" for j
    using below [of j] i(4) [of j] that by (meson linorder_not_le)
  show ?thesis
  proof (cases "e = n \<or> i = 64 * n")
    case True
    have "bmp_at (slots_bmp st) j" if "j < 64 * n" for j
      using True below [of j] upto [of j] that by (auto simp: mult.commute)
    then have "used_ids st = {0..<slots_size st}" using n(2) by (auto simp: used_ids_def)
    moreover have "find_empty_slot st = Some None"
      using True n(2) e(1,2) i(1,2) by (auto simp: find_empty_slot_def Let_def BITS_PER_LONG_def)
    ultimately show ?thesis by simp
  next
    case False
    then have "i < 64 * n" "e < n" using e(1) i(1) by auto
    then have "find_empty_slot st = Some (Some i)"
      using n(2) e(2) i(2) by (simp add: find_empty_slot_def Let_def BITS_PER_LONG_def)
    with \<open>i < 64 * n\<close> n(2) i(3) upto show ?thesis by (auto simp: used_ids_def)
  qed
qed

lemma mark_slot_id_wf:
  assumes wf: "table_wf st" and i: "i < slots_size st"
  obtains st' where "mark_slot_id i st = Some st'" "table_wf st'"
    "slots_size st' = slots_size st" "slots st' = slots st"
    "used_ids st' = insert i (used_ids st)"
proof -
  from wf obtain n where n: "0 < n" "slots_size st = 64 * n" "length (slots st) = 64 * n"
    "length (slots_bmp st) = n"
    "length (full_slots_bmp st) = BITS_TO_LONGS n" "64 * n < 2 ^ 32"
    and full: "\<And>i. bmp_at (full_slots_bmp st) i \<Longrightarrow> i < 64 * length (full_slots_bmp st) \<Longrightarrow>
      i < n \<and> slots_bmp st ! i = NOT 0" unfolding table_wf_def by blast
  have w: "i div 64 < n" using i n(2) by simp
  from i n have "i < 64 * length (slots_bmp st)" by simp
  then obtain b where b: "set_bit_in i (slots_bmp st) = Some b" "length b = n"
    "\<And>j. bmp_at b j \<longleftrightarrow> j = i \<or> bmp_at (slots_bmp st) j" using n by (metis set_bit_in_Some)
  have ones: "b ! j = NOT 0" if "slots_bmp st ! j = NOT 0" for j
  proof -
    have "bit (b ! j) k" if "k < 64" for k
      using b(3) [of "64 * j + k"] \<open>slots_bmp st ! j = NOT 0\<close> that by (simp add: bmp_at_def)
    then show ?thesis unfolding all_ones_iff by simp
  qed
  have used: "used_ids (st\<lparr>slots_bmp := b, full_slots_bmp := f\<rparr>) = insert i (used_ids st)" for f
    using i b(3) by (auto simp: used_ids_def)
  show ?thesis
  proof (cases "b ! (i div 64) = NOT 0")
    case True
    have "i div 64 < 64 * length (full_slots_bmp st)"
      using w n(5) BITS_TO_LONGS_ge [of n] by simp
    then obtain f where f: "set_bit_in (i div 64) (full_slots_bmp st) = Some f"
      "length f = BITS_TO_LONGS n"
      "\<And>j. bmp_at f j \<longleftrightarrow> j = i div 64 \<or> bmp_at (full_slots_bmp st) j"
      using n by (metis set_bit_in_Some)
    have "table_wf (st\<lparr>slots_bmp := b, full_slots_bmp := f\<rparr>)"
      unfolding table_wf_def using n b(2) f(2,3) full ones True w by (intro exI [of _ n]) auto
    with True b f w used show ?thesis
      by (intro that [of "st\<lparr>slots_bmp := b, full_slots_bmp := f\<rparr>"])
        (simp_all add: mark_slot_id_def BITS_PER_LONG_def)
  next
    case False
    have "table_wf (st\<lparr>slots_bmp := b\<rparr>)"
      unfolding table_wf_def using n b(2) full ones by (intro exI [of _ n]) auto
    with False b w used [of "full_slots_bmp st"] show ?thesis
      by (intro that [of "st\<lparr>slots_bmp := b\<rparr>"]) (simp_all add: mark_slot_id_def BITS_PER_LONG_def)
  qed
qed

lemma slot_table_init_cases:
  assumes "64 * m < 2 ^ 32"
  obtains k' where "slot_table_init (64 * m) k = (Inl (- ENOMEM), k')" "False \<in> set k"
  | k' where "set k' \<subseteq> set k" "slot_table_init (64 * m) k =
      (Inr \<lparr>slots_size = 64 * m, slots = replicate (64 * m) None,
            full_slots_bmp = replicate (BITS_TO_LONGS m) 0, slots_bmp = replicate m 0\<rparr>, k')"
proof -
  have "DIV_ROUND_UP (64 * m) BASE_OBJECT_NUM * BASE_OBJECT_NUM mod 2 ^ 32 = 64 * m"
    using assms by (simp add: DIV_ROUND_UP_def BASE_OBJECT_NUM_def BITS_PER_LONG_def mult.commute)
  moreover obtain ok1 k1 ok2 k2 ok3 k3 where o: "kmalloc_outcome k = (ok1, k1)"
    "kmalloc_outcome k1 = (ok2, k2)" "kmalloc_outcome k2 = (ok3, k3)" by (metis surj_pair)
  moreover have "set k1 \<subseteq> set k" "set k2 \<subseteq> set k" "set k3 \<subseteq> set k"
    "ok1 \<or> False \<in> set k" "ok2 \<or> False \<in> set k" "ok3 \<or> False \<in> set k"
    using kmalloc_outcome_set o by blast+
  ultimately show ?thesis
    by (cases ok1; cases ok2; cases ok3) (rule that, simp_all add: slot_table_init_def Let_def)+
qed

lemma table_wf_init: "0 < m \<Longrightarrow> 64 * m < 2 ^ 32 \<Longrightarrow>
  table_wf \<lparr>slots_size = 64 * m, slots = replicate (64 * m) None,
    full_slots_bmp = replicate (BITS_TO_LONGS m) 0, slots_bmp = replicate m 0\<rparr>"
  unfolding table_wf_def
  by (intro exI [of _ m]) (auto simp: bmp_at_def less_mult_imp_div_less mult.commute)

lemma bmp_at_take_zeros:
  "length b \<le> n \<Longrightarrow> i < 64 * n \<Longrightarrow>
     bmp_at (b @ replicate (n - length b) 0) i \<longleftrightarrow> i < 64 * length b \<and> bmp_at b i"
  by (auto simp: bmp_at_def nth_append less_mult_imp_div_less mult.commute)

lemma expand_slot_table_wf:
  assumes wf: "table_wf st" and room: "slots_size st + 64 < 2 ^ 32"
  obtains (oom) k' where "expand_slot_table st k = Some (- ENOMEM, st, k')" "False \<in> set k"
  | (grown) st' k' where "expand_slot_table st k = Some (0, st', k')" "table_wf st'"
    "slots_size st' = slots_size st + 64" "slots st' = slots st @ replicate 64 None"
    "used_ids st' = used_ids st" "set k' \<subseteq> set k"
proof -
  from wf obtain n where n: "0 < n" "slots_size st = 64 * n" "length (slots st) = 64 * n"
    "length (slots_bmp st) = n"
    "length (full_slots_bmp st) = BITS_TO_LONGS n" "64 * n < 2 ^ 32"
    and full: "\<And>i. bmp_at (full_slots_bmp st) i \<Longrightarrow> i < 64 * length (full_slots_bmp st) \<Longrightarrow>
      i < n \<and> slots_bmp st ! i = NOT 0" unfolding table_wf_def by blast
  have sz: "(slots_size st + BASE_OBJECT_NUM) mod 2 ^ 32 = 64 * (n + 1)"
    using room n(2) by (simp add: BASE_OBJECT_NUM_def BITS_PER_LONG_def)
  let ?f = "full_slots_bmp st @ replicate (BITS_TO_LONGS (n + 1) - BITS_TO_LONGS n) 0"
  let ?b = "slots_bmp st @ replicate 1 0"
  let ?st = "st\<lparr>slots_size := 64 * (n + 1), slots := slots st @ replicate 64 None,
      slots_bmp := ?b, full_slots_bmp := ?f\<rparr>"
  have mono: "BITS_TO_LONGS n \<le> BITS_TO_LONGS (n + 1)" by (rule BITS_TO_LONGS_mono) simp
  have bound: "64 * (n + 1) < 2 ^ 32" using room n(2) by simp
  show ?thesis
  proof (cases rule: slot_table_init_cases [OF bound, of k])
    case (1 k')
    then show ?thesis
      by (intro oom [of k']) (simp_all only: expand_slot_table_def Let_def sz prod.case sum.case)
  next
    case (2 k')
    have "expand_slot_table st k = Some (0, ?st, k')"
      by (simp only: expand_slot_table_def Let_def sz 2(2) prod.case sum.case)
        (use n mono in \<open>simp add: memcpy_arr_def replicate_append_same [symmetric]\<close>)
    moreover have at: "bmp_at ?f i \<longleftrightarrow> i < 64 * BITS_TO_LONGS n \<and> bmp_at (full_slots_bmp st) i"
      if "i < 64 * BITS_TO_LONGS (n + 1)" for i
      using bmp_at_take_zeros [of "full_slots_bmp st" "BITS_TO_LONGS (n + 1)" i] that n(5) mono
      by simp
    have "table_wf ?st"
      unfolding table_wf_def
    proof (intro exI [of _ "n + 1"] conjI allI impI)
      fix i assume "bmp_at (full_slots_bmp ?st) i \<and> i < 64 * length (full_slots_bmp ?st)"
      moreover have "length (full_slots_bmp ?st) = BITS_TO_LONGS (n + 1)" using n(5) mono by simp
      ultimately have "i < 64 * BITS_TO_LONGS n" "bmp_at (full_slots_bmp st) i"
        using at [of i] by simp_all
      with full [of i] n(5) have "i < n" "slots_bmp st ! i = NOT 0" by simp_all
      then show "i < n + 1" "slots_bmp ?st ! i = NOT 0" using n(4) by (simp_all add: nth_append)
    qed (use n mono bound in simp_all)
    moreover have "used_ids ?st = used_ids st"
      using bmp_at_take_zeros [of "slots_bmp st" "n + 1"] n by (auto simp: used_ids_def)
    ultimately show ?thesis using n(2) 2(1) by (intro grown [of ?st k']) simp_all
  qed
qed

lemma alloc_slot_id_step_free:
  assumes "find_empty_slot st = Some (Some i)" "mark_slot_id i st = Some st'"
  shows "alloc_slot_id st k = Some (int i, st', k)"
  using assms by (simp add: alloc_slot_id.simps [of st])

text \<open>At most one expansion is needed: the loop returns on every well-formed table.\<close>

lemma alloc_slot_id_wf:
  assumes wf: "table_wf st" and room: "slots_size st + 64 < 2 ^ 32"
  obtains (oom) k' where "alloc_slot_id st k = Some (- ENOMEM, st, k')"
    "used_ids st = {0..<slots_size st}" "False \<in> set k"
  | (ok) i st' k' where "alloc_slot_id st k = Some (int i, st', k')" "table_wf st'"
    "i < slots_size st'" "i \<notin> used_ids st" "{0..<i} \<subseteq> used_ids st"
    "used_ids st' = insert i (used_ids st)"
    "slots_size st' = slots_size st \<and> slots st' = slots st \<or>
     slots_size st' = slots_size st + 64 \<and> slots st' = slots st @ replicate 64 None"
    "set k' \<subseteq> set k"
proof (cases "\<exists>i. find_empty_slot st = Some (Some i)")
  case True
  with find_empty_slot_wf [OF wf] obtain i where i: "find_empty_slot st = Some (Some i)"
    "i < slots_size st" "i \<notin> used_ids st" "{0..<i} \<subseteq> used_ids st" by auto
  from mark_slot_id_wf [OF wf i(2)] obtain st' where st': "mark_slot_id i st = Some st'"
    "table_wf st'" "slots_size st' = slots_size st" "slots st' = slots st"
    "used_ids st' = insert i (used_ids st)" by metis
  with i alloc_slot_id_step_free [OF i(1) st'(1), of k] show ?thesis by (intro ok [of i st' k]) simp_all
next
  case False
  with find_empty_slot_wf [OF wf] have e: "find_empty_slot st = Some None"
    "used_ids st = {0..<slots_size st}" by auto
  show ?thesis
  proof (cases rule: expand_slot_table_wf [OF wf room, of k])
    case (1 k')
    with e show ?thesis
      by (intro oom [of k']) (simp_all add: alloc_slot_id.simps [of st] ENOMEM_def)
  next
    case (2 st1 k1)
    then have "slots_size st \<notin> used_ids st1" "slots_size st < slots_size st1" using e(2) by auto
    with find_empty_slot_wf [OF 2(2)] obtain i where i: "find_empty_slot st1 = Some (Some i)"
      "i < slots_size st1" "i \<notin> used_ids st1" "{0..<i} \<subseteq> used_ids st1" by auto
    from mark_slot_id_wf [OF 2(2) i(2)] obtain st' where st': "mark_slot_id i st1 = Some st'"
      "table_wf st'" "slots_size st' = slots_size st1" "slots st' = slots st1"
      "used_ids st' = insert i (used_ids st1)" by metis
    have "alloc_slot_id st k = alloc_slot_id st1 k1"
      using e(1) 2(1) by (simp add: alloc_slot_id.simps [of st])
    with alloc_slot_id_step_free [OF i(1) st'(1), of k1] i st' 2(3-6) show ?thesis
      by (intro ok [of i st' k1]) simp_all
  qed
qed

lemma free_slot_id_wf:
  assumes wf: "table_wf st" and i: "i < slots_size st"
  obtains st' where "free_slot_id (int i) st = Some st'" "table_wf st'"
    "slots_size st' = slots_size st" "slots st' = (slots st)[i := None]"
    "used_ids st' = used_ids st - {i}"
proof -
  from wf obtain n where n: "0 < n" "slots_size st = 64 * n" "length (slots st) = 64 * n"
    "length (slots_bmp st) = n"
    "length (full_slots_bmp st) = BITS_TO_LONGS n" "64 * n < 2 ^ 32"
    and full: "\<And>i. bmp_at (full_slots_bmp st) i \<Longrightarrow> i < 64 * length (full_slots_bmp st) \<Longrightarrow>
      i < n \<and> slots_bmp st ! i = NOT 0" unfolding table_wf_def by blast
  have w: "i div 64 < n" "i < 64 * length (slots_bmp st)" "i < 2 ^ 32" "i div 64 mod 2 ^ 32 = i div 64"
    using i n(2,4,6) by simp_all
  then obtain b where b: "clear_bit_in i (slots_bmp st) = Some b" "length b = n"
    "\<And>j. bmp_at b j \<longleftrightarrow> j \<noteq> i \<and> bmp_at (slots_bmp st) j" using n(4) by (metis clear_bit_in_Some)
  have "i div 64 < 64 * length (full_slots_bmp st)"
    using w(1) n(5) BITS_TO_LONGS_ge [of n] by simp
  then obtain f where f: "clear_bit_in (i div 64) (full_slots_bmp st) = Some f"
    "length f = BITS_TO_LONGS n"
    "\<And>j. bmp_at f j \<longleftrightarrow> j \<noteq> i div 64 \<and> bmp_at (full_slots_bmp st) j"
    using n(5) by (metis clear_bit_in_Some)
  have ones: "b ! j = NOT 0" if "slots_bmp st ! j = NOT 0" "j \<noteq> i div 64" for j
  proof -
    have "bit (b ! j) k" if "k < 64" for k
      using b(3) [of "64 * j + k"] \<open>slots_bmp st ! j = NOT 0\<close> \<open>j \<noteq> i div 64\<close> that
      by (auto simp: bmp_at_def)
    then show ?thesis unfolding all_ones_iff by simp
  qed
  let ?st = "st\<lparr>slots_bmp := b, full_slots_bmp := f, slots := (slots st)[i := None]\<rparr>"
  have "free_slot_id (int i) st = Some ?st"
    using b(1) f(1) n(3) i n(2) w(4) u_of_int_small [OF w(3)]
    by (simp add: free_slot_id_def BITS_PER_LONG_def)
  moreover have "table_wf ?st"
    unfolding table_wf_def using n b(2) f(2,3) full ones by (intro exI [of _ n]) auto
  moreover have "used_ids ?st = used_ids st - {i}" using b(3) by (auto simp: used_ids_def)
  ultimately show ?thesis by (intro that [of ?st]) simp_all
qed

lemma install_slot_wf:
  assumes wf: "table_wf st" and i: "i \<in> used_ids st"
  shows "install_slot (int i) a st = Some (st\<lparr>slots := (slots st)[i := Some a]\<rparr>)"
    and "table_wf (st\<lparr>slots := (slots st)[i := Some a]\<rparr>)"
    and "used_ids (st\<lparr>slots := (slots st)[i := Some a]\<rparr>) = used_ids st"
proof -
  from wf i have "i < length (slots st)" "i < 64 * length (slots_bmp st)" "bmp_at (slots_bmp st) i"
    "i < 2 ^ 32" by (auto simp: table_wf_def used_ids_def)
  then show "install_slot (int i) a st = Some (st\<lparr>slots := (slots st)[i := Some a]\<rparr>)"
    using u_of_int_small [of i] by (simp add: install_slot_def get_bit_in_Some)
  show "table_wf (st\<lparr>slots := (slots st)[i := Some a]\<rparr>)"
    using wf unfolding table_wf_def by simp
  show "used_ids (st\<lparr>slots := (slots st)[i := Some a]\<rparr>) = used_ids st"
    by (simp add: used_ids_def)
qed

lemma get_slot_wf:
  assumes "table_wf st"
  shows "get_slot st i =
     Some (if 0 \<le> i \<and> i < int (slots_size st) then slots st ! nat i else None)"
  using assms by (auto simp: get_slot_def table_wf_def)

lemma is_valid_slot_id_wf:
  assumes "table_wf st" "slots_consistent st"
  shows "is_valid_slot_id st i = Some (0 \<le> i \<and> nat i \<in> used_ids st)"
proof (cases "0 \<le> i \<and> i < int (slots_size st)")
  case True
  with assms have "nat i < 64 * length (slots_bmp st)" "nat i < length (slots st)"
    by (auto simp: table_wf_def)
  with True assms(2) show ?thesis
    by (auto simp: is_valid_slot_id_def get_bit_in_Some used_ids_def slots_consistent_def nat_less_iff)
qed (auto simp: is_valid_slot_id_def used_ids_def)

lemma consistent_used:
  "slots_consistent st \<longleftrightarrow> (\<forall>i < slots_size st. i \<in> used_ids st \<longleftrightarrow> slots st ! i \<noteq> None)"
  by (auto simp: slots_consistent_def used_ids_def)

text \<open>The identifiers as a finite map to the slot pointers.\<close>

definition table_at :: "slot_table \<Rightarrow> nat \<Rightarrow> nat option" where
  "table_at st i = (if i < slots_size st then slots st ! i else None)"

lemma used_ids_lt: "i \<in> used_ids st \<Longrightarrow> i < slots_size st"
  by (simp add: used_ids_def)

lemma table_wf_length: "table_wf st \<Longrightarrow> length (slots st) = slots_size st"
  by (auto simp: table_wf_def)

lemma consistent_table_at:
  "slots_consistent st \<longleftrightarrow> (\<forall>i. i \<in> used_ids st \<longleftrightarrow> table_at st i \<noteq> None)"
  by (auto simp: consistent_used table_at_def used_ids_lt)

lemma table_at_grow:
  assumes "table_wf st"
    and "slots_size st' = slots_size st \<and> slots st' = slots st \<or>
      slots_size st' = slots_size st + 64 \<and> slots st' = slots st @ replicate 64 None"
  shows "table_at st' = table_at st"
  using assms(2) table_wf_length [OF assms(1)] by (auto simp: fun_eq_iff table_at_def nth_append)

lemma table_at_update:
  assumes "table_wf st" "i < slots_size st" "slots_size st' = slots_size st"
    "slots st' = (slots st)[i := v]"
  shows "table_at st' = (table_at st)(i := v)"
  using assms(2-4) table_wf_length [OF assms(1)] by (auto simp: fun_eq_iff table_at_def)

subsection \<open>Properties\<close>


definition full_table :: slot_table where
  "full_table = \<lparr>slots_size = 64, slots = replicate 64 (Some 1), full_slots_bmp = [1],
     slots_bmp = [NOT 0]\<rparr>"

lemma full_table_wf: "table_wf full_table"
proof -
  have "i = 0" if "bmp_at [1] i" "i < 64" for i using that by (simp add: bmp_at_def bit_1_iff)
  then have "i = 0 \<and> [- 1 :: u64] ! i = - 1" if "bmp_at [1] i" "i < 64" for i
    using that by force
  then show ?thesis unfolding table_wf_def full_table_def
    by (intro exI [of _ 1]) (auto simp: BITS_TO_LONGS_def DIV_ROUND_UP_def BITS_PER_LONG_def)
qed


end
