(* ===== verification/Capability.thy ===== *)
theory Capability
  imports Slot_Table Kernel_List
begin

text \<open>
  Kernel objects and capabilities: \<^verbatim>\<open>kernel/object/capability.c\<close> and the object part of
  \<^verbatim>\<open>kernel/object/cap_group.c\<close>. A capability is a slot of a group's table that points to
  an object; the slots of one object are linked in its copies list, and the object counts its
  slots and the references handed out by \<open>obj_get\<close>. Memory that was freed is absent from
  the state, so a use after free is a crash of the model. The structures \<open>struct object\<close>
  and its \<open>opaque\<close> payload have one address; the list nodes embedded in slots and objects have
  addresses of their own in the list heap of \<open>Kernel_List\<close>.
\<close>

subsection \<open>State\<close>

datatype object_type =
    TYPE_CAP_GROUP | TYPE_THREAD | TYPE_CONNECTION | TYPE_NOTIFICATION | TYPE_IRQ | TYPE_PMO
  | TYPE_VMSPACE

datatype dsm_status =
    DSM_STATUS_INVALID | DSM_STATUS_INUSE | DSM_STATUS_MIGRATING | DSM_STATUS_MIGRATED


record kobject =
  obj_type :: object_type
  obj_size :: nat
  refcount :: u64
  obj_mem_type :: mem_t
  obj_status :: dsm_status
  pair_obj :: "addr option"

text \<open>A right that was never written is \<open>None\<close>.\<close>

record object_slot =
  slot_no :: nat
  slot_group :: addr
  isvalid :: bool
  slot_rights :: "u64 option"
  slot_object :: addr

record cap_group =
  slot_table :: slot_table
  thread_cnt :: int
  badge :: u64
  is_cross_machine :: bool
  notify_recycler :: int
  cap_group_name :: string

record cstate =
  cs_objects :: "addr \<Rightarrow> kobject option"
  cs_slots :: "addr \<Rightarrow> object_slot option"
  cs_groups :: "addr \<Rightarrow> cap_group option"
  cs_lists :: list_heap
  cs_kmem :: kmem
  cs_brk :: addr

definition slot_node :: "addr \<Rightarrow> addr" where
  "slot_node a = 2 * a"

definition obj_node :: "addr \<Rightarrow> addr" where
  "obj_node a = 2 * a + 1"

definition kmalloc_addr :: "cstate \<Rightarrow> addr option \<times> cstate" where
  "kmalloc_addr s =
     (let (ok, k) = kmalloc_outcome (cs_kmem s)
      in if ok then (Some (cs_brk s), s\<lparr>cs_kmem := k, cs_brk := cs_brk s + 1\<rparr>)
         else (None, s\<lparr>cs_kmem := k\<rparr>))"

definition group_table :: "cstate \<Rightarrow> addr \<Rightarrow> slot_table option" where
  "group_table s g = map_option slot_table (cs_groups s g)"

definition set_table :: "addr \<Rightarrow> slot_table \<Rightarrow> cstate \<Rightarrow> cstate" where
  "set_table g st s =
     s\<lparr>cs_groups := (cs_groups s)(g := map_option (\<lambda>G. G\<lparr>slot_table := st\<rparr>) (cs_groups s g))\<rparr>"

definition set_object :: "addr \<Rightarrow> kobject option \<Rightarrow> cstate \<Rightarrow> cstate" where
  "set_object p ob s = s\<lparr>cs_objects := (cs_objects s)(p := ob)\<rparr>"

definition set_slot :: "addr \<Rightarrow> object_slot option \<Rightarrow> cstate \<Rightarrow> cstate" where
  "set_slot a sl s = s\<lparr>cs_slots := (cs_slots s)(a := sl)\<rparr>"

definition set_lists :: "(list_heap \<Rightarrow> list_heap) \<Rightarrow> cstate \<Rightarrow> cstate" where
  "set_lists f s = s\<lparr>cs_lists := f (cs_lists s)\<rparr>"

subsection \<open>Objects\<close>

text \<open>Freeing an object frees its payload, so the group stored there is gone with it.\<close>

definition object_alloc ::
    "object_type \<Rightarrow> nat \<Rightarrow> mem_t \<Rightarrow> cstate \<Rightarrow> addr option \<times> cstate" where
  "object_alloc ty sz flags s =
     (case kmalloc_addr s of
        (None, s1) \<Rightarrow> (None, s1)
      | (Some p, s1) \<Rightarrow>
          (Some p, set_lists (init_list_head (obj_node p))
             (set_object p (Some \<lparr>obj_type = ty, obj_size = sz, refcount = 0,
                obj_mem_type = flags, obj_status = DSM_STATUS_INVALID, pair_obj = None\<rparr>) s1)))"

definition object_free :: "addr \<Rightarrow> cstate \<Rightarrow> cstate option" where
  "object_free p s =
     do { ob \<leftarrow> cs_objects s p;
          bug_on (refcount ob \<noteq> 0);
          Some (set_object p None (s\<lparr>cs_groups := (cs_groups s)(p := None)\<rparr>)) }"

definition obj_free :: "addr option \<Rightarrow> cstate \<Rightarrow> cstate option" where
  "obj_free obj s = (case obj of None \<Rightarrow> Some s | Some p \<Rightarrow> object_free p s)"

definition dsm_get_inuse_object :: "addr \<Rightarrow> bool \<Rightarrow> cstate \<Rightarrow> addr option option" where
  "dsm_get_inuse_object p waiting s =
     do { ob \<leftarrow> cs_objects s p;
          case obj_status ob of
            DSM_STATUS_INVALID \<Rightarrow>
              (case pair_obj ob of
                 None \<Rightarrow> Some None
               | Some q \<Rightarrow> do { qb \<leftarrow> cs_objects s q;
                               Some (if obj_status qb = DSM_STATUS_INUSE then Some q else None) })
          | DSM_STATUS_INUSE \<Rightarrow> Some (Some p)
          | DSM_STATUS_MIGRATING \<Rightarrow> if \<not> waiting then Some None else None
          | DSM_STATUS_MIGRATED \<Rightarrow>
              (case pair_obj ob of
                 None \<Rightarrow> None
               | Some q \<Rightarrow> do { qb \<leftarrow> cs_objects s q;
                               bug_on (obj_status qb \<noteq> DSM_STATUS_INUSE);
                               Some (Some q) }) }"

subsection \<open>Releasing objects\<close>

text \<open>
  The routines of \<open>obj_deinit_tbl\<close> other than \<open>cap_group_deinit\<close>, with \<open>clear_fpu_owner\<close>,
  are the argument \<open>deinit\<close>.
\<close>

type_synonym deinit_fn = "object_type \<Rightarrow> addr \<Rightarrow> cstate \<Rightarrow> cstate option"

definition cap_group_deinit :: "addr \<Rightarrow> cstate \<Rightarrow> cstate option" where
  "cap_group_deinit g s =
     do { G \<leftarrow> cs_groups s g;
          Some (s\<lparr>cs_groups := (cs_groups s)(g := None)\<rparr>) }"

definition free_object :: "deinit_fn \<Rightarrow> addr \<Rightarrow> cstate \<Rightarrow> cstate option" where
  "free_object deinit p s =
     do { ob \<leftarrow> cs_objects s p;
          s1 \<leftarrow> (if obj_type ob = TYPE_CAP_GROUP then cap_group_deinit p s
                else deinit (obj_type ob) p s);
          bug_on (\<not> list_empty (obj_node p) (cs_lists s1));
          Some (set_object p None s1) }"

definition obj_put :: "deinit_fn \<Rightarrow> addr \<Rightarrow> cstate \<Rightarrow> cstate option" where
  "obj_put deinit p s =
     do { ob \<leftarrow> cs_objects s p;
          let s1 = set_object p (Some (ob\<lparr>refcount := refcount ob - 1\<rparr>)) s;
          if refcount ob = 1 then free_object deinit p s1 else Some s1 }"

definition get_opaque ::
    "addr \<Rightarrow> int \<Rightarrow> bool \<Rightarrow> object_type \<Rightarrow> cstate \<Rightarrow> (addr option \<times> cstate) option" where
  "get_opaque g slot_id type_valid ty s =
     do { st \<leftarrow> group_table s g;
          valid \<leftarrow> is_valid_slot_id st slot_id;
          if \<not> valid then Some (None, s)
          else do { slot \<leftarrow> get_slot st slot_id;
                    a \<leftarrow> slot;
                    sl \<leftarrow> cs_slots s a;
                    bug_on (\<not> isvalid sl);
                    obj \<leftarrow> dsm_get_inuse_object (slot_object sl) True s;
                    p \<leftarrow> obj;
                    ob \<leftarrow> cs_objects s p;
                    if \<not> type_valid \<or> obj_type ob = ty
                    then Some (Some p, set_object p (Some (ob\<lparr>refcount := refcount ob + 1\<rparr>)) s)
                    else Some (None, s) } }"

definition obj_get :: "addr \<Rightarrow> int \<Rightarrow> object_type \<Rightarrow> cstate \<Rightarrow> (addr option \<times> cstate) option" where
  "obj_get g slot_id ty s = get_opaque g slot_id True ty s"

subsection \<open>Capabilities\<close>

definition cap_alloc :: "addr \<Rightarrow> addr \<Rightarrow> u64 \<Rightarrow> cstate \<Rightarrow> (int \<times> cstate) option" where
  "cap_alloc g p rights s =
     do { st \<leftarrow> group_table s g;
          (slot_id, st1, k1) \<leftarrow> alloc_slot_id st (cs_kmem s);
          let s1 = set_table g st1 (s\<lparr>cs_kmem := k1\<rparr>);
          if slot_id < 0 then Some (- ENOMEM, s1)
          else case kmalloc_addr s1 of
            (None, s2) \<Rightarrow>
              do { st2 \<leftarrow> free_slot_id slot_id st1;
                   Some (- ENOMEM, set_table g st2 s2) }
          | (Some a, s2) \<Rightarrow>
              do { ob \<leftarrow> cs_objects s2 p;
                   let s3 = set_lists (list_add (slot_node a) (obj_node p))
                     (set_slot a (Some \<lparr>slot_no = nat slot_id, slot_group = g, isvalid = True,
                        slot_rights = Some rights, slot_object = p\<rparr>) s2);
                   bug_on (refcount ob \<noteq> 0);
                   let s4 = set_object p
                     (Some (ob\<lparr>refcount := 1, obj_status := DSM_STATUS_INUSE\<rparr>)) s3;
                   st2 \<leftarrow> install_slot slot_id a st1;
                   Some (slot_id, set_table g st2 s4) } }"

text \<open>
  \<open>__cap_free\<close>: the last argument is the outcome of \<open>write_try_lock\<close> on the table
  lock, which is taken that way only when the caller holds the copies lock and not the table
  lock.
\<close>

definition cap_free_locked ::
    "deinit_fn \<Rightarrow> addr \<Rightarrow> int \<Rightarrow> bool \<Rightarrow> bool \<Rightarrow> bool \<Rightarrow> cstate \<Rightarrow> (int \<times> cstate) option" where
  "cap_free_locked deinit g slot_id slot_table_locked copies_list_locked busy s =
     (if \<not> slot_table_locked \<and> copies_list_locked \<and> busy then Some (- EAGAIN, s)
      else do { st \<leftarrow> group_table s g;
                slot \<leftarrow> get_slot st slot_id;
                case slot of
                  None \<Rightarrow> Some (- ECAPBILITY, s)
                | Some a \<Rightarrow>
                    do { sl \<leftarrow> cs_slots s a;
                         if \<not> isvalid sl then Some (- ECAPBILITY, s)
                         else do { st1 \<leftarrow> free_slot_id slot_id st;
                                   let p = slot_object sl;
                                   let s1 = set_slot a None (set_lists (list_del (slot_node a))
                                     (set_table g st1 s));
                                   ob \<leftarrow> cs_objects s1 p;
                                   let s2 = set_object p (Some (ob\<lparr>refcount := refcount ob - 1\<rparr>)) s1;
                                   if refcount ob = 1
                                   then do { s3 \<leftarrow> free_object deinit p s2; Some (0, s3) }
                                   else Some (0, s2) } } })"

definition cap_free :: "deinit_fn \<Rightarrow> addr \<Rightarrow> int \<Rightarrow> cstate \<Rightarrow> (int \<times> cstate) option" where
  "cap_free deinit g slot_id s = cap_free_locked deinit g slot_id False False False s"

text \<open>
  A valid source slot, as \<open>cap_copy\<close> looks it up before and after the allocations:
  \<open>Some None\<close> is the branch to \<open>-ECAPBILITY\<close>.
\<close>

definition source_slot :: "addr \<Rightarrow> int \<Rightarrow> cstate \<Rightarrow> (addr \<times> object_slot) option option" where
  "source_slot g slot_id s =
     do { st \<leftarrow> group_table s g;
          slot \<leftarrow> get_slot st slot_id;
          case slot of
            None \<Rightarrow> Some None
          | Some a \<Rightarrow> do { sl \<leftarrow> cs_slots s a;
                          Some (if isvalid sl then Some (a, sl) else None) } }"

text \<open>The failure of \<open>alloc_slot_id\<close> is tested with \<open>== -1\<close>, as in the source.\<close>

definition cap_copy :: "addr \<Rightarrow> addr \<Rightarrow> int \<Rightarrow> cstate \<Rightarrow> (int \<times> cstate) option" where
  "cap_copy src dst src_slot_id s =
     do { src1 \<leftarrow> source_slot src src_slot_id s;
          case src1 of
            None \<Rightarrow> Some (- ECAPBILITY, s)
          | Some _ \<Rightarrow>
              do { dt \<leftarrow> group_table s dst;
                   (dest_slot_id, dt1, k1) \<leftarrow> alloc_slot_id dt (cs_kmem s);
                   let s1 = set_table dst dt1 (s\<lparr>cs_kmem := k1\<rparr>);
                   if dest_slot_id = -1 then Some (- ENOMEM, s1)
                   else case kmalloc_addr s1 of
                     (None, s2) \<Rightarrow>
                       do { dt2 \<leftarrow> free_slot_id dest_slot_id dt1;
                            Some (- ENOMEM, set_table dst dt2 s2) }
                   | (Some b, s2) \<Rightarrow>
                       do { src2 \<leftarrow> source_slot src src_slot_id s2;
                            case src2 of
                              None \<Rightarrow>
                                do { dt2 \<leftarrow> free_slot_id dest_slot_id dt1;
                                     Some (- ECAPBILITY, set_table dst dt2 s2) }
                            | Some (a, sl) \<Rightarrow>
                                do { let p = slot_object sl;
                                     ob \<leftarrow> cs_objects s2 p;
                                     let s3 = set_object p
                                       (Some (ob\<lparr>refcount := refcount ob + 1\<rparr>)) s2;
                                     let s4 = set_lists (list_add (slot_node b) (slot_node a))
                                       (set_slot b (Some \<lparr>slot_no = nat dest_slot_id,
                                          slot_group = dst, isvalid = True, slot_rights = None,
                                          slot_object = p\<rparr>) s3);
                                     dt2 \<leftarrow> install_slot dest_slot_id b dt1;
                                     Some (dest_slot_id, set_table dst dt2 s4) } } } }"

definition cap_move :: "deinit_fn \<Rightarrow> addr \<Rightarrow> addr \<Rightarrow> int \<Rightarrow> cstate \<Rightarrow> (int \<times> cstate) option" where
  "cap_move deinit src dst src_slot_id s =
     do { (r, s1) \<leftarrow> cap_copy src dst src_slot_id s;
          if r < 0 then Some (r, s1)
          else do { (r2, s2) \<leftarrow> cap_free deinit src src_slot_id s1;
                    bug_on (r2 \<noteq> 0);
                    Some (r2, s2) } }"

text \<open>
  The loop of \<open>cap_free_all\<close> over the copies list, from the node \<open>cur\<close>. The list
  \<open>busy\<close> gives the outcomes of the attempts on the table locks (\<open>True\<close>: taken by somebody
  else); an attempt that fails restarts the loop at the head.
\<close>

partial_function (option) free_copies ::
    "deinit_fn \<Rightarrow> addr \<Rightarrow> addr \<Rightarrow> bool list \<Rightarrow> cstate \<Rightarrow> cstate option" where
  "free_copies deinit p cur busy s =
     (if cur = obj_node p then Some s
      else do { sl \<leftarrow> cs_slots s (cur div 2);
                let tmp = next_of (cs_lists s) cur;
                (r, s1) \<leftarrow> cap_free_locked deinit (slot_group sl) (int (slot_no sl)) False True
                             (busy \<noteq> [] \<and> hd busy) s;
                if r = - EAGAIN
                then free_copies deinit p (next_of (cs_lists s1) (obj_node p)) (tl busy) s1
                else do { bug_on (r \<noteq> 0);
                          free_copies deinit p tmp (tl busy) s1 } })"

declare free_copies.simps [code]

definition cap_free_all ::
    "deinit_fn \<Rightarrow> addr \<Rightarrow> int \<Rightarrow> bool list \<Rightarrow> cstate \<Rightarrow> (int \<times> cstate) option" where
  "cap_free_all deinit g slot_id busy s =
     do { (obj, s1) \<leftarrow> get_opaque g slot_id False TYPE_CAP_GROUP s;
          case obj of
            None \<Rightarrow> Some (- ECAPBILITY, s1)
          | Some p \<Rightarrow>
              do { s2 \<leftarrow> free_copies deinit p (next_of (cs_lists s1) (obj_node p)) busy s1;
                   s3 \<leftarrow> obj_put deinit p s2;
                   Some (0, s3) } }"

subsection \<open>The invariant\<close>

definition slots_of :: "cstate \<Rightarrow> addr \<Rightarrow> addr set" where
  "slots_of s p = {a. \<exists>sl. cs_slots s a = Some sl \<and> slot_object sl = p}"

definition slot_ptr :: "cstate \<Rightarrow> addr \<Rightarrow> nat \<Rightarrow> addr option" where
  "slot_ptr s g i = (case cs_groups s g of None \<Rightarrow> None | Some G \<Rightarrow> table_at (slot_table G) i)"

text \<open>
  The copies list of an object links exactly the slots that point to it, and the reference
  count is their number plus the references \<open>ext\<close> handed out by \<open>obj_get\<close>.
\<close>

definition copies_ok :: "cstate \<Rightarrow> (addr \<Rightarrow> nat) \<Rightarrow> addr \<Rightarrow> nat \<Rightarrow> bool" where
  "copies_ok s ext p n \<longleftrightarrow>
     (\<exists>xs. dlist (cs_lists s) (obj_node p) (map slot_node xs) \<and> set xs = slots_of s p \<and>
           n = length xs + ext p)"

definition tables_inv :: "cstate \<Rightarrow> bool" where
  "tables_inv s \<longleftrightarrow>
     (\<forall>g G. cs_groups s g = Some G \<longrightarrow>
        table_wf (slot_table G) \<and> slots_consistent (slot_table G) \<and>
        (\<exists>ob. cs_objects s g = Some ob \<and> obj_type ob = TYPE_CAP_GROUP))"

definition slots_inv :: "cstate \<Rightarrow> bool" where
  "slots_inv s \<longleftrightarrow>
     (\<forall>g i a. slot_ptr s g i = Some a \<longleftrightarrow>
        (\<exists>sl. cs_slots s a = Some sl \<and> slot_group sl = g \<and> slot_no sl = i)) \<and>
     (\<forall>a sl. cs_slots s a = Some sl \<longrightarrow> isvalid sl \<and> a < cs_brk s \<and>
        (\<exists>ob. cs_objects s (slot_object sl) = Some ob \<and> obj_status ob = DSM_STATUS_INUSE))"

definition objects_inv :: "cstate \<Rightarrow> (addr \<Rightarrow> nat) \<Rightarrow> bool" where
  "objects_inv s ext \<longleftrightarrow>
     (\<forall>p ob. cs_objects s p = Some ob \<longrightarrow>
        p < cs_brk s \<and> copies_ok s ext p (unat (refcount ob)))"

definition cap_inv :: "cstate \<Rightarrow> (addr \<Rightarrow> nat) \<Rightarrow> bool" where
  "cap_inv s ext \<longleftrightarrow> tables_inv s \<and> slots_inv s \<and> objects_inv s ext"

lemma node_simps [simp]:
  "slot_node a = slot_node b \<longleftrightarrow> a = b" "obj_node a = obj_node b \<longleftrightarrow> a = b"
  "slot_node a \<noteq> obj_node b" "obj_node b \<noteq> slot_node a" "slot_node a div 2 = a"
  by (auto simp: slot_node_def obj_node_def) presburger+

lemma inj_slot_node [simp]: "inj_on slot_node A"
  by (simp add: inj_on_def)

lemma slot_node_image [simp]: "slot_node a \<in> slot_node ` A \<longleftrightarrow> a \<in> A"
  "obj_node b \<notin> slot_node ` A" "slot_node ` A \<inter> slot_node ` B = {} \<longleftrightarrow> A \<inter> B = {}"
  by auto

lemma set_simps [simp]:
  "cs_groups (set_object p v s) = cs_groups s" "cs_slots (set_object p v s) = cs_slots s"
  "cs_lists (set_object p v s) = cs_lists s" "cs_kmem (set_object p v s) = cs_kmem s"
  "cs_brk (set_object p v s) = cs_brk s" "cs_objects (set_object p v s) = (cs_objects s)(p := v)"
  "cs_groups (set_slot a w s) = cs_groups s" "cs_slots (set_slot a w s) = (cs_slots s)(a := w)"
  "cs_lists (set_slot a w s) = cs_lists s" "cs_kmem (set_slot a w s) = cs_kmem s"
  "cs_brk (set_slot a w s) = cs_brk s" "cs_objects (set_slot a w s) = cs_objects s"
  "cs_groups (set_lists f s) = cs_groups s" "cs_slots (set_lists f s) = cs_slots s"
  "cs_lists (set_lists f s) = f (cs_lists s)" "cs_kmem (set_lists f s) = cs_kmem s"
  "cs_brk (set_lists f s) = cs_brk s" "cs_objects (set_lists f s) = cs_objects s"
  "cs_slots (set_table g st s) = cs_slots s" "cs_lists (set_table g st s) = cs_lists s"
  "cs_kmem (set_table g st s) = cs_kmem s" "cs_brk (set_table g st s) = cs_brk s"
  "cs_objects (set_table g st s) = cs_objects s"
  by (simp_all add: set_object_def set_slot_def set_lists_def set_table_def)

lemma group_table_Some [simp]:
  "group_table s g = Some st \<longleftrightarrow> (\<exists>G. cs_groups s g = Some G \<and> slot_table G = st)"
  by (auto simp: group_table_def)

lemma groups_set_table [simp]:
  "cs_groups s g = Some G \<Longrightarrow>
     cs_groups (set_table g st s) = (cs_groups s)(g \<mapsto> G\<lparr>slot_table := st\<rparr>)"
  by (simp add: set_table_def fun_eq_iff)

lemma slots_inv_ptr:
  "slots_inv s \<Longrightarrow> slot_ptr s g i = Some a \<longleftrightarrow>
     (\<exists>sl. cs_slots s a = Some sl \<and> slot_group sl = g \<and> slot_no sl = i)"
  by (simp add: slots_inv_def)

lemma slots_inv_slot:
  assumes "slots_inv s" "cs_slots s a = Some sl"
  shows "isvalid sl" "a < cs_brk s" "slot_ptr s (slot_group sl) (slot_no sl) = Some a"
    "\<exists>ob. cs_objects s (slot_object sl) = Some ob \<and> obj_status ob = DSM_STATUS_INUSE"
  using assms by (auto simp: slots_inv_def)

lemma cap_inv_object:
  assumes "cap_inv s ext" "cs_objects s p = Some ob"
  obtains xs where "dlist (cs_lists s) (obj_node p) (map slot_node xs)" "set xs = slots_of s p"
    "unat (refcount ob) = length xs + ext p" "p < cs_brk s" "distinct xs"
proof -
  from assms have "p < cs_brk s" "copies_ok s ext p (unat (refcount ob))"
    by (auto simp: cap_inv_def objects_inv_def)
  then obtain xs where xs: "dlist (cs_lists s) (obj_node p) (map slot_node xs)"
    "set xs = slots_of s p" "unat (refcount ob) = length xs + ext p"
    unfolding copies_ok_def by blast
  moreover from xs(1) have "distinct xs" by (simp add: dlist_def distinct_map)
  ultimately show ?thesis using that \<open>p < cs_brk s\<close> by blast
qed

lemma cap_inv_group:
  assumes "cap_inv s ext" "cs_groups s g = Some G"
  shows "table_wf (slot_table G)" "slots_consistent (slot_table G)"
    "\<exists>ob. cs_objects s g = Some ob \<and> obj_type ob = TYPE_CAP_GROUP"
  using assms unfolding cap_inv_def tables_inv_def by blast+

lemma slots_of_disjoint: "p \<noteq> q \<Longrightarrow> slots_of s p \<inter> slots_of s q = {}"
  by (auto simp: slots_of_def)

subsection \<open>Linking and unlinking one slot\<close>

text \<open>The states before and after a slot \<open>a\<close> of the object \<open>p\<close> enters group \<open>g\<close>.\<close>

definition linked ::
    "addr \<Rightarrow> object_slot \<Rightarrow> addr \<Rightarrow> cap_group \<Rightarrow> slot_table \<Rightarrow> kobject \<Rightarrow> cstate \<Rightarrow> cstate \<Rightarrow> bool" where
  "linked a sl y G st' ob' s s' \<longleftrightarrow>
     cs_slots s' = (cs_slots s)(a \<mapsto> sl) \<and>
     cs_groups s' = (cs_groups s)(slot_group sl \<mapsto> G\<lparr>slot_table := st'\<rparr>) \<and>
     cs_objects s' = (cs_objects s)(slot_object sl \<mapsto> ob') \<and>
     cs_lists s' = list_add (slot_node a) y (cs_lists s) \<and>
     cs_brk s \<le> a \<and> a < cs_brk s' \<and> isvalid sl"

lemma linked_copies:
  assumes inv: "cap_inv s ext" and lk: "linked a sl y G st' ob' s s'"
    and y: "y = obj_node (slot_object sl) \<or> (\<exists>b \<in> slots_of s (slot_object sl). y = slot_node b)"
    and ob: "cs_objects s (slot_object sl) = Some ob" "unat (refcount ob') = Suc (unat (refcount ob))"
    and q: "cs_objects s' q = Some obq"
  shows "copies_ok s' ext q (unat (refcount obq))"
proof -
  let ?p = "slot_object sl"
  have fresh: "cs_slots s a = None"
    using inv lk by (force simp: cap_inv_def slots_inv_def linked_def)
  have slots: "slots_of s' r = (if r = ?p then insert a (slots_of s r) else slots_of s r)" for r
    using lk fresh by (auto simp: slots_of_def linked_def)
  have na: "a \<notin> slots_of s r" for r using fresh by (simp add: slots_of_def)
  obtain xs where xs: "dlist (cs_lists s) (obj_node ?p) (map slot_node xs)" "set xs = slots_of s ?p"
    "unat (refcount ob) = length xs + ext ?p" by (rule cap_inv_object [OF inv ob(1)])
  show ?thesis
  proof (cases "q = ?p")
    case True
    have "\<exists>ys. dlist (cs_lists s') (obj_node ?p) (map slot_node ys) \<and> set ys = insert a (set xs) \<and>
        length ys = Suc (length xs)"
    proof (cases "y = obj_node ?p")
      case True
      with dlist_add [OF xs(1), of "slot_node a"] na xs(2) lk show ?thesis
        by (intro exI [of _ "a # xs"]) (auto simp: linked_def)
    next
      case False
      with y obtain b where b: "b \<in> set xs" "y = slot_node b" using xs(2) by auto
      then obtain us vs where uv: "xs = us @ b # vs" by (auto dest: split_list)
      then have "dlist (list_add (slot_node a) y (cs_lists s)) (obj_node ?p)
          (map slot_node (us @ b # a # vs))"
        using dlist_add_after [of "cs_lists s" "obj_node ?p" "map slot_node us" y
            "map slot_node vs" "slot_node a"] xs(1,2) b na by auto
      with lk uv show ?thesis by (intro exI [of _ "us @ b # a # vs"]) (auto simp: linked_def)
    qed
    with True slots q lk ob(2) xs show ?thesis by (auto simp: copies_ok_def linked_def)
  next
    case False
    with q lk have "cs_objects s q = Some obq" by (simp add: linked_def)
    then obtain zs where zs: "dlist (cs_lists s) (obj_node q) (map slot_node zs)"
      "set zs = slots_of s q" "unat (refcount obq) = length zs + ext q"
      by (rule cap_inv_object [OF inv])
    have "y \<in> set (obj_node ?p # map slot_node xs)" using y xs(2) by auto
    moreover have "set xs \<inter> set zs = {}" using False slots_of_disjoint [of ?p q s] xs(2) zs(2) by simp
    ultimately have "dlist (list_add (slot_node a) y (cs_lists s)) (obj_node q) (map slot_node zs)"
      using dlist_add_other [OF xs(1) _ zs(1), of y "slot_node a"] False na [of q] zs(2) by auto
    with False zs slots lk show ?thesis by (auto simp: copies_ok_def linked_def)
  qed
qed

lemma inv_link:
  assumes inv: "cap_inv s ext" and lk: "linked a sl y G st' ob' s s'"
    and y: "y = obj_node (slot_object sl) \<or> (\<exists>b \<in> slots_of s (slot_object sl). y = slot_node b)"
    and ob: "cs_objects s (slot_object sl) = Some ob" "unat (refcount ob') = Suc (unat (refcount ob))"
      "obj_type ob' = obj_type ob" "obj_status ob' = DSM_STATUS_INUSE"
    and G: "cs_groups s (slot_group sl) = Some G" "table_wf st'"
      "used_ids st' = insert (slot_no sl) (used_ids (slot_table G))"
      "slot_no sl \<notin> used_ids (slot_table G)"
      "table_at st' = (table_at (slot_table G))(slot_no sl \<mapsto> a)"
  shows "cap_inv s' ext"
proof -
  have fresh: "cs_slots s a = None"
    using inv lk by (force simp: cap_inv_def slots_inv_def linked_def)
  have "tables_inv s'"
    unfolding tables_inv_def
  proof (intro allI impI)
    fix g H assume H: "cs_groups s' g = Some H"
    then obtain H0 where H0: "cs_groups s g = Some H0"
      using lk G(1) by (auto simp: linked_def split: if_splits)
    note old = cap_inv_group [OF inv H0]
    have "\<exists>ob. cs_objects s' g = Some ob \<and> obj_type ob = TYPE_CAP_GROUP"
      using old(3) lk ob(1,3) by (auto simp: linked_def)
    moreover have "table_wf (slot_table H) \<and> slots_consistent (slot_table H)"
      using H H0 old(1,2) lk G by (cases "g = slot_group sl")
        (auto simp: linked_def consistent_table_at split: if_splits)
    ultimately show "table_wf (slot_table H) \<and> slots_consistent (slot_table H) \<and>
        (\<exists>ob. cs_objects s' g = Some ob \<and> obj_type ob = TYPE_CAP_GROUP)" by simp
  qed
  moreover have "slots_inv s'"
  proof -
    have ptr: "slot_ptr s' g i =
        (if g = slot_group sl \<and> i = slot_no sl then Some a else slot_ptr s g i)" for g i
      using lk G(1,5) by (auto simp: slot_ptr_def linked_def)
    have none: "slot_ptr s (slot_group sl) (slot_no sl) = None"
      using inv G(1,4) by (auto simp: cap_inv_def tables_inv_def slot_ptr_def consistent_table_at)
    have old: "slots_inv s" using inv by (simp add: cap_inv_def)
    have "slot_ptr s' g i = Some b \<longleftrightarrow>
        (\<exists>sl'. cs_slots s' b = Some sl' \<and> slot_group sl' = g \<and> slot_no sl' = i)" for g i b
      using ptr [of g i] none fresh slots_inv_ptr [OF old, of g i b] lk
      by (auto simp: linked_def)
    moreover have "isvalid sl' \<and> b < cs_brk s' \<and>
        (\<exists>ob. cs_objects s' (slot_object sl') = Some ob \<and> obj_status ob = DSM_STATUS_INUSE)"
      if "cs_slots s' b = Some sl'" for b sl'
      using that lk ob(4) slots_inv_slot [OF old, of b sl'] by (auto simp: linked_def split: if_splits)
    ultimately show ?thesis by (auto simp: slots_inv_def)
  qed
  moreover have "objects_inv s' ext"
    unfolding objects_inv_def
  proof (intro allI impI conjI)
    fix q obq assume q: "cs_objects s' q = Some obq"
    show "copies_ok s' ext q (unat (refcount obq))" by (rule linked_copies [OF inv lk y ob(1,2) q])
    from q ob(1) lk obtain obq0 where "cs_objects s q = Some obq0"
      by (auto simp: linked_def split: if_splits)
    with inv lk show "q < cs_brk s'"
      by (fastforce simp: cap_inv_def objects_inv_def linked_def)
  qed
  ultimately show ?thesis by (simp add: cap_inv_def)
qed

text \<open>The states before and after the slot \<open>a\<close> leaves its group.\<close>

definition unlinked ::
    "addr \<Rightarrow> object_slot \<Rightarrow> cap_group \<Rightarrow> slot_table \<Rightarrow> kobject \<Rightarrow> cstate \<Rightarrow> cstate \<Rightarrow> bool" where
  "unlinked a sl G st' ob' s s' \<longleftrightarrow>
     cs_slots s a = Some sl \<and> cs_slots s' = (cs_slots s)(a := None) \<and>
     cs_groups s' = (cs_groups s)(slot_group sl \<mapsto> G\<lparr>slot_table := st'\<rparr>) \<and>
     cs_objects s' = (cs_objects s)(slot_object sl \<mapsto> ob') \<and>
     cs_lists s' = list_del (slot_node a) (cs_lists s) \<and> cs_brk s' = cs_brk s"

lemma unlinked_slots_of:
  "unlinked a sl G st' ob' s s' \<Longrightarrow>
     slots_of s' r = (if r = slot_object sl then slots_of s r - {a} else slots_of s r)"
  by (auto simp: slots_of_def unlinked_def)

lemma unlinked_copies:
  assumes inv: "cap_inv s ext" and ul: "unlinked a sl G st' ob' s s'"
    and ob: "cs_objects s (slot_object sl) = Some ob" "Suc (unat (refcount ob')) = unat (refcount ob)"
    and q: "cs_objects s' q = Some obq"
  shows "copies_ok s' ext q (unat (refcount obq))"
proof -
  let ?p = "slot_object sl"
  obtain xs where xs: "dlist (cs_lists s) (obj_node ?p) (map slot_node xs)" "set xs = slots_of s ?p"
    "unat (refcount ob) = length xs + ext ?p" "distinct xs" by (rule cap_inv_object [OF inv ob(1)])
  have "a \<in> set xs" using ul xs(2) by (auto simp: slots_of_def unlinked_def)
  then obtain us vs where uv: "xs = us @ a # vs" by (auto dest: split_list)
  then have p: "dlist (cs_lists s) (obj_node ?p) (map slot_node us @ slot_node a # map slot_node vs)"
    using xs(1) by simp
  show ?thesis
  proof (cases "q = ?p")
    case True
    have "dlist (cs_lists s') (obj_node ?p) (map slot_node (us @ vs))"
      using dlist_del [OF p] ul by (simp add: unlinked_def)
    moreover have "set (us @ vs) = slots_of s' ?p"
      using unlinked_slots_of [OF ul, of ?p] uv xs(2,4) by auto
    moreover have "obq = ob'" using q ul True by (simp add: unlinked_def)
    ultimately show ?thesis
      using ob(2) xs(3) uv True unfolding copies_ok_def by (intro exI [of _ "us @ vs"]) simp
  next
    case False
    with q ul have "cs_objects s q = Some obq" by (simp add: unlinked_def)
    then obtain zs where zs: "dlist (cs_lists s) (obj_node q) (map slot_node zs)"
      "set zs = slots_of s q" "unat (refcount obq) = length zs + ext q"
      by (rule cap_inv_object [OF inv])
    have "set xs \<inter> set zs = {}" using False slots_of_disjoint [of ?p q s] xs(2) zs(2) by simp
    then have "set (obj_node ?p # map slot_node us @ slot_node a # map slot_node vs) \<inter>
        set (obj_node q # map slot_node zs) = {}" using uv False by auto
    from dlist_del_other [OF p zs(1) this] False zs unlinked_slots_of [OF ul, of q] ul
    show ?thesis by (auto simp: copies_ok_def unlinked_def)
  qed
qed

lemma inv_unlink:
  assumes inv: "cap_inv s ext" and ul: "unlinked a sl G st' ob' s s'"
    and ob: "cs_objects s (slot_object sl) = Some ob" "Suc (unat (refcount ob')) = unat (refcount ob)"
      "obj_type ob' = obj_type ob" "obj_status ob' = obj_status ob"
    and G: "cs_groups s (slot_group sl) = Some G" "table_wf st'"
      "used_ids st' = used_ids (slot_table G) - {slot_no sl}"
      "table_at st' = (table_at (slot_table G))(slot_no sl := None)"
  shows "cap_inv s' ext"
proof -
  have "tables_inv s'"
    unfolding tables_inv_def
  proof (intro allI impI)
    fix g H assume H: "cs_groups s' g = Some H"
    then obtain H0 where H0: "cs_groups s g = Some H0"
      using ul G(1) by (auto simp: unlinked_def split: if_splits)
    note old = cap_inv_group [OF inv H0]
    have "\<exists>ob. cs_objects s' g = Some ob \<and> obj_type ob = TYPE_CAP_GROUP"
      using old(3) ul ob(1,3) by (auto simp: unlinked_def)
    moreover have "table_wf (slot_table H) \<and> slots_consistent (slot_table H)"
      using H H0 old(1,2) ul G by (cases "g = slot_group sl")
        (auto simp: unlinked_def consistent_table_at split: if_splits)
    ultimately show "table_wf (slot_table H) \<and> slots_consistent (slot_table H) \<and>
        (\<exists>ob. cs_objects s' g = Some ob \<and> obj_type ob = TYPE_CAP_GROUP)" by simp
  qed
  moreover have "slots_inv s'"
  proof -
    have old: "slots_inv s" using inv by (simp add: cap_inv_def)
    have ptr: "slot_ptr s' g i =
        (if g = slot_group sl \<and> i = slot_no sl then None else slot_ptr s g i)" for g i
      using ul G(1,4) by (auto simp: slot_ptr_def unlinked_def)
    have "slot_ptr s (slot_group sl) (slot_no sl) = Some a"
      using slots_inv_slot(3) [OF old, of a sl] ul by (simp add: unlinked_def)
    then have "slot_ptr s' g i = Some b \<longleftrightarrow>
        (\<exists>sl'. cs_slots s' b = Some sl' \<and> slot_group sl' = g \<and> slot_no sl' = i)" for g i b
      using ptr [of g i] slots_inv_ptr [OF old, of g i b] ul by (auto simp: unlinked_def)
    moreover have "isvalid sl' \<and> b < cs_brk s' \<and>
        (\<exists>ob. cs_objects s' (slot_object sl') = Some ob \<and> obj_status ob = DSM_STATUS_INUSE)"
      if "cs_slots s' b = Some sl'" for b sl'
      using that ul ob(1,4) slots_inv_slot [OF old, of b sl']
      by (auto simp: unlinked_def split: if_splits)
    ultimately show ?thesis by (auto simp: slots_inv_def)
  qed
  moreover have "objects_inv s' ext"
    unfolding objects_inv_def
  proof (intro allI impI conjI)
    fix q obq assume q: "cs_objects s' q = Some obq"
    show "copies_ok s' ext q (unat (refcount obq))" by (rule unlinked_copies [OF inv ul ob(1,2) q])
    from q ob(1) ul obtain obq0 where "cs_objects s q = Some obq0"
      by (auto simp: unlinked_def split: if_splits)
    with inv ul show "q < cs_brk s'"
      by (fastforce simp: cap_inv_def objects_inv_def unlinked_def)
  qed
  ultimately show ?thesis by (simp add: cap_inv_def)
qed

end
