(* ===== verification/Cap_Ops.thy ===== *)
theory Cap_Ops
  imports Capability
begin

text \<open>
  The operations on capabilities keep the invariant of \<open>Capability\<close> and have the effect
  their callers rely on, on every path, the failing allocations included.
\<close>

subsection \<open>Tables with the same identifiers\<close>

text \<open>Replacing a table by one with the same identifiers, as the error paths do.\<close>

lemma inv_retable:
  assumes inv: "cap_inv s ext" and G: "cs_groups s g = Some G"
    and st: "table_wf st'" "used_ids st' = used_ids (slot_table G)"
      "table_at st' = table_at (slot_table G)"
    and s': "cs_groups s' = (cs_groups s)(g \<mapsto> G\<lparr>slot_table := st'\<rparr>)"
      "cs_objects s' = cs_objects s" "cs_slots s' = cs_slots s" "cs_lists s' = cs_lists s"
      "cs_brk s \<le> cs_brk s'"
  shows "cap_inv s' ext" and "slot_ptr s' = slot_ptr s"
proof -
  show ptr: "slot_ptr s' = slot_ptr s"
    using G st(3) s'(1) by (auto simp: fun_eq_iff slot_ptr_def)
  have of: "slots_of s' = slots_of s" using s'(3) by (simp add: fun_eq_iff slots_of_def)
  have "tables_inv s'"
    unfolding tables_inv_def
  proof (intro allI impI)
    fix h H assume "cs_groups s' h = Some H"
    then show "table_wf (slot_table H) \<and> slots_consistent (slot_table H) \<and>
        (\<exists>ob. cs_objects s' h = Some ob \<and> obj_type ob = TYPE_CAP_GROUP)"
      using cap_inv_group [OF inv] G st s'(1,2)
      by (cases "h = g") (auto simp: consistent_table_at)
  qed
  moreover have "slots_inv s'"
  proof -
    have old: "slots_inv s" using inv by (simp add: cap_inv_def)
    have "isvalid sl \<and> a < cs_brk s' \<and>
        (\<exists>ob. cs_objects s (slot_object sl) = Some ob \<and> obj_status ob = DSM_STATUS_INUSE)"
      if "cs_slots s a = Some sl" for a sl
      using slots_inv_slot [OF old that] s'(5) by auto
    with slots_inv_ptr [OF old] show ?thesis unfolding slots_inv_def ptr s'(2,3) by simp
  qed
  moreover have "objects_inv s' ext"
  proof -
    have "copies_ok s' ext = copies_ok s ext" by (simp add: fun_eq_iff copies_ok_def of s'(4))
    moreover have "p < cs_brk s' \<and> copies_ok s ext p (unat (refcount ob))"
      if "cs_objects s p = Some ob" for p ob
      using inv that s'(5) by (force simp: cap_inv_def objects_inv_def)
    ultimately show ?thesis unfolding objects_inv_def s'(2) by simp
  qed
  ultimately show "cap_inv s' ext" by (simp add: cap_inv_def)
qed

lemma kmalloc_addr_cases:
  obtains k' where "kmalloc_addr s = (None, s\<lparr>cs_kmem := k'\<rparr>)" "False \<in> set (cs_kmem s)"
  | k' where "kmalloc_addr s = (Some (cs_brk s), s\<lparr>cs_kmem := k', cs_brk := cs_brk s + 1\<rparr>)"
    "set k' \<subseteq> set (cs_kmem s)"
proof -
  obtain b k' where k: "kmalloc_outcome (cs_kmem s) = (b, k')" by fastforce
  with kmalloc_outcome_set [OF k] that show ?thesis by (cases b) (auto simp: kmalloc_addr_def)
qed

lemma dom_set_table: "dom (cs_groups (set_table g st s)) = dom (cs_groups s)"
  by (auto simp: set_table_def dom_def)

lemma group_table_eq: "cs_groups s g = Some G \<Longrightarrow> group_table s g = Some (slot_table G)"
  by simp

text \<open>
  Both \<open>cap_alloc\<close> and \<open>cap_copy\<close> take an identifier and roll it back when the slot
  cannot be allocated.
\<close>

lemma alloc_rollback:
  assumes "table_wf st" "slots_consistent st" "table_wf st1" "i \<notin> used_ids st" "i < slots_size st1"
    "used_ids st1 = insert i (used_ids st)" "table_at st1 = table_at st"
  obtains st2 where "free_slot_id (int i) st1 = Some st2" "table_wf st2"
    "used_ids st2 = used_ids st" "table_at st2 = table_at st"
proof -
  obtain st2 where st2: "free_slot_id (int i) st1 = Some st2" "table_wf st2"
    "slots_size st2 = slots_size st1" "slots st2 = (slots st1)[i := None]"
    "used_ids st2 = used_ids st1 - {i}" by (rule free_slot_id_wf [OF assms(3,5)])
  have "table_at st i = None" using assms(2,4) by (auto simp: consistent_table_at)
  with table_at_update [OF assms(3,5) st2(3,4)] assms(7) have "table_at st2 = table_at st"
    by (simp add: fun_upd_idem)
  with st2 assms(4,6) that show ?thesis by simp
qed

lemma install_link:
  assumes "table_wf st1" "i < slots_size st1" "used_ids st1 = insert i (used_ids st)"
    "table_at st1 = table_at st"
  obtains st2 where "install_slot (int i) a st1 = Some st2" "table_wf st2"
    "used_ids st2 = insert i (used_ids st)" "table_at st2 = (table_at st)(i \<mapsto> a)"
    "slots_size st2 = slots_size st1"
proof -
  have i: "i \<in> used_ids st1" using assms(3) by simp
  note w = install_slot_wf [OF assms(1) i, of a]
  have "table_at (st1\<lparr>slots := (slots st1)[i := Some a]\<rparr>) = (table_at st)(i \<mapsto> a)"
    using table_at_update [OF assms(1,2), of "st1\<lparr>slots := (slots st1)[i := Some a]\<rparr>"] assms(4)
    by simp
  with w assms(3) that [of "st1\<lparr>slots := (slots st1)[i := Some a]\<rparr>"] show ?thesis by simp
qed

subsection \<open>Creating a capability\<close>

lemma kmem_upd_sel [simp]:
  "group_table (s\<lparr>cs_kmem := k\<rparr>) = group_table s"
  "group_table (s\<lparr>cs_brk := b\<rparr>) = group_table s"
  by (simp_all add: fun_eq_iff group_table_def)

text \<open>The three ways \<open>cap_alloc\<close> ends.\<close>

lemma cap_alloc_cases:
  assumes inv: "cap_inv s ext" and G: "cs_groups s g = Some G"
    and room: "slots_size (slot_table G) + 64 < 2 ^ 32"
    and ob: "cs_objects s p = Some ob" "refcount ob = 0"
  obtains (oom) s' where "cap_alloc g p rights s = Some (- ENOMEM, s')" "cap_inv s' ext"
    "slot_ptr s' = slot_ptr s" "cs_objects s' = cs_objects s" "cs_slots s' = cs_slots s"
    "dom (cs_groups s') = dom (cs_groups s)" "False \<in> set (cs_kmem s)"
  | (ok) i a s' where "cap_alloc g p rights s = Some (int i, s')" "cap_inv s' ext"
    "slot_ptr s g i = None" "\<forall>j < i. slot_ptr s g j \<noteq> None"
    "slot_ptr s' = (slot_ptr s)(g := (slot_ptr s g)(i \<mapsto> a))"
    "cs_slots s' = (cs_slots s)(a \<mapsto> \<lparr>slot_no = i, slot_group = g, isvalid = True,
       slot_rights = Some rights, slot_object = p\<rparr>)"
    "cs_slots s a = None"
    "cs_objects s' = (cs_objects s)(p \<mapsto> ob\<lparr>refcount := 1, obj_status := DSM_STATUS_INUSE\<rparr>)"
    "\<exists>st. cs_groups s' = (cs_groups s)(g \<mapsto> G\<lparr>slot_table := st\<rparr>) \<and>
          slots_size st \<le> slots_size (slot_table G) + 64"
    "set (cs_kmem s') \<subseteq> set (cs_kmem s)" "cs_brk s' = Suc (cs_brk s)"
proof -
  note wf = cap_inv_group [OF inv G]
  have gt: "group_table s g = Some (slot_table G)" using G by simp
  show ?thesis
  proof (cases rule: alloc_slot_id_wf [OF wf(1) room, of "cs_kmem s"])
    case (1 k')
    let ?s' = "set_table g (slot_table G) (s\<lparr>cs_kmem := k'\<rparr>)"
    have "cap_alloc g p rights s = Some (- ENOMEM, ?s')"
      using 1(1) by (simp only: cap_alloc_def gt Let_def) (simp add: ENOMEM_def)
    moreover have "cap_inv ?s' ext" "slot_ptr ?s' = slot_ptr s"
      by (rule inv_retable [OF inv G wf(1)]; simp add: G)+
    moreover have "dom (cs_groups ?s') = dom (cs_groups s)" by (simp add: dom_set_table del: groups_set_table)
    ultimately show ?thesis using 1(3) by (intro oom [of ?s']) simp_all
  next
    case (2 i st1 k1)
    let ?s1 = "set_table g st1 (s\<lparr>cs_kmem := k1\<rparr>)"
    have at1: "table_at st1 = table_at (slot_table G)" by (rule table_at_grow [OF wf(1) 2(7)])
    have G1: "cs_groups ?s1 g = Some (G\<lparr>slot_table := st1\<rparr>)" using G by simp
    have none: "slot_ptr s g i = None" and below: "\<forall>j < i. slot_ptr s g j \<noteq> None"
      using 2(4,5) wf(2) G by (auto simp: slot_ptr_def consistent_table_at subset_iff)
    show ?thesis
    proof (cases rule: kmalloc_addr_cases [of ?s1])
      case k: (1 k2)
      obtain st2 where st2: "free_slot_id (int i) st1 = Some st2" "table_wf st2"
        "used_ids st2 = used_ids (slot_table G)" "table_at st2 = table_at (slot_table G)"
        by (rule alloc_rollback [OF wf(1,2) 2(2,4,3,6) at1])
      let ?s' = "set_table g st2 (?s1\<lparr>cs_kmem := k2\<rparr>)"
      have "cap_alloc g p rights s = Some (- ENOMEM, ?s')"
        using 2(1) k(1) st2(1) by (simp add: cap_alloc_def gt Let_def)
      moreover have "cap_inv ?s' ext" "slot_ptr ?s' = slot_ptr s"
        by (rule inv_retable [OF inv G st2(2-4)]; simp add: G1; simp add: G)+
      moreover have "dom (cs_groups ?s') = dom (cs_groups s)" by (simp add: dom_set_table del: groups_set_table)
      moreover have "False \<in> set (cs_kmem s)" using k(2) 2(8) by auto
      ultimately show ?thesis by (intro oom [of ?s']) simp_all
    next
      case k: (2 k2)
      let ?a = "cs_brk s"
      let ?sl = "\<lparr>slot_no = i, slot_group = g, isvalid = True, slot_rights = Some rights,
        slot_object = p\<rparr>"
      let ?ob = "ob\<lparr>refcount := 1, obj_status := DSM_STATUS_INUSE\<rparr>"
      obtain st2 where st2: "install_slot (int i) ?a st1 = Some st2" "table_wf st2"
        "used_ids st2 = insert i (used_ids (slot_table G))"
        "table_at st2 = (table_at (slot_table G))(i \<mapsto> ?a)" "slots_size st2 = slots_size st1"
        by (rule install_link [OF 2(2,3,6) at1])
      define s' where "s' = set_table g st2 (set_object p (Some ?ob)
        (set_lists (list_add (slot_node ?a) (obj_node p)) (set_slot ?a (Some ?sl)
          (?s1\<lparr>cs_kmem := k2, cs_brk := cs_brk s + 1\<rparr>))))"
      have run: "cap_alloc g p rights s = Some (int i, s')"
        using 2(1) k(1) st2(1) ob by (simp add: cap_alloc_def gt Let_def s'_def)
      have lk: "linked ?a ?sl (obj_node p) G st2 ?ob s s'"
        using G by (simp add: linked_def s'_def)
      have "cap_inv s' ext"
        by (rule inv_link [OF inv lk, where ob = ob]) (use ob G st2 2(4) in simp_all)
      moreover have "slot_ptr s' = (slot_ptr s)(g := (slot_ptr s g)(i \<mapsto> ?a))"
        using lk G st2(4) by (auto simp: fun_eq_iff slot_ptr_def linked_def)
      moreover have "cs_slots s ?a = None"
        using inv by (force simp: cap_inv_def slots_inv_def)
      moreover have "set (cs_kmem s') \<subseteq> set (cs_kmem s)" "cs_brk s' = Suc (cs_brk s)"
        using k(2) 2(8) by (auto simp: s'_def)
      moreover have "\<exists>st. cs_groups s' = (cs_groups s)(g \<mapsto> G\<lparr>slot_table := st\<rparr>) \<and>
          slots_size st \<le> slots_size (slot_table G) + 64"
        using lk st2(5) 2(7) by (intro exI [of _ st2]) (auto simp: linked_def)
      ultimately show ?thesis using run none below lk
        by (intro ok [of i s' ?a]) (simp_all add: linked_def)
    qed
  qed
qed

subsection \<open>Copying a capability\<close>

lemma get_slot_table_at:
  "table_wf st \<Longrightarrow> get_slot st i = Some (if i < 0 then None else table_at st (nat i))"
  by (auto simp: get_slot_wf table_at_def)

lemma source_slot_Some:
  assumes "cs_groups s g = Some G" "table_wf (slot_table G)" "slot_ptr s g i = Some a"
    "cs_slots s a = Some sl" "isvalid sl"
  shows "source_slot g (int i) s = Some (Some (a, sl))"
  using assms by (simp add: source_slot_def group_table_def get_slot_table_at slot_ptr_def)

lemma source_slot_None:
  assumes "cs_groups s g = Some G" "table_wf (slot_table G)"
    "i < 0 \<or> slot_ptr s g (nat i) = None"
  shows "source_slot g i s = Some None"
  using assms by (auto simp: source_slot_def group_table_def get_slot_table_at slot_ptr_def)

lemma cap_copy_no_source:
  assumes inv: "cap_inv s ext" and G: "cs_groups s src = Some G"
    and "i < 0 \<or> slot_ptr s src (nat i) = None"
  shows "cap_copy src dst i s = Some (- ECAPBILITY, s)"
  using source_slot_None [OF G cap_inv_group(1) [OF inv G] assms(3)] by (simp add: cap_copy_def)

lemma cap_copy_cases:
  assumes inv: "cap_inv s ext" and S: "cs_groups s src = Some S" and D: "cs_groups s dst = Some D"
    and a: "slot_ptr s src j = Some a" "cs_slots s a = Some sl"
    and ob: "cs_objects s (slot_object sl) = Some ob" "unat (refcount ob) + 1 < 2 ^ 64"
    and al: "alloc_slot_id (slot_table D) (cs_kmem s) = Some (int i, st1, k1)"
    and room: "slots_size (slot_table D) + 64 < 2 ^ 32"
  obtains (oom) s' where "cap_copy src dst (int j) s = Some (- ENOMEM, s')" "cap_inv s' ext"
    "slot_ptr s' = slot_ptr s" "cs_objects s' = cs_objects s" "cs_slots s' = cs_slots s"
  | (ok) b s' where "cap_copy src dst (int j) s = Some (int i, s')" "cap_inv s' ext"
    "slot_ptr s dst i = None" "slot_ptr s' = (slot_ptr s)(dst := (slot_ptr s dst)(i \<mapsto> b))"
    "cs_slots s' = (cs_slots s)(b \<mapsto> \<lparr>slot_no = i, slot_group = dst, isvalid = True,
       slot_rights = None, slot_object = slot_object sl\<rparr>)"
    "cs_slots s b = None"
    "cs_objects s' = (cs_objects s)(slot_object sl \<mapsto> ob\<lparr>refcount := refcount ob + 1\<rparr>)"
    "dom (cs_groups s') = dom (cs_groups s)"
proof -
  have sinv: "slots_inv s" using inv by (simp add: cap_inv_def)
  note valid = slots_inv_slot [OF sinv a(2)]
  note wf = cap_inv_group [OF inv D] and wfS = cap_inv_group [OF inv S]
  have src1: "source_slot src (int j) s = Some (Some (a, sl))"
    by (rule source_slot_Some [OF S wfS(1) a valid(1)])
  have gt: "group_table s dst = Some (slot_table D)" using D by simp
  have st1: "table_wf st1" "i < slots_size st1" "i \<notin> used_ids (slot_table D)"
    "used_ids st1 = insert i (used_ids (slot_table D))" "table_at st1 = table_at (slot_table D)"
    using alloc_slot_id_wf [OF wf(1) room, of "cs_kmem s"] al table_at_grow [OF wf(1), of st1]
    by (auto simp: ENOMEM_def)
  let ?s1 = "set_table dst st1 (s\<lparr>cs_kmem := k1\<rparr>)"
  have D1: "cs_groups ?s1 dst = Some (D\<lparr>slot_table := st1\<rparr>)" using D by simp
  show ?thesis
  proof (cases rule: kmalloc_addr_cases [of ?s1])
    case k: (1 k2)
    obtain st2 where st2: "free_slot_id (int i) st1 = Some st2" "table_wf st2"
      "used_ids st2 = used_ids (slot_table D)" "table_at st2 = table_at (slot_table D)"
      by (rule alloc_rollback [OF wf(1,2) st1(1,3,2,4,5)])
    let ?s' = "set_table dst st2 (?s1\<lparr>cs_kmem := k2\<rparr>)"
    have "cap_copy src dst (int j) s = Some (- ENOMEM, ?s')"
      using src1 al k(1) st2(1) by (simp add: cap_copy_def gt Let_def)
    moreover have "cap_inv ?s' ext" "slot_ptr ?s' = slot_ptr s"
      by (rule inv_retable [OF inv D st2(2-4)]; simp add: D1; simp add: D)+
    ultimately show ?thesis by (rule oom) simp_all
  next
    case k: (2 k2)
    let ?b = "cs_brk s"
    let ?s2 = "?s1\<lparr>cs_kmem := k2, cs_brk := cs_brk s + 1\<rparr>"
    let ?sl = "\<lparr>slot_no = i, slot_group = dst, isvalid = True, slot_rights = None,
      slot_object = slot_object sl\<rparr>"
    let ?ob = "ob\<lparr>refcount := refcount ob + 1\<rparr>"
    have ptr2: "slot_ptr ?s2 = slot_ptr s"
      using D st1(5) by (auto simp: fun_eq_iff slot_ptr_def)
    obtain S2 where S2: "cs_groups ?s2 src = Some S2" "table_wf (slot_table S2)"
      using S D wfS(1) st1(1) by (cases "src = dst") auto
    have src2: "source_slot src (int j) ?s2 = Some (Some (a, sl))"
      by (rule source_slot_Some [OF S2]) (use ptr2 a valid(1) in simp_all)
    obtain st2 where st2: "install_slot (int i) ?b st1 = Some st2" "table_wf st2"
      "used_ids st2 = insert i (used_ids (slot_table D))"
      "table_at st2 = (table_at (slot_table D))(i \<mapsto> ?b)"
      by (rule install_link [OF st1(1,2,4,5)])
    define s' where "s' = set_table dst st2 (set_lists (list_add (slot_node ?b) (slot_node a))
      (set_slot ?b (Some ?sl) (set_object (slot_object sl) (Some ?ob) ?s2)))"
    have run: "cap_copy src dst (int j) s = Some (int i, s')"
      using src1 src2 al k(1) st2(1) ob(1) by (simp add: cap_copy_def gt Let_def s'_def)
    have lk: "linked ?b ?sl (slot_node a) D st2 ?ob s s'"
      using D by (simp add: linked_def s'_def)
    have cnt: "unat (refcount ob + 1) = Suc (unat (refcount ob))"
      using ob(2) by (simp add: unat_add_lem [where y = "1 :: u64", simplified])
    have "cap_inv s' ext"
      by (rule inv_link [OF inv lk, where ob = ob])
        (use ob(1) valid(4) cnt D st2 st1(3) a(2) in \<open>auto simp: slots_of_def\<close>)
    moreover have "slot_ptr s' = (slot_ptr s)(dst := (slot_ptr s dst)(i \<mapsto> ?b))"
      using lk D st2(4) by (auto simp: fun_eq_iff slot_ptr_def linked_def)
    moreover have "cs_slots s ?b = None"
      using inv by (force simp: cap_inv_def slots_inv_def)
    moreover have "slot_ptr s dst i = None"
      using st1(3) wf(2) D by (auto simp: slot_ptr_def consistent_table_at)
    moreover have "dom (cs_groups s') = dom (cs_groups s)" using lk D by (auto simp: linked_def)
    ultimately show ?thesis using run lk
      by (intro ok [of s' ?b]) (simp_all add: linked_def)
  qed
qed

subsection \<open>Releasing an object\<close>

text \<open>
  What the release of an object of type \<open>ty\<close> needs from its teardown routine: it returns
  and leaves objects, slots, groups and copies lists alone.
\<close>

definition deinit_keeps :: "deinit_fn \<Rightarrow> object_type \<Rightarrow> bool" where
  "deinit_keeps deinit ty \<longleftrightarrow>
     (\<forall>p s. \<exists>s'. deinit ty p s = Some s' \<and> cs_objects s' = cs_objects s \<and>
        cs_slots s' = cs_slots s \<and> cs_groups s' = cs_groups s \<and> cs_lists s' = cs_lists s \<and>
        cs_brk s' = cs_brk s)"

text \<open>A group that is released has no capability left in its table but those in \<open>X\<close>.\<close>

definition releasable ::
    "deinit_fn \<Rightarrow> (addr \<times> nat) set \<Rightarrow> addr \<Rightarrow> kobject \<Rightarrow> cstate \<Rightarrow> bool" where
  "releasable deinit X p ob s \<longleftrightarrow>
     (if obj_type ob = TYPE_CAP_GROUP
      then cs_groups s p \<noteq> None \<and> (\<forall>i. slot_ptr s p i \<noteq> None \<longrightarrow> (p, i) \<in> X)
      else deinit_keeps deinit (obj_type ob))"

lemma inv_remove_object:
  assumes inv: "cap_inv s ext" and ob: "cs_objects s p = Some ob" "refcount ob = 0"
    and empty: "\<And>i. slot_ptr s p i = None"
    and s': "cs_objects s' = (cs_objects s)(p := None)" "cs_slots s' = cs_slots s"
      "cs_groups s' = (cs_groups s)(p := None)" "cs_lists s' = cs_lists s" "cs_brk s' = cs_brk s"
  shows "cap_inv s' ext" and "slot_ptr s' = slot_ptr s"
proof -
  show ptr: "slot_ptr s' = slot_ptr s"
    using empty s'(3) by (auto simp: fun_eq_iff slot_ptr_def split: option.splits)
  have of: "slots_of s' = slots_of s" using s'(2) by (simp add: fun_eq_iff slots_of_def)
  obtain xs where xs: "set xs = slots_of s p" "unat (refcount ob) = length xs + ext p"
    by (rule cap_inv_object [OF inv ob(1)])
  then have none: "slots_of s p = {}" using ob(2) by simp
  have old: "slots_inv s" using inv by (simp add: cap_inv_def)
  have "tables_inv s'"
    using inv s'(1,3) by (auto simp: cap_inv_def tables_inv_def)
  moreover have "slots_inv s'"
  proof -
    have "slot_object sl \<noteq> p" if "cs_slots s a = Some sl" for a sl
      using none that by (auto simp: slots_of_def)
    with slots_inv_slot [OF old] slots_inv_ptr [OF old] show ?thesis
      unfolding slots_inv_def ptr s'(1,2,5) by simp
  qed
  moreover have "objects_inv s' ext"
  proof -
    have "copies_ok s' ext = copies_ok s ext" by (simp add: fun_eq_iff copies_ok_def of s'(4))
    with inv s'(1,5) show ?thesis by (auto simp: cap_inv_def objects_inv_def)
  qed
  ultimately show "cap_inv s' ext" by (simp add: cap_inv_def)
qed

lemma free_object_ok:
  assumes inv: "cap_inv s ext" and ob: "cs_objects s p = Some ob" "refcount ob = 0"
    and rel: "releasable deinit {} p ob s"
  obtains s' where "free_object deinit p s = Some s'" "cap_inv s' ext"
    "slot_ptr s' = slot_ptr s" "cs_objects s' = (cs_objects s)(p := None)"
    "cs_slots s' = cs_slots s" "cs_groups s' = (cs_groups s)(p := None)"
    "cs_lists s' = cs_lists s"
proof -
  obtain xs where xs: "dlist (cs_lists s) (obj_node p) (map slot_node xs)"
    "unat (refcount ob) = length xs + ext p" by (rule cap_inv_object [OF inv ob(1)])
  then have empty: "list_empty (obj_node p) (cs_lists s)"
    using dlist_empty [OF xs(1)] ob(2) by simp
  have "\<exists>s1. (if obj_type ob = TYPE_CAP_GROUP then cap_group_deinit p s
        else deinit (obj_type ob) p s) = Some s1 \<and> cs_objects s1 = cs_objects s \<and>
      cs_slots s1 = cs_slots s \<and> cs_groups s1 = (cs_groups s)(p := None) \<and>
      cs_lists s1 = cs_lists s \<and> cs_brk s1 = cs_brk s"
  proof (cases "obj_type ob = TYPE_CAP_GROUP")
    case True
    with rel show ?thesis by (auto simp: releasable_def cap_group_deinit_def)
  next
    case False
    with ob(1) have "cs_groups s p = None"
      using cap_inv_group(3) [OF inv, of p] by (cases "cs_groups s p") auto
    with False rel show ?thesis by (auto simp: releasable_def deinit_keeps_def fun_upd_idem)
  qed
  then obtain s1 where s1: "(if obj_type ob = TYPE_CAP_GROUP then cap_group_deinit p s
        else deinit (obj_type ob) p s) = Some s1" "cs_objects s1 = cs_objects s"
      "cs_slots s1 = cs_slots s" "cs_groups s1 = (cs_groups s)(p := None)"
      "cs_lists s1 = cs_lists s" "cs_brk s1 = cs_brk s" by blast
  have none: "slot_ptr s p i = None" for i
    using rel ob(1) cap_inv_group(3) [OF inv, of p]
    by (cases "cs_groups s p") (auto simp: releasable_def slot_ptr_def split: if_splits)
  let ?s' = "set_object p None s1"
  have "free_object deinit p s = Some ?s'"
    using ob(1) s1(1,5) empty by (simp add: free_object_def)
  with inv_remove_object [OF inv ob none, of ?s'] s1 that [of ?s'] show ?thesis by simp
qed

subsection \<open>Dropping a capability\<close>

definition put_count :: "kobject \<Rightarrow> kobject option" where
  "put_count ob = (if refcount ob = 1 then None else Some (ob\<lparr>refcount := refcount ob - 1\<rparr>))"

lemma unat_minus_1: "(w :: u64) \<noteq> 0 \<Longrightarrow> Suc (unat (w - 1)) = unat w"
  by (simp add: unat_minus_one unat_gt_0)

lemma cap_free_locked_ok:
  assumes inv: "cap_inv s ext" and G: "cs_groups s g = Some G"
    and a: "slot_ptr s g i = Some a" "cs_slots s a = Some sl"
    and ob: "cs_objects s (slot_object sl) = Some ob"
    and rel: "refcount ob = 1 \<Longrightarrow> releasable deinit {(g, i)} (slot_object sl) ob s"
    and lock: "slot_table_locked \<or> \<not> copies_list_locked \<or> \<not> busy"
  obtains s' where
    "cap_free_locked deinit g (int i) slot_table_locked copies_list_locked busy s = Some (0, s')"
    "cap_inv s' ext" "slot_ptr s' = (slot_ptr s)(g := (slot_ptr s g)(i := None))"
    "cs_slots s' = (cs_slots s)(a := None)"
    "cs_objects s' = (cs_objects s)(slot_object sl := put_count ob)"
    "cs_lists s' = list_del (slot_node a) (cs_lists s)"
    "refcount ob \<noteq> 1 \<Longrightarrow> dom (cs_groups s') = dom (cs_groups s)"
proof -
  let ?p = "slot_object sl"
  have old: "slots_inv s" using inv by (simp add: cap_inv_def)
  note wf = cap_inv_group [OF inv G] and valid = slots_inv_slot [OF old a(2)]
  have sl: "slot_group sl = g" "slot_no sl = i"
    using a slots_inv_ptr [OF old, of g i a] by auto
  have at: "table_at (slot_table G) i = Some a" using a(1) G by (simp add: slot_ptr_def)
  then have i: "i < slots_size (slot_table G)" by (simp add: table_at_def split: if_splits)
  obtain st1 where st1: "free_slot_id (int i) (slot_table G) = Some st1" "table_wf st1"
    "slots_size st1 = slots_size (slot_table G)" "slots st1 = (slots (slot_table G))[i := None]"
    "used_ids st1 = used_ids (slot_table G) - {i}" by (rule free_slot_id_wf [OF wf(1) i])
  note at1 = table_at_update [OF wf(1) i st1(3,4)]
  define s2 where "s2 = set_object ?p (Some (ob\<lparr>refcount := refcount ob - 1\<rparr>))
    (set_slot a None (set_lists (list_del (slot_node a)) (set_table g st1 s)))"
  have ul: "unlinked a sl G st1 (ob\<lparr>refcount := refcount ob - 1\<rparr>) s s2"
    using a(2) G sl by (simp add: unlinked_def s2_def)
  obtain xs where "set xs = slots_of s ?p" "unat (refcount ob) = length xs + ext ?p"
    by (rule cap_inv_object [OF inv ob])
  moreover have "a \<in> slots_of s ?p" using a(2) by (simp add: slots_of_def)
  ultimately have pos: "refcount ob \<noteq> 0" by (cases xs) auto
  have inv2: "cap_inv s2 ext"
    by (rule inv_unlink [OF inv ul ob])
      (use unat_minus_1 [OF pos] G sl st1(2,5) at1 in simp_all)
  have ptr2: "slot_ptr s2 = (slot_ptr s)(g := (slot_ptr s g)(i := None))"
    using ul G sl at1 by (auto simp: fun_eq_iff slot_ptr_def unlinked_def)
  have run: "cap_free_locked deinit g (int i) slot_table_locked copies_list_locked busy s =
      (if refcount ob = 1 then do { s3 \<leftarrow> free_object deinit ?p s2; Some (0, s3) } else Some (0, s2))"
    using lock G a(2) at wf(1) valid(1) st1(1) ob
    by (auto simp: cap_free_locked_def group_table_def get_slot_table_at s2_def Let_def)
  show ?thesis
  proof (cases "refcount ob = 1")
    case False
    with run inv2 ptr2 ul G sl(1) show ?thesis
      by (intro that [of s2]) (auto simp add: unlinked_def put_count_def)
  next
    case True
    let ?ob = "ob\<lparr>refcount := refcount ob - 1\<rparr>"
    have rel': "releasable deinit {} ?p ?ob s2"
      using rel [OF True] ptr2 ul G sl
      by (auto simp: releasable_def unlinked_def split: if_splits)
    have obs: "cs_objects s2 ?p = Some ?ob" "refcount ?ob = 0" using True by (simp_all add: s2_def)
    obtain s3 where "free_object deinit ?p s2 = Some s3" "cap_inv s3 ext"
      "slot_ptr s3 = slot_ptr s2" "cs_objects s3 = (cs_objects s2)(?p := None)"
      "cs_slots s3 = cs_slots s2" "cs_lists s3 = cs_lists s2" 
      by (rule free_object_ok [OF inv2 obs rel'])
    with True run ptr2 ul show ?thesis
      by (intro that [of s3]) (simp_all add: unlinked_def put_count_def)
  qed
qed

subsection \<open>References\<close>

lemma inv_recount:
  assumes inv: "cap_inv s ext" and ob: "cs_objects s p = Some ob" "obj_type ob' = obj_type ob"
    "obj_status ob' = obj_status ob" "unat (refcount ob') + ext p = unat (refcount ob) + n"
  shows "cap_inv (set_object p (Some ob') s) (ext(p := n))"
    and "slot_ptr (set_object p (Some ob') s) = slot_ptr s"
proof -
  let ?s = "set_object p (Some ob') s"
  show ptr: "slot_ptr ?s = slot_ptr s" by (simp add: fun_eq_iff slot_ptr_def)
  have of: "slots_of ?s = slots_of s" by (simp add: fun_eq_iff slots_of_def)
  have old: "slots_inv s" using inv by (simp add: cap_inv_def)
  have "tables_inv ?s"
    using cap_inv_group [OF inv] ob(1,2) by (fastforce simp: tables_inv_def)
  moreover have "slots_inv ?s"
  proof -
    have "\<exists>ob. cs_objects ?s (slot_object sl) = Some ob \<and> obj_status ob = DSM_STATUS_INUSE"
      if "cs_slots s a = Some sl" for a sl
      using slots_inv_slot(4) [OF old that] ob(1,3) by auto
    with slots_inv_slot(1,2) [OF old] slots_inv_ptr [OF old] show ?thesis
      unfolding slots_inv_def ptr by simp
  qed
  moreover have "objects_inv ?s (ext(p := n))"
    unfolding objects_inv_def
  proof (intro allI impI)
    fix q obq assume q: "cs_objects ?s q = Some obq"
    then obtain obq0 where q0: "cs_objects s q = Some obq0"
      "unat (refcount obq) + ext q = unat (refcount obq0) + (ext(p := n)) q"
      using ob(1,4) by (cases "q = p") auto
    obtain xs where "dlist (cs_lists s) (obj_node q) (map slot_node xs)" "set xs = slots_of s q"
      "unat (refcount obq0) = length xs + ext q" "q < cs_brk s"
      by (rule cap_inv_object [OF inv q0(1)])
    with q0(2) show "q < cs_brk ?s \<and> copies_ok ?s (ext(p := n)) q (unat (refcount obq))"
      unfolding copies_ok_def of by (intro conjI exI [of _ xs]) auto
  qed
  ultimately show "cap_inv ?s (ext(p := n))" by (simp add: cap_inv_def)
qed

lemma get_opaque_none:
  assumes inv: "cap_inv s ext" and G: "cs_groups s g = Some G"
    and "i < 0 \<or> slot_ptr s g (nat i) = None"
  shows "get_opaque g i tv ty s = Some (None, s)"
proof -
  note wf = cap_inv_group [OF inv G]
  have "is_valid_slot_id (slot_table G) i = Some False"
    using is_valid_slot_id_wf [OF wf(1,2), of i] assms(3) wf(2) G
    by (auto simp: slot_ptr_def consistent_table_at)
  with G show ?thesis by (simp add: get_opaque_def group_table_def)
qed

lemma get_opaque_some:
  assumes inv: "cap_inv s ext" and G: "cs_groups s g = Some G"
    and a: "slot_ptr s g i = Some a" "cs_slots s a = Some sl"
    and ob: "cs_objects s (slot_object sl) = Some ob"
  shows "get_opaque g (int i) tv ty s =
     (if \<not> tv \<or> obj_type ob = ty
      then Some (Some (slot_object sl),
             set_object (slot_object sl) (Some (ob\<lparr>refcount := refcount ob + 1\<rparr>)) s)
      else Some (None, s))"
proof -
  have old: "slots_inv s" using inv by (simp add: cap_inv_def)
  note wf = cap_inv_group [OF inv G] and valid = slots_inv_slot [OF old a(2)]
  have at: "table_at (slot_table G) i = Some a" using a(1) G by (simp add: slot_ptr_def)
  then have "is_valid_slot_id (slot_table G) (int i) = Some True"
    using is_valid_slot_id_wf [OF wf(1,2), of "int i"] wf(2) by (auto simp: consistent_table_at)
  moreover have "dsm_get_inuse_object (slot_object sl) True s = Some (Some (slot_object sl))"
    using valid(4) ob by (auto simp: dsm_get_inuse_object_def)
  ultimately show ?thesis
    using G at wf(1) a(2) valid(1) ob
    by (simp add: get_opaque_def group_table_def get_slot_table_at)
qed

lemma unat_plus_1: "unat (w :: u64) + 1 < 2 ^ 64 \<Longrightarrow> unat (w + 1) = Suc (unat w)"
  by (simp add: unat_add_lem [where y = "1 :: u64", simplified])

lemma obj_put_ok:
  assumes inv: "cap_inv s ext" and ob: "cs_objects s p = Some ob" and held: "0 < ext p"
    and rel: "refcount ob = 1 \<Longrightarrow> releasable deinit {} p ob s"
  obtains s' where "obj_put deinit p s = Some s'" "cap_inv s' (ext(p := ext p - 1))"
    "slot_ptr s' = slot_ptr s" "cs_slots s' = cs_slots s"
    "cs_objects s' = (cs_objects s)(p := put_count ob)"
proof -
  obtain xs :: "addr list" where "unat (refcount ob) = length xs + ext p" by (rule cap_inv_object [OF inv ob])
  then have pos: "refcount ob \<noteq> 0" using held by auto
  let ?ob = "ob\<lparr>refcount := refcount ob - 1\<rparr>"
  let ?s = "set_object p (Some ?ob) s"
  have cnt: "unat (refcount ?ob) + ext p = unat (refcount ob) + (ext p - 1)"
    using unat_minus_1 [OF pos] held by simp
  have step: "cap_inv ?s (ext(p := ext p - 1))" "slot_ptr ?s = slot_ptr s"
    by (rule inv_recount [OF inv ob _ _ cnt]; simp)+
  show ?thesis
  proof (cases "refcount ob = 1")
    case False
    then show ?thesis using step ob
      by (intro that [of ?s]) (simp_all add: obj_put_def put_count_def Let_def)
  next
    case True
    have rel': "releasable deinit {} p ?ob ?s" using rel [OF True] step(2)
      by (auto simp: releasable_def split: if_splits)
    have obs: "cs_objects ?s p = Some ?ob" "refcount ?ob = 0" using True by simp_all
    obtain s' where "free_object deinit p ?s = Some s'"
      "cap_inv s' (ext(p := ext p - 1))" "slot_ptr s' = slot_ptr ?s"
      "cs_objects s' = (cs_objects ?s)(p := None)" "cs_slots s' = cs_slots ?s"
      by (rule free_object_ok [OF step(1) obs rel'])
    with True step(2) ob show ?thesis
      by (intro that [of s']) (simp_all add: obj_put_def put_count_def Let_def)
  qed
qed

subsection \<open>Dropping all capabilities of an object\<close>

lemma slot_in_group:
  assumes "cap_inv s ext" "cs_slots s a = Some sl"
  obtains G where "cs_groups s (slot_group sl) = Some G"
    "slot_ptr s (slot_group sl) (slot_no sl) = Some a"
proof -
  have "slot_ptr s (slot_group sl) (slot_no sl) = Some a"
    using assms slots_inv_slot(3) by (simp add: cap_inv_def)
  then show ?thesis using that by (auto simp: slot_ptr_def split: option.splits)
qed

text \<open>What the loop leaves of the other objects and their slots.\<close>

definition only_slots_of :: "addr \<Rightarrow> cstate \<Rightarrow> cstate \<Rightarrow> bool" where
  "only_slots_of p s s' \<longleftrightarrow>
     (\<forall>a. cs_slots s' a = (if a \<in> slots_of s p then None else cs_slots s a)) \<and>
     (\<forall>q. q \<noteq> p \<longrightarrow> cs_objects s' q = cs_objects s q)"

lemma free_copies_ok:
  assumes "cap_inv s ext" "cs_objects s p = Some ob" "0 < ext p"
    and "dlist (cs_lists s) (obj_node p) (map slot_node xs)" "set xs = slots_of s p"
    and "cur = next_of (cs_lists s) (obj_node p)"
  shows "\<exists>s'. free_copies deinit p cur busy s = Some s' \<and> cap_inv s' ext \<and>
     only_slots_of p s s' \<and>
     (\<exists>n. cs_objects s' p = Some (ob\<lparr>refcount := n\<rparr>) \<and> unat n = ext p) \<and>
     dom (cs_groups s') = dom (cs_groups s)"
  using assms
proof (induction "length xs + length busy" arbitrary: s ob xs busy cur rule: less_induct)
  case less
  note inv = less.prems(1) and ob = less.prems(2) and ext = less.prems(3)
  obtain ys where ys: "dlist (cs_lists s) (obj_node p) (map slot_node ys)"
    "unat (refcount ob) = length ys + ext p" by (rule cap_inv_object [OF inv ob])
  have "map slot_node ys = map slot_node xs" by (rule dlist_unique [OF ys(1) less.prems(4)])
  then have len: "length ys = length xs" by (metis length_map)
  show ?case
  proof (cases xs)
    case Nil
    then have "cur = obj_node p" using less.prems(4,6) by (simp add: dlist_def)
    moreover have "only_slots_of p s s" using less.prems(5) Nil by (simp add: only_slots_of_def)
    moreover have "ob\<lparr>refcount := refcount ob\<rparr> = ob" by simp
    ultimately show ?thesis
      using inv ob ys(2) len Nil free_copies.simps [of deinit p cur busy s]
      by (intro exI [of _ s]) (metis add_cancel_left_left list.size(3))
  next
    case (Cons x xs')
    then have cur: "cur = slot_node x" using less.prems(4,6) by (simp add: dlist_def)
    have "x \<in> slots_of s p" using less.prems(5) Cons by auto
    then obtain sl where sl: "cs_slots s x = Some sl" "slot_object sl = p" by (auto simp: slots_of_def)
    obtain G where G: "cs_groups s (slot_group sl) = Some G"
      "slot_ptr s (slot_group sl) (slot_no sl) = Some x" by (rule slot_in_group [OF inv sl(1)])
    have big: "refcount ob \<noteq> 1" using ys(2) len Cons ext by auto
    show ?thesis
    proof (cases "busy \<noteq> [] \<and> hd busy")
      case True
      then have shorter: "length (tl busy) < length busy" by (cases busy) auto
      have "free_copies deinit p cur busy s =
          free_copies deinit p (next_of (cs_lists s) (obj_node p)) (tl busy) s"
        using cur sl True
        by (subst free_copies.simps) (simp add: cap_free_locked_def Let_def)
      with less.hyps [of xs "tl busy", OF _ inv ob ext less.prems(4,5) refl] shorter show ?thesis
        by simp
    next
      case False
      obtain s1 where s1: "cap_free_locked deinit (slot_group sl) (int (slot_no sl)) False True
            (busy \<noteq> [] \<and> hd busy) s = Some (0, s1)" "cap_inv s1 ext"
        "cs_slots s1 = (cs_slots s)(x := None)"
        "cs_objects s1 = (cs_objects s)(slot_object sl := put_count ob)"
        "cs_lists s1 = list_del (slot_node x) (cs_lists s)"
        "dom (cs_groups s1) = dom (cs_groups s)"
        by (rule cap_free_locked_ok [OF inv G sl(1), of ob deinit False True "busy \<noteq> [] \<and> hd busy"])
          (use ob sl(2) big False in auto)
      let ?ob = "ob\<lparr>refcount := refcount ob - 1\<rparr>"
      have ob1: "cs_objects s1 p = Some ?ob" using s1(4) sl(2) big by (simp add: put_count_def)
      have d1: "dlist (cs_lists s1) (obj_node p) (map slot_node xs')"
        using dlist_del [of "cs_lists s" "obj_node p" "[]"] less.prems(4) Cons s1(5) by simp
      have of1: "slots_of s1 p = slots_of s p - {x}" using s1(3) by (auto simp: slots_of_def)
      have set1: "set xs' = slots_of s1 p"
        using less.prems(4,5) Cons of1 by (auto simp: dlist_def)
      have nxt: "next_of (cs_lists s) cur = next_of (cs_lists s1) (obj_node p)"
        using less.prems(4) Cons cur d1 by (cases xs') (auto simp: dlist_def)
      have "free_copies deinit p cur busy s =
          free_copies deinit p (next_of (cs_lists s1) (obj_node p)) (tl busy) s1"
        using cur sl s1(1) nxt
        by (subst free_copies.simps) (simp add: EAGAIN_def Let_def)
      moreover have lt: "length xs' + length (tl busy) < length xs + length busy" using Cons by simp
      moreover obtain s' n where s': "free_copies deinit p (next_of (cs_lists s1) (obj_node p))
            (tl busy) s1 = Some s'" "cap_inv s' ext" "only_slots_of p s1 s'"
          "cs_objects s' p = Some (?ob\<lparr>refcount := n\<rparr>)" "unat n = ext p"
          "dom (cs_groups s') = dom (cs_groups s)"
        using less.hyps [OF lt s1(2) ob1 ext d1 set1 refl] s1(6) by auto
      moreover have "only_slots_of p s s'"
        using s'(3) s1(3,4) of1 sl \<open>x \<in> slots_of s p\<close> by (auto simp: only_slots_of_def)
      ultimately show ?thesis by auto
    qed
  qed
qed

lemma cap_free_all_ok:
  assumes inv: "cap_inv s ext" and G: "cs_groups s g = Some G"
    and a: "slot_ptr s g i = Some a" "cs_slots s a = Some sl" and p: "slot_object sl = p"
    and ob: "cs_objects s p = Some ob" "unat (refcount ob) + 1 < 2 ^ 64"
    and rel: "ext p = 0 \<Longrightarrow>
      releasable deinit {(h, j). \<exists>b \<in> slots_of s p. slot_ptr s h j = Some b} p ob s"
  obtains s' where "cap_free_all deinit g (int i) busy s = Some (0, s')" "cap_inv s' ext"
    "only_slots_of p s s'" "ext p = 0 \<longrightarrow> cs_objects s' p = None"
    "0 < ext p \<longrightarrow> (\<exists>n. cs_objects s' p = Some (ob\<lparr>refcount := n\<rparr>) \<and> unat n = ext p)"
proof -
  let ?ob1 = "ob\<lparr>refcount := refcount ob + 1\<rparr>"
  define s1 where "s1 = set_object p (Some ?ob1) s"
  define e1 where "e1 = ext(p := Suc (ext p))"
  have get: "get_opaque g (int i) False TYPE_CAP_GROUP s = Some (Some p, s1)"
    using get_opaque_some [OF inv G a, of ob False] ob(1) p by (simp add: s1_def)
  have inv1: "cap_inv s1 e1"
    unfolding s1_def e1_def
    by (rule inv_recount(1) [OF inv ob(1)]) (use unat_plus_1 [OF ob(2)] in simp_all)
  have ob1: "cs_objects s1 p = Some ?ob1" and e1p: "e1 p = Suc (ext p)"
    by (simp_all add: s1_def e1_def)
  then have held: "0 < e1 p" by simp
  have of1: "slots_of s1 = slots_of s" by (simp add: fun_eq_iff slots_of_def s1_def)
  obtain xs where xs: "dlist (cs_lists s1) (obj_node p) (map slot_node xs)"
    "set xs = slots_of s1 p" by (rule cap_inv_object [OF inv1 ob1])
  from free_copies_ok [OF inv1 ob1 held xs refl, of deinit busy] obtain s2 n where
    s2: "free_copies deinit p (next_of (cs_lists s1) (obj_node p)) busy s1 = Some s2"
      "cap_inv s2 e1" "only_slots_of p s1 s2" "dom (cs_groups s2) = dom (cs_groups s1)"
      and obn: "cs_objects s2 p = Some (ob\<lparr>refcount := n\<rparr>)" and n: "unat n = Suc (ext p)"
    using e1p by auto
  have n1: "n = 1 \<longleftrightarrow> ext p = 0" by (simp add: word_unat_eq_iff n)
  have rel2: "releasable deinit {} p (ob\<lparr>refcount := n\<rparr>) s2" if "n = 1"
  proof -
    have sinv: "slots_inv s" "slots_inv s2" using inv s2(2) by (simp_all add: cap_inv_def)
    have "slot_ptr s2 p j = None" if "obj_type ob = TYPE_CAP_GROUP" for j
    proof (rule ccontr)
      assume "slot_ptr s2 p j \<noteq> None"
      then obtain b sl' where b: "cs_slots s2 b = Some sl'" "slot_group sl' = p" "slot_no sl' = j"
        using slots_inv_ptr [OF sinv(2), of p j] by auto
      then have b': "cs_slots s b = Some sl'" "b \<notin> slots_of s p"
        using s2(3) of1 by (auto simp: only_slots_of_def s1_def split: if_splits)
      with b have "slot_ptr s p j = Some b" using slots_inv_ptr [OF sinv(1), of p j b] by auto
      with rel n1 \<open>n = 1\<close> that b'(2) show False by (auto simp: releasable_def)
    qed
    moreover have "cs_groups s p \<noteq> None \<Longrightarrow> cs_groups s2 p \<noteq> None"
      using s2(4) by (auto simp: s1_def dom_def)
    ultimately show ?thesis using rel n1 that by (auto simp: releasable_def split: if_splits)
  qed
  obtain s3 where s3: "obj_put deinit p s2 = Some s3"
    "cap_inv s3 (e1(p := e1 p - 1))" "cs_slots s3 = cs_slots s2"
    "cs_objects s3 = (cs_objects s2)(p := put_count (ob\<lparr>refcount := n\<rparr>))"
    by (rule obj_put_ok [OF s2(2) obn held]) (use rel2 in auto)
  have e: "e1(p := e1 p - 1) = ext" by (simp add: e1_def)
  have "only_slots_of p s s3"
    using s2(3) s3(3,4) of1 by (auto simp: only_slots_of_def s1_def)
  moreover have "n \<noteq> 0" using n by auto
  then have "unat (n - 1) = ext p" using unat_minus_1 [of n] n by simp
  moreover have "cap_free_all deinit g (int i) busy s = Some (0, s3)"
    using get s2(1) s3(1) by (simp add: cap_free_all_def)
  ultimately show ?thesis using s3(2,4) n1 e
    by (intro that [of s3]) (auto simp: put_count_def)
qed

subsection \<open>Moving a capability\<close>

lemma cap_move_ok:
  assumes inv: "cap_inv s ext" and S: "cs_groups s src = Some S" and D: "cs_groups s dst = Some D"
    and a: "slot_ptr s src j = Some a" "cs_slots s a = Some sl"
    and ob: "cs_objects s (slot_object sl) = Some ob" "unat (refcount ob) + 1 < 2 ^ 64"
    and al: "alloc_slot_id (slot_table D) (cs_kmem s) = Some (int i, st1, k1)"
    and room: "slots_size (slot_table D) + 64 < 2 ^ 32"
  obtains (oom) s' where "cap_move deinit src dst (int j) s = Some (- ENOMEM, s')"
    "cap_inv s' ext" "slot_ptr s' = slot_ptr s"
  | (ok) b s' where "cap_move deinit src dst (int j) s = Some (0, s')" "cap_inv s' ext"
    "slot_ptr s' = (let m = (slot_ptr s)(dst := (slot_ptr s dst)(i \<mapsto> b))
                    in m(src := (m src)(j := None)))"
    "\<exists>sl'. cs_slots s' b = Some sl' \<and> slot_object sl' = slot_object sl"
    "cs_objects s' = cs_objects s"
proof (cases rule: cap_copy_cases [OF inv S D a ob al room])
  case (1 s')
  then show ?thesis by (intro oom [of s']) (simp_all add: cap_move_def ENOMEM_def)
next
  case (2 b s1)
  let ?p = "slot_object sl"
  have S1: "\<exists>S1. cs_groups s1 src = Some S1" using 2(8) S by auto
  then obtain S1 where S1: "cs_groups s1 src = Some S1" ..
  have "(src, j) \<noteq> (dst, i)" using a(1) 2(3) by auto
  then have a1: "slot_ptr s1 src j = Some a" "cs_slots s1 a = Some sl"
    using a 2(4,5,6) by auto
  have ob1: "cs_objects s1 ?p = Some (ob\<lparr>refcount := refcount ob + 1\<rparr>)" using 2(7) by simp
  have pos: "0 < unat (refcount ob)"
  proof -
    obtain xs where "set xs = slots_of s ?p" "unat (refcount ob) = length xs + ext ?p"
      by (rule cap_inv_object [OF inv ob(1)])
    moreover have "a \<in> slots_of s ?p" using a(2) by (simp add: slots_of_def)
    ultimately show ?thesis by (cases xs) auto
  qed
  then have more: "refcount ob + 1 \<noteq> 1" by (auto simp: unat_gt_0)
  obtain s' where s': "cap_free_locked deinit src (int j) False False False s1 = Some (0, s')"
    "cap_inv s' ext" "slot_ptr s' = (slot_ptr s1)(src := (slot_ptr s1 src)(j := None))"
    "cs_slots s' = (cs_slots s1)(a := None)"
    "cs_objects s' = (cs_objects s1)(?p := put_count (ob\<lparr>refcount := refcount ob + 1\<rparr>))"
    by (rule cap_free_locked_ok [OF 2(2) S1 a1 ob1, of deinit False False False]) (use more in auto)
  have "cap_move deinit src dst (int j) s = Some (0, s')"
    using 2(1) s'(1) by (simp add: cap_move_def cap_free_def)
  moreover have "b \<noteq> a" using 2(6) a(2) by auto
  moreover have "cs_objects s' = cs_objects s"
    using s'(5) 2(7) more ob(1) by (simp add: put_count_def fun_upd_idem)
  ultimately show ?thesis using s' 2(4,5)
    by (intro ok [of s' b]) (simp_all add: Let_def)
qed

text \<open>A failure of the expansion in \<open>cap_copy\<close> is not recognised.\<close>

lemma negative_id_crashes:
  assumes "table_wf st"
  shows "free_slot_id (- ENOMEM) st = None" "install_slot (- ENOMEM) a st = None"
proof -
  from assms obtain n where n: "length (slots_bmp st) = n" "64 * n < 2 ^ 32"
    by (auto simp: table_wf_def)
  have "u32_of_int (- ENOMEM) div 64 = 67108863" by (simp add: u32_of_int_def ENOMEM_def)
  moreover have "\<not> 67108863 < length (slots_bmp st)" using n by simp
  ultimately show "free_slot_id (- ENOMEM) st = None" "install_slot (- ENOMEM) a st = None"
    by (simp_all add: free_slot_id_def install_slot_def clear_bit_in_def get_bit_in_def
        BITS_PER_LONG_def load_at_def)
qed

lemma alloc_slot_id_oom:
  assumes "table_wf st" "used_ids st = {0..<slots_size st}" "k = False # k'"
  shows "alloc_slot_id st k = Some (- ENOMEM, st, k')"
proof -
  have "find_empty_slot st = Some None" using find_empty_slot_wf [OF assms(1)] assms(2) by auto
  then show ?thesis
    by (subst alloc_slot_id.simps)
      (simp add: expand_slot_table_def slot_table_init_def Let_def assms(3) ENOMEM_def)
qed

lemma bind_None_I: "(\<And>x. m = Some x \<Longrightarrow> f x = None) \<Longrightarrow> Option.bind m f = None"
  by (cases m) auto

lemma cap_copy_alloc_fails:
  assumes src: "source_slot src i s = Some (Some x)" and D: "cs_groups s dst = Some D"
    "table_wf (slot_table D)"
    and al: "alloc_slot_id (slot_table D) (cs_kmem s) = Some (- ENOMEM, slot_table D, k')"
  shows "cap_copy src dst i s = None"
proof -
  note crash = negative_id_crashes [OF D(2)]
  show ?thesis
  proof (cases rule: kmalloc_addr_cases [of "set_table dst (slot_table D) (s\<lparr>cs_kmem := k'\<rparr>)"])
    case (1 k)
    with src D(1) al crash show ?thesis
      by (simp add: cap_copy_def group_table_def Let_def ENOMEM_def)
  next
    case (2 k)
    with src D(1) al crash show ?thesis
      by (simp add: cap_copy_def group_table_def Let_def ENOMEM_def)
        (auto intro!: bind_None_I split: option.splits)
  qed
qed

end
