(* ===== verification/Cap_Syscalls.thy ===== *)
theory Cap_Syscalls
  imports Cap_Ops
begin

text \<open>
  The users of the capability operations: \<open>cap_insert\<close> and \<open>cap_replace\<close>, the creation
  of capability groups in \<^verbatim>\<open>kernel/object/cap_group.c\<close>, and the system calls of
  \<^verbatim>\<open>kernel/object/capability.c\<close>. The calling thread's group is the argument \<open>cur\<close>;
  user buffers are lists. The set-up of a new address space and the cloning of address space and
  thread work outside this state: the first is left out, the other two are arguments of
  \<open>sys_clone_cap_group\<close>.
\<close>

text \<open>A 64-bit system call argument passed as an \<open>int\<close> slot identifier.\<close>

definition int_of_u64 :: "u64 \<Rightarrow> int" where
  "int_of_u64 w = sint (ucast w :: 32 word)"

subsection \<open>Placing a capability at a given identifier\<close>

text \<open>
  The test on the summary bitmap reads \<open>full_slots_bmp\<close> at the word index of
  \<open>slots_bmp\<close>, as in the source.
\<close>

definition cap_insert :: "addr \<Rightarrow> addr \<Rightarrow> u64 \<Rightarrow> int \<Rightarrow> cstate \<Rightarrow> (int \<times> cstate) option" where
  "cap_insert g p rights slot_id s =
     do { st \<leftarrow> group_table s g;
          bug_on (slot_id < 0 \<or> int (slots_size st) \<le> slot_id);
          b \<leftarrow> set_bit_in (nat slot_id) (slots_bmp st);
          w \<leftarrow> load_at (full_slots_bmp st) (nat slot_id div BITS_PER_LONG);
          f \<leftarrow> (if w = NOT 0 then set_bit_in (nat slot_id div BITS_PER_LONG) (full_slots_bmp st)
               else Some (full_slots_bmp st));
          let st1 = st\<lparr>slots_bmp := b, full_slots_bmp := f\<rparr>;
          slot \<leftarrow> load_at (slots st1) (nat slot_id);
          let s1 = set_table g st1 s;
          case (case slot of None \<Rightarrow> kmalloc_addr s1 | Some a \<Rightarrow> (Some a, s1)) of
            (None, s2) \<Rightarrow>
              do { st2 \<leftarrow> free_slot_id slot_id st1;
                   Some (- ENOMEM, set_table g st2 s2) }
          | (Some a, s2) \<Rightarrow>
              do { ob \<leftarrow> cs_objects s2 p;
                   let s3 = set_lists (list_add (slot_node a) (obj_node p))
                     (set_slot a (Some \<lparr>slot_no = nat slot_id, slot_group = g, isvalid = True,
                        slot_rights = Some rights, slot_object = p\<rparr>) s2);
                   let s4 = set_object p (Some (ob\<lparr>refcount := refcount ob + 1\<rparr>)) s3;
                   st2 \<leftarrow> install_slot slot_id a st1;
                   Some (slot_id, set_table g st2 s4) } }"

definition cap_replace :: "addr \<Rightarrow> addr \<Rightarrow> int \<Rightarrow> cstate \<Rightarrow> (int \<times> cstate) option" where
  "cap_replace g p slot_id s =
     do { st \<leftarrow> group_table s g;
          bug_on (slot_id < 0 \<or> int (slots_size st) \<le> slot_id);
          b \<leftarrow> get_bit_in (nat slot_id) (slots_bmp st);
          bug_on (\<not> b);
          slot \<leftarrow> load_at (slots st) (nat slot_id);
          a \<leftarrow> slot;
          sl \<leftarrow> cs_slots s a;
          if slot_object sl = p then Some (slot_id, s)
          else do { ob \<leftarrow> cs_objects s p;
                    let s1 = set_lists (list_add (slot_node a) (obj_node p))
                      (set_slot a (Some (sl\<lparr>slot_object := p\<rparr>)) s);
                    Some (slot_id, set_object p (Some (ob\<lparr>refcount := refcount ob + 1\<rparr>)) s1) } }"

subsection \<open>Capability groups\<close>

definition CAP_GROUP_OBJ_ID :: int where "CAP_GROUP_OBJ_ID = 0"
definition VMSPACE_OBJ_ID :: int where "VMSPACE_OBJ_ID = 1"
definition ROOT_CAP_GROUP_BADGE :: u64 where "ROOT_CAP_GROUP_BADGE = 1"
definition PROCMGR_BADGE :: u64 where "PROCMGR_BADGE = ROOT_CAP_GROUP_BADGE"
definition FSM_BADGE :: u64 where "FSM_BADGE = 2"
definition MAX_GROUP_NAME_LEN :: nat where "MAX_GROUP_NAME_LEN = 63"

lemmas group_consts = CAP_GROUP_OBJ_ID_def VMSPACE_OBJ_ID_def ROOT_CAP_GROUP_BADGE_def
  PROCMGR_BADGE_def FSM_BADGE_def MAX_GROUP_NAME_LEN_def

text \<open>
  The futex of the group needs two allocations; \<open>futex_init\<close> writes through the first
  pointer without a test, so its failure is a crash.
\<close>

definition cap_group_init :: "addr \<Rightarrow> nat \<Rightarrow> u64 \<Rightarrow> bool \<Rightarrow> cstate \<Rightarrow> cstate option" where
  "cap_group_init g sz bdg cross s =
     (case slot_table_init sz (cs_kmem s) of
        (Inl r, k) \<Rightarrow> None
      | (Inr st, k) \<Rightarrow>
          (let (futex_ok, k1) = kmalloc_outcome k;
               (buckets_ok, k2) = kmalloc_outcome k1
           in if \<not> futex_ok then None
              else Some (s\<lparr>cs_kmem := k2,
                cs_groups := (cs_groups s)(g \<mapsto> \<lparr>slot_table = st, thread_cnt = 0, badge = bdg,
                  is_cross_machine = cross, notify_recycler = 0, cap_group_name = ''''\<rparr>)\<rparr>)))"

definition set_group_name :: "addr \<Rightarrow> string \<Rightarrow> nat \<Rightarrow> cstate \<Rightarrow> cstate" where
  "set_group_name g name len s =
     s\<lparr>cs_groups := (cs_groups s)(g := map_option
        (\<lambda>G. G\<lparr>cap_group_name := take (min len MAX_GROUP_NAME_LEN) name\<rparr>) (cs_groups s g))\<rparr>"

definition set_notify_recycler :: "addr \<Rightarrow> int \<Rightarrow> cstate \<Rightarrow> cstate" where
  "set_notify_recycler g v s =
     s\<lparr>cs_groups := (cs_groups s)(g := map_option (\<lambda>G. G\<lparr>notify_recycler := v\<rparr>) (cs_groups s g))\<rparr>"

text \<open>
  Build-time values: the memory tier \<open>__MT_OBJECT__\<close> stands for, and the sizes of the
  structures.
\<close>

record build =
  mt_object :: mem_t
  sizeof_cap_group :: nat
  sizeof_vmspace :: nat
  sizeof_thread :: nat

definition create_root_cap_group :: "build \<Rightarrow> string \<Rightarrow> cstate \<Rightarrow> (addr \<times> cstate) option" where
  "create_root_cap_group bld name s =
     (case object_alloc TYPE_CAP_GROUP (sizeof_cap_group bld) (mt_object bld) s of
        (None, s1) \<Rightarrow> None
      | (Some g, s1) \<Rightarrow>
          do { s2 \<leftarrow> cap_group_init g BASE_OBJECT_NUM ROOT_CAP_GROUP_BADGE False s1;
               (slot_id, s3) \<leftarrow> cap_alloc g g 0 s2;
               bug_on (slot_id \<noteq> CAP_GROUP_OBJ_ID);
               case object_alloc TYPE_VMSPACE (sizeof_vmspace bld) (mt_object bld) s3 of
                 (None, s4) \<Rightarrow> None
               | (Some v, s4) \<Rightarrow>
                   do { (slot_id2, s5) \<leftarrow> cap_alloc g v 0 s4;
                        bug_on (slot_id2 \<noteq> VMSPACE_OBJ_ID);
                        Some (g, set_group_name g name (length name) s5) } })"

text \<open>The labels \<open>out_free_obj_vmspace\<close> and \<open>out_free_cap_grp_current\<close>.\<close>

definition create_group_undo ::
    "deinit_fn \<Rightarrow> addr \<Rightarrow> int \<Rightarrow> int \<Rightarrow> addr option \<Rightarrow> cstate \<Rightarrow> (int \<times> cstate) option" where
  "create_group_undo deinit cur cap r vmspace s =
     do { s1 \<leftarrow> obj_free vmspace s;
          (_, s2) \<leftarrow> cap_free deinit cur cap s1;
          Some (r, s2) }"

definition sys_create_cap_group ::
    "build \<Rightarrow> deinit_fn \<Rightarrow> addr \<Rightarrow> u64 \<Rightarrow> string \<Rightarrow> nat \<Rightarrow> bool \<Rightarrow> cstate \<Rightarrow> (int \<times> cstate) option" where
  "sys_create_cap_group bld deinit cur bdg name name_len cross s =
     do { C \<leftarrow> cs_groups s cur;
          if badge C \<noteq> ROOT_CAP_GROUP_BADGE \<and> badge C \<noteq> FSM_BADGE \<and> badge C \<noteq> PROCMGR_BADGE
          then Some (- EPERM, s)
          else case object_alloc TYPE_CAP_GROUP (sizeof_cap_group bld) MT_SHARED s of
            (None, s1) \<Rightarrow> Some (- ENOMEM, s1)
          | (Some g, s1) \<Rightarrow>
              do { s2 \<leftarrow> cap_group_init g BASE_OBJECT_NUM bdg cross s1;
                   (cap, s3) \<leftarrow> cap_alloc cur g 0 s2;
                   if cap < 0 then do { s4 \<leftarrow> obj_free (Some g) s3; Some (cap, s4) }
                   else do { (first, s4) \<leftarrow> cap_copy cur g cap s3;
                             if first \<noteq> CAP_GROUP_OBJ_ID
                             then create_group_undo deinit cur cap (-1) None s4
                             else case object_alloc TYPE_VMSPACE (sizeof_vmspace bld) MT_SHARED s4 of
                               (None, s5) \<Rightarrow> create_group_undo deinit cur cap (- ENOMEM) None s5
                             | (Some v, s5) \<Rightarrow>
                                 do { (r, s6) \<leftarrow> cap_alloc g v 0 s5;
                                      if r < 0 then create_group_undo deinit cur cap r (Some v) s6
                                      else do { bug_on (r \<noteq> VMSPACE_OBJ_ID);
                                                Some (cap, set_group_name g name name_len
                                                  (set_notify_recycler g 0 s6)) } } } } }"

text \<open>
  \<open>sys_clone_cap_group\<close>: \<open>vmspace_clone\<close> and \<open>thread_clone\<close> are arguments. The failure
  labels release objects that already have a capability.
\<close>

record clone_cap_group_args =
  child_badge :: u64
  child_pcid :: u64
  child_mt_cap :: u64
  fs_server_cap :: u64
  lwip_server_cap :: u64
  procmgr_server_cap :: u64
  parent_badge :: u64

definition clone_undo ::
    "addr option \<Rightarrow> addr option \<Rightarrow> addr \<Rightarrow> int \<Rightarrow> cstate \<Rightarrow> (int \<times> clone_cap_group_args option \<times> cstate) option" where
  "clone_undo thread vmspace g r s =
     do { s1 \<leftarrow> obj_free thread s;
          s2 \<leftarrow> obj_free vmspace s1;
          s3 \<leftarrow> obj_free (Some g) s2;
          Some (r, None, s3) }"

definition sys_clone_cap_group ::
    "build \<Rightarrow> deinit_fn \<Rightarrow> (addr \<Rightarrow> addr \<Rightarrow> cstate \<Rightarrow> (int \<times> cstate) option) \<Rightarrow>
     (addr \<Rightarrow> addr \<Rightarrow> cstate \<Rightarrow> cstate option) \<Rightarrow> addr \<Rightarrow> clone_cap_group_args \<Rightarrow> cstate \<Rightarrow>
     (int \<times> clone_cap_group_args option \<times> cstate) option" where
  "sys_clone_cap_group bld deinit vmspace_clone thread_clone cur args s =
     do { C \<leftarrow> cs_groups s cur;
          case object_alloc TYPE_CAP_GROUP (sizeof_cap_group bld) (mt_object bld) s of
            (None, s1) \<Rightarrow> Some (- ENOMEM, None, s1)
          | (Some g, s1) \<Rightarrow>
              do { s2 \<leftarrow> cap_group_init g BASE_OBJECT_NUM (child_badge args) False s1;
                   (r, s3) \<leftarrow> cap_alloc g g 0 s2;
                   if r < 0 then do { s4 \<leftarrow> obj_free (Some g) s3; Some (r, None, s4) }
                   else do { bug_on (r \<noteq> CAP_GROUP_OBJ_ID);
                     let s3 = set_group_name g (cap_group_name C) MAX_GROUP_NAME_LEN
                       (set_notify_recycler g 0 s3);
                     case object_alloc TYPE_VMSPACE (sizeof_vmspace bld) (mt_object bld) s3 of
                       (None, s4) \<Rightarrow> clone_undo None None g (- ENOMEM) s4
                     | (Some v, s4) \<Rightarrow>
                         do { (r2, s5) \<leftarrow> cap_alloc g v 0 s4;
                              if r2 < 0 then clone_undo None (Some v) g r2 s5
                              else do { bug_on (r2 \<noteq> VMSPACE_OBJ_ID);
                                case object_alloc TYPE_THREAD (sizeof_thread bld) (mt_object bld) s5 of
                                  (None, s6) \<Rightarrow> clone_undo None (Some v) g r2 s6
                                | (Some t, s6) \<Rightarrow>
                                    do { (r3, s7) \<leftarrow> cap_alloc g t 0 s6;
                                         if r3 < 0 then clone_undo (Some t) (Some v) g r3 s7
                                         else do {
                                           (fs, s8) \<leftarrow> cap_copy cur g (int_of_u64 (fs_server_cap args)) s7;
                                           (lw, s9) \<leftarrow> cap_copy cur g (int_of_u64 (lwip_server_cap args)) s8;
                                           (pm, s10) \<leftarrow> cap_copy cur g (int_of_u64 (procmgr_server_cap args)) s9;
                                           let args1 = args\<lparr>fs_server_cap := of_int fs,
                                             lwip_server_cap := of_int lw,
                                             procmgr_server_cap := of_int pm,
                                             child_mt_cap := of_int r3, parent_badge := badge C\<rparr>;
                                           (r4, s11) \<leftarrow> vmspace_clone v g s10;
                                           if r4 < 0
                                           then do { (_, s12) \<leftarrow> obj_get g VMSPACE_OBJ_ID TYPE_VMSPACE s11;
                                                     s13 \<leftarrow> obj_put deinit v s12;
                                                     clone_undo (Some t) (Some v) g r4 s13 }
                                           else do { s12 \<leftarrow> thread_clone g t s11;
                                                     Some (int_of_u64 (child_pcid args), Some args1, s12) }
                                         } } } } } } }"

subsection \<open>System calls\<close>

definition sys_cap_copy_to :: "deinit_fn \<Rightarrow> addr \<Rightarrow> u64 \<Rightarrow> u64 \<Rightarrow> cstate \<Rightarrow> (int \<times> cstate) option" where
  "sys_cap_copy_to deinit cur dest_cap_group_cap src_slot_id s =
     do { (dest, s1) \<leftarrow> obj_get cur (int_of_u64 dest_cap_group_cap) TYPE_CAP_GROUP s;
          case dest of
            None \<Rightarrow> Some (- ECAPBILITY, s1)
          | Some d \<Rightarrow>
              do { (r, s2) \<leftarrow> cap_copy cur d (int_of_u64 src_slot_id) s1;
                   s3 \<leftarrow> obj_put deinit d s2;
                   Some (r, s3) } }"

definition sys_cap_copy_from :: "deinit_fn \<Rightarrow> addr \<Rightarrow> u64 \<Rightarrow> u64 \<Rightarrow> cstate \<Rightarrow> (int \<times> cstate) option" where
  "sys_cap_copy_from deinit cur src_cap_group_cap src_slot_id s =
     do { (src, s1) \<leftarrow> obj_get cur (int_of_u64 src_cap_group_cap) TYPE_CAP_GROUP s;
          case src of
            None \<Rightarrow> Some (- ECAPBILITY, s1)
          | Some d \<Rightarrow>
              do { (r, s2) \<leftarrow> cap_copy d cur (int_of_u64 src_slot_id) s1;
                   s3 \<leftarrow> obj_put deinit d s2;
                   Some (r, s3) } }"

fun transfer_loop :: "addr \<Rightarrow> addr \<Rightarrow> int list \<Rightarrow> cstate \<Rightarrow> (int list \<times> cstate) option" where
  "transfer_loop cur d [] s = Some ([], s)"
| "transfer_loop cur d (c # cs) s =
     do { (r, s1) \<leftarrow> cap_copy cur d c s;
          (rs, s2) \<leftarrow> transfer_loop cur d cs s1;
          Some (r # rs, s2) }"

text \<open>
  The two kernel buffers are not tested: a failed allocation is a write through a null pointer.
  \<open>src_caps\<close> is what the user buffer holds; the second result is what is written back.
\<close>

definition sys_transfer_caps ::
    "deinit_fn \<Rightarrow> addr \<Rightarrow> u64 \<Rightarrow> int list \<Rightarrow> int \<Rightarrow> cstate \<Rightarrow> (int \<times> int list \<times> cstate) option" where
  "sys_transfer_caps deinit cur dest_group_cap src_caps nr_caps s =
     do { (dest, s1) \<leftarrow> obj_get cur (int_of_u64 dest_group_cap) TYPE_CAP_GROUP s;
          case dest of
            None \<Rightarrow> Some (- ECAPBILITY, [], s1)
          | Some d \<Rightarrow>
              if nr_caps < 0 \<or> 1024 < nr_caps
              then do { s2 \<leftarrow> obj_put deinit d s1; Some (- EINVAL, [], s2) }
              else do { let (ok1, k1) = kmalloc_outcome (cs_kmem s1);
                        let (ok2, k2) = kmalloc_outcome k1;
                        bug_on (\<not> ok1 \<or> \<not> ok2);
                        (dst_caps, s2) \<leftarrow> transfer_loop cur d (take (nat nr_caps) src_caps)
                          (s1\<lparr>cs_kmem := k2\<rparr>);
                        s3 \<leftarrow> obj_put deinit d s2;
                        Some (0, dst_caps, s3) } }"

definition sys_cap_move :: "deinit_fn \<Rightarrow> addr \<Rightarrow> u64 \<Rightarrow> u64 \<Rightarrow> cstate \<Rightarrow> (int \<times> cstate) option" where
  "sys_cap_move deinit cur dest_cap_group_cap src_slot_id s =
     do { (dest, s1) \<leftarrow> obj_get cur (int_of_u64 dest_cap_group_cap) TYPE_CAP_GROUP s;
          case dest of
            None \<Rightarrow> Some (- ECAPBILITY, s1)
          | Some d \<Rightarrow>
              do { (r, s2) \<leftarrow> cap_move deinit cur d (int_of_u64 src_slot_id) s1;
                   s3 \<leftarrow> obj_put deinit d s2;
                   Some (r, s3) } }"

fun list_caps :: "slot_table \<Rightarrow> nat list \<Rightarrow> cstate \<Rightarrow> (nat \<times> object_type) list option" where
  "list_caps st [] s = Some []"
| "list_caps st (i # is) s =
     do { slot \<leftarrow> get_slot st (int i);
          case slot of
            None \<Rightarrow> list_caps st is s
          | Some a \<Rightarrow>
              do { sl \<leftarrow> cs_slots s a;
                   bug_on (\<not> isvalid sl);
                   ob \<leftarrow> cs_objects s (slot_object sl);
                   rest \<leftarrow> list_caps st is s;
                   Some ((i, obj_type ob) # rest) } }"

text \<open>The second result is what the call prints.\<close>

definition sys_get_all_caps ::
    "deinit_fn \<Rightarrow> addr \<Rightarrow> u64 \<Rightarrow> cstate \<Rightarrow> (int \<times> (nat \<times> object_type) list \<times> cstate) option" where
  "sys_get_all_caps deinit cur cap_group_cap s =
     do { (grp, s1) \<leftarrow> obj_get cur (int_of_u64 cap_group_cap) TYPE_CAP_GROUP s;
          case grp of
            None \<Rightarrow> Some (- ECAPBILITY, [], s1)
          | Some g \<Rightarrow>
              do { st \<leftarrow> group_table s1 g;
                   out \<leftarrow> list_caps st [0..<slots_size st] s1;
                   s2 \<leftarrow> obj_put deinit g s1;
                   Some (0, out, s2) } }"

definition sys_revoke_cap :: "deinit_fn \<Rightarrow> addr \<Rightarrow> u64 \<Rightarrow> cstate \<Rightarrow> (int \<times> cstate) option" where
  "sys_revoke_cap deinit cur obj_cap s = cap_free deinit cur (int_of_u64 obj_cap) s"

subsection \<open>New objects and groups\<close>

lemma dlist_init_other:
  assumes "dlist h l xs" "n \<notin> set (l # xs)"
  shows "dlist (init_list_head n h) l xs"
proof -
  have "next_of (init_list_head n h) m = next_of h m" "prev_of (init_list_head n h) m = prev_of h m"
    if "m \<in> set (l # xs)" for m
    using that assms(2) by (auto simp: init_list_head_def)
  then show ?thesis using dlist_frame [of l xs "init_list_head n h" h] assms(1) by blast
qed

definition fresh_object :: "object_type \<Rightarrow> nat \<Rightarrow> mem_t \<Rightarrow> kobject" where
  "fresh_object ty sz flags = \<lparr>obj_type = ty, obj_size = sz, refcount = 0, obj_mem_type = flags,
     obj_status = DSM_STATUS_INVALID, pair_obj = None\<rparr>"

lemma inv_new_object:
  assumes inv: "cap_inv s ext" and ext: "ext (cs_brk s) = 0"
    and s': "cs_objects s' = (cs_objects s)(cs_brk s \<mapsto> fresh_object ty sz flags)"
      "cs_slots s' = cs_slots s" "cs_groups s' = cs_groups s"
      "cs_lists s' = init_list_head (obj_node (cs_brk s)) (cs_lists s)"
      "cs_brk s' = cs_brk s + 1"
  shows "cap_inv s' ext" and "slot_ptr s' = slot_ptr s"
proof -
  let ?p = "cs_brk s"
  have old: "slots_inv s" using inv by (simp add: cap_inv_def)
  have none: "cs_objects s ?p = None"
    using inv by (cases "cs_objects s ?p") (auto simp: cap_inv_def objects_inv_def)
  show ptr: "slot_ptr s' = slot_ptr s" by (simp add: fun_eq_iff slot_ptr_def s'(3))
  have of: "slots_of s' = slots_of s" by (simp add: fun_eq_iff slots_of_def s'(2))
  have obj: "cs_objects s' q = Some ob" if "cs_objects s q = Some ob" for q ob
    using that none s'(1) by auto
  have "tables_inv s'"
    unfolding tables_inv_def s'(3) using cap_inv_group [OF inv] obj by blast
  moreover have "slots_inv s'"
    unfolding slots_inv_def ptr s'(2,5)
    using slots_inv_ptr [OF old] slots_inv_slot(1,2,4) [OF old] obj by (fastforce simp: less_Suc_eq)
  moreover have "copies_ok s' ext q (unat (refcount obq)) \<and> q < cs_brk s'"
    if q: "cs_objects s' q = Some obq" for q obq
  proof (cases "q = ?p")
    case True
    have "slots_of s ?p = {}"
      using slots_inv_slot(4) [OF old] none by (fastforce simp: slots_of_def)
    then have "copies_ok s' ext ?p 0"
      using dlist_init [of "obj_node ?p" "cs_lists s"] ext
      unfolding copies_ok_def of s'(4) by (intro exI [of _ "[]"]) simp
    with True q s'(1,5) show ?thesis by (auto simp: fresh_object_def)
  next
    case False
    then have "cs_objects s q = Some obq" using q s'(1) by simp
    then obtain xs where xs: "dlist (cs_lists s) (obj_node q) (map slot_node xs)"
      "set xs = slots_of s q" "unat (refcount obq) = length xs + ext q" "q < cs_brk s"
      by (rule cap_inv_object [OF inv])
    with dlist_init_other [OF xs(1), of "obj_node ?p"] False show ?thesis
      unfolding copies_ok_def of s'(4,5) by (intro conjI exI [of _ xs]) auto
  qed
  ultimately show "cap_inv s' ext" by (simp add: cap_inv_def objects_inv_def)
qed

lemma object_alloc_cases:
  assumes inv: "cap_inv s ext" and ext: "ext (cs_brk s) = 0"
  obtains (oom) s' where "object_alloc ty sz flags s = (None, s')" "cap_inv s' ext"
    "slot_ptr s' = slot_ptr s" "cs_objects s' = cs_objects s" "cs_groups s' = cs_groups s"
    "False \<in> set (cs_kmem s)"
  | (ok) s' where "object_alloc ty sz flags s = (Some (cs_brk s), s')" "cap_inv s' ext"
    "slot_ptr s' = slot_ptr s" "cs_objects s (cs_brk s) = None"
    "cs_objects s' = (cs_objects s)(cs_brk s \<mapsto> fresh_object ty sz flags)"
    "cs_groups s' = cs_groups s" "cs_slots s' = cs_slots s" "cs_brk s' = Suc (cs_brk s)"
    "set (cs_kmem s') \<subseteq> set (cs_kmem s)" "cs_groups s (cs_brk s) = None"
proof (cases rule: kmalloc_addr_cases [of s])
  case (1 k)
  have "cap_inv (s\<lparr>cs_kmem := k\<rparr>) ext"
    using inv by (simp add: cap_inv_def tables_inv_def slots_inv_def objects_inv_def copies_ok_def
        slot_ptr_def slots_of_def)
  with 1 show ?thesis
    by (intro oom [of "s\<lparr>cs_kmem := k\<rparr>"]) (simp_all add: object_alloc_def slot_ptr_def fun_eq_iff)
next
  case (2 k)
  let ?s' = "set_lists (init_list_head (obj_node (cs_brk s)))
    (set_object (cs_brk s) (Some (fresh_object ty sz flags)) (s\<lparr>cs_kmem := k, cs_brk := cs_brk s + 1\<rparr>))"
  have run: "object_alloc ty sz flags s = (Some (cs_brk s), ?s')"
    using 2(1) by (simp add: object_alloc_def fresh_object_def)
  have no: "cs_objects s (cs_brk s) = None"
    using inv by (cases "cs_objects s (cs_brk s)") (auto simp: cap_inv_def objects_inv_def)
  moreover have "cs_groups s (cs_brk s) = None"
    using no cap_inv_group(3) [OF inv, of "cs_brk s"] by (cases "cs_groups s (cs_brk s)") auto
  moreover have "cap_inv ?s' ext" "slot_ptr ?s' = slot_ptr s"
    by (rule inv_new_object [OF inv ext]; simp)+
  ultimately show ?thesis using run 2(2) by (intro ok [of ?s']) simp_all
qed

text \<open>An empty table for a group object that has none.\<close>

lemma inv_new_group:
  assumes inv: "cap_inv s ext" and ob: "cs_objects s g = Some ob" "obj_type ob = TYPE_CAP_GROUP"
    and none: "cs_groups s g = None"
    and G: "table_wf (slot_table G)" "slots_consistent (slot_table G)"
      "\<And>i. table_at (slot_table G) i = None"
    and s': "cs_groups s' = (cs_groups s)(g \<mapsto> G)" "cs_objects s' = cs_objects s"
      "cs_slots s' = cs_slots s" "cs_lists s' = cs_lists s" "cs_brk s' = cs_brk s"
  shows "cap_inv s' ext" and "slot_ptr s' = slot_ptr s"
proof -
  have old: "slots_inv s" using inv by (simp add: cap_inv_def)
  show ptr: "slot_ptr s' = slot_ptr s"
    using none G(3) s'(1) by (auto simp: fun_eq_iff slot_ptr_def)
  have of: "slots_of s' = slots_of s" by (simp add: fun_eq_iff slots_of_def s'(3))
  have "tables_inv s'"
    using cap_inv_group [OF inv] ob G(1,2) unfolding tables_inv_def s'(1,2) by auto
  moreover have "slots_inv s'"
    using old unfolding slots_inv_def ptr s'(2,3,5) .
  moreover have "objects_inv s' ext"
    using inv unfolding cap_inv_def objects_inv_def copies_ok_def of s'(2,4,5) by simp
  ultimately show "cap_inv s' ext" by (simp add: cap_inv_def)
qed

lemma slot_table_init_base:
  "slot_table_init BASE_OBJECT_NUM k = slot_table_init (64 * 1) k"
  by (simp add: BASE_OBJECT_NUM_def BITS_PER_LONG_def)

lemma empty_table:
  assumes "st = \<lparr>slots_size = 64 * 1, slots = replicate (64 * 1) None,
    full_slots_bmp = replicate (BITS_TO_LONGS 1) 0, slots_bmp = replicate 1 0\<rparr>"
  shows "table_wf st" "slots_consistent st" "table_at st i = None" "slots_size st = 64"
proof -
  show "table_wf st" unfolding assms by (rule table_wf_init) simp_all
  show "slots_consistent st" unfolding assms slots_consistent_def by (simp add: bmp_at_def)
  show "table_at st i = None" "slots_size st = 64" unfolding assms by (simp_all add: table_at_def)
qed

lemma cap_group_init_cases:
  assumes inv: "cap_inv s ext" and ob: "cs_objects s g = Some ob" "obj_type ob = TYPE_CAP_GROUP"
    and none: "cs_groups s g = None"
  obtains (crash) "cap_group_init g BASE_OBJECT_NUM bdg cross s = None" "False \<in> set (cs_kmem s)"
  | (ok) s' G where "cap_group_init g BASE_OBJECT_NUM bdg cross s = Some s'" "cap_inv s' ext"
    "slot_ptr s' = slot_ptr s" "cs_groups s' = (cs_groups s)(g \<mapsto> G)" "badge G = bdg"
    "slots_size (slot_table G) = 64" "cs_objects s' = cs_objects s" "cs_brk s' = cs_brk s"
    "cs_slots s' = cs_slots s" "set (cs_kmem s') \<subseteq> set (cs_kmem s)"
proof -
  have bound: "64 * 1 < (2 ^ 32 :: nat)" by simp
  show ?thesis
  proof (cases rule: slot_table_init_cases [OF bound, of "cs_kmem s"])
    case (1 k')
    then show ?thesis
      by (intro crash) (simp_all only: cap_group_init_def slot_table_init_base prod.case sum.case)
  next
    case (2 k)
    let ?st = "\<lparr>slots_size = 64 * 1, slots = replicate (64 * 1) None,
      full_slots_bmp = replicate (BITS_TO_LONGS 1) 0, slots_bmp = replicate 1 0\<rparr>"
    obtain b1 k1 where k1: "kmalloc_outcome k = (b1, k1)" by fastforce
    obtain b2 k2 where k2: "kmalloc_outcome k1 = (b2, k2)" by fastforce
    note mem = kmalloc_outcome_set [OF k1] kmalloc_outcome_set [OF k2] 2(1)
    let ?G = "\<lparr>slot_table = ?st, thread_cnt = 0, badge = bdg, is_cross_machine = cross,
      notify_recycler = 0, cap_group_name = ''''\<rparr>"
    define s' where "s' = s\<lparr>cs_kmem := k2, cs_groups := (cs_groups s)(g \<mapsto> ?G)\<rparr>"
    have run: "cap_group_init g BASE_OBJECT_NUM bdg cross s = (if b1 then Some s' else None)"
      unfolding cap_group_init_def slot_table_init_base 2(2) s'_def using k1 k2 by simp
    have tbl: "table_wf (slot_table ?G)" "slots_consistent (slot_table ?G)"
      "\<And>i. table_at (slot_table ?G) i = None" "slots_size (slot_table ?G) = 64"
      using empty_table [of ?st, OF refl] by simp_all
    show ?thesis
    proof (cases b1)
      case False
      with run mem show ?thesis by (intro crash) auto
    next
      case True
      have "cap_inv s' ext" "slot_ptr s' = slot_ptr s"
        by (rule inv_new_group [OF inv ob none tbl(1-3)]; simp add: s'_def)+
      with True run mem tbl(4) show ?thesis by (intro ok [of s' ?G]) (auto simp: s'_def)
    qed
  qed
qed

text \<open>Fields of a group other than its table do not matter for the invariant.\<close>

lemma inv_meta:
  assumes inv: "cap_inv s ext"
    and f: "\<And>G. slot_table (f G) = slot_table G"
    and s': "s' = s\<lparr>cs_groups := (cs_groups s)(g := map_option f (cs_groups s g))\<rparr>"
  shows "cap_inv s' ext" "slot_ptr s' = slot_ptr s"
proof -
  show ptr: "slot_ptr s' = slot_ptr s"
    using f by (auto simp: fun_eq_iff slot_ptr_def s' split: option.splits)
  have "tables_inv s'"
    using inv f by (auto simp: cap_inv_def tables_inv_def s' split: if_splits)
  moreover have "slots_inv s'" using inv unfolding cap_inv_def slots_inv_def ptr by (simp add: s')
  moreover have "objects_inv s' ext"
    using inv by (simp add: cap_inv_def objects_inv_def copies_ok_def slots_of_def s')
  ultimately show "cap_inv s' ext" by (simp add: cap_inv_def)
qed

lemma set_group_name_inv:
  assumes "cap_inv s ext"
  shows "cap_inv (set_group_name g name n s) ext" "slot_ptr (set_group_name g name n s) = slot_ptr s"
  by (rule inv_meta [OF assms, where f = "\<lambda>G. G\<lparr>cap_group_name := take (min n MAX_GROUP_NAME_LEN) name\<rparr>"
        and g = g]; simp add: set_group_name_def)+

lemma set_group_name_sel [simp]:
  "cs_objects (set_group_name g name n s) = cs_objects s"
  "cs_slots (set_group_name g name n s) = cs_slots s"
  "cs_brk (set_group_name g name n s) = cs_brk s" "cs_kmem (set_group_name g name n s) = cs_kmem s"
  by (simp_all add: set_group_name_def)

text \<open>A fresh capability goes to the first identifier of the group that is free.\<close>

lemma cap_alloc_first:
  assumes inv: "cap_inv s ext" and G: "cs_groups s g = Some G" "slots_size (slot_table G) + 64 < 2 ^ 32"
    and ob: "cs_objects s p = Some ob" "refcount ob = 0" and mem: "False \<notin> set (cs_kmem s)"
    and first: "slot_ptr s g i = None" "\<forall>j < i. slot_ptr s g j \<noteq> None"
  obtains a s' st where "cap_alloc g p rights s = Some (int i, s')" "cap_inv s' ext"
    "slot_ptr s' = (slot_ptr s)(g := (slot_ptr s g)(i \<mapsto> a))"
    "cs_slots s' = (cs_slots s)(a \<mapsto> \<lparr>slot_no = i, slot_group = g, isvalid = True,
       slot_rights = Some rights, slot_object = p\<rparr>)"
    "cs_slots s a = None"
    "cs_objects s' = (cs_objects s)(p \<mapsto> ob\<lparr>refcount := 1, obj_status := DSM_STATUS_INUSE\<rparr>)"
    "cs_groups s' = (cs_groups s)(g \<mapsto> G\<lparr>slot_table := st\<rparr>)"
    "slots_size st \<le> slots_size (slot_table G) + 64" "False \<notin> set (cs_kmem s')"
    "cs_brk s' = Suc (cs_brk s)"
proof (cases rule: cap_alloc_cases [OF inv G ob, of rights])
  case (1 s')
  with mem show ?thesis by simp
next
  case (2 k a s')
  have "k = i" using 2(3,4) first by (metis linorder_neqE_nat)
  with 2 mem that show ?thesis by blast
qed

text \<open>The two halves of creating a group: the group object with its table, then its address space.\<close>

lemma new_group:
  assumes inv: "cap_inv s ext" and ext: "ext (cs_brk s) = 0" and mem: "False \<notin> set (cs_kmem s)"
  obtains s1 s2 G where "object_alloc TYPE_CAP_GROUP sz flags s = (Some (cs_brk s), s1)"
    "cap_group_init (cs_brk s) BASE_OBJECT_NUM bdg cross s1 = Some s2" "cap_inv s2 ext"
    "slot_ptr s2 = slot_ptr s" "slot_ptr s (cs_brk s) = Map.empty"
    "cs_groups s2 = (cs_groups s)(cs_brk s \<mapsto> G)" "badge G = bdg" "slots_size (slot_table G) = 64"
    "cs_objects s2 = (cs_objects s)(cs_brk s \<mapsto> fresh_object TYPE_CAP_GROUP sz flags)"
    "cs_slots s2 = cs_slots s" "False \<notin> set (cs_kmem s2)" "cs_brk s2 = Suc (cs_brk s)"
proof (cases rule: object_alloc_cases [OF inv ext, of TYPE_CAP_GROUP sz flags])
  case (1 s')
  with mem show ?thesis by simp
next
  case (2 s1)
  have o: "cs_objects s1 (cs_brk s) = Some (fresh_object TYPE_CAP_GROUP sz flags)"
    "obj_type (fresh_object TYPE_CAP_GROUP sz flags) = TYPE_CAP_GROUP"
    "cs_groups s1 (cs_brk s) = None" using 2(5,6,10) by (simp_all add: fresh_object_def)
  have mem1: "False \<notin> set (cs_kmem s1)" using 2(9) mem by auto
  have empty: "slot_ptr s (cs_brk s) = Map.empty" using 2(10) by (simp add: fun_eq_iff slot_ptr_def)
  show ?thesis
  proof (cases rule: cap_group_init_cases [OF 2(2) o, of bdg cross])
    case 1
    with mem1 show ?thesis by simp
  next
    case ok: (2 s2 G)
    with 2 mem1 empty show ?thesis by (intro that [of s1 s2 G]) auto
  qed
qed

lemma create_root_ok:
  assumes inv: "cap_inv s ext" and ext: "\<And>p. cs_brk s \<le> p \<Longrightarrow> ext p = 0"
    and mem: "False \<notin> set (cs_kmem s)"
  shows "\<exists>g v a b s'. create_root_cap_group bld name s = Some (g, s') \<and> cap_inv s' ext \<and>
    slot_ptr s' g = [0 \<mapsto> a, 1 \<mapsto> b] \<and>
    map_option slot_object (cs_slots s' a) = Some g \<and>
    map_option slot_object (cs_slots s' b) = Some v \<and>
    map_option obj_type (cs_objects s' g) = Some TYPE_CAP_GROUP \<and>
    map_option obj_type (cs_objects s' v) = Some TYPE_VMSPACE \<and>
    map_option badge (cs_groups s' g) = Some ROOT_CAP_GROUP_BADGE"
proof -
  let ?g = "cs_brk s"
  have e0: "ext ?g = 0" using ext by simp
  obtain s1 s2 G where g: "object_alloc TYPE_CAP_GROUP (sizeof_cap_group bld) (mt_object bld) s =
      (Some ?g, s1)" "cap_group_init ?g BASE_OBJECT_NUM ROOT_CAP_GROUP_BADGE False s1 = Some s2"
    "cap_inv s2 ext" "slot_ptr s2 = slot_ptr s" "slot_ptr s ?g = Map.empty"
    "cs_groups s2 = (cs_groups s)(?g \<mapsto> G)" "badge G = ROOT_CAP_GROUP_BADGE"
    "slots_size (slot_table G) = 64" "cs_objects s2 = (cs_objects s)
      (?g \<mapsto> fresh_object TYPE_CAP_GROUP (sizeof_cap_group bld) (mt_object bld))"
    "cs_slots s2 = cs_slots s" "False \<notin> set (cs_kmem s2)" "cs_brk s2 = Suc ?g"
    by (rule new_group [OF inv e0 mem])
  let ?ob = "fresh_object TYPE_CAP_GROUP (sizeof_cap_group bld) (mt_object bld)"
  have p: "cs_groups s2 ?g = Some G" "slots_size (slot_table G) + 64 < 2 ^ 32"
    "cs_objects s2 ?g = Some ?ob" "refcount ?ob = 0" "slot_ptr s2 ?g 0 = None"
    "\<forall>j < 0. slot_ptr s2 ?g j \<noteq> None"
    using g by (simp_all add: fresh_object_def)
  obtain a s3 st where a: "cap_alloc ?g ?g 0 s2 = Some (int 0, s3)" "cap_inv s3 ext"
    "slot_ptr s3 = (slot_ptr s2)(?g := (slot_ptr s2 ?g)(0 \<mapsto> a))"
    "cs_slots s3 = (cs_slots s2)(a \<mapsto> \<lparr>slot_no = 0, slot_group = ?g, isvalid = True,
       slot_rights = Some 0, slot_object = ?g\<rparr>)" "cs_slots s2 a = None"
    "cs_objects s3 = (cs_objects s2)(?g \<mapsto> ?ob\<lparr>refcount := 1, obj_status := DSM_STATUS_INUSE\<rparr>)"
    "cs_groups s3 = (cs_groups s2)(?g \<mapsto> G\<lparr>slot_table := st\<rparr>)"
    "slots_size st \<le> slots_size (slot_table G) + 64" "False \<notin> set (cs_kmem s3)"
    "cs_brk s3 = Suc (cs_brk s2)"
    by (rule cap_alloc_first [OF g(3) p(1-4) g(11) p(5,6)])
  have e3: "ext (cs_brk s3) = 0" using ext a(10) g(12) by simp
  let ?v = "cs_brk s3"
  let ?vb = "fresh_object TYPE_VMSPACE (sizeof_vmspace bld) (mt_object bld)"
  obtain s4 where v: "object_alloc TYPE_VMSPACE (sizeof_vmspace bld) (mt_object bld) s3 = (Some ?v, s4)"
    "cap_inv s4 ext" "slot_ptr s4 = slot_ptr s3" "cs_objects s3 ?v = None"
    "cs_objects s4 = (cs_objects s3)(?v \<mapsto> ?vb)" "cs_groups s4 = cs_groups s3"
    "cs_slots s4 = cs_slots s3" "set (cs_kmem s4) \<subseteq> set (cs_kmem s3)"
    by (rule object_alloc_cases [OF a(2) e3, of TYPE_VMSPACE]) (use a(9) in auto)
  have q: "cs_groups s4 ?g = Some (G\<lparr>slot_table := st\<rparr>)"
    "slots_size (slot_table (G\<lparr>slot_table := st\<rparr>)) + 64 < 2 ^ 32"
    "cs_objects s4 ?v = Some ?vb" "refcount ?vb = 0" "False \<notin> set (cs_kmem s4)"
    "slot_ptr s4 ?g 1 = None" "\<forall>j < 1. slot_ptr s4 ?g j \<noteq> None"
    using a(3,7,8,9) g(4,5,8) v(3,5,6,8) by (auto simp: fresh_object_def)
  obtain b s5 st' where b: "cap_alloc ?g ?v 0 s4 = Some (int 1, s5)" "cap_inv s5 ext"
    "slot_ptr s5 = (slot_ptr s4)(?g := (slot_ptr s4 ?g)(1 \<mapsto> b))"
    "cs_slots s5 = (cs_slots s4)(b \<mapsto> \<lparr>slot_no = 1, slot_group = ?g, isvalid = True,
       slot_rights = Some 0, slot_object = ?v\<rparr>)" "cs_slots s4 b = None"
    "cs_objects s5 = (cs_objects s4)(?v \<mapsto> ?vb\<lparr>refcount := 1, obj_status := DSM_STATUS_INUSE\<rparr>)"
    "cs_groups s5 = (cs_groups s4)(?g \<mapsto> G\<lparr>slot_table := st, slot_table := st'\<rparr>)"
    by (rule cap_alloc_first [OF v(2) q])
  let ?s' = "set_group_name ?g name (length name) s5"
  have run: "create_root_cap_group bld name s = Some (?g, ?s')"
    using g(1,2) a(1) v(1) b(1)
    by (simp add: create_root_cap_group_def CAP_GROUP_OBJ_ID_def VMSPACE_OBJ_ID_def)
  have "b \<noteq> a" using b(5) a(4) v(7) by auto
  moreover have "?v \<noteq> ?g" using a(10) g(12) by simp
  moreover have "map_option badge (cs_groups ?s' ?g) = Some ROOT_CAP_GROUP_BADGE"
    using b(7) g(7) by (simp add: set_group_name_def)
  ultimately show ?thesis
    using run set_group_name_inv [OF b(2), of ?g name "length name"] b(3,4,6) a(3,4,6) v(3,5,7) g(4,5)
    by (intro exI [of _ ?g] exI [of _ ?v] exI [of _ a] exI [of _ b] exI [of _ ?s'])
      (simp add: fresh_object_def)
qed

end
