(* ===== verification/Cap_Trace.thy ===== *)
theory Cap_Trace
  imports Cap_Syscalls
begin

text \<open>
  Runs of the capability subsystem: sequences of the operations from the state at boot, each
  under the conditions its callers meet. Every state of a run satisfies the invariant, so no
  capability is dangling and every reference count is exact. The properties of the single
  operations follow, with the paths on which the code does not do what it is meant to.
\<close>

subsection \<open>Runs\<close>

definition boot_cs :: "list_heap \<Rightarrow> kmem \<Rightarrow> cstate" where
  "boot_cs h k = \<lparr>cs_objects = Map.empty, cs_slots = Map.empty, cs_groups = Map.empty,
     cs_lists = h, cs_kmem = k, cs_brk = 0\<rparr>"

text \<open>
  A state and the references handed out so far. The guards: a capability is created for an
  object without one; the tables have room for one more expansion; counts stay below the word
  size; a group is released only when its own table is empty; a reference is put back by
  somebody who holds one.
\<close>

inductive cap_run :: "deinit_fn \<Rightarrow> cstate \<Rightarrow> (addr \<Rightarrow> nat) \<Rightarrow> bool" for deinit where
  boot: "cap_run deinit (boot_cs h k) (\<lambda>_. 0)"
| object: "\<lbrakk>cap_run deinit s ext; object_alloc ty sz flags s = (r, s')\<rbrakk> \<Longrightarrow> cap_run deinit s' ext"
| group: "\<lbrakk>cap_run deinit s ext; cs_objects s g = Some ob; obj_type ob = TYPE_CAP_GROUP;
    cs_groups s g = None; cap_group_init g BASE_OBJECT_NUM bdg cross s = Some s'\<rbrakk> \<Longrightarrow>
    cap_run deinit s' ext"
| alloc: "\<lbrakk>cap_run deinit s ext; cs_groups s g = Some G; slots_size (slot_table G) + 64 < 2 ^ 32;
    cs_objects s p = Some ob; refcount ob = 0; cap_alloc g p rights s = Some (r, s')\<rbrakk> \<Longrightarrow>
    cap_run deinit s' ext"
| copy: "\<lbrakk>cap_run deinit s ext; cs_groups s src = Some S; cs_groups s dst = Some D;
    slots_size (slot_table D) + 64 < 2 ^ 32; \<And>p ob. cs_objects s p = Some ob \<Longrightarrow>
      unat (refcount ob) + 1 < 2 ^ 64; cap_copy src dst i s = Some (r, s')\<rbrakk> \<Longrightarrow>
    cap_run deinit s' ext"
| free: "\<lbrakk>cap_run deinit s ext; cs_groups s g = Some G;
    \<And>a sl ob. slot_ptr s g (nat i) = Some a \<Longrightarrow> cs_slots s a = Some sl \<Longrightarrow>
      cs_objects s (slot_object sl) = Some ob \<Longrightarrow> refcount ob = 1 \<Longrightarrow>
      releasable deinit {(g, nat i)} (slot_object sl) ob s;
    cap_free deinit g i s = Some (r, s')\<rbrakk> \<Longrightarrow> cap_run deinit s' ext"
| get: "\<lbrakk>cap_run deinit s ext; cs_groups s g = Some G; \<And>p ob. cs_objects s p = Some ob \<Longrightarrow>
      unat (refcount ob) + 1 < 2 ^ 64; obj_get g i ty s = Some (r, s')\<rbrakk> \<Longrightarrow>
    cap_run deinit s' (case r of None \<Rightarrow> ext | Some p \<Rightarrow> ext(p := Suc (ext p)))"
| put: "\<lbrakk>cap_run deinit s ext; cs_objects s p = Some ob; 0 < ext p;
    refcount ob = 1 \<Longrightarrow> releasable deinit {} p ob s; obj_put deinit p s = Some s'\<rbrakk> \<Longrightarrow>
    cap_run deinit s' (ext(p := ext p - 1))"

definition run_inv :: "cstate \<Rightarrow> (addr \<Rightarrow> nat) \<Rightarrow> bool" where
  "run_inv s ext \<longleftrightarrow> cap_inv s ext \<and> (\<forall>p. cs_objects s p = None \<longrightarrow> ext p = 0)"

lemma boot_inv: "run_inv (boot_cs h k) (\<lambda>_. 0)"
  by (simp add: run_inv_def boot_cs_def cap_inv_def tables_inv_def slots_inv_def objects_inv_def
      slot_ptr_def)

lemma run_inv_brk: "run_inv s ext \<Longrightarrow> ext (cs_brk s) = 0"
  by (cases "cs_objects s (cs_brk s)") (auto simp: run_inv_def cap_inv_def objects_inv_def)

lemma cap_free_none:
  assumes "cap_inv s ext" "cs_groups s g = Some G" "i < 0 \<or> slot_ptr s g (nat i) = None"
  shows "cap_free deinit g i s = Some (- ECAPBILITY, s)"
proof -
  have "get_slot (slot_table G) i = Some None"
    using get_slot_table_at [OF cap_inv_group(1) [OF assms(1,2)], of i] assms(2,3)
    by (auto simp: slot_ptr_def)
  then show ?thesis using assms(2) by (simp add: cap_free_def cap_free_locked_def group_table_def)
qed

lemma slot_live:
  assumes "cap_inv s ext" "slot_ptr s g i = Some a"
  obtains sl ob where "cs_slots s a = Some sl" "slot_group sl = g" "slot_no sl = i"
    "cs_objects s (slot_object sl) = Some ob" "isvalid sl"
proof -
  have inv: "slots_inv s" using assms(1) by (simp add: cap_inv_def)
  from slots_inv_ptr [OF inv, of g i a] assms(2) obtain sl where
    sl: "cs_slots s a = Some sl" "slot_group sl = g" "slot_no sl = i" by auto
  from slots_inv_slot [OF inv sl(1)] sl that show ?thesis by blast
qed

lemma copy_step:
  assumes inv: "run_inv s ext" and S: "cs_groups s src = Some S" and D: "cs_groups s dst = Some D"
    and room: "slots_size (slot_table D) + 64 < 2 ^ 32"
    and cnt: "\<And>p ob. cs_objects s p = Some ob \<Longrightarrow> unat (refcount ob) + 1 < 2 ^ 64"
    and run: "cap_copy src dst i s = Some (r, s')"
  shows "run_inv s' ext"
proof (cases "i < 0 \<or> slot_ptr s src (nat i) = None")
  case True
  have "cap_inv s ext" using inv by (simp add: run_inv_def)
  from cap_copy_no_source [OF this S True] run inv show ?thesis by simp
next
  case False
  have ci: "cap_inv s ext" using inv by (simp add: run_inv_def)
  from False obtain a where a: "slot_ptr s src (nat i) = Some a" and i: "int (nat i) = i" by auto
  obtain sl ob where sl: "cs_slots s a = Some sl" "cs_objects s (slot_object sl) = Some ob"
    by (rule slot_live [OF ci a])
  have neg: "table_wf (slot_table D)" by (rule cap_inv_group(1) [OF ci D])
  show ?thesis
  proof (cases rule: alloc_slot_id_wf [OF neg room, of "cs_kmem s"])
    case (1 k')
    have "source_slot src i s = Some (Some (a, sl))"
      using source_slot_Some [OF S cap_inv_group(1) [OF ci S] a sl(1)] i
        slots_inv_slot(1) [OF _ sl(1)] ci by (simp add: cap_inv_def)
    from cap_copy_alloc_fails [OF this D neg 1(1)] run show ?thesis by simp
  next
    case (2 j st1 k1)
    show ?thesis
      by (cases rule: cap_copy_cases [OF ci S D a sl cnt [OF sl(2)] 2(1) room])
        (use run inv i in \<open>auto simp: run_inv_def\<close>)
  qed
qed

lemma free_step:
  assumes inv: "run_inv s ext" and G: "cs_groups s g = Some G"
    and rel: "\<And>a sl ob. slot_ptr s g (nat i) = Some a \<Longrightarrow> cs_slots s a = Some sl \<Longrightarrow>
      cs_objects s (slot_object sl) = Some ob \<Longrightarrow> refcount ob = 1 \<Longrightarrow>
      releasable deinit {(g, nat i)} (slot_object sl) ob s"
    and run: "cap_free deinit g i s = Some (r, s')"
  shows "run_inv s' ext"
proof (cases "i < 0 \<or> slot_ptr s g (nat i) = None")
  case True
  have "cap_inv s ext" using inv by (simp add: run_inv_def)
  from cap_free_none [OF this G True] run inv show ?thesis by simp
next
  case False
  have ci: "cap_inv s ext" using inv by (simp add: run_inv_def)
  from False obtain a where a: "slot_ptr s g (nat i) = Some a" and i: "int (nat i) = i" by auto
  obtain sl ob where sl: "cs_slots s a = Some sl" "cs_objects s (slot_object sl) = Some ob"
    by (rule slot_live [OF ci a])
  obtain s1 where s1: "cap_free_locked deinit g (int (nat i)) False False False s = Some (0, s1)"
    "cap_inv s1 ext" "cs_objects s1 = (cs_objects s)(slot_object sl := put_count ob)"
    by (rule cap_free_locked_ok [OF ci G a sl, of deinit False False False]) (use rel [OF a sl] in auto)
  have "s' = s1" using run s1(1) i by (simp add: cap_free_def)
  moreover have "ext (slot_object sl) = 0" if "refcount ob = 1"
  proof -
    obtain xs where "set xs = slots_of s (slot_object sl)"
      "unat (refcount ob) = length xs + ext (slot_object sl)" by (rule cap_inv_object [OF ci sl(2)])
    moreover have "a \<in> slots_of s (slot_object sl)" using sl(1) by (simp add: slots_of_def)
    ultimately show ?thesis using that by (cases xs) auto
  qed
  ultimately show ?thesis using s1 inv by (auto simp: run_inv_def put_count_def split: if_splits)
qed

lemma get_step:
  assumes inv: "run_inv s ext" and G: "cs_groups s g = Some G"
    and cnt: "\<And>p ob. cs_objects s p = Some ob \<Longrightarrow> unat (refcount ob) + 1 < 2 ^ 64"
    and run: "obj_get g i ty s = Some (r, s')"
  shows "run_inv s' (case r of None \<Rightarrow> ext | Some p \<Rightarrow> ext(p := Suc (ext p)))"
proof (cases "i < 0 \<or> slot_ptr s g (nat i) = None")
  case True
  have "cap_inv s ext" using inv by (simp add: run_inv_def)
  from get_opaque_none [OF this G True] run inv show ?thesis by (simp add: obj_get_def)
next
  case False
  have ci: "cap_inv s ext" using inv by (simp add: run_inv_def)
  from False obtain a where a: "slot_ptr s g (nat i) = Some a" and i: "int (nat i) = i" by auto
  obtain sl ob where sl: "cs_slots s a = Some sl" "cs_objects s (slot_object sl) = Some ob"
    by (rule slot_live [OF ci a])
  let ?p = "slot_object sl"
  have "cap_inv (set_object ?p (Some (ob\<lparr>refcount := refcount ob + 1\<rparr>)) s) (ext(?p := Suc (ext ?p)))"
    by (rule inv_recount(1) [OF ci sl(2)]) (use unat_plus_1 [OF cnt [OF sl(2)]] in simp_all)
  with get_opaque_some [OF ci G a sl, of True ty] run i inv show ?thesis
    by (auto simp: obj_get_def run_inv_def split: if_splits)
qed

lemma put_step:
  assumes inv: "run_inv s ext" and ob: "cs_objects s p = Some ob" and held: "0 < ext p"
    and rel: "refcount ob = 1 \<Longrightarrow> releasable deinit {} p ob s"
    and run: "obj_put deinit p s = Some s'"
  shows "run_inv s' (ext(p := ext p - 1))"
proof -
  have ci: "cap_inv s ext" using inv by (simp add: run_inv_def)
  obtain s1 where s1: "obj_put deinit p s = Some s1" "cap_inv s1 (ext(p := ext p - 1))"
    "cs_objects s1 = (cs_objects s)(p := put_count ob)" by (rule obj_put_ok [OF ci ob held rel])
  obtain xs :: "addr list" where "unat (refcount ob) = length xs + ext p"
    by (rule cap_inv_object [OF ci ob])
  then have "ext p = 1" if "refcount ob = 1" using that held by (cases xs) auto
  with s1 run inv show ?thesis by (auto simp: run_inv_def put_count_def split: if_splits)
qed

lemma cap_run_inv: "cap_run deinit s ext \<Longrightarrow> run_inv s ext"
proof (induction rule: cap_run.induct)
  case (object s ext ty sz flags r s')
  then have ci: "cap_inv s ext" by (simp add: run_inv_def)
  show ?case
    by (cases rule: object_alloc_cases [OF ci run_inv_brk [OF object.IH], of ty sz flags])
      (use object in \<open>auto simp: run_inv_def\<close>)
next
  case (group s ext g ob bdg cross s')
  then have ci: "cap_inv s ext" by (simp add: run_inv_def)
  show ?case
    by (cases rule: cap_group_init_cases [OF ci group.hyps(2-4), of bdg cross])
      (use group in \<open>auto simp: run_inv_def\<close>)
next
  case (alloc s ext g G p ob rights r s')
  then have ci: "cap_inv s ext" by (simp add: run_inv_def)
  show ?case
    by (cases rule: cap_alloc_cases [OF ci alloc.hyps(2-5), of rights])
      (use alloc in \<open>auto simp: run_inv_def\<close>)
qed (blast intro: boot_inv copy_step free_step get_step put_step)+

subsection \<open>A sample state\<close>

text \<open>
  A group (object 0) that holds a capability to itself and one to a memory object (object 1),
  and an object without a capability (object 4).
\<close>

definition demo_table :: slot_table where
  "demo_table = \<lparr>slots_size = 64, slots = Some 2 # Some 3 # replicate 62 None,
     full_slots_bmp = [0], slots_bmp = [3]\<rparr>"

definition demo_group :: cap_group where
  "demo_group = \<lparr>slot_table = demo_table, thread_cnt = 0, badge = 1, is_cross_machine = False,
     notify_recycler = 0, cap_group_name = ''root''\<rparr>"

definition demo_object :: "object_type \<Rightarrow> u64 \<Rightarrow> kobject" where
  "demo_object ty n = \<lparr>obj_type = ty, obj_size = 8, refcount = n, obj_mem_type = MT_SHARED,
     obj_status = DSM_STATUS_INUSE, pair_obj = None\<rparr>"

definition demo_slot :: "nat \<Rightarrow> addr \<Rightarrow> object_slot" where
  "demo_slot i p = \<lparr>slot_no = i, slot_group = 0, isvalid = True, slot_rights = Some 7,
     slot_object = p\<rparr>"

definition demo_links :: "addr \<Rightarrow> addr" where
  "demo_links n = (if n = 1 then 4 else if n = 4 then 1 else if n = 3 then 6
                   else if n = 6 then 3 else n)"

definition demo_cs :: "kmem \<Rightarrow> cstate" where
  "demo_cs k = \<lparr>cs_objects = [0 \<mapsto> demo_object TYPE_CAP_GROUP 1, 1 \<mapsto> demo_object TYPE_PMO 1,
       4 \<mapsto> demo_object TYPE_PMO 0],
     cs_slots = [2 \<mapsto> demo_slot 0 0, 3 \<mapsto> demo_slot 1 1], cs_groups = [0 \<mapsto> demo_group],
     cs_lists = \<lparr>prev_of = demo_links, next_of = demo_links\<rparr>, cs_kmem = k, cs_brk = 5\<rparr>"

lemma demo_bits: "bit (3 :: u64) i \<longleftrightarrow> i = 0 \<or> i = 1"
proof -
  have "bit (3 :: u64) i \<Longrightarrow> i < 64" by (simp add: bit_imp_le_length)
  moreover have "i < 64 \<Longrightarrow> bit (3 :: u64) i \<longleftrightarrow> i = 0 \<or> i = 1"
    by (simp add: bit_numeral_rec(2) bit_1_iff split: nat.split)
  ultimately show ?thesis by auto
qed

lemma demo_table_props:
  "table_wf demo_table" "slots_consistent demo_table" "slots_size demo_table = 64"
  "table_at demo_table = [0 \<mapsto> 2, 1 \<mapsto> 3]" "used_ids demo_table = {0, 1}"
proof -
  show "slots_size demo_table = 64" by (simp add: demo_table_def)
  show "table_wf demo_table"
    unfolding table_wf_def demo_table_def
    by (intro exI [of _ 1]) (auto simp: BITS_TO_LONGS_def DIV_ROUND_UP_def BITS_PER_LONG_def bmp_at_def)
  show at: "table_at demo_table = [0 \<mapsto> 2, 1 \<mapsto> 3]"
    by (auto simp: fun_eq_iff table_at_def demo_table_def nth_Cons split: nat.splits)
  have used: "i \<in> used_ids demo_table \<longleftrightarrow> i = 0 \<or> i = 1" for i
    using demo_bits [of i] by (cases "i < 64") (auto simp: used_ids_def demo_table_def bmp_at_def)
  then show "used_ids demo_table = {0, 1}" by blast
  show "slots_consistent demo_table" using at used by (auto simp: consistent_table_at)
qed

lemma demo_ptr: "slot_ptr (demo_cs k) g = (if g = 0 then [0 \<mapsto> 2, 1 \<mapsto> 3] else Map.empty)"
  by (auto simp: fun_eq_iff slot_ptr_def demo_cs_def demo_group_def demo_table_props(4))

lemma demo_inv: "cap_inv (demo_cs k) (\<lambda>_. 0)"
proof -
  have "tables_inv (demo_cs k)"
    by (simp add: tables_inv_def demo_cs_def demo_group_def demo_table_props demo_object_def)
  moreover have "slots_inv (demo_cs k)"
    unfolding slots_inv_def demo_ptr
    by (auto simp: demo_cs_def demo_slot_def demo_object_def split: if_splits)
  moreover have "objects_inv (demo_cs k) (\<lambda>_. 0)"
  proof -
    have of: "slots_of (demo_cs k) 0 = {2}" "slots_of (demo_cs k) 1 = {3}"
      "slots_of (demo_cs k) 4 = {}"
      by (auto simp: slots_of_def demo_cs_def demo_slot_def split: if_splits)
    have "copies_ok (demo_cs k) (\<lambda>_. 0) 0 1" unfolding copies_ok_def of
      by (intro exI [of _ "[2]"]) (simp add: demo_cs_def dlist_def demo_links_def obj_node_def slot_node_def)
    moreover have "copies_ok (demo_cs k) (\<lambda>_. 0) 1 1" unfolding copies_ok_def of
      by (intro exI [of _ "[3]"]) (simp add: demo_cs_def dlist_def demo_links_def obj_node_def slot_node_def)
    moreover have "copies_ok (demo_cs k) (\<lambda>_. 0) 4 0" unfolding copies_ok_def of
      by (intro exI [of _ "[]"]) (simp add: demo_cs_def dlist_def demo_links_def obj_node_def slot_node_def)
    ultimately show ?thesis
      by (auto simp: objects_inv_def demo_cs_def demo_object_def split: if_splits)
  qed
  ultimately show ?thesis by (simp add: cap_inv_def)
qed

subsection \<open>Properties\<close>


definition no_deinit :: deinit_fn where
  "no_deinit ty p s = Some s"

lemma no_deinit_keeps: "deinit_keeps no_deinit ty"
  by (simp add: deinit_keeps_def no_deinit_def)

lemma sample_run:
  "\<exists>s a. cap_run no_deinit s (\<lambda>_. 0) \<and> slot_ptr s 0 0 = Some a"
proof -
  let ?s = "boot_cs \<lparr>prev_of = id, next_of = id\<rparr> []"
  have boot: "cap_inv ?s (\<lambda>_. 0)" "cs_brk ?s = 0" "False \<notin> set (cs_kmem ?s)"
    using boot_inv by (simp_all add: run_inv_def boot_cs_def)
  obtain s1 s2 G where g: "object_alloc TYPE_CAP_GROUP 8 MT_SHARED ?s = (Some (cs_brk ?s), s1)"
    "cap_group_init (cs_brk ?s) BASE_OBJECT_NUM 1 False s1 = Some s2" "cap_inv s2 (\<lambda>_. 0)"
    "slot_ptr s2 = slot_ptr ?s" "slot_ptr ?s (cs_brk ?s) = Map.empty"
    "cs_groups s2 = (cs_groups ?s)(cs_brk ?s \<mapsto> G)" "slots_size (slot_table G) = 64"
    "cs_objects s2 = (cs_objects ?s)(cs_brk ?s \<mapsto> fresh_object TYPE_CAP_GROUP 8 MT_SHARED)"
    "False \<notin> set (cs_kmem s2)"
    by (rule new_group [OF boot(1) refl boot(3)])
  let ?ob = "fresh_object TYPE_CAP_GROUP 8 MT_SHARED"
  have o1: "cs_objects s1 0 = Some ?ob" "cs_groups s1 0 = None"
    using g(1) by (auto simp: object_alloc_def kmalloc_addr_def boot_cs_def fresh_object_def)
  have p: "cs_groups s2 0 = Some G" "slots_size (slot_table G) + 64 < 2 ^ 32"
    "cs_objects s2 0 = Some ?ob" "refcount ?ob = 0" "slot_ptr s2 0 0 = None"
    "\<forall>j < 0. slot_ptr s2 0 j \<noteq> None"
    using g boot(2) by (simp_all add: fresh_object_def)
  obtain a s3 where a: "cap_alloc 0 0 5 s2 = Some (int 0, s3)"
    "slot_ptr s3 = (slot_ptr s2)(0 := (slot_ptr s2 0)(0 \<mapsto> a))"
    by (rule cap_alloc_first [OF g(3) p(1-4) g(9) p(5,6), of 5])
  have "cap_run no_deinit s1 (\<lambda>_. 0)" by (rule cap_run.object [OF cap_run.boot g(1)])
  then have "cap_run no_deinit s2 (\<lambda>_. 0)"
    by (rule cap_run.group [where g = 0, OF _ o1(1) _ o1(2)]) (use g(2) boot(2) in \<open>simp_all add: fresh_object_def\<close>)
  then have "cap_run no_deinit s3 (\<lambda>_. 0)" by (rule cap_run.alloc [OF _ p(1-4) a(1)])
  with a(2) show ?thesis by auto
qed


text \<open>
  C4: \<open>cap_alloc\<close> gives an object without a capability the smallest free identifier of
  the group. On success the table maps it to a new slot with the rights asked for, the object
  counts one capability, and everything else is as before; on failure the result is
  \<open>-ENOMEM\<close>, some allocation did fail, and tables, slots and objects are as before. Either
  way the invariant holds again.
\<close>

theorem cap_alloc_correct:
  assumes "cap_inv s ext" "cs_groups s g = Some G" "slots_size (slot_table G) + 64 < 2 ^ 32"
    and "cs_objects s p = Some ob" "refcount ob = 0"
  shows "\<exists>r s'. cap_alloc g p rights s = Some (r, s') \<and> cap_inv s' ext \<and>
    (if r < 0
     then r = - ENOMEM \<and> False \<in> set (cs_kmem s) \<and> slot_ptr s' = slot_ptr s \<and>
          cs_slots s' = cs_slots s \<and> cs_objects s' = cs_objects s
     else slot_ptr s g (nat r) = None \<and> (\<forall>j < nat r. slot_ptr s g j \<noteq> None) \<and>
          (\<exists>a. cs_slots s a = None \<and>
             slot_ptr s' = (slot_ptr s)(g := (slot_ptr s g)(nat r \<mapsto> a)) \<and>
             cs_slots s' = (cs_slots s)(a \<mapsto> \<lparr>slot_no = nat r, slot_group = g, isvalid = True,
               slot_rights = Some rights, slot_object = p\<rparr>)) \<and>
          cs_objects s' = (cs_objects s)
            (p \<mapsto> ob\<lparr>refcount := 1, obj_status := DSM_STATUS_INUSE\<rparr>))"
proof (cases rule: cap_alloc_cases [OF assms, of rights])
  case (1 s')
  then show ?thesis by (simp add: ENOMEM_def)
next
  case (2 i a s')
  then show ?thesis by (intro exI [of _ "int i"] exI [of _ s']) auto
qed

theorem cap_alloc_correct_witness:
  "(\<exists>r s'. cap_alloc 0 4 9 (demo_cs []) = Some (r, s') \<and> 0 \<le> r \<and> cap_inv s' (\<lambda>_. 0)) \<and>
   (\<exists>r s'. cap_alloc 0 4 9 (demo_cs [False]) = Some (r, s') \<and> cap_inv s' (\<lambda>_. 0))"
proof -
  have h: "cs_groups (demo_cs k) 0 = Some demo_group"
    "slots_size (slot_table demo_group) + 64 < 2 ^ 32"
    "cs_objects (demo_cs k) 4 = Some (demo_object TYPE_PMO 0)"
    "refcount (demo_object TYPE_PMO 0) = 0" for k
    by (simp_all add: demo_cs_def demo_group_def demo_table_props demo_object_def)
  have "cs_kmem (demo_cs []) = []" by (simp add: demo_cs_def)
  with cap_alloc_correct [OF demo_inv [of "[]"] h, of 9]
    cap_alloc_correct [OF demo_inv [of "[False]"] h, of 9]
  show ?thesis by (fastforce split: if_splits)
qed

text \<open>
  C5: when the destination table has or gets a free identifier, \<open>cap_copy\<close> either fails
  with \<open>-ENOMEM\<close> and changes no table, slot or object, or adds one capability to the same
  object in the destination group and counts it. The copy's rights field is never written.
\<close>

theorem cap_copy_correct:
  assumes "cap_inv s ext" "cs_groups s src = Some S" "cs_groups s dst = Some D"
    and "slot_ptr s src j = Some a" "cs_slots s a = Some sl"
    and "cs_objects s (slot_object sl) = Some ob" "unat (refcount ob) + 1 < 2 ^ 64"
    and "alloc_slot_id (slot_table D) (cs_kmem s) = Some (int i, st1, k1)"
    and "slots_size (slot_table D) + 64 < 2 ^ 32"
  shows "\<exists>r s'. cap_copy src dst (int j) s = Some (r, s') \<and> cap_inv s' ext \<and>
    (if r < 0
     then r = - ENOMEM \<and> slot_ptr s' = slot_ptr s \<and> cs_slots s' = cs_slots s \<and>
          cs_objects s' = cs_objects s
     else r = int i \<and> slot_ptr s dst i = None \<and>
          (\<exists>b. cs_slots s b = None \<and>
             slot_ptr s' = (slot_ptr s)(dst := (slot_ptr s dst)(i \<mapsto> b)) \<and>
             cs_slots s' = (cs_slots s)(b \<mapsto> \<lparr>slot_no = i, slot_group = dst, isvalid = True,
               slot_rights = None, slot_object = slot_object sl\<rparr>)) \<and>
          cs_objects s' = (cs_objects s)
            (slot_object sl \<mapsto> ob\<lparr>refcount := refcount ob + 1\<rparr>))"
proof (cases rule: cap_copy_cases [OF assms])
  case (1 s')
  then show ?thesis by (simp add: ENOMEM_def)
next
  case (2 b s')
  then show ?thesis by (intro exI [of _ "int i"] exI [of _ s']) auto
qed

lemma demo_alloc:
  "\<exists>st1. alloc_slot_id demo_table k = Some (int 2, st1, k)"
proof -
  have room: "slots_size demo_table + 64 < 2 ^ 32" by (simp add: demo_table_props)
  note used = demo_table_props(5)
  have two: "2 \<notin> used_ids demo_table" "2 < slots_size demo_table"
    by (simp_all add: used demo_table_props(3))
  then have "used_ids demo_table \<noteq> {0..<slots_size demo_table}"
    by (metis atLeastLessThan_iff zero_le)
  with find_empty_slot_wf [OF demo_table_props(1)] obtain i where
    i: "find_empty_slot demo_table = Some (Some i)" "i < slots_size demo_table"
      "i \<notin> used_ids demo_table" "{0..<i} \<subseteq> used_ids demo_table" by blast
  have "i = 2"
  proof (rule ccontr)
    assume "i \<noteq> 2"
    with i(3) have "2 \<in> {0..<i}" by (simp add: used)
    with i(4) two(1) show False by blast
  qed
  moreover obtain st1 where "mark_slot_id i demo_table = Some st1"
    by (rule mark_slot_id_wf [OF demo_table_props(1) i(2)])
  ultimately show ?thesis using alloc_slot_id_step_free [OF i(1)] by blast
qed

theorem cap_copy_correct_witness:
  "\<exists>r s'. cap_copy 0 0 (int 1) (demo_cs []) = Some (r, s') \<and> cap_inv s' (\<lambda>_. 0) \<and>
     (0 \<le> r \<longrightarrow> r = 2)"
proof -
  obtain st1 where al: "alloc_slot_id (slot_table demo_group) (cs_kmem (demo_cs [])) =
      Some (int 2, st1, [])" using demo_alloc [of "[]"] by (auto simp: demo_group_def demo_cs_def)
  have h: "cs_groups (demo_cs []) 0 = Some demo_group" "slot_ptr (demo_cs []) 0 1 = Some 3"
    "cs_slots (demo_cs []) 3 = Some (demo_slot 1 1)"
    "cs_objects (demo_cs []) (slot_object (demo_slot 1 1)) = Some (demo_object TYPE_PMO 1)"
    "unat (refcount (demo_object TYPE_PMO 1)) + 1 < 2 ^ 64"
    "slots_size (slot_table demo_group) + 64 < 2 ^ 32"
    unfolding demo_ptr
    by (simp_all add: demo_cs_def demo_slot_def demo_object_def demo_group_def demo_table_props)
  from cap_copy_correct [OF demo_inv h(1,1-5) al h(6)] show ?thesis by (auto split: if_splits)
qed

text \<open>
  C6: when the destination table is full and its expansion runs out of memory,
  \<open>alloc_slot_id\<close> answers \<open>-ENOMEM\<close>, which \<open>cap_copy\<close> does not recognise because
  it tests for \<open>-1\<close>: it goes on with a negative identifier, and both the roll-back and the
  installation of the slot address memory outside the bitmap.
\<close>

theorem cap_copy_oom_out_of_bounds:
  assumes "source_slot src i s = Some (Some x)" "cs_groups s dst = Some D"
    "table_wf (slot_table D)" "used_ids (slot_table D) = {0..<slots_size (slot_table D)}"
    "cs_kmem s = False # k"
  shows "alloc_slot_id (slot_table D) (cs_kmem s) = Some (- ENOMEM, slot_table D, k) \<and>
    cap_copy src dst i s = None"
  using cap_copy_alloc_fails [OF assms(1-3)] alloc_slot_id_oom [OF assms(3-5)] by simp

definition demo_full_cs :: cstate where
  "demo_full_cs = (demo_cs [False])\<lparr>cs_groups :=
     [0 \<mapsto> demo_group, 9 \<mapsto> demo_group\<lparr>slot_table := full_table\<rparr>]\<rparr>"

theorem cap_copy_oom_out_of_bounds_witness:
  "cap_copy 0 9 1 demo_full_cs = None"
proof -
  have src: "source_slot 0 1 demo_full_cs = Some (Some (3, demo_slot 1 1))"
    using source_slot_Some [of demo_full_cs 0 demo_group 1 3 "demo_slot 1 1"]
    by (simp add: demo_full_cs_def demo_cs_def demo_group_def demo_table_props slot_ptr_def demo_slot_def)
  have "bmp_at [NOT 0] i" if "i < 64" for i using that by (simp add: bmp_at_def)
  then have "used_ids full_table = {0..<slots_size full_table}"
    by (auto simp: used_ids_def full_table_def)
  then show ?thesis
    using cap_copy_oom_out_of_bounds [OF src, of 9 "demo_group\<lparr>slot_table := full_table\<rparr>" "[]"] full_table_wf
    by (simp add: demo_full_cs_def demo_cs_def)
qed







text \<open>
  C10: with memory available, \<open>create_root_cap_group\<close> runs through its assertions: the
  new group holds exactly two capabilities, number 0 to itself and number 1 to a new address
  space, and the invariant holds.
\<close>

theorem create_root_cap_group_correct:
  assumes "cap_inv s ext" "\<And>p. cs_brk s \<le> p \<Longrightarrow> ext p = 0" "False \<notin> set (cs_kmem s)"
  shows "\<exists>g v a b s'. create_root_cap_group bld name s = Some (g, s') \<and> cap_inv s' ext \<and>
    slot_ptr s' g = [0 \<mapsto> a, 1 \<mapsto> b] \<and>
    map_option slot_object (cs_slots s' a) = Some g \<and>
    map_option slot_object (cs_slots s' b) = Some v \<and>
    map_option obj_type (cs_objects s' g) = Some TYPE_CAP_GROUP \<and>
    map_option obj_type (cs_objects s' v) = Some TYPE_VMSPACE \<and>
    map_option badge (cs_groups s' g) = Some ROOT_CAP_GROUP_BADGE"
  by (rule create_root_ok [OF assms])

definition demo_build :: build where
  "demo_build = \<lparr>mt_object = MT_SHARED, sizeof_cap_group = 200, sizeof_vmspace = 300,
     sizeof_thread = 400\<rparr>"

theorem create_root_cap_group_correct_witness:
  "\<exists>g s'. create_root_cap_group demo_build ''init'' (boot_cs \<lparr>prev_of = id, next_of = id\<rparr> []) =
     Some (g, s') \<and> cap_inv s' (\<lambda>_. 0) \<and> map_option badge (cs_groups s' g) = Some 1"
proof -
  let ?s = "boot_cs \<lparr>prev_of = id, next_of = id\<rparr> []"
  have "cap_inv ?s (\<lambda>_. 0)" using boot_inv by (simp add: run_inv_def)
  moreover have "False \<notin> set (cs_kmem ?s)" by (simp add: boot_cs_def)
  ultimately show ?thesis
    using create_root_cap_group_correct [of ?s "\<lambda>_. 0" demo_build "''init''"]
    by (auto simp: ROOT_CAP_GROUP_BADGE_def)
qed

text \<open>
  C11: in \<open>sys_clone_cap_group\<close>, once the new group has its own capability, a failure to
  allocate the child's address space does not return an error: the failure path frees the group
  with \<open>obj_free\<close>, whose assertion that no capability exists stops the kernel.
\<close>

theorem sys_clone_cap_group_oom_panics:
  assumes "cs_groups s cur = Some C"
    and "object_alloc TYPE_CAP_GROUP (sizeof_cap_group bld) (mt_object bld) s = (Some g, s1)"
    and "cap_group_init g BASE_OBJECT_NUM (child_badge args) False s1 = Some s2"
    and "cap_alloc g g 0 s2 = Some (CAP_GROUP_OBJ_ID, s3)"
    and "cs_kmem s3 = False # k"
  shows "sys_clone_cap_group bld deinit vclone tclone cur args s = None"
proof -
  let ?s3 = "set_group_name g (cap_group_name C) MAX_GROUP_NAME_LEN (set_notify_recycler g 0 s3)"
  have alloc: "object_alloc ty sz fl ?s3 = (None, ?s3\<lparr>cs_kmem := k\<rparr>)" for ty sz fl
    using assms(5)
    by (simp add: object_alloc_def kmalloc_addr_def set_group_name_def set_notify_recycler_def)
  have "\<exists>ob. cs_objects s3 g = Some ob \<and> refcount ob = 1"
    using assms(4)
    by (auto simp: cap_alloc_def Let_def bind_eq_Some_iff ENOMEM_def CAP_GROUP_OBJ_ID_def
        split: if_splits option.splits prod.splits)
  then have "obj_free (Some g) (?s3\<lparr>cs_kmem := k\<rparr>) = None"
    by (auto simp: obj_free_def object_free_def set_group_name_def set_notify_recycler_def)
  with assms alloc show ?thesis
    by (simp add: sys_clone_cap_group_def clone_undo_def obj_free_def CAP_GROUP_OBJ_ID_def Let_def)
qed

definition demo_clone_args :: clone_cap_group_args where
  "demo_clone_args = \<lparr>child_badge = 200, child_pcid = 9, child_mt_cap = 0, fs_server_cap = 0,
     lwip_server_cap = 0, procmgr_server_cap = 0, parent_badge = 0\<rparr>"

lemma fresh_table_alloc:
  "alloc_slot_id \<lparr>slots_size = 64, slots = replicate 64 None, full_slots_bmp = [0],
     slots_bmp = [0]\<rparr> k =
   Some (0, \<lparr>slots_size = 64, slots = replicate 64 None, full_slots_bmp = [0], slots_bmp = [1]\<rparr>, k)"
  by (subst alloc_slot_id.simps)
    (simp add: find_empty_slot_def mark_slot_id_def find_next_zero_bit_def
      find_next_bit_helper_def find_bit_loop.simps size_minus_1_def BITS_PER_LONG_def
      BITS_TO_LONGS_def DIV_ROUND_UP_def load_at_def store_at_def set_bit_in_def Let_def)

theorem sys_clone_cap_group_oom_panics_witness:
  "sys_clone_cap_group demo_build no_deinit (\<lambda>_ _ s. Some (0, s)) (\<lambda>_ _ s. Some s) 0
     demo_clone_args (demo_cs [True, True, True, True, True, True, True, False]) = None"
proof -
  let ?s = "demo_cs [True, True, True, True, True, True, True, False]"
  let ?empty = "\<lparr>slots_size = 64, slots = replicate 64 None, full_slots_bmp = [0], slots_bmp = [0]\<rparr>"
  define s1 where "s1 = snd (object_alloc TYPE_CAP_GROUP 200 MT_SHARED ?s)"
  have a: "object_alloc TYPE_CAP_GROUP 200 MT_SHARED ?s = (Some 5, s1)"
    "cs_kmem s1 = [True, True, True, True, True, True, False]" "cs_brk s1 = 6"
    "cs_objects s1 5 = Some (fresh_object TYPE_CAP_GROUP 200 MT_SHARED)"
    by (simp_all add: s1_def object_alloc_def kmalloc_addr_def demo_cs_def fresh_object_def)
  have "slot_table_init BASE_OBJECT_NUM [True, True, True, True, True, True, False] =
      (Inr ?empty, [True, True, True, False])"
    by (simp add: slot_table_init_def Let_def DIV_ROUND_UP_def BASE_OBJECT_NUM_def
        BITS_PER_LONG_def BITS_TO_LONGS_def)
  then obtain s2 where b: "cap_group_init 5 BASE_OBJECT_NUM 200 False s1 = Some s2"
    "cs_kmem s2 = [True, False]" "cs_brk s2 = 6" "cs_objects s2 = cs_objects s1"
    "\<exists>G. cs_groups s2 5 = Some G \<and> slot_table G = ?empty"
    using a(2,3) by (simp add: cap_group_init_def)
  then obtain G where G: "cs_groups s2 5 = Some G" "slot_table G = ?empty" by blast
  have "\<exists>s3. cap_alloc 5 5 0 s2 = Some (0, s3) \<and> cs_kmem s3 = [False]"
    using b(2-4) G a(4)
    by (simp add: cap_alloc_def group_table_def fresh_table_alloc Let_def kmalloc_addr_def
        fresh_object_def install_slot_def get_bit_in_def load_at_def BITS_PER_LONG_def
        store_int_def u32_of_int_def store_at_def)
  then obtain s3 where c: "cap_alloc 5 5 0 s2 = Some (CAP_GROUP_OBJ_ID, s3)" "cs_kmem s3 = [False]"
    by (auto simp: CAP_GROUP_OBJ_ID_def)
  show ?thesis
    by (rule sys_clone_cap_group_oom_panics [OF _ _ _ c])
      (use a b in \<open>simp_all add: demo_cs_def demo_build_def demo_clone_args_def\<close>)
qed

end
