(* ===== verification/Radix.thy ===== *)
theory Radix
  imports Prelude
begin

text \<open>
  The radix tree of \<^verbatim>\<open>kernel/lib/radix.c\<close>, which maps page indices of memory objects to
  physical pages. Sixteen levels consume four bits of the 64-bit key each. A node is the array
  of its children, or at the lowest level the array of its values; \<open>None\<close> is a null pointer.
  The recursion is on the height of a node: the lowest level is height 0, where the source
  counts levels from the root (\<open>RADIX_LEVELS - 1\<close> is the lowest) or from the leaves.
  The lock of a tree is a flag; taking a lock that is held does not return.
\<close>

definition RADIX_NODE_BITS :: nat where "RADIX_NODE_BITS = 4"
definition RADIX_NODE_SIZE :: nat where "RADIX_NODE_SIZE = 16"
definition RADIX_NODE_MASK :: u64 where "RADIX_NODE_MASK = 15"
definition RADIX_LEVELS :: nat where "RADIX_LEVELS = 16"

text \<open>The height of the root.\<close>

definition ROOT_HEIGHT :: nat where "ROOT_HEIGHT = RADIX_LEVELS - 1"

lemmas radix_consts = ROOT_HEIGHT_def RADIX_NODE_BITS_def RADIX_NODE_SIZE_def RADIX_NODE_MASK_def RADIX_LEVELS_def

datatype 'v radix_node = Children "'v radix_node option list" | Values "'v option list"

record 'v radix =
  radix_root :: "'v radix_node option"
  radix_locked :: bool
  radix_mem_type :: mem_t
  has_deleter :: bool

definition radix_lock :: "'v radix \<Rightarrow> 'v radix option" where
  "radix_lock r = (if radix_locked r then None else Some (r\<lparr>radix_locked := True\<rparr>))"

definition radix_unlock :: "'v radix \<Rightarrow> 'v radix" where
  "radix_unlock r = r\<lparr>radix_locked := False\<rparr>"

text \<open>A zeroed node of a given height.\<close>

definition zero_node :: "nat \<Rightarrow> 'v radix_node" where
  "zero_node h = (if h = 0 then Values (replicate RADIX_NODE_SIZE None)
                  else Children (replicate RADIX_NODE_SIZE None))"

definition new_radix_node :: "nat \<Rightarrow> kmem \<Rightarrow> 'v radix_node option \<times> kmem" where
  "new_radix_node h k =
     (let (ok, k') = kmalloc_outcome k in (if ok then Some (zero_node h) else None, k'))"

definition new_radix :: "mem_t \<Rightarrow> kmem \<Rightarrow> ('v radix \<times> kmem) option" where
  "new_radix flags k =
     (let (ok, k') = kmalloc_outcome k
      in do { bug_on (\<not> ok);
              bug_on (\<not> IS_VALID_MEM_TYPE flags);
              Some (\<lparr>radix_root = None, radix_locked = False, radix_mem_type = flags,
                     has_deleter = False\<rparr>, k') })"

definition init_radix :: "'v radix \<Rightarrow> kmem \<Rightarrow> ('v radix \<times> kmem) option" where
  "init_radix r k =
     (let (ok, k') = kmalloc_outcome k
      in do { bug_on (\<not> ok);
              Some (r\<lparr>radix_root := Some (zero_node ROOT_HEIGHT), has_deleter := False,
                      radix_locked := False\<rparr>, k') })"

definition init_radix_w_deleter :: "'v radix \<Rightarrow> kmem \<Rightarrow> ('v radix \<times> kmem) option" where
  "init_radix_w_deleter r k =
     do { (r', k') \<leftarrow> init_radix r k; Some (r'\<lparr>has_deleter := True\<rparr>, k') }"

text \<open>The loop that splits the key: entry \<open>i\<close> is the index used at height \<open>i\<close>.\<close>

fun radix_index :: "nat \<Rightarrow> u64 \<Rightarrow> nat list" where
  "radix_index 0 key = []"
| "radix_index (Suc n) key =
     unat (key AND RADIX_NODE_MASK) # radix_index n (drop_bit RADIX_NODE_BITS key)"

text \<open>
  The descent of \<open>radix_add\<close> from a node of height \<open>h\<close>. A child that is missing is
  allocated and linked before the descent goes on, so it stays when a later allocation fails.
\<close>

fun radix_add_node ::
    "nat \<Rightarrow> nat list \<Rightarrow> 'v option \<Rightarrow> 'v radix_node \<Rightarrow> kmem \<Rightarrow> (int \<times> 'v radix_node \<times> kmem) option" where
  "radix_add_node 0 index v (Values vs) k =
     do { vs' \<leftarrow> store_at vs (index ! 0) v; Some (0, Values vs', k) }"
| "radix_add_node (Suc h) index v (Children cs) k =
     do { child \<leftarrow> load_at cs (index ! Suc h);
          case child of
            None \<Rightarrow>
              (case new_radix_node h k of
                 (None, k1) \<Rightarrow> Some (- ENOMEM, Children cs, k1)
               | (Some new, k1) \<Rightarrow>
                   do { (r, n, k2) \<leftarrow> radix_add_node h index v new k1;
                        Some (r, Children (cs[index ! Suc h := Some n]), k2) })
          | Some node \<Rightarrow>
              do { (r, n, k2) \<leftarrow> radix_add_node h index v node k;
                   Some (r, Children (cs[index ! Suc h := Some n]), k2) } }"
| "radix_add_node _ _ _ _ _ = None"

definition radix_add :: "'v radix \<Rightarrow> u64 \<Rightarrow> 'v option \<Rightarrow> kmem \<Rightarrow> (int \<times> 'v radix \<times> kmem) option" where
  "radix_add radix key v k =
     do { r \<leftarrow> radix_lock radix;
          let (root, k1) = (case radix_root r of
            None \<Rightarrow> new_radix_node ROOT_HEIGHT k | Some n \<Rightarrow> (Some n, k));
          case root of
            None \<Rightarrow> Some (- ENOMEM, radix_unlock r, k1)
          | Some node \<Rightarrow>
              do { (ret, n, k2) \<leftarrow> radix_add_node ROOT_HEIGHT
                     (radix_index RADIX_LEVELS key) v node k1;
                   Some (ret, radix_unlock (r\<lparr>radix_root := Some n\<rparr>), k2) } }"

fun radix_get_node :: "nat \<Rightarrow> nat list \<Rightarrow> 'v radix_node \<Rightarrow> 'v option option" where
  "radix_get_node 0 index (Values vs) = load_at vs (index ! 0)"
| "radix_get_node (Suc h) index (Children cs) =
     do { child \<leftarrow> load_at cs (index ! Suc h);
          case child of None \<Rightarrow> Some None | Some node \<Rightarrow> radix_get_node h index node }"
| "radix_get_node _ _ _ = None"

definition radix_get :: "'v radix \<Rightarrow> u64 \<Rightarrow> ('v option \<times> 'v radix) option" where
  "radix_get radix key =
     do { r \<leftarrow> radix_lock radix;
          case radix_root r of
            None \<Rightarrow> Some (None, radix_unlock r)
          | Some node \<Rightarrow>
              do { v \<leftarrow> radix_get_node ROOT_HEIGHT (radix_index RADIX_LEVELS key) node;
                   Some (v, radix_unlock r) } }"

definition radix_del :: "'v radix \<Rightarrow> u64 \<Rightarrow> kmem \<Rightarrow> (int \<times> 'v radix \<times> kmem) option" where
  "radix_del radix key k = radix_add radix key None k"

text \<open>The values handed to the deleter, in order.\<close>

fun radix_free_node :: "nat \<Rightarrow> bool \<Rightarrow> 'v radix_node \<Rightarrow> 'v list option" where
  "radix_free_node 0 deleter (Values vs) =
     Some (if deleter then List.map_filter id (take RADIX_NODE_SIZE vs) else [])"
| "radix_free_node (Suc h) deleter (Children cs) =
     do { parts \<leftarrow> those (map (\<lambda>c. case c of None \<Rightarrow> Some [] | Some n \<Rightarrow> radix_free_node h deleter n)
                          (take RADIX_NODE_SIZE cs));
          Some (concat parts) }"
| "radix_free_node _ _ _ = None"

text \<open>The tree is gone after the call, except on the error return, which keeps the lock.\<close>

definition radix_free :: "'v radix \<Rightarrow> (int \<times> 'v list \<times> 'v radix option) option" where
  "radix_free radix =
     do { r \<leftarrow> radix_lock radix;
          case radix_root r of
            None \<Rightarrow> Some (- EINVAL, [], Some r)
          | Some node \<Rightarrow>
              do { deleted \<leftarrow> radix_free_node ROOT_HEIGHT (has_deleter r) node;
                   Some (0, deleted, None) } }"

subsection \<open>Checksum and traversal\<close>

fun hash_page :: "u64 \<Rightarrow> u8 list \<Rightarrow> u64" where
  "hash_page initial [] = initial"
| "hash_page initial (b # bs) = hash_page (initial * 307 + ucast b + 1) bs"

text \<open>\<open>page\<close> gives the bytes of the page a value points to.\<close>

fun radix_checksum_node :: "nat \<Rightarrow> ('v \<Rightarrow> u8 list) \<Rightarrow> u64 \<Rightarrow> 'v radix_node \<Rightarrow> u64" where
  "radix_checksum_node h page initial (Values vs) =
     fold (\<lambda>v acc. case v of None \<Rightarrow> acc | Some pa \<Rightarrow> hash_page acc (page pa)) vs initial"
| "radix_checksum_node 0 page initial (Children cs) = initial"
| "radix_checksum_node (Suc h) page initial (Children cs) =
     fold (\<lambda>c acc. case c of None \<Rightarrow> acc | Some n \<Rightarrow> radix_checksum_node h page acc n) cs initial"

definition radix_checksum :: "('v \<Rightarrow> u8 list) \<Rightarrow> 'v radix \<Rightarrow> u64 option" where
  "radix_checksum page radix =
     do { root \<leftarrow> radix_root radix;
          Some (radix_checksum_node ROOT_HEIGHT page 0 root) }"

text \<open>The calls of the visitor, in order.\<close>

fun radix_traverse_node :: "nat \<Rightarrow> u64 \<Rightarrow> 'v radix_node \<Rightarrow> (u64 \<times> 'v) list" where
  "radix_traverse_node h prefix (Values vs) =
     concat (map (\<lambda>(i, v). case v of None \<Rightarrow> []
        | Some pa \<Rightarrow> [(push_bit RADIX_NODE_BITS prefix OR of_nat i, pa)]) (enumerate 0 vs))"
| "radix_traverse_node 0 prefix (Children cs) = []"
| "radix_traverse_node (Suc h) prefix (Children cs) =
     concat (map (\<lambda>(i, c). case c of None \<Rightarrow> []
        | Some n \<Rightarrow> radix_traverse_node h (push_bit RADIX_NODE_BITS prefix OR of_nat i) n)
       (enumerate 0 cs))"

definition radix_traverse :: "'v radix \<Rightarrow> ((u64 \<times> 'v) list \<times> 'v radix) option" where
  "radix_traverse radix =
     do { r \<leftarrow> radix_lock radix;
          Some (case radix_root r of
                  None \<Rightarrow> []
                | Some node \<Rightarrow> radix_traverse_node ROOT_HEIGHT 0 node, radix_unlock r) }"

fun first_some :: "('a \<Rightarrow> 'b option) \<Rightarrow> 'a list \<Rightarrow> 'b option" where
  "first_some f [] = None"
| "first_some f (x # xs) = (case f x of None \<Rightarrow> first_some f xs | Some y \<Rightarrow> Some y)"

text \<open>
  \<open>__radix_complex_traverse\<close>: above the lowest level the loop returns from its first child
  that is not null.
\<close>

fun radix_complex_node :: "nat \<Rightarrow> u64 \<Rightarrow> (u64 \<Rightarrow> 'v \<Rightarrow> 'r option) \<Rightarrow> 'v radix_node \<Rightarrow> 'r option" where
  "radix_complex_node h prefix fn (Values vs) =
     first_some (\<lambda>(i, v). case v of None \<Rightarrow> None
       | Some pa \<Rightarrow> fn (push_bit RADIX_NODE_BITS prefix OR of_nat i) pa) (enumerate 0 vs)"
| "radix_complex_node 0 prefix fn (Children cs) = None"
| "radix_complex_node (Suc h) prefix fn (Children cs) =
     (case find (\<lambda>(i, c). c \<noteq> None) (enumerate 0 cs) of
        Some (i, Some n) \<Rightarrow>
          radix_complex_node h (push_bit RADIX_NODE_BITS prefix OR of_nat i) fn n
      | _ \<Rightarrow> None)"

definition radix_complex_traverse ::
    "'v radix \<Rightarrow> (u64 \<Rightarrow> 'v \<Rightarrow> 'r option) \<Rightarrow> ('r option \<times> 'v radix) option" where
  "radix_complex_traverse radix fn =
     do { r \<leftarrow> radix_lock radix;
          Some (case radix_root r of
                  None \<Rightarrow> None
                | Some node \<Rightarrow> radix_complex_node ROOT_HEIGHT 0 fn node, radix_unlock r) }"

subsection \<open>Deep copy\<close>

text \<open>Values are page addresses here; the page store is what the copy reads and allocates.\<close>

record pstore =
  ps_pages :: "nat \<Rightarrow> u8 list option"
  ps_next :: nat
  ps_kmem :: kmem

definition pagecpy :: "nat \<Rightarrow> nat \<Rightarrow> pstore \<Rightarrow> pstore option" where
  "pagecpy dst src ps =
     do { bytes \<leftarrow> ps_pages ps src;
          old \<leftarrow> ps_pages ps dst;
          Some (ps\<lparr>ps_pages := (ps_pages ps)(dst \<mapsto> bytes)\<rparr>) }"

definition get_page :: "pstore \<Rightarrow> nat option \<times> pstore" where
  "get_page ps =
     (let (ok, k) = kmalloc_outcome (ps_kmem ps)
      in if ok then (Some (ps_next ps), ps\<lparr>ps_kmem := k, ps_next := ps_next ps + 1,
                       ps_pages := (ps_pages ps)(ps_next ps \<mapsto> [])\<rparr>)
         else (None, ps\<lparr>ps_kmem := k\<rparr>))"

definition copy_value :: "bool \<Rightarrow> nat option \<Rightarrow> nat option \<Rightarrow> pstore \<Rightarrow> (nat option \<times> pstore) option" where
  "copy_value phy_alloc sv dv ps =
     (case (sv, dv) of
        (None, None) \<Rightarrow> Some (None, ps)
      | (None, Some d) \<Rightarrow> Some (None, ps\<lparr>ps_pages := (ps_pages ps)(d := None)\<rparr>)
      | (Some a, Some d) \<Rightarrow> do { ps1 \<leftarrow> pagecpy d a ps; Some (Some d, ps1) }
      | (Some a, None) \<Rightarrow>
          if phy_alloc
          then case get_page ps of
                 (None, ps1) \<Rightarrow> None
               | (Some new, ps1) \<Rightarrow> do { ps2 \<leftarrow> pagecpy new a ps1; Some (Some new, ps2) }
          else Some (Some a, ps))"

fun copy_values ::
    "bool \<Rightarrow> nat option list \<Rightarrow> nat option list \<Rightarrow> pstore \<Rightarrow> (nat option list \<times> pstore) option" where
  "copy_values phy_alloc [] [] ps = Some ([], ps)"
| "copy_values phy_alloc (a # as) (d # ds) ps =
     do { (v, ps1) \<leftarrow> copy_value phy_alloc a d ps;
          (vs, ps2) \<leftarrow> copy_values phy_alloc as ds ps1;
          Some (v # vs, ps2) }"
| "copy_values _ _ _ _ = None"

function (sequential) deep_copy_node ::
      "nat \<Rightarrow> bool \<Rightarrow> nat radix_node \<Rightarrow> nat radix_node \<Rightarrow> pstore \<Rightarrow> (int \<times> nat radix_node \<times> pstore) option"
    and deep_copy_children ::
      "nat \<Rightarrow> bool \<Rightarrow> nat radix_node option list \<Rightarrow> nat radix_node option list \<Rightarrow> pstore \<Rightarrow>
       (int \<times> nat radix_node option list \<times> pstore) option" where
  "deep_copy_node 0 phy_alloc (Values sv) (Values dv) ps =
     do { (vs, ps1) \<leftarrow> copy_values phy_alloc sv dv ps; Some (0, Values vs, ps1) }"
| "deep_copy_node (Suc h) phy_alloc (Children sc) (Children dc) ps =
     do { (r, cs, ps1) \<leftarrow> deep_copy_children h phy_alloc sc dc ps; Some (r, Children cs, ps1) }"
| "deep_copy_node _ _ _ _ _ = None"
| "deep_copy_children h phy_alloc [] [] ps = Some (0, [], ps)"
| "deep_copy_children h phy_alloc (c # cs) (d # ds) ps =
     (case c of
        None \<Rightarrow> do { (r, ds', ps1) \<leftarrow> deep_copy_children h phy_alloc cs ds ps;
                    Some (r, d # ds', ps1) }
      | Some n \<Rightarrow>
          (case new_radix_node h (ps_kmem ps) of
             (None, k) \<Rightarrow> Some (- ENOMEM, d # ds, ps\<lparr>ps_kmem := k\<rparr>)
           | (Some new, k) \<Rightarrow>
               do { (err, n', ps1) \<leftarrow> deep_copy_node h phy_alloc n new (ps\<lparr>ps_kmem := k\<rparr>);
                    if err \<noteq> 0 then Some (err, Some n' # ds, ps1)
                    else do { (r, ds', ps2) \<leftarrow> deep_copy_children h phy_alloc cs ds ps1;
                              Some (r, Some n' # ds', ps2) } }))"
| "deep_copy_children _ _ _ _ _ = None"
  by pat_completeness auto
termination
  by (relation "measures [\<lambda>x. case x of Inl (h, _) \<Rightarrow> 2 * h | Inr (h, _) \<Rightarrow> 2 * h + 1,
      \<lambda>x. case x of Inl _ \<Rightarrow> 0 | Inr (h, p, cs, _) \<Rightarrow> length cs]") auto

text \<open>
  When the new root cannot be allocated the source stores the error pointer as the root of the
  target and goes on with it; the model stops there (\<open>None\<close>).
\<close>

definition radix_deep_copy ::
    "nat radix \<Rightarrow> nat radix \<Rightarrow> bool \<Rightarrow> pstore \<Rightarrow> (int \<times> nat radix \<times> pstore) option" where
  "radix_deep_copy src dst phy_alloc ps =
     do { s \<leftarrow> radix_lock src;
          case radix_root s of
            None \<Rightarrow> Some (0, dst, ps)
          | Some sroot \<Rightarrow>
              (case (case radix_root dst of
                       Some n \<Rightarrow> (Some n, ps_kmem ps)
                     | None \<Rightarrow> new_radix_node ROOT_HEIGHT (ps_kmem ps)) of
                 (None, k) \<Rightarrow> None
               | (Some droot, k) \<Rightarrow>
                   do { (r, n, ps1) \<leftarrow> deep_copy_node ROOT_HEIGHT phy_alloc sroot droot
                          (ps\<lparr>ps_kmem := k\<rparr>);
                        Some (r, dst\<lparr>radix_root := Some n\<rparr>, ps1) }) }"

subsection \<open>Well-formed trees\<close>

fun rwf :: "nat \<Rightarrow> 'v radix_node \<Rightarrow> bool" where
  "rwf 0 (Values vs) \<longleftrightarrow> length vs = RADIX_NODE_SIZE"
| "rwf (Suc h) (Children cs) \<longleftrightarrow>
     length cs = RADIX_NODE_SIZE \<and> (\<forall>c \<in> set cs. case c of None \<Rightarrow> True | Some n \<Rightarrow> rwf h n)"
| "rwf _ _ \<longleftrightarrow> False"

definition radix_wf :: "'v radix \<Rightarrow> bool" where
  "radix_wf r \<longleftrightarrow> \<not> radix_locked r \<and>
     (case radix_root r of None \<Rightarrow> True | Some n \<Rightarrow> rwf ROOT_HEIGHT n)"

definition idx_ok :: "nat \<Rightarrow> nat list \<Rightarrow> bool" where
  "idx_ok h index \<longleftrightarrow> (\<forall>i \<le> h. index ! i < RADIX_NODE_SIZE)"

lemma rwf_cases:
  assumes "rwf h n"
  obtains (leaf) vs where "h = 0" "n = Values vs" "length vs = RADIX_NODE_SIZE"
  | (inner) h' cs where "h = Suc h'" "n = Children cs" "length cs = RADIX_NODE_SIZE"
    "\<And>i m. i < RADIX_NODE_SIZE \<Longrightarrow> cs ! i = Some m \<Longrightarrow> rwf h' m"
  using assms
proof (cases "(h, n)" rule: rwf.cases)
  case (2 h' cs)
  have "rwf h' m" if "i < RADIX_NODE_SIZE" "cs ! i = Some m" for i m
    using assms 2 that nth_mem [of i cs] by (fastforce split: option.splits)
  with assms 2 inner show ?thesis by auto
qed (use assms in auto)

lemma rwf_Children:
  "rwf (Suc h) (Children cs) \<longleftrightarrow> length cs = RADIX_NODE_SIZE \<and>
     (\<forall>i m. i < RADIX_NODE_SIZE \<longrightarrow> cs ! i = Some m \<longrightarrow> rwf h m)"
  by (auto simp: in_set_conv_nth split: option.splits)

lemma rwf_zero [simp]: "rwf h (zero_node h)"
  by (cases h) (auto simp: zero_node_def)

lemma get_zero [simp]: "idx_ok h index \<Longrightarrow> radix_get_node h index (zero_node h) = Some None"
  by (cases h) (auto simp: zero_node_def idx_ok_def)

lemma idx_ok_Suc: "idx_ok (Suc h) index \<Longrightarrow> idx_ok h index \<and> index ! Suc h < RADIX_NODE_SIZE"
  by (simp add: idx_ok_def)

lemma get_Children:
  "rwf (Suc h) (Children cs) \<Longrightarrow> idx_ok (Suc h) index \<Longrightarrow>
     radix_get_node (Suc h) index (Children cs) =
       (case cs ! (index ! Suc h) of None \<Rightarrow> Some None | Some n \<Rightarrow> radix_get_node h index n)"
  by (simp add: rwf_Children idx_ok_def)

lemma radix_get_node_total:
  "rwf h n \<Longrightarrow> idx_ok h index \<Longrightarrow> \<exists>v. radix_get_node h index n = Some v"
proof (induction h arbitrary: n)
  case 0
  then show ?case by (cases rule: rwf_cases [OF 0(1)]) (auto simp: idx_ok_def)
next
  case (Suc h)
  from Suc.prems(1) show ?case
  proof (cases rule: rwf_cases)
    case (inner h' cs)
    with Suc.IH Suc.prems show ?thesis
      using idx_ok_Suc [OF Suc.prems(2)] by (auto simp: get_Children split: option.splits)
  qed simp
qed

text \<open>Writing a node back at one index of its parent.\<close>

lemma get_update_child:
  assumes "rwf (Suc h) (Children cs)" "i < RADIX_NODE_SIZE" "rwf h n" "idx_ok (Suc h) index"
  shows "rwf (Suc h) (Children (cs[i := Some n]))"
    and "radix_get_node (Suc h) index (Children (cs[i := Some n])) =
      (if index ! Suc h = i then radix_get_node h index n
       else radix_get_node (Suc h) index (Children cs))"
proof -
  show wf: "rwf (Suc h) (Children (cs[i := Some n]))"
    using assms(1,2,3) unfolding rwf_Children by (auto simp: nth_list_update)
  show "radix_get_node (Suc h) index (Children (cs[i := Some n])) =
      (if index ! Suc h = i then radix_get_node h index n
       else radix_get_node (Suc h) index (Children cs))"
    using assms unfolding get_Children [OF wf assms(4)] get_Children [OF assms(1,4)]
    by (simp add: rwf_Children)
qed

definition same_path :: "nat \<Rightarrow> nat list \<Rightarrow> nat list \<Rightarrow> bool" where
  "same_path h index index' \<longleftrightarrow> (\<forall>i \<le> h. index ! i = index' ! i)"

lemma same_path_Suc:
  "same_path (Suc h) index index' \<longleftrightarrow> index ! Suc h = index' ! Suc h \<and> same_path h index index'"
  by (auto simp: same_path_def le_Suc_eq)

text \<open>What adding does to the lookups below a node: one path changes, or none and out of memory.\<close>

definition add_effect ::
    "nat \<Rightarrow> nat list \<Rightarrow> 'v option \<Rightarrow> kmem \<Rightarrow> 'v radix_node \<Rightarrow> int \<Rightarrow> 'v radix_node \<Rightarrow> bool" where
  "add_effect h index v k n r n' \<longleftrightarrow> rwf h n' \<and>
     (r = 0 \<and> (\<forall>index'. idx_ok h index' \<longrightarrow> radix_get_node h index' n' =
         (if same_path h index index' then Some v else radix_get_node h index' n)) \<or>
      r = - ENOMEM \<and> False \<in> set k \<and>
       (\<forall>index'. idx_ok h index' \<longrightarrow> radix_get_node h index' n' = radix_get_node h index' n))"

lemma add_effect_child:
  assumes wf: "rwf (Suc h) (Children cs)" and i: "idx_ok (Suc h) index"
    and same: "\<And>index'. idx_ok (Suc h) index' \<Longrightarrow> index' ! Suc h = index ! Suc h \<Longrightarrow>
        radix_get_node h index' m = radix_get_node (Suc h) index' (Children cs)"
    and k1: "set k1 \<subseteq> set k" and sub: "add_effect h index v k1 m r n1"
  shows "add_effect (Suc h) index v k (Children cs) r (Children (cs[index ! Suc h := Some n1]))"
proof -
  have n1: "rwf h n1" and lt: "index ! Suc h < RADIX_NODE_SIZE"
    using sub idx_ok_Suc [OF i] by (auto simp: add_effect_def)
  note upd = get_update_child [OF wf lt n1]
  show ?thesis
    using sub upd(1) [OF i] upd(2) same k1 idx_ok_Suc
    unfolding add_effect_def same_path_Suc by (auto simp del: radix_get_node.simps rwf.simps)
qed

lemma radix_add_node_effect:
  assumes "rwf h n" "idx_ok h index"
  shows "\<exists>r n' k'. radix_add_node h index v n k = Some (r, n', k') \<and> add_effect h index v k n r n'"
  using assms
proof (induction h arbitrary: n k)
  case 0
  from 0(1) obtain vs where n: "n = Values vs" "length vs = RADIX_NODE_SIZE"
    by (cases rule: rwf_cases) auto
  with 0(2) show ?case by (auto simp: add_effect_def idx_ok_def same_path_def)
next
  case (Suc h)
  from Suc.prems(1) obtain cs where n: "n = Children cs" "length cs = RADIX_NODE_SIZE"
    and sub: "\<And>i m. i < RADIX_NODE_SIZE \<Longrightarrow> cs ! i = Some m \<Longrightarrow> rwf h m"
    by (cases rule: rwf_cases) auto
  let ?i = "index ! Suc h"
  have i: "?i < RADIX_NODE_SIZE" "idx_ok h index" using idx_ok_Suc [OF Suc.prems(2)] by auto
  have wf: "rwf (Suc h) (Children cs)" using Suc.prems(1) n(1) by simp
  show ?case
  proof (cases "cs ! ?i")
    case None
    obtain ok k1 where k1: "kmalloc_outcome k = (ok, k1)" by fastforce
    note mem = kmalloc_outcome_set [OF k1]
    have same: "radix_get_node h index' (zero_node h) = radix_get_node (Suc h) index' (Children cs)"
      if "idx_ok (Suc h) index'" "index' ! Suc h = ?i" for index'
      unfolding get_Children [OF wf that(1)] using that None idx_ok_Suc [OF that(1)] by simp
    from Suc.IH [OF rwf_zero i(2), of k1] obtain r n1 k2 where
      n1: "radix_add_node h index v (zero_node h) k1 = Some (r, n1, k2)"
      "add_effect h index v k1 (zero_node h) r n1" by blast
    show ?thesis
      using None i n k1 mem wf n1 add_effect_child [OF wf Suc.prems(2) same _ n1(2), of k]
      by (cases ok) (auto simp: new_radix_node_def add_effect_def)
  next
    case (Some m)
    have same: "radix_get_node h index' m = radix_get_node (Suc h) index' (Children cs)"
      if "idx_ok (Suc h) index'" "index' ! Suc h = ?i" for index'
      unfolding get_Children [OF wf that(1)] using that Some by simp
    from Suc.IH [OF sub [OF i(1) Some] i(2), of k] obtain r n1 k2 where
      n1: "radix_add_node h index v m k = Some (r, n1, k2)" "add_effect h index v k m r n1" by blast
    with add_effect_child [OF wf Suc.prems(2) same _ n1(2), of k] Some i n show ?thesis by auto
  qed
qed

subsection \<open>Keys and paths\<close>

lemma radix_index_length [simp]: "length (radix_index n key) = n"
  by (induction n arbitrary: key) auto

lemma radix_index_nth:
  "i < n \<Longrightarrow> radix_index n key ! i = unat (drop_bit (4 * i) key AND 15)"
proof (induction n arbitrary: i key)
  case (Suc n)
  then show ?case
    by (cases i) (simp_all add: radix_consts drop_bit_drop_bit add.commute)
qed simp

lemma and_15: "(x :: u64) AND 15 = take_bit 4 x"
  by (simp add: take_bit_eq_mask mask_eq_exp_minus_1)

lemma digit_bit: "bit (drop_bit (4 * i) (key :: u64) AND 15) j \<longleftrightarrow> j < 4 \<and> bit key (4 * i + j)"
  by (simp add: and_15 bit_take_bit_iff bit_drop_bit_eq)

lemma digit_lt: "unat (drop_bit (4 * i) (key :: u64) AND 15) < 16"
  using take_bit_nat_less_exp [of 4 "unat (drop_bit (4 * i) key)"]
  by (simp add: and_15 unsigned_take_bit_eq)

lemma idx_ok_index: "idx_ok ROOT_HEIGHT (radix_index RADIX_LEVELS key)"
  by (simp add: idx_ok_def radix_index_nth digit_lt radix_consts less_Suc_eq_le [symmetric]
      del: radix_index.simps)

lemma same_path_key:
  "same_path ROOT_HEIGHT (radix_index RADIX_LEVELS key) (radix_index RADIX_LEVELS key') \<longleftrightarrow>
     key = key'"
proof
  assume path: "same_path ROOT_HEIGHT (radix_index RADIX_LEVELS key)
    (radix_index RADIX_LEVELS key')"
  have digit: "drop_bit (4 * i) key AND 15 = drop_bit (4 * i) key' AND 15" if "i < 16" for i
    using path that
    by (auto simp: same_path_def radix_index_nth radix_consts word_unat_eq_iff
        simp del: radix_index.simps)
  show "key = key'"
  proof (rule bit_word_eqI)
    fix b :: nat assume "b < LENGTH(64)"
    then have "b div 4 < 16" by simp
    from digit [OF this] have
      "bit (drop_bit (4 * (b div 4)) key AND 15) (b mod 4) =
       bit (drop_bit (4 * (b div 4)) key' AND 15) (b mod 4)" by simp
    then show "bit key b = bit key' b" by (simp add: digit_bit)
  qed
qed (simp add: same_path_def)

subsection \<open>The map a tree represents\<close>

definition radix_lookup :: "'v radix \<Rightarrow> u64 \<Rightarrow> 'v option" where
  "radix_lookup r key = (case radix_root r of
     None \<Rightarrow> None
   | Some n \<Rightarrow> the (radix_get_node ROOT_HEIGHT (radix_index RADIX_LEVELS key) n))"

lemma unlock_lock [simp]: "\<not> radix_locked r \<Longrightarrow> radix_unlock (r\<lparr>radix_locked := True\<rparr>) = r"
  by (simp add: radix_unlock_def)

lemma radix_get_lookup:
  assumes "radix_wf r"
  shows "radix_get r key = Some (radix_lookup r key, r)"
proof (cases "radix_root r")
  case (Some n)
  with assms obtain v where
    "radix_get_node ROOT_HEIGHT (radix_index RADIX_LEVELS key) n = Some v"
    using radix_get_node_total [OF _ idx_ok_index, of n key] by (auto simp: radix_wf_def)
  with Some assms show ?thesis
    by (simp add: radix_get_def radix_lock_def radix_lookup_def radix_wf_def)
qed (use assms in \<open>simp add: radix_get_def radix_lock_def radix_lookup_def radix_wf_def\<close>)

lemma radix_add_from:
  assumes wf: "rwf ROOT_HEIGHT n"
    and look: "\<And>key'. radix_get_node ROOT_HEIGHT (radix_index RADIX_LEVELS key') n =
      Some (radix_lookup r key')"
    and k1: "set k1 \<subseteq> set k" and lock: "\<not> radix_locked r"
  shows "\<exists>ret r' k'. (do { (ret, n', k2) \<leftarrow> radix_add_node ROOT_HEIGHT
            (radix_index RADIX_LEVELS key) v n k1;
          Some (ret, radix_unlock (r\<lparr>radix_locked := True, radix_root := Some n'\<rparr>), k2) }) =
        Some (ret, r', k') \<and> radix_wf r' \<and>
      (ret = 0 \<and> radix_lookup r' = (radix_lookup r)(key := v) \<or>
       ret = - ENOMEM \<and> False \<in> set k \<and> radix_lookup r' = radix_lookup r)"
proof -
  from radix_add_node_effect [OF wf idx_ok_index, of key v k1] obtain ret n' k' where
    run: "radix_add_node ROOT_HEIGHT (radix_index RADIX_LEVELS key) v n k1 = Some (ret, n', k')"
    and eff: "add_effect ROOT_HEIGHT (radix_index RADIX_LEVELS key) v k1 n ret n'" by blast
  let ?r = "radix_unlock (r\<lparr>radix_locked := True, radix_root := Some n'\<rparr>)"
  have "radix_wf ?r" using eff by (simp add: radix_wf_def radix_unlock_def add_effect_def)
  moreover have "radix_lookup ?r key' =
      the (radix_get_node ROOT_HEIGHT (radix_index RADIX_LEVELS key') n')" for key'
    by (simp add: radix_lookup_def radix_unlock_def)
  then have "ret = 0 \<and> radix_lookup ?r = (radix_lookup r)(key := v) \<or>
      ret = - ENOMEM \<and> False \<in> set k \<and> radix_lookup ?r = radix_lookup r"
    using eff k1 look idx_ok_index same_path_key [of key] unfolding add_effect_def fun_eq_iff
    by auto
  ultimately show ?thesis using run by auto
qed

lemma radix_add_law:
  assumes wf: "radix_wf r"
  shows "\<exists>ret r' k'. radix_add r key v k = Some (ret, r', k') \<and> radix_wf r' \<and>
    (ret = 0 \<and> radix_lookup r' = (radix_lookup r)(key := v) \<or>
     ret = - ENOMEM \<and> False \<in> set k \<and> radix_lookup r' = radix_lookup r)"
proof (cases "radix_root r")
  case None
  obtain ok k1 where k1: "kmalloc_outcome k = (ok, k1)" by fastforce
  have "radix_get_node ROOT_HEIGHT (radix_index RADIX_LEVELS key')
      (zero_node ROOT_HEIGHT) = Some (radix_lookup r key')" for key'
    using None idx_ok_index by (simp add: radix_lookup_def)
  with radix_add_from [OF rwf_zero, of r k1 k key v] kmalloc_outcome_set [OF k1] k1 None wf
  show ?thesis
    by (cases ok) (auto simp: radix_add_def radix_lock_def new_radix_node_def radix_wf_def
        radix_lookup_def simp del: radix_index.simps)
next
  case (Some n)
  with wf have n: "rwf ROOT_HEIGHT n" "\<not> radix_locked r" by (simp_all add: radix_wf_def)
  have "radix_get_node ROOT_HEIGHT (radix_index RADIX_LEVELS key') n =
      Some (radix_lookup r key')" for key'
    using radix_get_node_total [OF n(1) idx_ok_index, of key'] Some by (auto simp: radix_lookup_def)
  from radix_add_from [OF n(1) this order_refl n(2), where key = key and v = v and k = k] Some n(2) show ?thesis
    by (simp add: radix_add_def radix_lock_def)
qed

end
