(* ===== verification/Radix_Props.thy ===== *)
theory Radix_Props
  imports Radix
begin

text \<open>
  Properties of the radix tree: it implements a map, its traversal lists that map in key order,
  its checksum depends on that list only, and a deep copy into an empty tree yields the same map.
\<close>

subsection \<open>Traversal\<close>

lemma small_bits:
  assumes "i < 16" "bit (i :: nat) b"
  shows "b < 4"
proof (rule ccontr)
  assume "\<not> b < 4"
  then have "i < 2 ^ b" using assms(1) power_increasing [of 4 b "2 :: nat"] by simp
  with assms(2) show False by (simp add: bit_iff_odd)
qed

lemma digit_split:
  assumes i: "i < 16" and p: "\<And>b. bit (p :: u64) b \<Longrightarrow> b < 60"
  shows "x = push_bit 4 p OR of_nat i \<longleftrightarrow> drop_bit 4 x = p \<and> unat (x AND 15) = i"
proof -
  note low = small_bits [OF i]
  show ?thesis
  proof
    assume x: "x = push_bit 4 p OR of_nat i"
    have "drop_bit 4 x = p"
      by (rule bit_word_eqI) (use p in \<open>auto simp: x bit_simps dest: low\<close>)
    moreover have "x AND 15 = of_nat i"
      by (rule bit_word_eqI) (auto simp: x and_15 bit_simps dest: low)
    then have "unat (x AND 15) = i" using i by (simp add: unsigned_of_nat take_bit_nat_eq_self)
    ultimately show "drop_bit 4 x = p \<and> unat (x AND 15) = i" ..
  next
    assume a: "drop_bit 4 x = p \<and> unat (x AND 15) = i"
    then have "of_nat i = x AND 15" by auto
    with a show "x = push_bit 4 p OR of_nat i"
      by (intro bit_word_eqI) (auto simp: and_15 bit_simps)
  qed
qed

lemma set_enumerate0: "(i, x) \<in> set (enumerate 0 xs) \<longleftrightarrow> i < length xs \<and> xs ! i = x"
  by (auto simp: in_set_enumerate_eq)

lemma traverse_node_set:
  assumes "rwf h n" "h < 16" "\<And>b. bit p b \<Longrightarrow> b + 4 * Suc h < 64"
  shows "(key, v) \<in> set (radix_traverse_node h p n) \<longleftrightarrow>
     drop_bit (4 * Suc h) key = p \<and>
     radix_get_node h (radix_index RADIX_LEVELS key) n = Some (Some v)"
  using assms
proof (induction h arbitrary: n p)
  case 0
  from 0(1) obtain vs where n: "n = Values vs" "length vs = 16"
    by (cases rule: rwf_cases) (auto simp: radix_consts)
  have p: "bit p b \<Longrightarrow> b < 60" for b using 0(3) [of b] by simp
  have dig: "radix_index RADIX_LEVELS key ! 0 = unat (key AND 15)"
    using radix_index_nth [of 0 16 key] by (simp add: RADIX_LEVELS_def del: radix_index.simps)
  have lt: "unat (key AND 15) < 16" using digit_lt [of 0 key] by simp
  have "(key, v) \<in> set (radix_traverse_node 0 p n) \<longleftrightarrow>
      (\<exists>i < 16. vs ! i = Some v \<and> key = push_bit 4 p OR of_nat i)"
    using n by (force simp: set_enumerate0 RADIX_NODE_BITS_def split: option.splits prod.splits)
  also have "\<dots> \<longleftrightarrow> drop_bit 4 key = p \<and> vs ! unat (key AND 15) = Some v"
    using digit_split [OF _ p, of _ p key] lt by metis
  finally show ?case using n lt dig by (simp del: radix_index.simps)
next
  case (Suc h)
  from Suc.prems(1) obtain cs where n: "n = Children cs" "length cs = 16"
    and sub: "\<And>i m. i < 16 \<Longrightarrow> cs ! i = Some m \<Longrightarrow> rwf h m"
    by (cases rule: rwf_cases) (auto simp: radix_consts)
  have p: "bit p b \<Longrightarrow> b < 60" for b using Suc.prems(3) [of b] by simp
  let ?x = "drop_bit (4 * Suc h) key"
  have dig: "radix_index RADIX_LEVELS key ! Suc h = unat (?x AND 15)"
    using radix_index_nth [of "Suc h" 16 key] Suc.prems(2)
    by (simp add: RADIX_LEVELS_def del: radix_index.simps)
  have lt: "unat (?x AND 15) < 16" using digit_lt [of "Suc h" key] by simp
  have IH: "(key, v) \<in> set (radix_traverse_node h (push_bit 4 p OR of_nat i) m) \<longleftrightarrow>
      ?x = push_bit 4 p OR of_nat i \<and>
      radix_get_node h (radix_index RADIX_LEVELS key) m = Some (Some v)"
    if "i < 16" "cs ! i = Some m" for i m
  proof (rule Suc.IH [OF sub [OF that]])
    fix b assume b: "bit (push_bit 4 p OR (of_nat i :: u64)) b"
    show "b + 4 * Suc h < 64"
    proof (cases "b < 4")
      case True
      with Suc.prems(2) show ?thesis by simp
    next
      case False
      with b that(1) have "bit p (b - 4)" by (auto simp: bit_simps dest: small_bits)
      from Suc.prems(3) [OF this] False show ?thesis by simp
    qed
  qed (use Suc.prems(2) in simp)
  have "(key, v) \<in> set (radix_traverse_node (Suc h) p n) \<longleftrightarrow>
      (\<exists>i < 16. \<exists>m. cs ! i = Some m \<and>
         (key, v) \<in> set (radix_traverse_node h (push_bit 4 p OR of_nat i) m))"
    using n by (force simp: set_enumerate0 RADIX_NODE_BITS_def split: option.splits prod.splits)
  also have "\<dots> \<longleftrightarrow> (\<exists>m. drop_bit 4 ?x = p \<and> cs ! unat (?x AND 15) = Some m \<and>
      radix_get_node h (radix_index RADIX_LEVELS key) m = Some (Some v))"
    using IH digit_split [OF _ p, of _ p ?x] lt by metis
  also have "\<dots> \<longleftrightarrow> drop_bit (4 * Suc (Suc h)) key = p \<and>
      radix_get_node (Suc h) (radix_index RADIX_LEVELS key) n = Some (Some v)"
    using n lt dig by (auto simp: drop_bit_drop_bit add.commute split: option.splits
        simp del: radix_index.simps)
  finally show ?case .
qed

lemma digit_value:
  assumes "i < 16" "\<And>b. bit (p :: u64) b \<Longrightarrow> b < 60"
  shows "unat (push_bit 4 p OR of_nat i :: u64) = 16 * unat p + i"
proof -
  let ?x = "push_bit 4 p OR of_nat i :: u64"
  have "drop_bit 4 ?x = p" "unat (?x AND 15) = i"
    using digit_split [where x = ?x and p = p and i = i] assms by blast+
  then have "drop_bit 4 (unat ?x) = unat p" "take_bit 4 (unat ?x) = i"
    by (metis unat_drop_bit_eq) (metis \<open>unat (?x AND 15) = i\<close> and_15 unsigned_take_bit_eq)
  then have "unat ?x div 16 = unat p" "unat ?x mod 16 = i"
    by (simp_all add: drop_bit_eq_div take_bit_eq_mod)
  then show ?thesis by (metis div_mult_mod_eq mult.commute)
qed

lemma drop_bit_less: "drop_bit m (x :: u64) < drop_bit m y \<Longrightarrow> x < y"
  unfolding word_less_nat_alt unat_drop_bit_eq
  by (simp only: drop_bit_eq_div) (metis div_le_mono linorder_not_le)

lemma sorted_concat:
  assumes "\<And>i. i < length xss \<Longrightarrow> sorted_wrt R (xss ! i)"
    and "\<And>i j x y. i < j \<Longrightarrow> j < length xss \<Longrightarrow> x \<in> set (xss ! i) \<Longrightarrow> y \<in> set (xss ! j) \<Longrightarrow> R x y"
  shows "sorted_wrt R (concat xss)"
  using assms
proof (induction xss)
  case (Cons xs xss)
  have "sorted_wrt R (concat xss)"
  proof (rule Cons.IH)
    show "sorted_wrt R (xss ! i)" if "i < length xss" for i
      using Cons.prems(1) [of "Suc i"] that by simp
    show "R x y" if "i < j" "j < length xss" "x \<in> set (xss ! i)" "y \<in> set (xss ! j)" for i j x y
      using Cons.prems(2) [of "Suc i" "Suc j"] that by simp
  qed
  moreover have "R x y" if x: "x \<in> set xs" and y: "y \<in> set (concat xss)" for x y
  proof -
    from y obtain zs where "zs \<in> set xss" "y \<in> set zs" by auto
    then obtain j where "j < length xss" "y \<in> set (xss ! j)" by (metis in_set_conv_nth)
    with x Cons.prems(2) [of 0 "Suc j"] show ?thesis by simp
  qed
  ultimately show ?case using Cons.prems(1) [of 0] by (auto simp: sorted_wrt_append)
qed simp

lemma traverse_node_sorted:
  assumes "rwf h n" "h < 16" "\<And>b. bit p b \<Longrightarrow> b + 4 * Suc h < 64"
  shows "sorted_wrt (<) (map fst (radix_traverse_node h p n))"
  using assms
proof (induction h arbitrary: n p)
  case 0
  from 0(1) obtain vs where n: "n = Values vs" "length vs = 16"
    by (cases rule: rwf_cases) (auto simp: radix_consts)
  have p: "bit p b \<Longrightarrow> b < 60" for b using 0(3) [of b] by simp
  have less: "(push_bit 4 p OR of_nat i :: u64) < push_bit 4 p OR of_nat j" if "i < j" "j < 16" for i j
    using that digit_value [OF _ p] by (simp add: word_less_nat_alt)
  show ?case
    unfolding n(1) radix_traverse_node.simps map_concat map_map
    by (rule sorted_concat)
      (use n(2) less in \<open>auto simp: nth_enumerate_eq RADIX_NODE_BITS_def split: option.splits\<close>)
next
  case (Suc h)
  from Suc.prems(1) obtain cs where n: "n = Children cs" "length cs = 16"
    and sub: "\<And>i m. i < 16 \<Longrightarrow> cs ! i = Some m \<Longrightarrow> rwf h m"
    by (cases rule: rwf_cases) (auto simp: radix_consts)
  have p: "bit p b \<Longrightarrow> b < 60" for b using Suc.prems(3) [of b] by simp
  have bound: "b + 4 * Suc h < 64" if "bit (push_bit 4 p OR (of_nat i :: u64)) b" "i < 16" for b i
  proof (cases "b < 4")
    case False
    with that have "bit p (b - 4)" by (auto simp: bit_simps dest: small_bits)
    from Suc.prems(3) [OF this] False show ?thesis by simp
  qed (use Suc.prems(2) in simp)
  have h: "h < 16" using Suc.prems(2) by simp
  have less: "x < y" if ij: "i < j" "j < 16" and m: "cs ! i = Some m" "cs ! j = Some m'"
    and x: "x \<in> fst ` set (radix_traverse_node h (push_bit 4 p OR of_nat i) m)"
    and y: "y \<in> fst ` set (radix_traverse_node h (push_bit 4 p OR of_nat j) m')" for i j m m' x y
  proof -
    have i: "i < 16" using ij by simp
    have "drop_bit (4 * Suc h) x = push_bit 4 p OR of_nat i"
      using x traverse_node_set [OF sub [OF i m(1)] h bound [OF _ i]] by auto
    moreover have "drop_bit (4 * Suc h) y = push_bit 4 p OR of_nat j"
      using y traverse_node_set [OF sub [OF ij(2) m(2)] h bound [OF _ ij(2)]] by auto
    ultimately have "drop_bit (4 * Suc h) x < drop_bit (4 * Suc h) y"
      using ij i digit_value [OF _ p] by (simp add: word_less_nat_alt)
    then show ?thesis by (rule drop_bit_less)
  qed
  have IH: "sorted_wrt (<) (map fst (radix_traverse_node h (push_bit 4 p OR of_nat i) m))"
    if "i < 16" "cs ! i = Some m" for i m
    by (rule Suc.IH [OF sub [OF that] h bound [OF _ that(1)]])
  let ?f = "map fst \<circ> (\<lambda>(i, c). case c of None \<Rightarrow> []
    | Some n \<Rightarrow> radix_traverse_node h (push_bit RADIX_NODE_BITS p OR of_nat i) n)"
  show ?case
    unfolding n(1) radix_traverse_node.simps map_concat map_map
  proof (rule sorted_concat)
    fix i assume "i < length (map ?f (enumerate 0 cs))"
    then show "sorted_wrt (<) (map ?f (enumerate 0 cs) ! i)"
      using n(2) IH [of i] by (cases "cs ! i") (auto simp: nth_enumerate_eq RADIX_NODE_BITS_def)
  next
    fix i j x y assume "i < j" "j < length (map ?f (enumerate 0 cs))"
      "x \<in> set (map ?f (enumerate 0 cs) ! i)" "y \<in> set (map ?f (enumerate 0 cs) ! j)"
    then show "x < y"
      using n(2) less [of i j _ _ x y]
      by (cases "cs ! i"; cases "cs ! j") (auto simp: nth_enumerate_eq RADIX_NODE_BITS_def)
  qed
qed

subsection \<open>Checksum and release follow the traversal\<close>

text \<open>The values below a node, left to right.\<close>

fun node_values :: "nat \<Rightarrow> 'v radix_node \<Rightarrow> 'v list" where
  "node_values h (Values vs) = concat (map (case_option [] (\<lambda>x. [x])) vs)"
| "node_values 0 (Children cs) = []"
| "node_values (Suc h) (Children cs) = concat (map (case_option [] (node_values h)) cs)"

lemma concat_enumerate:
  "(\<And>i c. map g (F (i, c)) = G c) \<Longrightarrow>
     map g (concat (map F (enumerate k cs))) = concat (map G cs)"
  by (induction cs arbitrary: k) auto

lemma traverse_values: "map snd (radix_traverse_node h p n) = node_values h n"
proof (induction h arbitrary: n p)
  case 0
  show ?case by (cases n) (auto intro!: concat_enumerate split: option.splits)
next
  case (Suc h)
  then show ?case by (cases n) (auto intro!: concat_enumerate split: option.splits)
qed

lemma fold_concat_map:
  "(\<And>x acc. g x acc = fold f (h x) acc) \<Longrightarrow> fold g xs acc = fold f (concat (map h xs)) acc"
  by (induction xs arbitrary: acc) auto

lemma checksum_values:
  "radix_checksum_node h page initial n =
     fold (\<lambda>pa acc. hash_page acc (page pa)) (node_values h n) initial"
proof (induction h arbitrary: n initial)
  case 0
  show ?case by (cases n) (auto intro!: fold_concat_map split: option.splits)
next
  case (Suc h)
  then show ?case by (cases n) (auto intro!: fold_concat_map split: option.splits)
qed

lemma those_map_Some: "(\<And>x. x \<in> set xs \<Longrightarrow> f x = Some (g x)) \<Longrightarrow> those (map f xs) = Some (map g xs)"
  by (induction xs) auto

lemma free_values: "rwf h n \<Longrightarrow> radix_free_node h True n = Some (node_values h n)"
proof (induction h arbitrary: n)
  case 0
  then obtain vs where "n = Values vs" "length vs = RADIX_NODE_SIZE" by (cases rule: rwf_cases) auto
  moreover have "List.map_filter id vs = concat (map (case_option [] (\<lambda>x. [x])) vs)"
    by (induction vs) (auto simp: map_filter_simps split: option.splits)
  ultimately show ?case by simp
next
  case (Suc h)
  then obtain cs where n: "n = Children cs" "length cs = RADIX_NODE_SIZE"
    and sub: "\<forall>c \<in> set cs. case c of None \<Rightarrow> True | Some m \<Rightarrow> rwf h m"
    by (cases n) auto
  have "those (map (\<lambda>c. case c of None \<Rightarrow> Some [] | Some m \<Rightarrow> radix_free_node h True m) cs) =
      Some (map (case_option [] (node_values h)) cs)"
    using sub Suc.IH by (intro those_map_Some) (auto split: option.splits)
  with n show ?case by simp
qed

lemma free_nothing: "rwf h n \<Longrightarrow> radix_free_node h False n = Some []"
proof (induction h arbitrary: n)
  case 0
  then show ?case by (cases rule: rwf_cases) auto
next
  case (Suc h)
  then obtain cs where n: "n = Children cs" "length cs = RADIX_NODE_SIZE"
    and sub: "\<forall>c \<in> set cs. case c of None \<Rightarrow> True | Some m \<Rightarrow> rwf h m"
    by (cases n) auto
  have "those (map (\<lambda>c. case c of None \<Rightarrow> Some [] | Some m \<Rightarrow> radix_free_node h False m) cs) =
      Some (map (\<lambda>_. []) cs)"
    using sub Suc.IH by (intro those_map_Some) (auto split: option.splits)
  with n show ?case by simp
qed

subsection \<open>The map contract\<close>

text \<open>
  What the memory objects rely on: an insertion changes one key or nothing. The client is a
  sequence of insertions that stops at the first failure.
\<close>

locale kv_map =
  fixes wf :: "'m \<Rightarrow> bool"
    and lookup :: "'m \<Rightarrow> 'k \<Rightarrow> 'v option"
    and add :: "'m \<Rightarrow> 'k \<Rightarrow> 'v option \<Rightarrow> kmem \<Rightarrow> (int \<times> 'm \<times> kmem) option"
  assumes add_law: "wf m \<Longrightarrow> \<exists>ret m' k'. add m key v k = Some (ret, m', k') \<and> wf m' \<and>
      (ret = 0 \<and> lookup m' = (lookup m)(key := v) \<or>
       ret = - ENOMEM \<and> False \<in> set k \<and> lookup m' = lookup m)"
begin

fun add_all :: "'m \<Rightarrow> ('k \<times> 'v option) list \<Rightarrow> kmem \<Rightarrow> (int \<times> 'm \<times> kmem) option" where
  "add_all m [] k = Some (0, m, k)"
| "add_all m ((key, v) # kvs) k =
     do { (ret, m', k') \<leftarrow> add m key v k;
          if ret \<noteq> 0 then Some (ret, m', k') else add_all m' kvs k' }"

definition put_all :: "('k \<Rightarrow> 'v option) \<Rightarrow> ('k \<times> 'v option) list \<Rightarrow> 'k \<Rightarrow> 'v option" where
  "put_all f kvs = fold (\<lambda>(key, v) g. g(key := v)) kvs f"

lemma add_all_prefix:
  "wf m \<Longrightarrow> \<exists>ret m' k' n. add_all m kvs k = Some (ret, m', k') \<and> wf m' \<and> n \<le> length kvs \<and>
     lookup m' = put_all (lookup m) (take n kvs) \<and> (ret = 0 \<longrightarrow> n = length kvs) \<and>
     (ret \<noteq> 0 \<longrightarrow> ret = - ENOMEM)"
proof (induction kvs arbitrary: m k)
  case Nil
  then show ?case by (simp add: put_all_def)
next
  case (Cons kv kvs)
  obtain key v where kv: "kv = (key, v)" by fastforce
  from add_law [OF Cons.prems, of key v k] obtain ret m1 k1 where
    s: "add m key v k = Some (ret, m1, k1)" "wf m1" and
    eff: "ret = 0 \<and> lookup m1 = (lookup m)(key := v) \<or> ret = - ENOMEM \<and> lookup m1 = lookup m" by blast
  show ?case
  proof (cases "ret = 0")
    case True
    with eff have l: "lookup m1 = (lookup m)(key := v)" by (auto simp: ENOMEM_def)
    from Cons.IH [OF s(2), of k1] obtain ret' m' k' n where
      "add_all m1 kvs k1 = Some (ret', m', k')" "wf m'" "n \<le> length kvs"
      "lookup m' = put_all (lookup m1) (take n kvs)" "ret' = 0 \<longrightarrow> n = length kvs"
      "ret' \<noteq> 0 \<longrightarrow> ret' = - ENOMEM" by blast
    with kv s True l show ?thesis
      by (intro exI [of _ ret'] exI [of _ m'] exI [of _ k'] exI [of _ "Suc n"])
        (simp add: put_all_def)
  next
    case False
    with eff kv s show ?thesis
      by (intro exI [of _ ret] exI [of _ m1] exI [of _ k1] exI [of _ 0]) (simp add: put_all_def)
  qed
qed

lemma add_all_last:
  assumes "wf m" "add_all m kvs k = Some (0, m', k')"
  shows "lookup m' key = (case map_of (rev kvs) key of None \<Rightarrow> lookup m key | Some v \<Rightarrow> v)"
proof -
  have "put_all f kvs key = (case map_of (rev kvs) key of None \<Rightarrow> f key | Some v \<Rightarrow> v)" for f
    by (induction kvs arbitrary: f)
      (auto simp: put_all_def map_add_def split: option.splits)
  moreover have "lookup m' = put_all (lookup m) kvs"
    using add_all_prefix [OF assms(1), of kvs k] assms(2) by auto
  ultimately show ?thesis by simp
qed

end

interpretation rx: kv_map radix_wf radix_lookup radix_add
  by unfold_locales (rule radix_add_law)


subsection \<open>Deep copy into an empty tree\<close>

text \<open>How a copied value relates to its source: the same page, or a fresh page with its bytes.\<close>

definition vrel :: "bool \<Rightarrow> pstore \<Rightarrow> pstore \<Rightarrow> nat \<Rightarrow> nat \<Rightarrow> bool" where
  "vrel phy_alloc ps0 ps a b \<longleftrightarrow>
     (if phy_alloc then ps_next ps0 \<le> b \<and> b < ps_next ps \<and> ps_pages ps b = ps_pages ps0 a
      else b = a)"

definition grow :: "pstore \<Rightarrow> pstore \<Rightarrow> bool" where
  "grow ps ps' \<longleftrightarrow> ps_next ps \<le> ps_next ps' \<and> set (ps_kmem ps') \<subseteq> set (ps_kmem ps) \<and>
     (\<forall>a < ps_next ps. ps_pages ps' a = ps_pages ps a)"

definition has_pages :: "pstore \<Rightarrow> nat list \<Rightarrow> bool" where
  "has_pages ps vs \<longleftrightarrow> (\<forall>v \<in> set vs. v < ps_next ps \<and> ps_pages ps v \<noteq> None)"

lemma grow_refl [simp]: "grow ps ps"
  by (simp add: grow_def)

lemma grow_trans [trans]: "grow ps1 ps2 \<Longrightarrow> grow ps2 ps3 \<Longrightarrow> grow ps1 ps3"
  by (auto simp: grow_def)

lemma grow_kmem: "grow ps ps' \<Longrightarrow> False \<notin> set (ps_kmem ps) \<Longrightarrow> False \<notin> set (ps_kmem ps')"
  by (auto simp: grow_def)

lemma vrel_grow: "vrel phy_alloc ps0 ps a b \<Longrightarrow> grow ps ps' \<Longrightarrow> vrel phy_alloc ps0 ps' a b"
  by (auto simp: vrel_def grow_def)

lemma has_pages_append [simp]: "has_pages ps (xs @ ys) \<longleftrightarrow> has_pages ps xs \<and> has_pages ps ys"
  by (auto simp: has_pages_def)

lemma kmalloc_true:
  "False \<notin> set k \<Longrightarrow> \<exists>k'. kmalloc_outcome k = (True, k') \<and> set k' \<subseteq> set k"
  by (cases k) auto

lemma copy_value_ok:
  assumes "has_pages ps0 (case_option [] (\<lambda>x. [x]) sv)" "grow ps0 ps" "False \<notin> set (ps_kmem ps)"
  shows "\<exists>dv ps'. copy_value phy_alloc sv None ps = Some (dv, ps') \<and> grow ps ps' \<and>
    rel_option (vrel phy_alloc ps0 ps') sv dv"
proof (cases sv)
  case (Some a)
  obtain k where k: "kmalloc_outcome (ps_kmem ps) = (True, k)" "set k \<subseteq> set (ps_kmem ps)"
    using kmalloc_true [OF assms(3)] by blast
  from Some assms(1) obtain bytes where "a < ps_next ps0" "ps_pages ps0 a = Some bytes"
    by (auto simp: has_pages_def)
  with assms(2) have a: "a < ps_next ps" "ps_pages ps a = Some bytes" "ps_next ps0 \<le> ps_next ps"
    by (auto simp: grow_def)
  show ?thesis
  proof (cases phy_alloc)
    case True
    with Some k a \<open>ps_pages ps0 a = Some bytes\<close> show ?thesis
      by (simp add: copy_value_def get_page_def pagecpy_def grow_def vrel_def)
  qed (use Some in \<open>simp add: copy_value_def vrel_def\<close>)
qed (simp add: copy_value_def)

lemma copy_values_ok:
  assumes "has_pages ps0 (concat (map (case_option [] (\<lambda>x. [x])) sv))" "grow ps0 ps"
    "False \<notin> set (ps_kmem ps)"
  shows "\<exists>dv ps'. copy_values phy_alloc sv (replicate (length sv) None) ps = Some (dv, ps') \<and>
    grow ps ps' \<and> list_all2 (rel_option (vrel phy_alloc ps0 ps')) sv dv"
  using assms
proof (induction sv arbitrary: ps)
  case (Cons a sv)
  from Cons.prems(1) have pages: "has_pages ps0 (case_option [] (\<lambda>x. [x]) a)"
    "has_pages ps0 (concat (map (case_option [] (\<lambda>x. [x])) sv))" by simp_all
  from copy_value_ok [OF pages(1) Cons.prems(2,3)] obtain d ps1 where
    d: "copy_value phy_alloc a None ps = Some (d, ps1)" "grow ps ps1"
    "rel_option (vrel phy_alloc ps0 ps1) a d" by blast
  from Cons.IH [OF pages(2) grow_trans [OF Cons.prems(2) d(2)] grow_kmem [OF d(2) Cons.prems(3)]]
  obtain dv ps' where r: "copy_values phy_alloc sv (replicate (length sv) None) ps1 = Some (dv, ps')"
    "grow ps1 ps'" "list_all2 (rel_option (vrel phy_alloc ps0 ps')) sv dv" by blast
  have "rel_option (vrel phy_alloc ps0 ps') a d"
    using d(3) by (rule option.rel_mono_strong) (rule vrel_grow [OF _ r(2)])
  with d r grow_trans [OF d(2) r(2)] show ?case by simp
qed simp

text \<open>The copy of a node is related to it slot by slot.\<close>

lemma deep_copy_children_ok:
  assumes node: "\<And>n ps. Some n \<in> set cs \<Longrightarrow> grow ps0 ps \<Longrightarrow> False \<notin> set (ps_kmem ps) \<Longrightarrow>
      \<exists>n' ps'. deep_copy_node h phy_alloc n (zero_node h) ps = Some (0, n', ps') \<and> grow ps ps' \<and>
        rel_radix_node (vrel phy_alloc ps0 ps') n n'"
    and "grow ps0 ps" "False \<notin> set (ps_kmem ps)"
  shows "\<exists>ds ps'. deep_copy_children h phy_alloc cs (replicate (length cs) None) ps =
      Some (0, ds, ps') \<and> grow ps ps' \<and>
      list_all2 (rel_option (rel_radix_node (vrel phy_alloc ps0 ps'))) cs ds"
  using assms
proof (induction cs arbitrary: ps)
  case (Cons c cs)
  have IH: "\<exists>ds ps'. deep_copy_children h phy_alloc cs (replicate (length cs) None) ps =
      Some (0, ds, ps') \<and> grow ps ps' \<and>
      list_all2 (rel_option (rel_radix_node (vrel phy_alloc ps0 ps'))) cs ds"
    if "grow ps0 ps" "False \<notin> set (ps_kmem ps)" for ps
    by (rule Cons.IH [OF Cons.prems(1) that]) auto
  show ?case
  proof (cases c)
    case None
    from IH [OF Cons.prems(2,3)] None show ?thesis by fastforce
  next
    case (Some n)
    obtain k where k: "kmalloc_outcome (ps_kmem ps) = (True, k)" "set k \<subseteq> set (ps_kmem ps)"
      using kmalloc_true [OF Cons.prems(3)] by blast
    let ?ps = "ps\<lparr>ps_kmem := k\<rparr>"
    have g: "grow ps ?ps" using k(2) by (simp add: grow_def)
    have "Some n \<in> set (c # cs)" using Some by simp
    from Cons.prems(1) [OF this grow_trans [OF Cons.prems(2) g] grow_kmem [OF g Cons.prems(3)]]
    obtain n' ps1 where n': "deep_copy_node h phy_alloc n (zero_node h) ?ps = Some (0, n', ps1)"
      "grow ?ps ps1" "rel_radix_node (vrel phy_alloc ps0 ps1) n n'" by blast
    have g1: "grow ps ps1" using grow_trans [OF g n'(2)] .
    from IH [OF grow_trans [OF Cons.prems(2) g1] grow_kmem [OF g1 Cons.prems(3)]]
    obtain ds ps' where r:
      "deep_copy_children h phy_alloc cs (replicate (length cs) None) ps1 = Some (0, ds, ps')"
      "grow ps1 ps'" "list_all2 (rel_option (rel_radix_node (vrel phy_alloc ps0 ps'))) cs ds"
      by auto
    have "rel_radix_node (vrel phy_alloc ps0 ps') n n'"
      using n'(3) by (rule radix_node.rel_mono_strong) (rule vrel_grow [OF _ r(2)])
    with Some k n' r grow_trans [OF g1 r(2)] show ?thesis by (simp add: new_radix_node_def)
  qed
qed simp

lemma deep_copy_node_ok:
  assumes "rwf h n" "has_pages ps0 (node_values h n)" "grow ps0 ps" "False \<notin> set (ps_kmem ps)"
  shows "\<exists>n' ps'. deep_copy_node h phy_alloc n (zero_node h) ps = Some (0, n', ps') \<and> grow ps ps' \<and>
    rel_radix_node (vrel phy_alloc ps0 ps') n n'"
  using assms
proof (induction h arbitrary: n ps)
  case 0
  from 0(1) obtain vs where n: "n = Values vs" "length vs = RADIX_NODE_SIZE"
    by (cases rule: rwf_cases) auto
  with copy_values_ok [OF _ 0(3,4), of vs phy_alloc] 0(2) show ?case
    by (auto simp: zero_node_def)
next
  case (Suc h)
  from Suc.prems(1) obtain cs where n: "n = Children cs" "length cs = RADIX_NODE_SIZE"
    and sub: "\<forall>c \<in> set cs. case c of None \<Rightarrow> True | Some m \<Rightarrow> rwf h m" by (cases n) auto
  have "\<exists>n' ps'. deep_copy_node h phy_alloc m (zero_node h) ps = Some (0, n', ps') \<and> grow ps ps' \<and>
        rel_radix_node (vrel phy_alloc ps0 ps') m n'"
    if "Some m \<in> set cs" "grow ps0 ps" "False \<notin> set (ps_kmem ps)" for m ps
  proof (rule Suc.IH [OF _ _ that(2,3)])
    show "rwf h m" using sub that(1) by fastforce
    show "has_pages ps0 (node_values h m)"
      using Suc.prems(2) n(1) that(1) by (force simp: has_pages_def)
  qed
  from deep_copy_children_ok [OF this Suc.prems(3,4), of cs] n show ?case
    by (auto simp: zero_node_def)
qed


text \<open>Trees related slot by slot are well-formed together and answer related values.\<close>

lemma rel_node_get:
  assumes "rel_radix_node R n n'" "rwf h n" "idx_ok h index"
  shows "rwf h n' \<and> rel_option (rel_option R) (radix_get_node h index n) (radix_get_node h index n')"
  using assms
proof (induction h arbitrary: n n')
  case 0
  from 0(2) obtain vs where n: "n = Values vs" "length vs = RADIX_NODE_SIZE"
    by (cases rule: rwf_cases) auto
  with 0(1) obtain ws where "n' = Values ws" "list_all2 (rel_option R) vs ws" by (cases n') auto
  with n 0(3) show ?case by (auto simp: idx_ok_def list_all2_conv_all_nth)
next
  case (Suc h)
  from Suc.prems(2) obtain cs where n: "n = Children cs" "length cs = RADIX_NODE_SIZE"
    and sub: "\<And>i m. i < RADIX_NODE_SIZE \<Longrightarrow> cs ! i = Some m \<Longrightarrow> rwf h m"
    by (cases rule: rwf_cases) auto
  with Suc.prems(1) obtain ds where n': "n' = Children ds" "length ds = RADIX_NODE_SIZE"
    and rel: "\<And>i. i < RADIX_NODE_SIZE \<Longrightarrow> rel_option (rel_radix_node R) (cs ! i) (ds ! i)"
    by (cases n') (auto simp: list_all2_conv_all_nth)
  have ix: "idx_ok h index" "index ! Suc h < RADIX_NODE_SIZE" using idx_ok_Suc [OF Suc.prems(3)] by auto
  have "rwf h m'" if i: "i < RADIX_NODE_SIZE" and d: "ds ! i = Some m'" for i m'
  proof -
    from rel [OF i] d obtain m where "cs ! i = Some m" "rel_radix_node R m m'"
      by (auto simp: option_rel_Some2)
    with Suc.IH sub [OF i] ix show ?thesis by blast
  qed
  then have wf: "rwf (Suc h) n'" unfolding n'(1) rwf_Children using n'(2) by blast
  show ?case
  proof (cases "cs ! (index ! Suc h)")
    case None
    with rel [OF ix(2)] n n' ix wf show ?thesis by simp
  next
    case (Some m)
    with rel [OF ix(2)] obtain m' where m': "ds ! (index ! Suc h) = Some m'" "rel_radix_node R m m'"
      by (auto simp: option_rel_Some1)
    from Suc.IH [OF m'(2) sub [OF ix(2) Some] ix(1)] Some m' n n' ix wf show ?thesis by simp
  qed
qed

subsection \<open>The list of a tree\<close>

definition tree_list :: "'v radix \<Rightarrow> (u64 \<times> 'v) list" where
  "tree_list r = (case radix_root r of None \<Rightarrow> [] | Some n \<Rightarrow> radix_traverse_node ROOT_HEIGHT 0 n)"

lemma radix_traverse_list: "radix_wf r \<Longrightarrow> radix_traverse r = Some (tree_list r, r)"
  by (simp add: radix_traverse_def radix_lock_def radix_wf_def tree_list_def split: option.splits)

lemma tree_list_sorted: "radix_wf r \<Longrightarrow> sorted_wrt (<) (map fst (tree_list r))"
  using traverse_node_sorted [of ROOT_HEIGHT _ 0]
  by (auto simp: radix_wf_def tree_list_def radix_consts split: option.splits)

lemma tree_list_mem:
  assumes "radix_wf r"
  shows "(key, v) \<in> set (tree_list r) \<longleftrightarrow> radix_lookup r key = Some v"
proof (cases "radix_root r")
  case (Some n)
  with assms have n: "rwf ROOT_HEIGHT n" by (simp add: radix_wf_def)
  have top: "ROOT_HEIGHT < 16" "drop_bit (4 * Suc ROOT_HEIGHT) key = 0"
    by (auto simp: radix_consts intro!: bit_word_eqI simp: bit_simps dest: bit_imp_le_length)
  show ?thesis
    using traverse_node_set [OF n top(1), of 0 key v] Some top(2)
      radix_get_node_total [OF n idx_ok_index, of key]
    by (auto simp: tree_list_def radix_lookup_def)
qed (simp add: tree_list_def radix_lookup_def)

text \<open>Sorted lists of pairs with the same elements are equal.\<close>

lemma sorted_pairs_unique:
  assumes "sorted_wrt (<) (map fst xs)" "sorted_wrt (<) (map fst ys)" "set xs = set ys"
  shows "(xs :: ('k :: linorder \<times> 'v) list) = ys"
proof (rule map_sorted_distinct_set_unique [of fst])
  show "inj_on fst (set xs \<union> set ys)"
    using assms by (simp add: strict_sorted_iff distinct_map)
qed (use assms in \<open>simp_all add: strict_sorted_iff distinct_map\<close>)

lemma tree_list_unique:
  assumes "radix_wf r" "radix_wf r'" "radix_lookup r = radix_lookup r'"
  shows "tree_list r = tree_list r'"
  using assms tree_list_mem [OF assms(1)] tree_list_mem [OF assms(2)]
  by (intro sorted_pairs_unique tree_list_sorted) auto

lemma tree_list_values:
  "radix_root r = Some n \<Longrightarrow> map snd (tree_list r) = node_values ROOT_HEIGHT n"
  by (simp add: tree_list_def traverse_values)

subsection \<open>Properties of the tree\<close>

text \<open>
  C12: On a well-formed tree \<open>radix_add\<close> always returns, keeps the tree well-formed and
  unlocked, and either stores the value under exactly its key or, only when an allocation
  failed, reports \<open>-ENOMEM\<close> and leaves every lookup as it was; \<open>radix_get\<close>
  returns what was stored.
\<close>

theorem radix_add_get:
  assumes "radix_wf r"
  shows "\<exists>ret r' k'. radix_add r key v k = Some (ret, r', k') \<and> radix_wf r' \<and>
    (ret = 0 \<or> ret = - ENOMEM \<and> False \<in> set k) \<and>
    (\<forall>key'. radix_get r key' = Some (radix_lookup r key', r) \<and>
       radix_get r' key' = Some (if ret = 0 \<and> key' = key then v else radix_lookup r key', r'))"
proof -
  from radix_add_law [OF assms, of key v k] obtain ret r' k' where
    s: "radix_add r key v k = Some (ret, r', k')" "radix_wf r'" and
    eff: "ret = 0 \<and> radix_lookup r' = (radix_lookup r)(key := v) \<or>
      ret = - ENOMEM \<and> False \<in> set k \<and> radix_lookup r' = radix_lookup r" by blast
  with radix_get_lookup [OF assms] radix_get_lookup [OF s(2)] show ?thesis
    by (auto simp: ENOMEM_def)
qed

definition empty_radix :: "'v radix" where
  "empty_radix = \<lparr>radix_root = None, radix_locked = False, radix_mem_type = MT_SHARED,
     has_deleter = False\<rparr>"

theorem radix_add_get_witness:
  "radix_wf (empty_radix :: nat radix) \<and>
   (\<exists>ret r' k'. radix_add empty_radix 5 (Some (7 :: nat)) [] = Some (ret, r', k') \<and> radix_wf r' \<and>
     ret = 0 \<and> radix_get r' 5 = Some (Some 7, r') \<and> radix_get r' 6 = Some (None, r'))"
proof -
  have wf: "radix_wf (empty_radix :: nat radix)" by (simp add: radix_wf_def empty_radix_def)
  from radix_add_get [OF this, of 5 "Some 7" "[]"] show ?thesis
    using wf by (auto simp: radix_lookup_def empty_radix_def)
qed

text \<open>
  C13: The traversal of a well-formed tree lists exactly the pairs that \<open>radix_get\<close>
  answers, in strictly increasing order of their keys, and leaves the tree as it was.
\<close>

theorem radix_traverse_sorted_map:
  assumes "radix_wf r"
  shows "\<exists>kvs. radix_traverse r = Some (kvs, r) \<and> sorted_wrt (<) (map fst kvs) \<and>
    (\<forall>key v. (key, v) \<in> set kvs \<longleftrightarrow> radix_get r key = Some (Some v, r))"
  using radix_traverse_list [OF assms] tree_list_sorted [OF assms] tree_list_mem [OF assms]
  by (simp add: radix_get_lookup [OF assms])


definition key5_radix :: "nat radix" where
  "key5_radix = (case radix_add empty_radix 5 (Some 7) [] of Some (ret, r, k) \<Rightarrow> r | None \<Rightarrow> empty_radix)"

lemma empty_radix_wf: "radix_wf empty_radix"
  by (simp add: radix_wf_def empty_radix_def)

lemma empty_radix_lookup: "radix_lookup empty_radix = (\<lambda>_. None)"
  by (simp add: radix_lookup_def empty_radix_def fun_eq_iff)

lemma key5_radix_wf: "radix_wf key5_radix" and key5_radix_lookup: "radix_lookup key5_radix = [5 \<mapsto> 7]"
  using radix_add_law [OF empty_radix_wf, of 5 "Some (7 :: nat)" "[]"]
  by (auto simp: key5_radix_def empty_radix_lookup)

lemma key5_radix_root: "radix_root key5_radix \<noteq> None"
  using fun_cong [OF key5_radix_lookup, of 5] unfolding radix_lookup_def by (cases "radix_root key5_radix") auto

theorem radix_traverse_sorted_map_witness:
  "radix_wf key5_radix \<and> (\<exists>kvs. radix_traverse key5_radix = Some (kvs, key5_radix) \<and> (5, 7) \<in> set kvs)"
proof -
  have "radix_get key5_radix 5 = Some (Some 7, key5_radix)"
    using radix_get_lookup [OF key5_radix_wf, of 5] by (simp add: key5_radix_lookup)
  then show ?thesis using radix_traverse_sorted_map [OF key5_radix_wf] key5_radix_wf by metis
qed

text \<open>
  C14: The checksum is a function of the mapping: two trees with a root that answer the same
  lookups have the same checksum, however their nodes came to be allocated, and it hashes the
  pages in increasing order of their keys.
\<close>

theorem radix_checksum_of_map:
  assumes "radix_wf r" "radix_wf r'" "radix_root r \<noteq> None" "radix_root r' \<noteq> None"
    "\<And>key. radix_lookup r key = radix_lookup r' key"
  shows "radix_checksum page r = radix_checksum page r' \<and>
    (\<exists>kvs. radix_traverse r = Some (kvs, r) \<and>
       radix_checksum page r = Some (hash_page 0 (concat (map (page \<circ> snd) kvs))))"
proof -
  have app: "hash_page i (xs @ ys) = hash_page (hash_page i xs) ys" for i xs ys
    by (induction i xs rule: hash_page.induct) auto
  have "fold (\<lambda>pa acc. hash_page acc (page pa)) ps i = hash_page i (concat (map page ps))" for ps i
    by (induction ps arbitrary: i) (auto simp: app)
  then have sum: "radix_checksum page s = Some (hash_page 0 (concat (map page (map snd (tree_list s)))))"
    if "radix_root s \<noteq> None" for s
    using that by (auto simp: radix_checksum_def checksum_values tree_list_values simp del: map_map)
  have "tree_list r = tree_list r'" using assms(5) by (intro tree_list_unique assms(1,2)) auto
  with sum assms radix_traverse_list [OF assms(1)] show ?thesis by simp
qed

theorem radix_checksum_of_map_witness:
  "radix_wf key5_radix \<and> radix_root key5_radix \<noteq> None \<and>
   (\<exists>kvs. radix_traverse key5_radix = Some (kvs, key5_radix) \<and>
      radix_checksum (\<lambda>_. [1, 2]) key5_radix =
        Some (hash_page 0 (concat (map ((\<lambda>_. [1, 2]) \<circ> snd) kvs))))"
  using radix_checksum_of_map [OF key5_radix_wf key5_radix_wf key5_radix_root key5_radix_root, of "\<lambda>_. [1, 2]"]
    key5_radix_root key5_radix_wf by simp

text \<open>
  C15: Releasing a tree with a root hands every mapped value to the deleter exactly once, in
  key order, and nothing when no deleter is set.
\<close>

theorem radix_free_deletes_each_value:
  assumes "radix_wf r" "radix_root r \<noteq> None"
  shows "\<exists>kvs. radix_traverse r = Some (kvs, r) \<and> distinct (map fst kvs) \<and>
    (\<forall>key v. (key, v) \<in> set kvs \<longleftrightarrow> radix_get r key = Some (Some v, r)) \<and>
    radix_free r = Some (0, if has_deleter r then map snd kvs else [], None)"
proof -
  from assms obtain n where n: "radix_root r = Some n" "rwf ROOT_HEIGHT n" "\<not> radix_locked r"
    by (auto simp: radix_wf_def)
  have "distinct (map fst (tree_list r))"
    using tree_list_sorted [OF assms(1)] by (simp add: strict_sorted_iff)
  moreover have "radix_free r = Some (0, if has_deleter r then map snd (tree_list r) else [], None)"
    using n free_values [OF n(2)] free_nothing [OF n(2)]
    by (simp add: radix_free_def radix_lock_def tree_list_values)
  ultimately show ?thesis
    using radix_traverse_list [OF assms(1)] tree_list_mem [OF assms(1)]
    by (simp add: radix_get_lookup [OF assms(1)])
qed

theorem radix_free_deletes_each_value_witness:
  "\<exists>kvs. radix_traverse (key5_radix\<lparr>has_deleter := True\<rparr>) =
      Some (kvs, key5_radix\<lparr>has_deleter := True\<rparr>) \<and>
    radix_free (key5_radix\<lparr>has_deleter := True\<rparr>) = Some (0, map snd kvs, None)"
proof -
  let ?r = "key5_radix\<lparr>has_deleter := True\<rparr>"
  have "radix_wf ?r" "radix_root ?r \<noteq> None"
    using key5_radix_wf key5_radix_root by (auto simp: radix_wf_def)
  from radix_free_deletes_each_value [OF this] show ?thesis by auto
qed



text \<open>A tree with the keys 0 and 2^60, which differ at the root.\<close>

fun chain_node :: "nat \<Rightarrow> 'v \<Rightarrow> 'v radix_node" where
  "chain_node 0 v = Values (Some v # replicate 15 None)"
| "chain_node (Suc h) v = Children (Some (chain_node h v) # replicate 15 None)"

definition two_keys_radix :: "nat radix" where
  "two_keys_radix = \<lparr>radix_root = Some (Children
     (Some (chain_node 14 1) # Some (chain_node 14 2) # replicate 14 None)),
     radix_locked = False, radix_mem_type = MT_SHARED, has_deleter = False\<rparr>"

lemma chain_wf: "rwf h (chain_node h v)"
  by (induction h) (auto simp: RADIX_NODE_SIZE_def)

lemma chain_get: "(\<And>i. i \<le> h \<Longrightarrow> index ! i = 0) \<Longrightarrow> radix_get_node h index (chain_node h v) = Some (Some v)"
  by (induction h) auto

lemma chain_complex:
  assumes "\<And>key. fn key v = None"
  shows "radix_complex_node h p fn (chain_node h v) = None"
proof (induction h arbitrary: p)
  case 0
  have "first_some (\<lambda>(i, y). case_option None (fn (push_bit RADIX_NODE_BITS p OR of_nat i)) y)
      (enumerate m (replicate n None)) = None" for m n
    by (induction n arbitrary: m) auto
  then show ?case using assms by simp
qed simp

lemma two_keys_index:
  assumes "i < 16"
  shows "radix_index RADIX_LEVELS (2 ^ 60) ! i = (if i = 15 then 1 else 0)"
proof -
  have "drop_bit (4 * i) ((2 :: u64) ^ 60) AND 15 = (if i = 15 then 1 else 0)"
  proof (rule bit_word_eqI)
    fix j :: nat
    have "j < 4 \<and> 4 * i + j = 60 \<longleftrightarrow> i = 15 \<and> j = 0" by presburger
    then show "bit (drop_bit (4 * i) ((2 :: u64) ^ 60) AND 15) j =
        bit (if i = 15 then 1 else 0 :: u64) j"
      by (auto simp: digit_bit bit_exp_iff bit_1_iff simp del: power_numeral)
  qed
  with assms show ?thesis
    by (simp add: radix_index_nth RADIX_LEVELS_def del: radix_index.simps power_numeral)
qed

text \<open>
  C17: \<open>radix_complex_traverse\<close> does not visit every entry: above the lowest level it
  returns from the first child that is present, so on a tree with the keys 0 and 2^60 a search
  for the value stored under 2^60 finds nothing although \<open>radix_get\<close> returns it.
\<close>

theorem radix_complex_traverse_misses:
  "radix_wf two_keys_radix \<and> radix_get two_keys_radix (2 ^ 60) = Some (Some 2, two_keys_radix) \<and>
   radix_complex_traverse two_keys_radix (\<lambda>key v. if v = 2 then Some key else None) =
     Some (None, two_keys_radix)"
proof (intro conjI)
  let ?r = two_keys_radix
  have h: "ROOT_HEIGHT = Suc 14" by (simp add: radix_consts)
  have "rwf (Suc 14) (Children (Some (chain_node 14 1) # Some (chain_node 14 (2 :: nat)) # replicate 14 None))"
    unfolding rwf.simps using chain_wf by (auto simp: RADIX_NODE_SIZE_def)
  then show wf: "radix_wf ?r" by (simp add: radix_wf_def two_keys_radix_def h del: rwf.simps)
  have "radix_lookup ?r (2 ^ 60) = Some 2"
    unfolding radix_lookup_def two_keys_radix_def h radix.simps option.simps radix_get_node.simps
    using two_keys_index [of "Suc 14"] two_keys_index chain_get [of 14 "radix_index RADIX_LEVELS (2 ^ 60)" "2 :: nat"]
    by (simp del: power_numeral radix_index.simps)
  then show "radix_get ?r (2 ^ 60) = Some (Some 2, ?r)"
    using radix_get_lookup [OF wf] by (simp del: power_numeral)
  show "radix_complex_traverse ?r (\<lambda>key v. if v = 2 then Some key else None) = Some (None, ?r)"
  proof -
    let ?fn = "\<lambda>key v :: nat. if v = 2 then Some key else None"
    have "radix_complex_node (Suc 14) 0 ?fn (Children (Some (chain_node 14 1) # cs)) = None" for cs
      unfolding radix_complex_node.simps using chain_complex [of ?fn 1 14] by simp
    then show ?thesis
      by (simp add: radix_complex_traverse_def two_keys_radix_def radix_lock_def radix_unlock_def h
          del: radix_complex_node.simps)
  qed
qed


text \<open>
  C18: Copying a tree into an empty one, while memory lasts, yields a well-formed tree with the
  same keys. Without page allocation the values are the same; with it every value is a fresh
  page holding the bytes of its source page, and the source pages are left as they were.
\<close>

theorem radix_deep_copy_correct:
  assumes src: "radix_wf src" "radix_root src \<noteq> None" and dst: "radix_root dst = None" "\<not> radix_locked dst"
    and pages: "\<And>key a. radix_lookup src key = Some a \<Longrightarrow> a < ps_next ps \<and> ps_pages ps a \<noteq> None"
    and mem: "False \<notin> set (ps_kmem ps)"
  shows "\<exists>dst' ps'. radix_deep_copy src dst phy_alloc ps = Some (0, dst', ps') \<and> radix_wf dst' \<and>
    (\<forall>a < ps_next ps. ps_pages ps' a = ps_pages ps a) \<and>
    (\<forall>key. case radix_lookup src key of
        None \<Rightarrow> radix_lookup dst' key = None
      | Some a \<Rightarrow> (\<exists>b. radix_lookup dst' key = Some b \<and>
          (if phy_alloc then ps_next ps \<le> b \<and> ps_pages ps' b = ps_pages ps a else b = a)))"
proof -
  from src obtain n where n: "radix_root src = Some n" "rwf ROOT_HEIGHT n" "\<not> radix_locked src"
    by (auto simp: radix_wf_def)
  have "has_pages ps (map snd (tree_list src))"
    using pages tree_list_mem [OF src(1)] by (fastforce simp: has_pages_def)
  then have hp: "has_pages ps (node_values ROOT_HEIGHT n)" using tree_list_values [OF n(1)] by simp
  obtain k where k: "kmalloc_outcome (ps_kmem ps) = (True, k)" "set k \<subseteq> set (ps_kmem ps)"
    using kmalloc_true [OF mem] by blast
  have g: "grow ps (ps\<lparr>ps_kmem := k\<rparr>)" using k(2) by (simp add: grow_def)
  from deep_copy_node_ok [OF n(2) hp g grow_kmem [OF g mem], of phy_alloc] obtain n' ps' where
    c: "deep_copy_node ROOT_HEIGHT phy_alloc n (zero_node ROOT_HEIGHT) (ps\<lparr>ps_kmem := k\<rparr>) = Some (0, n', ps')"
    "grow (ps\<lparr>ps_kmem := k\<rparr>) ps'" "rel_radix_node (vrel phy_alloc ps ps') n n'" by blast
  let ?d = "dst\<lparr>radix_root := Some n'\<rparr>"
  note rel = rel_node_get [OF c(3) n(2) idx_ok_index]
  have look: "rel_option (vrel phy_alloc ps ps') (radix_lookup src key) (radix_lookup ?d key)" for key
    using rel [of key] radix_get_node_total [OF n(2) idx_ok_index, of key] n(1)
    by (auto simp: radix_lookup_def option_rel_Some1)
  have "case radix_lookup src key of None \<Rightarrow> radix_lookup ?d key = None
      | Some a \<Rightarrow> (\<exists>b. radix_lookup ?d key = Some b \<and>
          (if phy_alloc then ps_next ps \<le> b \<and> ps_pages ps' b = ps_pages ps a else b = a))" for key
    using look [of key]
    by (cases "radix_lookup src key"; cases phy_alloc) (auto simp: vrel_def option_rel_Some1)
  moreover have "radix_wf ?d" using rel dst by (simp add: radix_wf_def)
  moreover have "radix_deep_copy src dst phy_alloc ps = Some (0, ?d, ps')"
    using n dst c(1) k(1) by (simp add: radix_deep_copy_def radix_lock_def new_radix_node_def)
  ultimately show ?thesis using c(2) by (auto simp: grow_def)
qed

theorem radix_deep_copy_correct_witness:
  "\<exists>dst' ps'. radix_deep_copy key5_radix empty_radix True
      \<lparr>ps_pages = [7 \<mapsto> [1, 2]], ps_next = 8, ps_kmem = []\<rparr> = Some (0, dst', ps') \<and> radix_wf dst' \<and>
    (\<exists>b. radix_lookup dst' 5 = Some b \<and> 8 \<le> b \<and> ps_pages ps' b = Some [1, 2])"
proof -
  let ?ps = "\<lparr>ps_pages = [7 \<mapsto> [1, 2]], ps_next = 8, ps_kmem = []\<rparr>"
  have "radix_root (empty_radix :: nat radix) = None" "\<not> radix_locked (empty_radix :: nat radix)"
    by (simp_all add: empty_radix_def)
  note copy = radix_deep_copy_correct [OF key5_radix_wf key5_radix_root this, of ?ps True]
  have "a < 8 \<and> ps_pages ?ps a \<noteq> None" if "radix_lookup key5_radix key = Some a" for key a
    using that by (simp add: key5_radix_lookup split: if_splits)
  with copy obtain dst' ps' where
    d: "radix_deep_copy key5_radix empty_radix True ?ps = Some (0, dst', ps')" "radix_wf dst'" and
    look: "\<forall>key. case radix_lookup key5_radix key of
        None \<Rightarrow> radix_lookup dst' key = None
      | Some a \<Rightarrow> (\<exists>b. radix_lookup dst' key = Some b \<and>
          (if True then ps_next ?ps \<le> b \<and> ps_pages ps' b = ps_pages ?ps a else b = a))"
    by force
  from look [rule_format, of 5] d show ?thesis by (auto simp: key5_radix_lookup)
qed

end
