(* ===== verification/Ring_Buffer.thy ===== *)
theory Ring_Buffer
  imports Prelude
begin

text \<open>
  The message ring of \<^verbatim>\<open>kernel/lib/ring_buffer.c\<close>. A ring is its header and the bytes
  behind the header; offsets count from the start of the header and are 64-bit words, so that
  the arithmetic wraps as in the source. Access outside the bytes of the ring is \<open>None\<close>.
\<close>

definition RING_BUFFER_FULL :: int where "RING_BUFFER_FULL = 1"
definition RING_BUFFER_NOT_FULL :: int where "RING_BUFFER_NOT_FULL = 0"
definition MSG_OP_SUCCESS :: int where "MSG_OP_SUCCESS = 1"
definition MSG_OP_FAILURE :: int where "MSG_OP_FAILURE = 0"

lemmas ring_consts = RING_BUFFER_FULL_def RING_BUFFER_NOT_FULL_def MSG_OP_SUCCESS_def MSG_OP_FAILURE_def

text \<open>The header has four fields of eight bytes.\<close>

definition sizeof_ring_buffer :: u64 where "sizeof_ring_buffer = 32"

record ring_buffer =
  buffer_size :: u64
  consumer_offset :: u64
  producer_offset :: u64
  msg_size :: u64
  ring_data :: "u8 list"

definition read_ring :: "ring_buffer \<Rightarrow> u64 \<Rightarrow> u64 \<Rightarrow> u8 list option" where
  "read_ring rb off sz =
     (if sizeof_ring_buffer \<le> off \<and> unat off - 32 + unat sz \<le> length (ring_data rb)
      then Some (take (unat sz) (drop (unat off - 32) (ring_data rb))) else None)"

text \<open>\<open>memcpy\<close> of \<open>sz\<close> bytes of the message into the ring.\<close>

definition write_ring :: "ring_buffer \<Rightarrow> u64 \<Rightarrow> u64 \<Rightarrow> u8 list \<Rightarrow> ring_buffer option" where
  "write_ring rb off sz msg =
     (if sizeof_ring_buffer \<le> off \<and> unat off - 32 + unat sz \<le> length (ring_data rb) \<and>
         unat sz \<le> length msg
      then Some (rb\<lparr>ring_data := take (unat off - 32) (ring_data rb) @ take (unat sz) msg @
             drop (unat off - 32 + unat sz) (ring_data rb)\<rparr>) else None)"

definition next_slot :: "ring_buffer \<Rightarrow> u64 \<Rightarrow> u64" where
  "next_slot rb off =
     (if off = buffer_size rb - msg_size rb then sizeof_ring_buffer else off + msg_size rb)"

definition get_one_msg :: "ring_buffer \<Rightarrow> (int \<times> u8 list \<times> ring_buffer) option" where
  "get_one_msg rb =
     (let p_off = producer_offset rb; c_off = consumer_offset rb
      in if p_off = c_off then Some (MSG_OP_FAILURE, [], rb)
         else do { msg \<leftarrow> read_ring rb c_off (msg_size rb);
                   Some (MSG_OP_SUCCESS, msg, rb\<lparr>consumer_offset := next_slot rb c_off\<rparr>) })"

definition if_buffer_full :: "ring_buffer \<Rightarrow> int" where
  "if_buffer_full rb =
     (if consumer_offset rb = next_slot rb (producer_offset rb) then RING_BUFFER_FULL
      else RING_BUFFER_NOT_FULL)"

definition set_one_msg :: "ring_buffer \<Rightarrow> u8 list \<Rightarrow> (int \<times> ring_buffer) option" where
  "set_one_msg rb msg =
     (if if_buffer_full rb \<noteq> 0 then Some (MSG_OP_FAILURE, rb)
      else let p_off = producer_offset rb
           in do { rb' \<leftarrow> write_ring rb p_off (msg_size rb) msg;
                   Some (MSG_OP_SUCCESS, rb'\<lparr>producer_offset := next_slot rb p_off\<rparr>) })"

text \<open>
  A checkpoint image. The image is allocated without a test for failure, so a failed allocation
  is an access through a null pointer. Restoring writes the ring that stands at the recorded
  address, given here as the argument \<open>rb\<close>.
\<close>

record ckpt_ring_buffer =
  ckpt_buffer_size :: u64
  ckpt_consumer_offset :: u64
  ckpt_producer_offset :: u64
  ckpt_msg_size :: u64
  ckpt_data :: "u8 list"

definition ckpt_ring_buffer_of :: "ring_buffer \<Rightarrow> kmem \<Rightarrow> (ckpt_ring_buffer \<times> kmem) option" where
  "ckpt_ring_buffer_of rb k =
     (let (ok, k') = kmalloc_outcome k
      in do { bug_on (\<not> ok);
              bytes \<leftarrow> read_ring rb sizeof_ring_buffer (buffer_size rb - sizeof_ring_buffer);
              Some (\<lparr>ckpt_buffer_size = buffer_size rb, ckpt_consumer_offset = consumer_offset rb,
                     ckpt_producer_offset = producer_offset rb, ckpt_msg_size = msg_size rb,
                     ckpt_data = bytes\<rparr>, k') })"

definition restore_ring_buffer :: "ckpt_ring_buffer \<Rightarrow> ring_buffer \<Rightarrow> ring_buffer option" where
  "restore_ring_buffer ck rb =
     write_ring (rb\<lparr>buffer_size := ckpt_buffer_size ck, msg_size := ckpt_msg_size ck,
                    consumer_offset := ckpt_consumer_offset ck,
                    producer_offset := ckpt_producer_offset ck\<rparr>)
       sizeof_ring_buffer (ckpt_buffer_size ck - sizeof_ring_buffer) (ckpt_data ck)"

subsection \<open>Well-formed rings\<close>

text \<open>A ring of \<open>n\<close> slots of \<open>m\<close> bytes whose consumer and producer stand at slots
  \<open>c\<close> and \<open>p\<close>.\<close>

definition ring_at :: "nat \<Rightarrow> nat \<Rightarrow> nat \<Rightarrow> nat \<Rightarrow> ring_buffer \<Rightarrow> bool" where
  "ring_at m n c p rb \<longleftrightarrow> 0 < m \<and> c < n \<and> p < n \<and> unat (msg_size rb) = m \<and>
     unat (buffer_size rb) = 32 + m * n \<and> unat (consumer_offset rb) = 32 + m * c \<and>
     unat (producer_offset rb) = 32 + m * p \<and> length (ring_data rb) = m * n"

definition ring_wf :: "ring_buffer \<Rightarrow> bool" where
  "ring_wf rb \<longleftrightarrow> (\<exists>m n c p. ring_at m n c p rb)"

definition ring_slot :: "ring_buffer \<Rightarrow> nat \<Rightarrow> u8 list" where
  "ring_slot rb i = take (unat (msg_size rb)) (drop (unat (msg_size rb) * i) (ring_data rb))"

definition ring_slots :: "ring_buffer \<Rightarrow> nat" where
  "ring_slots rb = length (ring_data rb) div unat (msg_size rb)"

definition ring_contents :: "ring_buffer \<Rightarrow> u8 list list" where
  "ring_contents rb =
     (let m = unat (msg_size rb); n = ring_slots rb;
          c = (unat (consumer_offset rb) - 32) div m; p = (unat (producer_offset rb) - 32) div m
      in map (\<lambda>k. ring_slot rb ((c + k) mod n)) [0..<(p + n - c) mod n])"

lemma ring_contents_at:
  assumes "ring_at m n c p rb"
  shows "ring_contents rb = map (\<lambda>k. ring_slot rb ((c + k) mod n)) [0..<(p + n - c) mod n]"
    and "ring_slots rb = n"
  using assms by (auto simp: ring_at_def ring_contents_def ring_slots_def Let_def)

lemma next_slot_at:
  assumes "ring_at m n c p rb" "unat off = 32 + m * i" "i < n"
  shows "unat (next_slot rb off) = 32 + m * (Suc i mod n)"
proof -
  from assms have m: "0 < m" "unat (msg_size rb) = m" "unat (buffer_size rb) = 32 + m * n"
    by (auto simp: ring_at_def)
  have le: "m * Suc i \<le> m * n" using assms(3) by (intro mult_le_mono2) simp
  have "unat (buffer_size rb) < 2 ^ 64"
    by (rule order_less_le_trans [OF unsigned_less]) simp
  then have lt: "32 + m * n < 2 ^ 64" using m(3) by simp
  have "m \<le> 32 + m * n" using le by simp
  then have "msg_size rb \<le> buffer_size rb" using m(2,3) by (simp add: word_le_nat_alt)
  then have sub: "unat (buffer_size rb - msg_size rb) = 32 + m * n - m"
    using m(2,3) by (simp add: unat_sub)
  have add: "unat (off + msg_size rb) = 32 + m * Suc i"
    using m assms(2) le lt by (subst unat_add_lem [THEN iffD1]) auto
  have "off = buffer_size rb - msg_size rb \<longleftrightarrow> 32 + m * i = 32 + m * n - m"
    using sub assms(2) by (metis word_unat_eq_iff)
  also have "\<dots> \<longleftrightarrow> m * Suc i = m * n" using le by auto
  also have "\<dots> \<longleftrightarrow> Suc i = n" using m(1) by (simp del: mult_Suc_right)
  finally show ?thesis
    using add assms(3) by (auto simp: next_slot_def sizeof_ring_buffer_def)
qed

text \<open>Distances on the circle of \<open>n\<close> slots.\<close>

lemma ring_distance:
  "(c :: nat) < n \<Longrightarrow> p < n \<Longrightarrow> (p + n - c) mod n = (if c \<le> p then p - c else p + n - c)"
proof -
  assume a: "c < n" "p < n"
  have "(p + n - c) mod n = p - c" if "c \<le> p"
  proof -
    have eq: "p + n - c = (p - c) + n" using that by arith
    show ?thesis unfolding eq using a by simp
  qed
  with a show ?thesis by auto
qed

lemma ring_succ: "p < n \<Longrightarrow> Suc p mod n = (if Suc p = n then 0 else Suc p)"
  by simp

lemma ring_step:
  assumes "(c :: nat) < n" "k < n"
  shows "(c + k) mod n = (if c + k < n then c + k else c + k - n)"
proof (cases "c + k < n")
  case False
  then have "(c + k) mod n = (c + k - n) mod n" using le_mod_geq [of n "c + k"] by simp
  with assms False show ?thesis by simp
qed simp

lemma ring_distance_Suc:
  assumes "c < n" "p < n" "Suc p mod n \<noteq> c"
  shows "(Suc p mod n + n - c) mod n = Suc ((p + n - c) mod n)"
    and "(c + (p + n - c) mod n) mod n = p"
    and "k < (p + n - c) mod n \<Longrightarrow> (c + k) mod n \<noteq> p"
proof -
  have n: "Suc p mod n < n" "(p + n - c) mod n < n" using assms(1) by simp_all
  show "(Suc p mod n + n - c) mod n = Suc ((p + n - c) mod n)"
    unfolding ring_distance [OF assms(1) n(1)] ring_distance [OF assms(1,2)]
    using assms by (simp only: ring_succ [OF assms(2)]) (auto split: if_splits)
  show "(c + (p + n - c) mod n) mod n = p"
    unfolding ring_step [OF assms(1) n(2)] ring_distance [OF assms(1,2)] using assms(1,2) by auto
  show "(c + k) mod n \<noteq> p" if k: "k < (p + n - c) mod n"
  proof -
    have kn: "k < n" using k n(2) by simp
    show ?thesis
      using k assms(1,2) unfolding ring_step [OF assms(1) kn] ring_distance [OF assms(1,2)]
      by (auto split: if_splits)
  qed
qed

lemma ring_full_distance:
  assumes "c < n" "p < n"
  shows "Suc p mod n = c \<longleftrightarrow> Suc ((p + n - c) mod n) = n"
  using assms by (simp only: ring_succ ring_distance) (auto split: if_splits)

lemma ring_distance_pred:
  assumes "c < n" "p < n" "p \<noteq> c"
  shows "(p + n - c) mod n = Suc ((p + n - Suc c mod n) mod n)"
proof -
  have n: "Suc c mod n < n" using assms(1) by simp
  show ?thesis
    unfolding ring_distance [OF assms(1,2)] ring_distance [OF n assms(2)]
    using assms by (simp only: ring_succ) (auto split: if_splits)
qed


subsection \<open>The operations on well-formed rings\<close>

lemma read_ring_at:
  assumes "ring_at m n c p rb" "unat off = 32 + m * i" "i < n"
  shows "read_ring rb off (msg_size rb) = Some (ring_slot rb i)"
proof -
  have "m * Suc i \<le> m * n" using assms(3) by (intro mult_le_mono2) simp
  with assms show ?thesis
    by (simp add: read_ring_def ring_slot_def ring_at_def sizeof_ring_buffer_def word_le_nat_alt)
qed

lemma splice_slot:
  assumes "a + m \<le> length d" "length msg = m" "b = a \<or> b + m \<le> a \<or> a + m \<le> b" "0 < m"
  shows "take m (drop b (take a d @ msg @ drop (a + m) d)) = (if b = a then msg else take m (drop b d))"
proof -
  consider "b = a" | "b + m \<le> a" | "a + m \<le> b" using assms(3) by blast
  then show ?thesis
  proof cases
    case 1
    then show ?thesis using assms(1,2) by simp
  next
    case 2
    with assms have "drop b (take a d @ msg @ drop (a + m) d) = take (a - b) (drop b d) @ msg @ drop (a + m) d"
      by (simp add: drop_take)
    with 2 assms show ?thesis by (simp add: min_absorb1)
  next
    case 3
    with assms show ?thesis by simp
  qed
qed

lemma write_ring_at:
  assumes rb: "ring_at m n c p rb" and off: "unat off = 32 + m * i" "i < n" and msg: "length msg = m"
  shows "\<exists>rb'. write_ring rb off (msg_size rb) msg = Some rb' \<and> ring_at m n c p rb' \<and>
    msg_size rb' = msg_size rb \<and>
    (\<forall>j. ring_slot rb' j = (if j = i then msg else ring_slot rb j))"
proof -
  let ?d = "take (m * i) (ring_data rb) @ msg @ drop (m * i + m) (ring_data rb)"
  have le: "m * i + m \<le> m * n" using mult_le_mono2 [of "Suc i" n m] off(2) by simp
  from rb have m: "unat (msg_size rb) = m" "length (ring_data rb) = m * n" "0 < m"
    by (auto simp: ring_at_def)
  have w: "write_ring rb off (msg_size rb) msg = Some (rb\<lparr>ring_data := ?d\<rparr>)"
    using off m le msg by (simp add: write_ring_def sizeof_ring_buffer_def word_le_nat_alt)
  have "ring_slot (rb\<lparr>ring_data := ?d\<rparr>) j = (if j = i then msg else ring_slot rb j)" for j
  proof -
    have "m * j = m * i \<or> m * j + m \<le> m * i \<or> m * i + m \<le> m * j"
      using mult_le_mono2 [of "Suc j" i m] mult_le_mono2 [of "Suc i" j m]
      by (cases j i rule: linorder_cases) (simp_all add: add.commute)
    from splice_slot [OF _ msg this m(3), of "ring_data rb"] m le show ?thesis
      by (simp add: ring_slot_def)
  qed
  moreover have "ring_at m n c p (rb\<lparr>ring_data := ?d\<rparr>)"
    using rb le msg m by (simp add: ring_at_def)
  ultimately show ?thesis using w by (intro exI [of _ "rb\<lparr>ring_data := ?d\<rparr>"]) simp
qed

lemma offsets_equal:
  assumes "ring_at m n c p rb" "unat (x :: u64) = 32 + m * i" "unat y = 32 + m * j"
  shows "x = y \<longleftrightarrow> i = j"
proof -
  have "0 < m" using assms(1) by (simp add: ring_at_def)
  then have "unat x = unat y \<longleftrightarrow> i = j" using assms by auto
  then show ?thesis by (simp add: word_unat_eq_iff)
qed

definition ring_capacity :: "ring_buffer \<Rightarrow> nat" where
  "ring_capacity rb = ring_slots rb - 1"

lemma if_buffer_full_at:
  assumes "ring_at m n c p rb"
  shows "if_buffer_full rb = (if Suc p mod n = c then 1 else 0)"
proof -
  have "unat (consumer_offset rb) = 32 + m * c" "unat (producer_offset rb) = 32 + m * p" "p < n"
    using assms by (simp_all add: ring_at_def)
  from offsets_equal [OF assms this(1) next_slot_at [OF assms this(2,3)]] show ?thesis
    by (auto simp: if_buffer_full_def ring_consts)
qed

lemma set_one_msg_full:
  assumes "ring_wf rb" "length (ring_contents rb) = ring_capacity rb"
  shows "set_one_msg rb msg = Some (MSG_OP_FAILURE, rb)"
proof -
  from assms(1) obtain m n c p where at: "ring_at m n c p rb" by (auto simp: ring_wf_def)
  then have cn: "c < n" "p < n" by (auto simp: ring_at_def)
  have "Suc p mod n = c"
    using assms(2) cn ring_full_distance [OF cn] ring_contents_at [OF at]
    by (simp add: ring_capacity_def)
  then show ?thesis using if_buffer_full_at [OF at] by (simp add: set_one_msg_def)
qed

lemma set_one_msg_room:
  assumes "ring_wf rb" "length (ring_contents rb) \<noteq> ring_capacity rb" "length msg = unat (msg_size rb)"
  shows "\<exists>rb'. set_one_msg rb msg = Some (MSG_OP_SUCCESS, rb') \<and> ring_wf rb' \<and>
    ring_contents rb' = ring_contents rb @ [msg] \<and> ring_capacity rb' = ring_capacity rb \<and>
    msg_size rb' = msg_size rb"
proof -
  from assms(1) obtain m n c p where at: "ring_at m n c p rb" by (auto simp: ring_wf_def)
  then have cn: "c < n" "p < n" and off: "unat (producer_offset rb) = 32 + m * p"
    and m: "unat (msg_size rb) = m" by (auto simp: ring_at_def)
  have room: "Suc p mod n \<noteq> c"
    using assms(2) cn ring_full_distance [OF cn] ring_contents_at [OF at] by (auto simp: ring_capacity_def)
  obtain rb1 where w: "write_ring rb (producer_offset rb) (msg_size rb) msg = Some rb1"
    and at1: "ring_at m n c p rb1" and same: "msg_size rb1 = msg_size rb"
    and slot: "\<forall>j. ring_slot rb1 j = (if j = p then msg else ring_slot rb j)"
    using write_ring_at [OF at off cn(2), of msg] assms(3) m by auto
  let ?r = "rb1\<lparr>producer_offset := next_slot rb (producer_offset rb)\<rparr>"
  have at': "ring_at m n c (Suc p mod n) ?r"
    using at1 next_slot_at [OF at off cn(2)] cn by (simp add: ring_at_def)
  note dist = ring_distance_Suc [OF cn room]
  have slot': "ring_slot ?r j = ring_slot rb1 j" for j by (simp add: ring_slot_def)
  have "ring_contents ?r = ring_contents rb @ [msg]"
    unfolding ring_contents_at [OF at'] ring_contents_at [OF at] dist(1)
    using slot dist(2,3) cn by (auto simp: slot')
  moreover have "ring_capacity ?r = ring_capacity rb"
    using ring_contents_at(2) [OF at] ring_contents_at(2) [OF at'] by (simp add: ring_capacity_def)
  moreover have "msg_size ?r = msg_size rb" using same by simp
  moreover have "set_one_msg rb msg = Some (MSG_OP_SUCCESS, ?r)"
    using w room if_buffer_full_at [OF at] by (simp add: set_one_msg_def)
  moreover have "ring_wf ?r" using at' by (auto simp: ring_wf_def)
  ultimately show ?thesis by blast
qed


lemma get_one_msg_empty:
  assumes "ring_wf rb" "ring_contents rb = []"
  shows "get_one_msg rb = Some (MSG_OP_FAILURE, [], rb)"
proof -
  from assms(1) obtain m n c p where at: "ring_at m n c p rb" by (auto simp: ring_wf_def)
  then have cn: "c < n" "p < n" and off: "unat (producer_offset rb) = 32 + m * p"
    "unat (consumer_offset rb) = 32 + m * c" by (auto simp: ring_at_def)
  have "(p + n - c) mod n = 0" using assms(2) ring_contents_at(1) [OF at] by simp
  then have "p = c" using ring_distance [OF cn] cn by (auto split: if_splits)
  with offsets_equal [OF at off] show ?thesis by (simp add: get_one_msg_def)
qed

lemma get_one_msg_some:
  assumes "ring_wf rb" "ring_contents rb = msg # msgs"
  shows "\<exists>rb'. get_one_msg rb = Some (MSG_OP_SUCCESS, msg, rb') \<and> ring_wf rb' \<and>
    ring_contents rb' = msgs \<and> ring_capacity rb' = ring_capacity rb \<and> msg_size rb' = msg_size rb"
proof -
  from assms(1) obtain m n c p where at: "ring_at m n c p rb" by (auto simp: ring_wf_def)
  then have cn: "c < n" "p < n" and off: "unat (producer_offset rb) = 32 + m * p"
    "unat (consumer_offset rb) = 32 + m * c" by (auto simp: ring_at_def)
  have ne: "p \<noteq> c" using assms(2) ring_contents_at(1) [OF at] by auto
  let ?r = "rb\<lparr>consumer_offset := next_slot rb (consumer_offset rb)\<rparr>"
  have at': "ring_at m n (Suc c mod n) p ?r"
    using at next_slot_at [OF at off(2) cn(1)] cn by (simp add: ring_at_def)
  have slot': "ring_slot ?r j = ring_slot rb j" for j by (simp add: ring_slot_def)
  let ?d = "(p + n - Suc c mod n) mod n"
  have step: "(Suc c mod n + k) mod n = (c + Suc k) mod n" for k by (simp add: mod_simps)
  have "ring_contents rb = map (\<lambda>k. ring_slot rb ((c + k) mod n)) [0..<Suc ?d]"
    using ring_contents_at(1) [OF at] ring_distance_pred [OF cn ne] by simp
  also have "\<dots> = ring_slot rb c # map (\<lambda>k. ring_slot rb ((c + Suc k) mod n)) [0..<?d]"
    using cn by (simp add: map_upt_Suc del: upt_Suc)
  also have "map (\<lambda>k. ring_slot rb ((c + Suc k) mod n)) [0..<?d] = ring_contents ?r"
    unfolding ring_contents_at [OF at'] slot' step ..
  finally have "msg = ring_slot rb c" "ring_contents ?r = msgs" using assms(2) by simp_all
  moreover have "get_one_msg rb = Some (MSG_OP_SUCCESS, ring_slot rb c, ?r)"
    using offsets_equal [OF at off] ne read_ring_at [OF at off(2) cn(1)] by (simp add: get_one_msg_def)
  moreover have "ring_capacity ?r = ring_capacity rb"
    using ring_contents_at(2) [OF at] ring_contents_at(2) [OF at'] by (simp add: ring_capacity_def)
  ultimately show ?thesis using at' by (auto simp: ring_wf_def)
qed

lemma ring_contents_bound: "ring_wf rb \<Longrightarrow> length (ring_contents rb) \<le> ring_capacity rb"
proof -
  assume "ring_wf rb"
  then obtain m n c p where at: "ring_at m n c p rb" by (auto simp: ring_wf_def)
  then have "(p + n - c) mod n < n" by (simp add: ring_at_def)
  with ring_contents_at [OF at] show ?thesis by (simp add: ring_capacity_def)
qed

subsection \<open>The queue contract\<close>

datatype 'm queue_op = Put 'm | Get

text \<open>A run of puts and gets; it collects the accepted and the delivered messages.\<close>

fun run_queue ::
    "('q \<Rightarrow> 'm \<Rightarrow> (int \<times> 'q) option) \<Rightarrow> ('q \<Rightarrow> (int \<times> 'm \<times> 'q) option) \<Rightarrow> 'm queue_op list \<Rightarrow> 'q \<Rightarrow>
     ('m list \<times> 'm list \<times> 'q) option" where
  "run_queue put get [] q = Some ([], [], q)"
| "run_queue put get (Put x # ops) q =
     do { (r, q1) \<leftarrow> put q x;
          (acc, del, q2) \<leftarrow> run_queue put get ops q1;
          Some (if r = MSG_OP_SUCCESS then x # acc else acc, del, q2) }"
| "run_queue put get (Get # ops) q =
     do { (r, x, q1) \<leftarrow> get q;
          (acc, del, q2) \<leftarrow> run_queue put get ops q1;
          Some (acc, if r = MSG_OP_SUCCESS then x # del else del, q2) }"

locale bounded_fifo =
  fixes wf :: "'q \<Rightarrow> bool" and contents :: "'q \<Rightarrow> 'm list" and capacity :: "'q \<Rightarrow> nat"
    and fits :: "'q \<Rightarrow> 'm \<Rightarrow> bool"
    and put :: "'q \<Rightarrow> 'm \<Rightarrow> (int \<times> 'q) option" and get :: "'q \<Rightarrow> (int \<times> 'm \<times> 'q) option"
  assumes bound: "wf q \<Longrightarrow> length (contents q) \<le> capacity q"
    and put_full: "wf q \<Longrightarrow> length (contents q) = capacity q \<Longrightarrow> put q x = Some (MSG_OP_FAILURE, q)"
    and put_room: "wf q \<Longrightarrow> length (contents q) \<noteq> capacity q \<Longrightarrow> fits q x \<Longrightarrow>
      \<exists>q'. put q x = Some (MSG_OP_SUCCESS, q') \<and> wf q' \<and> contents q' = contents q @ [x] \<and>
        capacity q' = capacity q \<and> fits q' = fits q"
    and get_empty: "wf q \<Longrightarrow> contents q = [] \<Longrightarrow> \<exists>x. get q = Some (MSG_OP_FAILURE, x, q)"
    and get_some: "wf q \<Longrightarrow> contents q = x # xs \<Longrightarrow>
      \<exists>q'. get q = Some (MSG_OP_SUCCESS, x, q') \<and> wf q' \<and> contents q' = xs \<and>
        capacity q' = capacity q \<and> fits q' = fits q"
begin

lemma run_fifo:
  assumes "wf q" "\<And>x. Put x \<in> set ops \<Longrightarrow> fits q x"
  shows "\<exists>acc del q'. run_queue put get ops q = Some (acc, del, q') \<and> wf q' \<and>
    contents q @ acc = del @ contents q' \<and> capacity q' = capacity q"
  using assms
proof (induction ops arbitrary: q)
  case (Cons oper ops)
  show ?case
  proof (cases oper)
    case (Put x)
    then have x: "fits q x" using Cons.prems(2) by simp
    show ?thesis
    proof (cases "length (contents q) = capacity q")
      case True
      with put_full [OF Cons.prems(1) True, of x] Cons.IH [OF Cons.prems(1)] Cons.prems(2) Put
      show ?thesis by (fastforce simp: ring_consts)
    next
      case False
      from put_room [OF Cons.prems(1) False x] obtain q1 where
        q1: "put q x = Some (MSG_OP_SUCCESS, q1)" "wf q1" "contents q1 = contents q @ [x]"
        "capacity q1 = capacity q" "fits q1 = fits q" by blast
      with Cons.IH [OF q1(2)] Cons.prems(2) Put show ?thesis by fastforce
    qed
  next
    case Get
    show ?thesis
    proof (cases "contents q")
      case Nil
      with get_empty [OF Cons.prems(1) Nil] Cons.IH [OF Cons.prems(1)] Cons.prems(2) Get
      show ?thesis by (fastforce simp: ring_consts)
    next
      case (Cons x xs)
      from get_some [OF Cons.prems(1) Cons] obtain q1 where
        q1: "get q = Some (MSG_OP_SUCCESS, x, q1)" "wf q1" "contents q1 = xs"
        "capacity q1 = capacity q" "fits q1 = fits q" by blast
      with Cons.IH [OF q1(2)] Cons.prems(2) Get Cons show ?thesis by fastforce
    qed
  qed
qed simp

end

interpretation rq: bounded_fifo ring_wf ring_contents ring_capacity
    "\<lambda>rb msg. length msg = unat (msg_size rb)" set_one_msg get_one_msg
proof unfold_locales
  show "\<exists>x. get_one_msg q = Some (MSG_OP_FAILURE, x, q)" if "ring_wf q" "ring_contents q = []" for q
    using get_one_msg_empty [OF that] by blast
  show "\<exists>q'. get_one_msg q = Some (MSG_OP_SUCCESS, x, q') \<and> ring_wf q' \<and> ring_contents q' = xs \<and>
      ring_capacity q' = ring_capacity q \<and>
      (\<lambda>msg :: u8 list. length msg = unat (msg_size q')) = (\<lambda>msg. length msg = unat (msg_size q))"
    if "ring_wf q" "ring_contents q = x # xs" for q x xs
    using get_one_msg_some [OF that] by auto
  show "\<exists>q'. set_one_msg q x = Some (MSG_OP_SUCCESS, q') \<and> ring_wf q' \<and>
      ring_contents q' = ring_contents q @ [x] \<and> ring_capacity q' = ring_capacity q \<and>
      (\<lambda>msg :: u8 list. length msg = unat (msg_size q')) = (\<lambda>msg. length msg = unat (msg_size q))"
    if "ring_wf q" "length (ring_contents q) \<noteq> ring_capacity q" "length x = unat (msg_size q)" for q x
    using set_one_msg_room [OF that] by auto
qed (fact ring_contents_bound set_one_msg_full)+


subsection \<open>Properties of the ring\<close>

definition demo_ring :: ring_buffer where
  "demo_ring = \<lparr>buffer_size = 38, consumer_offset = 32, producer_offset = 32, msg_size = 2,
     ring_data = [0, 0, 0, 0, 0, 0]\<rparr>"

lemma demo_ring_wf: "ring_wf demo_ring"
  unfolding ring_wf_def
  by (rule exI [of _ 2], rule exI [of _ 3], rule exI [of _ 0], rule exI [of _ 0])
    (simp add: ring_at_def demo_ring_def)

lemma demo_ring_contents: "ring_contents demo_ring = []"
  by (simp add: ring_contents_def ring_slots_def demo_ring_def)

text \<open>
  C19: Whatever the order of \<open>set_one_msg\<close> and \<open>get_one_msg\<close> on a well-formed ring, every
  call returns without leaving the ring, the delivered messages followed by those still stored
  are the stored ones followed by the accepted ones, and one slot always stays free.
\<close>

theorem ring_buffer_fifo:
  assumes "ring_wf rb" "\<And>msg. Put msg \<in> set ops \<Longrightarrow> length msg = unat (msg_size rb)"
  shows "\<exists>acc del rb'. run_queue set_one_msg get_one_msg ops rb = Some (acc, del, rb') \<and> ring_wf rb' \<and>
    ring_contents rb @ acc = del @ ring_contents rb' \<and>
    length (ring_contents rb') < ring_slots rb' \<and> ring_slots rb' = ring_slots rb"
proof -
  from rq.run_fifo [OF assms] obtain acc del rb' where
    r: "run_queue set_one_msg get_one_msg ops rb = Some (acc, del, rb')" "ring_wf rb'"
    "ring_contents rb @ acc = del @ ring_contents rb'" "ring_capacity rb' = ring_capacity rb" by blast
  have pos: "0 < ring_slots x" if "ring_wf x" for x
    using that ring_contents_at(2) by (fastforce simp: ring_wf_def ring_at_def)
  have "ring_slots rb' = ring_slots rb" "length (ring_contents rb') < ring_slots rb'"
    using pos [OF r(2)] pos [OF assms(1)] ring_contents_bound [OF r(2)] r(4)
    by (simp_all add: ring_capacity_def)
  with r show ?thesis by blast
qed

theorem ring_buffer_fifo_witness:
  "ring_wf demo_ring \<and> (\<exists>acc del rb'. run_queue set_one_msg get_one_msg
      [Put [1, 2], Put [3, 4], Get, Put [5, 6], Get] demo_ring = Some (acc, del, rb') \<and>
    acc = del @ ring_contents rb')"
proof -
  let ?ops = "[Put [1, 2], Put [3, 4], Get, Put [5, 6], Get] :: u8 list queue_op list"
  have "length msg = unat (msg_size demo_ring)" if "Put msg \<in> set ?ops" for msg
    using that by (auto simp: demo_ring_def)
  from ring_buffer_fifo [OF demo_ring_wf this, of ?ops] demo_ring_wf demo_ring_contents show ?thesis
    by (auto simp del: run_queue.simps)
qed

text \<open>
  C20: The ring accepts exactly as many messages as it has slots but one: a put fails, without
  touching the ring, exactly when all other slots hold messages, and a get fails exactly when
  no message is stored.
\<close>

theorem ring_buffer_refuses:
  assumes "ring_wf rb" "length msg = unat (msg_size rb)"
  shows "(set_one_msg rb msg = Some (MSG_OP_FAILURE, rb) \<longleftrightarrow> Suc (length (ring_contents rb)) = ring_slots rb) \<and>
    ((\<exists>x. get_one_msg rb = Some (MSG_OP_FAILURE, x, rb)) \<longleftrightarrow> ring_contents rb = [])"
proof -
  obtain m n c p where at: "ring_at m n c p rb" using assms(1) by (auto simp: ring_wf_def)
  then have "0 < ring_slots rb" using ring_contents_at(2) [OF at] by (simp add: ring_at_def)
  then have cap: "length (ring_contents rb) = ring_capacity rb \<longleftrightarrow>
      Suc (length (ring_contents rb)) = ring_slots rb"
    by (auto simp: ring_capacity_def)
  have "set_one_msg rb msg = Some (MSG_OP_FAILURE, rb) \<longleftrightarrow> Suc (length (ring_contents rb)) = ring_slots rb"
    unfolding cap [symmetric]
    using set_one_msg_full [OF assms(1), of msg] set_one_msg_room [OF assms(1) _ assms(2)]
    by (cases "length (ring_contents rb) = ring_capacity rb") (auto simp: ring_consts)
  moreover have "(\<exists>x. get_one_msg rb = Some (MSG_OP_FAILURE, x, rb)) \<longleftrightarrow> ring_contents rb = []"
    using get_one_msg_empty [OF assms(1)] get_one_msg_some [OF assms(1)]
    by (cases "ring_contents rb") (auto simp: ring_consts)
  ultimately show ?thesis ..
qed

theorem ring_buffer_refuses_witness:
  "set_one_msg demo_ring [1, 2] \<noteq> Some (MSG_OP_FAILURE, demo_ring) \<and>
   (\<exists>x. get_one_msg demo_ring = Some (MSG_OP_FAILURE, x, demo_ring))"
proof -
  have "length [1 :: u8, 2] = unat (msg_size demo_ring)" by (simp add: demo_ring_def)
  note r = ring_buffer_refuses [OF demo_ring_wf this]
  have "ring_slots demo_ring = 3" by (simp add: ring_slots_def demo_ring_def)
  then show ?thesis using r demo_ring_contents by simp
qed

text \<open>
  C21: Restoring a checkpoint of a well-formed ring brings back its messages and offsets,
  whatever well-formed ring of the same total size stands at the address meanwhile.
\<close>

theorem ring_checkpoint_restore:
  assumes "ring_wf rb" "False \<notin> set k" "ring_wf now" "length (ring_data now) = length (ring_data rb)"
  shows "\<exists>ck k'. ckpt_ring_buffer_of rb k = Some (ck, k') \<and> restore_ring_buffer ck now = Some rb"
proof -
  obtain m n c p where at: "ring_at m n c p rb" using assms(1) by (auto simp: ring_wf_def)
  obtain k' where k: "kmalloc_outcome k = (True, k')" using assms(2) by (cases k) auto
  have "sizeof_ring_buffer \<le> buffer_size rb"
    using at by (simp add: ring_at_def sizeof_ring_buffer_def word_le_nat_alt)
  then have sz: "unat (buffer_size rb - sizeof_ring_buffer) = length (ring_data rb)"
    using at by (simp add: unat_sub ring_at_def sizeof_ring_buffer_def)
  show ?thesis
    using k sz assms(4)
    by (simp add: ckpt_ring_buffer_of_def restore_ring_buffer_def read_ring_def write_ring_def
        sizeof_ring_buffer_def)
qed

theorem ring_checkpoint_restore_witness:
  "\<exists>ck k'. ckpt_ring_buffer_of demo_ring [] = Some (ck, k') \<and>
     restore_ring_buffer ck (demo_ring\<lparr>ring_data := [1, 2, 3, 4, 5, 6]\<rparr>) = Some demo_ring"
proof -
  have "ring_wf (demo_ring\<lparr>ring_data := [1, 2, 3, 4, 5, 6]\<rparr>)"
    using demo_ring_wf by (auto simp: ring_wf_def ring_at_def demo_ring_def)
  from ring_checkpoint_restore [OF demo_ring_wf _ this, of "[]"] show ?thesis
    by (simp add: demo_ring_def)
qed

end
