(* ===== verification/Buddy.thy ===== *)
theory Buddy
  imports Kernel_List
begin

text \<open>
  The buddy allocator of \<^verbatim>\<open>kernel/mm/buddy.c\<close> and \<^verbatim>\<open>kernel/include/mm/buddy.h\<close>. A
  \<open>struct page *\<close> of a pool is the index of the page in the metadata array of the pool. The
  free lists are linked through the pointer heap of \<open>Kernel_List\<close>: the head of the list of
  order \<open>o\<close> is the node \<open>o\<close>, and the node of page \<open>i\<close> is \<open>20 + i\<close>. Addresses and
  counters are 64-bit words. \<open>None\<close> is a failed \<open>BUG_ON\<close>, an access outside an array, a
  shift or an \<open>int\<close> overflow the language leaves undefined, or recursion without end. The
  pool lock serialises the operations. The checkpoint log is not compiled in the modelled
  configuration, and neither is the lock-free backend.
\<close>

definition BUDDY_PAGE_SIZE :: u64 where "BUDDY_PAGE_SIZE = 0x1000"
definition BUDDY_MAX_ORDER :: nat where "BUDDY_MAX_ORDER = 20"
definition BUDDY_PAGE_SIZE_ORDER :: nat where "BUDDY_PAGE_SIZE_ORDER = 12"

definition PG_allocated :: nat where "PG_allocated = 0"
definition PG_cached :: nat where "PG_cached = 1"
definition PG_patched :: nat where "PG_patched = 2"
definition PG_flagnum :: nat where "PG_flagnum = 3"

lemmas buddy_consts = BUDDY_PAGE_SIZE_def BUDDY_MAX_ORDER_def BUDDY_PAGE_SIZE_ORDER_def
  PG_allocated_def PG_cached_def PG_patched_def PG_flagnum_def

datatype page_type = DRAM_PAGE | DRAM_CACHED_PAGE | NVM_PAGE | CXL_MEM_PAGE | TEMP_PAGE | INVALID_PAGE

text \<open>The fields of \<open>struct page\<close> and \<open>struct phys_mem_pool\<close> the allocator uses. A pool is
  named by its place in the search order of \<open>virt_to_page\<close>.\<close>

record page =
  flags :: u32
  order :: int
  page_pool :: "nat option"

record phys_mem_pool =
  pool_id :: nat
  pool_start_addr :: u64
  pool_mem_size :: u64
  page_metadata :: "page list"
  nr_free :: "u64 list"
  free_heap :: list_heap
  pool_phys_page_num :: u64
  pool_type :: page_type

definition free_head :: "nat \<Rightarrow> addr" where "free_head ord = ord"
definition page_node :: "nat \<Rightarrow> addr" where "page_node i = 20 + i"
definition node_page :: "addr \<Rightarrow> nat" where "node_page a = a - 20"

definition page_set_flag :: "page \<Rightarrow> nat \<Rightarrow> page option" where
  "page_set_flag p flag =
     do { bug_on (flag \<ge> PG_flagnum); Some (p\<lparr>flags := flags p OR push_bit flag 1\<rparr>) }"

definition page_clear_flag :: "page \<Rightarrow> nat \<Rightarrow> page option" where
  "page_clear_flag p flag =
     do { bug_on (flag \<ge> PG_flagnum); Some (p\<lparr>flags := flags p AND NOT (push_bit flag 1)\<rparr>) }"

definition page_check_flag :: "page \<Rightarrow> nat \<Rightarrow> u32 option" where
  "page_check_flag p flag =
     do { bug_on (flag \<ge> PG_flagnum); Some (flags p AND push_bit flag 1) }"

subsection \<open>Pages and addresses\<close>

text \<open>The address ranges of all pools, in the order in which \<open>virt_to_page\<close> tries them.\<close>

type_synonym ranges = "(u64 \<times> u64) list"

definition page_to_virt :: "phys_mem_pool \<Rightarrow> nat \<Rightarrow> u64 option" where
  "page_to_virt P i =
     do { p \<leftarrow> load_at (page_metadata P) i;
          bug_on (page_pool p \<noteq> Some (pool_id P));
          let addr = of_nat i * BUDDY_PAGE_SIZE + pool_start_addr P;
          bug_on (addr > pool_start_addr P + pool_mem_size P);
          Some addr }"

fun find_pool :: "ranges \<Rightarrow> u64 \<Rightarrow> nat \<Rightarrow> nat option" where
  "find_pool [] addr k = None"
| "find_pool ((start, sz) # rg) addr k =
     (if addr \<ge> start \<and> addr < start + sz then Some k else find_pool rg addr (Suc k))"

text \<open>An address in another pool is outside the model of this pool.\<close>

definition virt_to_page :: "ranges \<Rightarrow> phys_mem_pool \<Rightarrow> u64 \<Rightarrow> nat option" where
  "virt_to_page rg P addr =
     do { q \<leftarrow> find_pool rg addr 0;
          bug_on (q \<noteq> pool_id P);
          let i = unat ((addr - pool_start_addr P) div BUDDY_PAGE_SIZE);
          p \<leftarrow> load_at (page_metadata P) i;
          bug_on (page_pool p \<noteq> Some (pool_id P));
          Some i }"

definition get_page_type :: "phys_mem_pool \<Rightarrow> page \<Rightarrow> page_type option" where
  "get_page_type P p =
     do { cached \<leftarrow> page_check_flag p PG_cached;
          if cached \<noteq> 0 then Some DRAM_CACHED_PAGE
          else case page_pool p of
                 None \<Rightarrow> Some INVALID_PAGE
               | Some q \<Rightarrow> if q = pool_id P then Some (pool_type P) else None }"

text \<open>
  \<open>get_buddy_chunk\<close>: the result \<open>Some None\<close> is the null pointer. The size of the chunk is
  computed in \<open>int\<close>, where it overflows from order 19 on.
\<close>

definition get_buddy_chunk :: "ranges \<Rightarrow> phys_mem_pool \<Rightarrow> nat \<Rightarrow> nat option option" where
  "get_buddy_chunk rg P chunk =
     do { chunk_addr \<leftarrow> page_to_virt P chunk;
          p \<leftarrow> load_at (page_metadata P) chunk;
          bug_on (order p < 0 \<or> order p \<ge> 19);
          let ord = nat (order p);
          let buddy_chunk_addr = chunk_addr XOR push_bit (ord + BUDDY_PAGE_SIZE_ORDER) 1;
          if buddy_chunk_addr < pool_start_addr P \<or>
             buddy_chunk_addr + push_bit ord 1 * BUDDY_PAGE_SIZE > pool_start_addr P + pool_mem_size P
          then Some None
          else do { b \<leftarrow> virt_to_page rg P buddy_chunk_addr; Some (Some b) } }"

subsection \<open>Free lists\<close>

definition set_page :: "nat \<Rightarrow> page \<Rightarrow> phys_mem_pool \<Rightarrow> phys_mem_pool option" where
  "set_page i p P =
     do { ps \<leftarrow> store_at (page_metadata P) i p; Some (P\<lparr>page_metadata := ps\<rparr>) }"

text \<open>An entry of the array \<open>free_lists\<close>, indexed by the order of a page.\<close>

definition count_free :: "int \<Rightarrow> (u64 \<Rightarrow> u64) \<Rightarrow> phys_mem_pool \<Rightarrow> phys_mem_pool option" where
  "count_free ord f P =
     do { bug_on (ord < 0);
          c \<leftarrow> load_at (nr_free P) (nat ord);
          cs \<leftarrow> store_at (nr_free P) (nat ord) (f c);
          Some (P\<lparr>nr_free := cs\<rparr>) }"

definition put_free :: "int \<Rightarrow> nat \<Rightarrow> phys_mem_pool \<Rightarrow> phys_mem_pool option" where
  "put_free ord i P =
     count_free ord (\<lambda>c. c + 1)
       (P\<lparr>free_heap := list_add (page_node i) (free_head (nat ord)) (free_heap P)\<rparr>)"

definition take_free :: "int \<Rightarrow> nat \<Rightarrow> phys_mem_pool \<Rightarrow> phys_mem_pool option" where
  "take_free ord i P =
     count_free ord (\<lambda>c. c - 1) (P\<lparr>free_heap := list_del (page_node i) (free_heap P)\<rparr>)"

subsection \<open>Splitting and merging\<close>

partial_function (option) split_chunk ::
    "ranges \<Rightarrow> int \<Rightarrow> nat \<Rightarrow> phys_mem_pool \<Rightarrow> (nat \<times> phys_mem_pool) option" where
  "split_chunk rg ord chunk P =
     do { p \<leftarrow> load_at (page_metadata P) chunk;
          if order p = ord then Some (chunk, P)
          else do {
            P1 \<leftarrow> set_page chunk (p\<lparr>order := order p - 1\<rparr>) P;
            b \<leftarrow> get_buddy_chunk rg P1 chunk;
            case b of
              None \<Rightarrow> None
            | Some buddy \<Rightarrow> do {
                q \<leftarrow> load_at (page_metadata P1) buddy;
                q' \<leftarrow> page_clear_flag (q\<lparr>order := order p - 1\<rparr>) PG_allocated;
                P2 \<leftarrow> set_page buddy q' P1;
                P3 \<leftarrow> put_free (order q') buddy P2;
                split_chunk rg ord chunk P3 } } }"

partial_function (option) merge_chunk ::
    "ranges \<Rightarrow> nat \<Rightarrow> phys_mem_pool \<Rightarrow> (nat \<times> phys_mem_pool) option" where
  "merge_chunk rg chunk P =
     do { p \<leftarrow> load_at (page_metadata P) chunk;
          if order p = int BUDDY_MAX_ORDER - 1 then Some (chunk, P)
          else do {
            b \<leftarrow> get_buddy_chunk rg P chunk;
            case b of
              None \<Rightarrow> Some (chunk, P)
            | Some buddy \<Rightarrow> do {
                q \<leftarrow> load_at (page_metadata P) buddy;
                allocated \<leftarrow> page_check_flag q PG_allocated;
                if allocated \<noteq> 0 then Some (chunk, P)
                else if order q \<noteq> order p then Some (chunk, P)
                else do {
                  P1 \<leftarrow> take_free (order q) buddy P;
                  P2 \<leftarrow> set_page buddy (q\<lparr>order := order q + 1\<rparr>) P1;
                  p' \<leftarrow> load_at (page_metadata P2) chunk;
                  P3 \<leftarrow> set_page chunk (p'\<lparr>order := order p' + 1\<rparr>) P2;
                  merge_chunk rg (if chunk > buddy then buddy else chunk) P3 } } } }"

subsection \<open>Allocation and release\<close>

text \<open>The search for the first free list, from the required order on, that is not empty.\<close>

fun find_order :: "phys_mem_pool \<Rightarrow> nat list \<Rightarrow> nat option" where
  "find_order P [] = None"
| "find_order P (cur_order # os) =
     (if list_empty (free_head cur_order) (free_heap P) then find_order P os else Some cur_order)"

fun mark_allocated :: "nat \<Rightarrow> nat \<Rightarrow> phys_mem_pool \<Rightarrow> phys_mem_pool option" where
  "mark_allocated i 0 P = Some P"
| "mark_allocated i (Suc n) P =
     do { p \<leftarrow> load_at (page_metadata P) i;
          p' \<leftarrow> page_set_flag p PG_allocated;
          P' \<leftarrow> set_page i p' P;
          mark_allocated (Suc i) n P' }"

text \<open>A negative order is a huge number in the comparison with \<open>BUDDY_MAX_ORDER\<close>, which is
  \<open>unsigned long\<close>.\<close>

definition buddy_get_pages ::
    "ranges \<Rightarrow> int \<Rightarrow> phys_mem_pool \<Rightarrow> (nat option \<times> phys_mem_pool) option" where
  "buddy_get_pages rg ord P =
     (if ord < 0 \<or> ord \<ge> int BUDDY_MAX_ORDER then Some (None, P)
      else case find_order P [nat ord..<BUDDY_MAX_ORDER] of
             None \<Rightarrow> Some (None, P)
           | Some cur_order \<Rightarrow>
               do { let pg = node_page (next_of (free_heap P) (free_head cur_order));
                    P1 \<leftarrow> take_free (int cur_order) pg P;
                    (pg', P2) \<leftarrow> split_chunk rg ord pg P1;
                    P3 \<leftarrow> mark_allocated pg' (2 ^ nat ord) P2;
                    Some (Some pg', P3) })"

fun clear_pages :: "nat \<Rightarrow> nat \<Rightarrow> phys_mem_pool \<Rightarrow> phys_mem_pool option" where
  "clear_pages i 0 P = Some P"
| "clear_pages i (Suc n) P =
     do { p \<leftarrow> load_at (page_metadata P) i;
          allocated \<leftarrow> page_check_flag p PG_allocated;
          bug_on (allocated = 0);
          P' \<leftarrow> set_page i (p\<lparr>flags := 0\<rparr>) P;
          clear_pages (Suc i) n P' }"

definition buddy_free_pages :: "ranges \<Rightarrow> nat \<Rightarrow> phys_mem_pool \<Rightarrow> phys_mem_pool option" where
  "buddy_free_pages rg pg P =
     do { p \<leftarrow> load_at (page_metadata P) pg;
          bug_on (order p < 0 \<or> order p \<ge> 31);
          P1 \<leftarrow> clear_pages pg (2 ^ nat (order p)) P;
          (pg', P2) \<leftarrow> merge_chunk rg pg P1;
          p' \<leftarrow> load_at (page_metadata P2) pg';
          put_free (order p') pg' P2 }"

subsection \<open>Initialisation and accounting\<close>

fun init_lists :: "nat \<Rightarrow> list_heap \<Rightarrow> list_heap" where
  "init_lists 0 h = h"
| "init_lists (Suc n) h = init_list_head (free_head n) (init_lists n h)"

fun free_each :: "ranges \<Rightarrow> nat list \<Rightarrow> phys_mem_pool \<Rightarrow> phys_mem_pool option" where
  "free_each rg [] P = Some P"
| "free_each rg (i # is) P = do { P' \<leftarrow> buddy_free_pages rg i P; free_each rg is P' }"

definition init_buddy ::
    "ranges \<Rightarrow> nat \<Rightarrow> list_heap \<Rightarrow> u64 \<Rightarrow> nat \<Rightarrow> page_type \<Rightarrow> phys_mem_pool option" where
  "init_buddy rg self h start_addr page_num type =
     free_each rg [0..<page_num]
       \<lparr>pool_id = self, pool_start_addr = start_addr,
        pool_mem_size = of_nat page_num * BUDDY_PAGE_SIZE,
        page_metadata = replicate page_num
          \<lparr>flags = push_bit PG_allocated 1, order = 0, page_pool = Some self\<rparr>,
        nr_free = replicate BUDDY_MAX_ORDER 0, free_heap = init_lists BUDDY_MAX_ORDER h,
        pool_phys_page_num = of_nat page_num, pool_type = type\<rparr>"

text \<open>The sum over the orders; the size of a chunk is computed as \<open>0x1000 * (1 << order)\<close> in
  \<open>int\<close> and widened, which overflows at order 19.\<close>

definition chunk_bytes :: "nat \<Rightarrow> u64" where
  "chunk_bytes ord = word_of_int (signed_take_bit 31 (0x1000 * 2 ^ ord))"

definition get_free_mem_size_from_buddy :: "phys_mem_pool \<Rightarrow> u64" where
  "get_free_mem_size_from_buddy P =
     (\<Sum>ord \<leftarrow> [0..<BUDDY_MAX_ORDER]. nr_free P ! ord * chunk_bytes ord)"

end
