(* ===== verification/Buddy_Inv.thy ===== *)
theory Buddy_Inv
  imports Buddy
begin

text \<open>
  The invariant of a buddy pool and the arithmetic of buddies. A pool of \<open>n\<close> pages starts
  at page frame \<open>S\<close>. Its pages are tiled by chunks, pairs of a page index and an order; a chunk
  is allocated, free, or in the hands of a running operation.
\<close>

subsection \<open>Buddies of page frames\<close>

lemma xor_power_add:
  assumes "\<not> bit (f :: nat) k"
  shows "f XOR 2 ^ k = f + 2 ^ k"
proof -
  have "f AND 2 ^ k = 0" using assms by (intro bit_eqI) (auto simp: bit_simps)
  then show ?thesis by (simp add: disjunctive_xor_eq_or disjunctive_add_eq_or)
qed

lemma xor_power_sub:
  assumes "bit (f :: nat) k"
  shows "f XOR 2 ^ k = f - 2 ^ k" "2 ^ k \<le> f"
proof -
  let ?g = "f XOR 2 ^ k"
  have "\<not> bit ?g k" using assms by (simp add: bit_simps)
  then have "?g XOR 2 ^ k = ?g + 2 ^ k" by (rule xor_power_add)
  moreover have "?g XOR 2 ^ k = f" by (simp add: xor.assoc)
  ultimately show "f XOR 2 ^ k = f - 2 ^ k" "2 ^ k \<le> f" by linarith+
qed

lemma aligned_bit:
  assumes "2 ^ k dvd (f :: nat)"
  shows "bit f k \<longleftrightarrow> \<not> 2 ^ Suc k dvd f"
proof -
  obtain q where f: "f = 2 ^ k * q" using assms by (auto elim: dvdE)
  have "2 ^ Suc k dvd f \<longleftrightarrow> even q" unfolding f by (simp add: mult.commute [of 2])
  then show ?thesis unfolding f by (simp add: bit_iff_odd)
qed

definition buddy_idx :: "nat \<Rightarrow> nat \<Rightarrow> nat \<Rightarrow> nat \<Rightarrow> nat option" where
  "buddy_idx S n k i =
     (let f = (S + i) XOR 2 ^ k in if f < S \<or> S + n < f + 2 ^ k then None else Some (f - S))"

lemma buddy_idx_left:
  assumes "2 ^ Suc k dvd S + i"
  shows "buddy_idx S n k i = (if i + 2 ^ Suc k \<le> n then Some (i + 2 ^ k) else None)"
proof -
  have "2 ^ k dvd S + i" using assms by (meson dvd_trans le_imp_power_dvd le_SucI le_refl)
  then have "\<not> bit (S + i) k" using assms aligned_bit by blast
  then show ?thesis by (auto simp: buddy_idx_def xor_power_add)
qed

lemma buddy_idx_right:
  assumes "2 ^ k dvd S + i" "\<not> 2 ^ Suc k dvd S + i" "i + 2 ^ k \<le> n"
  shows "buddy_idx S n k i = (if 2 ^ k \<le> i then Some (i - 2 ^ k) else None)"
proof -
  have b: "bit (S + i) k" using assms aligned_bit by blast
  show ?thesis
    using assms(3) xor_power_sub [OF b] by (auto simp: buddy_idx_def Let_def)
qed

lemma right_aligned:
  assumes "2 ^ k dvd (f :: nat)" "\<not> 2 ^ Suc k dvd f"
  shows "2 ^ Suc k dvd f - 2 ^ k"
proof -
  obtain q where f: "f = 2 ^ k * q" using assms(1) by (auto elim: dvdE)
  with assms(2) have "odd q" by (auto simp: mult.commute [of 2])
  then obtain r where "q = Suc (2 * r)" by (auto elim: oddE)
  with f show ?thesis by simp
qed

text \<open>The two halves of a chunk of the next order.\<close>

definition halves :: "nat \<Rightarrow> nat \<Rightarrow> nat \<Rightarrow> nat \<Rightarrow> nat \<Rightarrow> bool" where
  "halves S n k l r \<longleftrightarrow> r = l + 2 ^ k \<and> 2 ^ Suc k dvd S + l \<and> l + 2 ^ Suc k \<le> n"

lemma buddy_idx_halves:
  assumes "2 ^ k dvd S + i" "i + 2 ^ k \<le> n"
  shows "buddy_idx S n k i = Some b \<longleftrightarrow> halves S n k i b \<or> halves S n k b i"
proof (cases "2 ^ Suc k dvd S + i")
  case True
  have "\<not> halves S n k b i"
  proof
    assume "halves S n k b i"
    then have "2 ^ Suc k dvd (S + b) + 2 ^ k" "2 ^ Suc k dvd S + b"
      using True by (auto simp: halves_def add.assoc)
    then have "(2 :: nat) ^ Suc k dvd 2 ^ k" using dvd_add_right_iff by blast
    then show False using power_dvd_imp_le [of 2 "Suc k" k] by simp
  qed
  with True show ?thesis by (auto simp: buddy_idx_left halves_def)
next
  case False
  have "2 ^ k \<le> S + i" using xor_power_sub(2) aligned_bit [OF assms(1)] False by blast
  have "halves S n k b i \<longleftrightarrow> 2 ^ k \<le> i \<and> b = i - 2 ^ k"
  proof
    assume "2 ^ k \<le> i \<and> b = i - 2 ^ k"
    then show "halves S n k b i"
      using right_aligned [OF assms(1) False] assms(2) by (auto simp: halves_def)
  qed (auto simp: halves_def)
  with False assms show ?thesis by (auto simp: buddy_idx_right halves_def)
qed


subsection \<open>Tilings\<close>

type_synonym chunk = "nat \<times> nat"

definition blk :: "chunk \<Rightarrow> nat set" where
  "blk c = {fst c..<fst c + 2 ^ snd c}"

definition chunk_ok :: "nat \<Rightarrow> nat \<Rightarrow> chunk \<Rightarrow> bool" where
  "chunk_ok S n c \<longleftrightarrow> snd c < BUDDY_MAX_ORDER \<and> 2 ^ snd c dvd S + fst c \<and> fst c + 2 ^ snd c \<le> n"

definition tiling :: "nat \<Rightarrow> nat \<Rightarrow> chunk set \<Rightarrow> bool" where
  "tiling S n C \<longleftrightarrow> (\<forall>c \<in> C. chunk_ok S n c) \<and>
     (\<forall>c \<in> C. \<forall>d \<in> C. c \<noteq> d \<longrightarrow> blk c \<inter> blk d = {}) \<and> (\<forall>j < n. \<exists>c \<in> C. j \<in> blk c)"

lemma head_in_blk [simp]: "i \<in> blk (i, k)"
  by (simp add: blk_def)

lemma blk_halves: "blk (i, Suc k) = blk (i, k) \<union> blk (i + 2 ^ k, k)" "blk (i, k) \<inter> blk (i + 2 ^ k, k) = {}"
  by (auto simp: blk_def)

lemma tiling_ok: "tiling S n C \<Longrightarrow> (i, k) \<in> C \<Longrightarrow> k < BUDDY_MAX_ORDER \<and> 2 ^ k dvd S + i \<and> i + 2 ^ k \<le> n"
  unfolding tiling_def chunk_ok_def by fastforce

lemma tiling_disjoint: "tiling S n C \<Longrightarrow> c \<in> C \<Longrightarrow> d \<in> C \<Longrightarrow> j \<in> blk c \<Longrightarrow> j \<in> blk d \<Longrightarrow> c = d"
  unfolding tiling_def by blast

lemma tiling_cover: "tiling S n C \<Longrightarrow> j < n \<Longrightarrow> \<exists>c \<in> C. j \<in> blk c"
  unfolding tiling_def by blast

lemma tiling_head: "tiling S n C \<Longrightarrow> (i, k) \<in> C \<Longrightarrow> (i, k') \<in> C \<Longrightarrow> k' = k"
  using tiling_disjoint [of S n C "(i, k)" "(i, k')" i] by simp

lemma tiling_lt: "tiling S n C \<Longrightarrow> (i, k) \<in> C \<Longrightarrow> j \<in> blk (i, k) \<Longrightarrow> j < n"
  using tiling_ok by (fastforce simp: blk_def)

lemma tiling_split:
  assumes t: "tiling S n C" and c: "(i, Suc k) \<in> C"
  shows "tiling S n (insert (i, k) (insert (i + 2 ^ k, k) (C - {(i, Suc k)})))"
    and "(i, k) \<notin> C" "(i + 2 ^ k, k) \<notin> C"
proof -
  note ok = tiling_ok [OF t c]
  have al: "2 ^ k dvd S + i" using ok by (meson dvd_trans le_imp_power_dvd le_SucI le_refl)
  have al': "2 ^ k dvd S + (i + 2 ^ k)" using al by (simp add: add.assoc [symmetric])
  have new: "chunk_ok S n (i, k)" "chunk_ok S n (i + 2 ^ k, k)"
    using ok al al' by (auto simp: chunk_ok_def)
  have inside: "c = (i, Suc k)" if "c \<in> C" "j \<in> blk c" "j \<in> blk (i, Suc k)" for c j
    using tiling_disjoint [OF t _ assms(2)] that by blast
  show out: "(i, k) \<notin> C" "(i + 2 ^ k, k) \<notin> C"
    using inside [of "(i, k)" i] inside [of "(i + 2 ^ k, k)" "i + 2 ^ k"] blk_halves(1) [of i k] by auto
  show "tiling S n (insert (i, k) (insert (i + 2 ^ k, k) (C - {(i, Suc k)})))"
    unfolding tiling_def
  proof (intro conjI ballI allI impI)
    fix c assume "c \<in> insert (i, k) (insert (i + 2 ^ k, k) (C - {(i, Suc k)}))"
    then show "chunk_ok S n c" using new t by (auto simp: tiling_def)
  next
    fix c d assume "c \<in> insert (i, k) (insert (i + 2 ^ k, k) (C - {(i, Suc k)}))"
      "d \<in> insert (i, k) (insert (i + 2 ^ k, k) (C - {(i, Suc k)}))" "c \<noteq> d"
    then show "blk c \<inter> blk d = {}"
      using inside blk_halves [of i k] tiling_disjoint [OF t, of c d] by blast
  next
    fix j assume "j < n"
    then obtain c where "c \<in> C" "j \<in> blk c" using tiling_cover [OF t] by blast
    then show "\<exists>c \<in> insert (i, k) (insert (i + 2 ^ k, k) (C - {(i, Suc k)})). j \<in> blk c"
      using blk_halves(1) [of i k] by (cases "c = (i, Suc k)") auto
  qed
qed

lemma tiling_merge:
  assumes t: "tiling S n C" and c: "(l, k) \<in> C" "(r, k) \<in> C" and h: "halves S n k l r"
    and k: "Suc k < BUDDY_MAX_ORDER"
  shows "tiling S n (insert (l, Suc k) (C - {(l, k), (r, k)}))"
    and "(l, Suc k) \<notin> C"
proof -
  have r: "r = l + 2 ^ k" and new: "chunk_ok S n (l, Suc k)" using h k by (auto simp: halves_def chunk_ok_def)
  have inside: "c = (l, k) \<or> c = (r, k)" if "c \<in> C" "j \<in> blk c" "j \<in> blk (l, Suc k)" for c j
  proof -
    from that(3) have "j \<in> blk (l, k) \<or> j \<in> blk (r, k)" unfolding r blk_halves(1) by blast
    with tiling_disjoint [OF t that(1) c(1) that(2)] tiling_disjoint [OF t that(1) c(2) that(2)]
    show ?thesis by blast
  qed
  show "(l, Suc k) \<notin> C" using inside [of "(l, Suc k)" l] by auto
  show "tiling S n (insert (l, Suc k) (C - {(l, k), (r, k)}))"
    unfolding tiling_def
  proof (intro conjI ballI allI impI)
    fix c assume "c \<in> insert (l, Suc k) (C - {(l, k), (r, k)})"
    then show "chunk_ok S n c" using new t by (auto simp: tiling_def)
  next
    fix c d assume "c \<in> insert (l, Suc k) (C - {(l, k), (r, k)})"
      "d \<in> insert (l, Suc k) (C - {(l, k), (r, k)})" "c \<noteq> d"
    then show "blk c \<inter> blk d = {}"
      using inside tiling_disjoint [OF t, of c d] by blast
  next
    fix j assume "j < n"
    then obtain c where "c \<in> C" "j \<in> blk c" using tiling_cover [OF t] by blast
    then show "\<exists>c \<in> insert (l, Suc k) (C - {(l, k), (r, k)}). j \<in> blk c"
      using blk_halves(1) [of l k] r by (cases "c = (l, k) \<or> c = (r, k)") auto
  qed
qed

text \<open>Aligned blocks are nested or disjoint.\<close>

lemma aligned_start:
  assumes "2 ^ a dvd (x :: nat)" "2 ^ a dvd y" "x \<le> y" "y < x + 2 ^ a"
  shows "x = y"
proof -
  have "2 ^ a dvd y - x" using assms by (intro dvd_diff_nat)
  moreover have "y - x < 2 ^ a" using assms by linarith
  ultimately have "y - x = 0" by (metis dvd_imp_le not_le gr0I)
  with assms(3) show ?thesis by simp
qed

lemma aligned_nested:
  assumes "2 ^ b dvd (x :: nat)" "2 ^ a dvd y" "a \<le> b" "x \<le> z" "z < x + 2 ^ b" "y \<le> z" "z < y + 2 ^ a"
  shows "x \<le> y" "y + 2 ^ a \<le> x + 2 ^ b"
proof -
  have dv: "2 ^ a dvd x" "(2 :: nat) ^ a dvd 2 ^ b"
    using assms(1,3) by (meson dvd_trans le_imp_power_dvd)+
  then obtain p q r where pq: "x = 2 ^ a * p" "y = 2 ^ a * q" "(2 :: nat) ^ b = 2 ^ a * r"
    using assms(2) by (auto elim!: dvdE)
  have "2 ^ a * p < 2 ^ a * Suc q" "2 ^ a * q < 2 ^ a * (p + r)"
    using assms(4-7) pq by (auto simp: distrib_left)
  then have "p < Suc q" "q < p + r" by (auto simp del: mult_Suc_right)
  then have "p \<le> q" "Suc q \<le> p + r" by simp_all
  then have "2 ^ a * p \<le> 2 ^ a * q" "2 ^ a * Suc q \<le> 2 ^ a * (p + r)"
    by (auto simp del: mult_Suc_right)
  then show "x \<le> y" "y + 2 ^ a \<le> x + 2 ^ b" using pq by (auto simp: distrib_left)
qed

text \<open>The buddy of a chunk of a tiling is the head of a chunk that is no larger.\<close>

lemma buddy_is_head:
  assumes t: "tiling S n C" and c: "(i, k) \<in> C" and b: "buddy_idx S n k i = Some b"
  shows "\<exists>k' \<le> k. (b, k') \<in> C"
proof -
  note ok = tiling_ok [OF t c]
  obtain l r where h: "halves S n k l r" and lr: "i = l \<and> b = r \<or> i = r \<and> b = l"
    using b ok buddy_idx_halves [of k S i n b] by blast
  then have ball: "2 ^ Suc k dvd S + l" "l + 2 ^ Suc k \<le> n" "r = l + 2 ^ k"
    by (auto simp: halves_def)
  have pos: "0 < (2 :: nat) ^ k" by simp
  then have bn: "b < n" using ball(2,3) lr unfolding power_Suc by linarith
  obtain x kx where x: "(x, kx) \<in> C" "b \<in> blk (x, kx)" using tiling_cover [OF t bn] by auto
  note xok = tiling_ok [OF t x(1)]
  have in_x: "x \<le> b" "b < x + 2 ^ kx" using x(2) by (auto simp: blk_def)
  show ?thesis
  proof (cases "kx \<le> k")
    case True
    have "2 ^ k dvd S + l" using ball(1) by (meson dvd_trans le_imp_power_dvd le_SucI le_refl)
    then have "2 ^ k dvd S + b" using lr ball(3) by (auto simp: add.assoc [symmetric])
    then have "2 ^ kx dvd S + b" using True by (meson dvd_trans le_imp_power_dvd)
    then have "S + x = S + b" using aligned_start [of kx "S + x" "S + b"] xok in_x by simp
    with x True show ?thesis by auto
  next
    case False
    then have "Suc k \<le> kx" by simp
    from aligned_nested [OF _ ball(1) this, of "S + x" "S + b"] xok in_x lr ball(3)
    have "S + x \<le> S + l" "S + l + 2 ^ Suc k \<le> S + x + 2 ^ kx" by auto
    then have "x \<le> i" "i < x + 2 ^ kx" using lr ball(3) pos unfolding power_Suc by linarith+
    then have "i \<in> blk (x, kx)" by (simp add: blk_def)
    then have "(x, kx) = (i, k)" using tiling_disjoint [OF t x(1) c] by simp
    with False show ?thesis by simp
  qed
qed


subsection \<open>The geometry of a pool\<close>

text \<open>
  Page aligned, away from the end of the address space, all pages owned by the pool, and every
  address of the pool found in this pool.
\<close>

definition pool_geo :: "ranges \<Rightarrow> nat \<Rightarrow> nat \<Rightarrow> phys_mem_pool \<Rightarrow> bool" where
  "pool_geo rg S n P \<longleftrightarrow> unat (pool_start_addr P) = 4096 * S \<and> unat (pool_mem_size P) = 4096 * n \<and>
     S + n + 2 ^ 20 \<le> 2 ^ 52 \<and> length (page_metadata P) = n \<and>
     (\<forall>i < n. page_pool (page_metadata P ! i) = Some (pool_id P)) \<and>
     (\<forall>a. pool_start_addr P \<le> a \<longrightarrow> a < pool_start_addr P + pool_mem_size P \<longrightarrow>
        find_pool rg a 0 = Some (pool_id P))"

lemma unat_plus: "unat (a :: u64) + unat b < 2 ^ 64 \<Longrightarrow> unat (a + b) = unat a + unat b"
  by (simp add: unat_word_ariths)

lemma unat_frame: "x < 2 ^ 52 \<Longrightarrow> unat (of_nat x * BUDDY_PAGE_SIZE) = 4096 * x"
  by (simp add: BUDDY_PAGE_SIZE_def unat_word_ariths unsigned_of_nat take_bit_nat_eq_self mult.commute)

lemma unat_2p: "m < 64 \<Longrightarrow> unat ((2 :: u64) ^ m) = 2 ^ m"
proof -
  assume m: "m < 64"
  have "(2 :: u64) ^ m = of_nat (2 ^ m)" by simp
  with m show ?thesis by (simp only: unsigned_of_nat) simp
qed

lemma pool_end:
  assumes "pool_geo rg S n P"
  shows "unat (pool_start_addr P + pool_mem_size P) = 4096 * (S + n)"
  using assms by (subst unat_plus) (auto simp: pool_geo_def)

lemma page_to_virt_ok:
  assumes g: "pool_geo rg S n P" and i: "i < n"
  shows "\<exists>a. page_to_virt P i = Some a \<and> unat a = 4096 * (S + i)"
proof -
  let ?a = "of_nat i * BUDDY_PAGE_SIZE + pool_start_addr P"
  have "unat ?a = 4096 * (S + i)"
    using g i by (subst unat_plus) (auto simp: pool_geo_def unat_frame)
  moreover from this have "\<not> ?a > pool_start_addr P + pool_mem_size P"
    using pool_end [OF g] i by (simp add: word_less_nat_alt)
  ultimately show ?thesis using g i by (auto simp: page_to_virt_def pool_geo_def Let_def)
qed

lemma virt_to_page_ok:
  assumes g: "pool_geo rg S n P" and i: "i < n" and a: "unat a = 4096 * (S + i)"
  shows "virt_to_page rg P a = Some i"
proof -
  have st: "unat (pool_start_addr P) = 4096 * S" using g by (simp add: pool_geo_def)
  have le: "pool_start_addr P \<le> a" "a < pool_start_addr P + pool_mem_size P"
    using st a i pool_end [OF g] by (auto simp: word_le_nat_alt word_less_nat_alt)
  have "unat ((a - pool_start_addr P) div BUDDY_PAGE_SIZE) = i"
    using le(1) st a by (simp add: unat_div unat_sub BUDDY_PAGE_SIZE_def)
  with g i le show ?thesis by (simp add: virt_to_page_def pool_geo_def Let_def)
qed

lemma frame_xor:
  fixes a :: u64
  assumes "unat a = 4096 * f" "k < 20"
  shows "unat (a XOR push_bit (k + 12) 1) = 4096 * (f XOR 2 ^ k)"
proof -
  have "unat (push_bit (k + 12) (1 :: u64)) = 2 ^ (k + 12)"
    using assms(2) unat_2p [of "k + 12"] by (simp add: push_bit_eq_mult)
  then have "unat (a XOR push_bit (k + 12) 1) = push_bit 12 f XOR push_bit 12 (2 ^ k)"
    using assms(1) by (simp add: unsigned_xor_eq push_bit_eq_mult power_add mult.commute)
  also have "\<dots> = push_bit 12 (f XOR 2 ^ k)" by (simp add: push_bit_xor)
  finally show ?thesis by (simp add: push_bit_eq_mult)
qed

lemma get_buddy_chunk_ok:
  assumes g: "pool_geo rg S n P" and i: "i < n" and k: "order (page_metadata P ! i) = int k" "k < 19"
  shows "get_buddy_chunk rg P i = Some (buddy_idx S n k i)"
proof -
  obtain a where a: "page_to_virt P i = Some a" "unat a = 4096 * (S + i)"
    using page_to_virt_ok [OF g i] by blast
  let ?f = "(S + i) XOR 2 ^ k"
  let ?b = "a XOR push_bit (k + 12) 1"
  have geo: "unat (pool_start_addr P) = 4096 * S" "S + n + 2 ^ 20 \<le> 2 ^ 52" "length (page_metadata P) = n"
    using g by (auto simp: pool_geo_def)
  have b: "unat ?b = 4096 * ?f" using frame_xor [OF a(2)] k(2) by simp
  have pow: "(2 :: nat) ^ k \<le> 2 ^ 18" using k(2) by (intro power_increasing) auto
  have f: "?f \<le> S + i + 2 ^ k"
    using xor_power_add [of "S + i" k] xor_power_sub [of "S + i" k] by (cases "bit (S + i) k") auto
  have sz: "unat (push_bit k 1 * BUDDY_PAGE_SIZE :: u64) = 4096 * 2 ^ k"
  proof -
    have "push_bit k 1 * BUDDY_PAGE_SIZE = (of_nat (2 ^ k) * BUDDY_PAGE_SIZE :: u64)"
      by (simp add: push_bit_eq_mult)
    then show ?thesis using unat_frame [of "2 ^ k"] pow by simp
  qed
  have e: "unat (?b + push_bit k 1 * BUDDY_PAGE_SIZE) = 4096 * (?f + 2 ^ k)"
    using b sz f i geo(2) pow by (subst unat_plus) auto
  have less: "?b < pool_start_addr P \<longleftrightarrow> ?f < S"
    "?b + push_bit k 1 * BUDDY_PAGE_SIZE > pool_start_addr P + pool_mem_size P \<longleftrightarrow> S + n < ?f + 2 ^ k"
    using b e geo(1) pool_end [OF g] by (auto simp: word_less_nat_alt)
  have page: "virt_to_page rg P ?b = Some (?f - S)" if "\<not> ?f < S" "\<not> S + n < ?f + 2 ^ k"
  proof (rule virt_to_page_ok [OF g])
    have "0 < (2 :: nat) ^ k" by simp
    with that show "?f - S < n" by linarith
    show "unat ?b = 4096 * (S + (?f - S))" using b that by simp
  qed
  show ?thesis
    using a(1) i geo(3) k less page
    by (simp add: get_buddy_chunk_def buddy_idx_def Let_def BUDDY_PAGE_SIZE_ORDER_def)
qed

lemma pool_geo_update:
  assumes "pool_geo rg S n P" "pool_id P' = pool_id P" "pool_start_addr P' = pool_start_addr P"
    "pool_mem_size P' = pool_mem_size P" "map page_pool (page_metadata P') = map page_pool (page_metadata P)"
  shows "pool_geo rg S n P'"
proof -
  have len: "length (page_metadata P') = length (page_metadata P)"
    using arg_cong [OF assms(5), of length] by simp
  have "page_pool (page_metadata P' ! i) = page_pool (page_metadata P ! i)" if "i < length (page_metadata P)" for i
    using arg_cong [OF assms(5), of "\<lambda>xs. xs ! i"] that len by simp
  with assms len show ?thesis by (simp add: pool_geo_def)
qed


subsection \<open>Free lists as sequences of pages\<close>

definition lists_ok :: "list_heap \<Rightarrow> (nat \<Rightarrow> nat list) \<Rightarrow> bool" where
  "lists_ok h F \<longleftrightarrow> dl.family h {..<BUDDY_MAX_ORDER} (\<lambda>l. map page_node (F l))"

lemma page_node_inj [simp]: "page_node i = page_node j \<longleftrightarrow> i = j" "inj page_node"
  by (auto simp: page_node_def inj_def)

lemma page_node_head: "k < BUDDY_MAX_ORDER \<Longrightarrow> page_node i \<noteq> k"
  by (simp add: page_node_def BUDDY_MAX_ORDER_def)

lemma node_page_node [simp]: "node_page (page_node i) = i"
  by (simp add: node_page_def page_node_def)

lemma page_node_mem [simp]: "page_node i \<in> page_node ` X \<longleftrightarrow> i \<in> X"
  by auto

lemma lists_add:
  assumes "lists_ok h F" "k < BUDDY_MAX_ORDER" "\<And>k'. k' < BUDDY_MAX_ORDER \<Longrightarrow> i \<notin> set (F k')"
  shows "lists_ok (list_add (page_node i) (free_head k) h) (F(k := i # F k))"
proof -
  have "dl.family (list_add (page_node i) k h) {..<BUDDY_MAX_ORDER}
      ((\<lambda>l. map page_node (F l))(k := page_node i # map page_node (F k)))"
    using assms page_node_head by (intro dl.family_add) (auto simp: lists_ok_def)
  then show ?thesis
    unfolding lists_ok_def free_head_def by (rule dl.family_same) auto
qed

lemma lists_del:
  assumes "lists_ok h F" "k < BUDDY_MAX_ORDER" "i \<in> set (F k)"
  shows "lists_ok (list_del (page_node i) h) (F(k := remove1 i (F k)))"
proof -
  have "dl.family (list_del (page_node i) h) {..<BUDDY_MAX_ORDER}
      ((\<lambda>l. map page_node (F l))(k := remove1 (page_node i) (map page_node (F k))))"
    using assms by (intro dl.family_del) (auto simp: lists_ok_def)
  moreover have "remove1 (page_node i) (map page_node xs) = map page_node (remove1 i xs)" for xs
    by (induction xs) auto
  ultimately show ?thesis
    unfolding lists_ok_def by (elim dl.family_same) auto
qed

lemma lists_empty: "lists_ok h F \<Longrightarrow> k < BUDDY_MAX_ORDER \<Longrightarrow> list_empty (free_head k) h \<longleftrightarrow> F k = []"
  using dl.family_empty [of h "{..<BUDDY_MAX_ORDER}" "\<lambda>l. map page_node (F l)" k]
  by (simp add: lists_ok_def free_head_def)

lemma lists_next: "lists_ok h F \<Longrightarrow> k < BUDDY_MAX_ORDER \<Longrightarrow> F k = i # is \<Longrightarrow> next_of h (free_head k) = page_node i"
  using family_next [of h "{..<BUDDY_MAX_ORDER}" "\<lambda>l. map page_node (F l)" k]
  by (simp add: lists_ok_def free_head_def)

lemma lists_distinct: "lists_ok h F \<Longrightarrow> k < BUDDY_MAX_ORDER \<Longrightarrow> distinct (F k)"
  using dl.family_distinct [of h "{..<BUDDY_MAX_ORDER}" "\<lambda>l. map page_node (F l)" k]
  by (simp add: lists_ok_def distinct_map)

subsection \<open>The invariant\<close>

definition is_allocated :: "page \<Rightarrow> bool" where
  "is_allocated p \<longleftrightarrow> bit (flags p) 0"

definition free_chunks :: "(nat \<Rightarrow> nat list) \<Rightarrow> chunk set" where
  "free_chunks F = {(i, k). k < BUDDY_MAX_ORDER \<and> i \<in> set (F k)}"

definition pages_ok :: "chunk set \<Rightarrow> chunk set \<Rightarrow> page list \<Rightarrow> bool" where
  "pages_ok A X ps \<longleftrightarrow> (\<forall>(i, k) \<in> A \<union> X. order (ps ! i) = int k) \<and>
     (\<forall>c \<in> A. \<forall>j \<in> blk c. is_allocated (ps ! j)) \<and> (\<forall>c \<in> X. \<forall>j \<in> blk c. \<not> is_allocated (ps ! j))"

text \<open>\<open>A\<close>: the allocated chunks; \<open>H\<close>: the chunks a running operation holds; \<open>F\<close>: the free lists.\<close>

definition binv ::
    "ranges \<Rightarrow> nat \<Rightarrow> nat \<Rightarrow> chunk set \<Rightarrow> chunk set \<Rightarrow> (nat \<Rightarrow> nat list) \<Rightarrow> phys_mem_pool \<Rightarrow> bool" where
  "binv rg S n A H F P \<longleftrightarrow> pool_geo rg S n P \<and> tiling S n (A \<union> (H \<union> free_chunks F)) \<and>
     H \<inter> free_chunks F = {} \<and> pages_ok A (H \<union> free_chunks F) (page_metadata P) \<and>
     lists_ok (free_heap P) F \<and> nr_free P = map (\<lambda>k. of_nat (length (F k))) [0..<BUDDY_MAX_ORDER]"

lemma binvD:
  assumes "binv rg S n A H F P"
  shows "pool_geo rg S n P" "tiling S n (A \<union> (H \<union> free_chunks F))" "H \<inter> free_chunks F = {}"
    "pages_ok A (H \<union> free_chunks F) (page_metadata P)" "lists_ok (free_heap P) F"
    "nr_free P = map (\<lambda>k. of_nat (length (F k))) [0..<BUDDY_MAX_ORDER]"
    "length (page_metadata P) = n"
  using assms by (auto simp: binv_def pool_geo_def)

lemma binv_chunk:
  assumes b: "binv rg S n A H F P" and c: "(i, k) \<in> A \<union> (H \<union> free_chunks F)"
  shows "i < length (page_metadata P)" "order (page_metadata P ! i) = int k" "k < BUDDY_MAX_ORDER"
    "2 ^ k dvd S + i" "i + 2 ^ k \<le> n" "i < n"
proof -
  show "k < BUDDY_MAX_ORDER" "2 ^ k dvd S + i" "i + 2 ^ k \<le> n"
    using tiling_ok [OF binvD(2) [OF b] c] by auto
  moreover have "0 < (2 :: nat) ^ k" by simp
  ultimately show "i < n" by linarith
  then show "i < length (page_metadata P)" using binvD(7) [OF b] by simp
  show "order (page_metadata P ! i) = int k" using binvD(4) [OF b] c unfolding pages_ok_def by fastforce
qed

lemma free_chunks_add:
  "k < BUDDY_MAX_ORDER \<Longrightarrow> free_chunks (F(k := i # F k)) = insert (i, k) (free_chunks F)"
  by (auto simp: free_chunks_def split: if_splits)

lemma free_chunks_remove:
  "k < BUDDY_MAX_ORDER \<Longrightarrow> distinct (F k) \<Longrightarrow> free_chunks (F(k := remove1 i (F k))) = free_chunks F - {(i, k)}"
  by (auto simp: free_chunks_def split: if_splits)

lemma nr_free_update:
  assumes "nr = map (\<lambda>k. of_nat (length (F k))) [0..<BUDDY_MAX_ORDER]" "k < BUDDY_MAX_ORDER"
    "x = of_nat (length xs)"
  shows "nr[k := x :: u64] = map (\<lambda>j. of_nat (length ((F(k := xs)) j))) [0..<BUDDY_MAX_ORDER]"
  using assms by (intro nth_equalityI) (auto simp: nth_list_update)

lemma put_free_ok:
  assumes b: "binv rg S n A (insert (i, k) H) F P" and new: "(i, k) \<notin> H"
  shows "\<exists>P'. put_free (int k) i P = Some P' \<and> binv rg S n A H (F(k := i # F k)) P' \<and>
    page_metadata P' = page_metadata P"
proof -
  have c: "(i, k) \<in> A \<union> (insert (i, k) H \<union> free_chunks F)" by simp
  note d = binvD [OF b] and k = binv_chunk(3) [OF b c]
  have fresh: "i \<notin> set (F k')" if "k' < BUDDY_MAX_ORDER" for k'
  proof
    assume "i \<in> set (F k')"
    then have f: "(i, k') \<in> free_chunks F" using that by (simp add: free_chunks_def)
    then have "k' = k" using tiling_head [OF d(2) c, of k'] by simp
    with f d(3) show False by auto
  qed
  have len: "length (nr_free P) = BUDDY_MAX_ORDER" using d(6) by simp
  let ?P = "P\<lparr>free_heap := list_add (page_node i) (free_head k) (free_heap P),
    nr_free := (nr_free P)[k := nr_free P ! k + 1]\<rparr>"
  have "nr_free P ! k + 1 = of_nat (length (i # F k))" using d(6) k by simp
  then have nr: "(nr_free P)[k := nr_free P ! k + 1] =
      map (\<lambda>j. of_nat (length ((F(k := i # F k)) j))) [0..<BUDDY_MAX_ORDER]"
    by (rule nr_free_update [OF d(6) k])
  have un: "H \<union> free_chunks (F(k := i # F k)) = insert (i, k) H \<union> free_chunks F"
    using free_chunks_add [OF k] by auto
  have "binv rg S n A H (F(k := i # F k)) ?P"
    unfolding binv_def un
    using d nr lists_add [OF d(5) k fresh] new free_chunks_add [OF k, of F i]
    by (auto intro: pool_geo_update)
  moreover have "put_free (int k) i P = Some ?P"
    using k len by (simp add: put_free_def count_free_def)
  ultimately show ?thesis by auto
qed

lemma take_free_ok:
  assumes b: "binv rg S n A H F P" and f: "(i, k) \<in> free_chunks F"
  shows "\<exists>P'. take_free (int k) i P = Some P' \<and> binv rg S n A (insert (i, k) H) (F(k := remove1 i (F k))) P' \<and>
    page_metadata P' = page_metadata P"
proof -
  note d = binvD [OF b]
  have k: "k < BUDDY_MAX_ORDER" "i \<in> set (F k)" using f by (auto simp: free_chunks_def)
  have len: "length (nr_free P) = BUDDY_MAX_ORDER" using d(6) by simp
  let ?P = "P\<lparr>free_heap := list_del (page_node i) (free_heap P),
    nr_free := (nr_free P)[k := nr_free P ! k - 1]\<rparr>"
  have "Suc (length (remove1 i (F k))) = length (F k)"
    using k(2) length_pos_if_in_set [OF k(2)] by (simp add: length_remove1)
  then have "nr_free P ! k = of_nat (Suc (length (remove1 i (F k))))" using d(6) k by simp
  then have "nr_free P ! k - 1 = of_nat (length (remove1 i (F k)))" by simp
  then have nr: "(nr_free P)[k := nr_free P ! k - 1] =
      map (\<lambda>j. of_nat (length ((F(k := remove1 i (F k))) j))) [0..<BUDDY_MAX_ORDER]"
    by (rule nr_free_update [OF d(6) k(1)])
  have rem: "free_chunks (F(k := remove1 i (F k))) = free_chunks F - {(i, k)}"
    using k(1) lists_distinct [OF d(5) k(1)] by (rule free_chunks_remove)
  have un: "insert (i, k) H \<union> free_chunks (F(k := remove1 i (F k))) = H \<union> free_chunks F"
    unfolding rem using f by auto
  have "binv rg S n A (insert (i, k) H) (F(k := remove1 i (F k))) ?P"
    unfolding binv_def un
    using d nr lists_del [OF d(5) k] rem by (auto intro: pool_geo_update)
  moreover have "take_free (int k) i P = Some ?P"
    using k len by (simp add: take_free_def count_free_def)
  ultimately show ?thesis by auto
qed


subsection \<open>Changing the chunks an operation holds\<close>

text \<open>
  The metadata of a pool after writing orders: the flags and owners stay. The chunks \<open>X\<close> are
  replaced by \<open>Y\<close> on the same pages.
\<close>

definition same_flags :: "page list \<Rightarrow> page list \<Rightarrow> bool" where
  "same_flags ps qs \<longleftrightarrow> length qs = length ps \<and>
     (\<forall>j < length ps. page_pool (qs ! j) = page_pool (ps ! j) \<and> is_allocated (qs ! j) = is_allocated (ps ! j))"

lemma binv_regroup:
  assumes b: "binv rg S n A (X \<union> H) F P" and t: "tiling S n (A \<union> ((Y \<union> H) \<union> free_chunks F))"
    and fresh: "Y \<inter> free_chunks F = {}" and same: "same_flags (page_metadata P) qs"
    and cover: "\<And>c j. c \<in> Y \<Longrightarrow> j \<in> blk c \<Longrightarrow> \<exists>d \<in> X. j \<in> blk d"
    and cover': "\<And>c j. c \<in> X \<Longrightarrow> j \<in> blk c \<Longrightarrow> \<exists>d \<in> Y. j \<in> blk d"
    and new: "\<And>i k. (i, k) \<in> Y \<Longrightarrow> order (qs ! i) = int k"
    and old: "\<And>i. i < n \<Longrightarrow> i \<notin> fst ` X \<Longrightarrow> i \<notin> fst ` Y \<Longrightarrow> order (qs ! i) = order (page_metadata P ! i)"
  shows "binv rg S n A (Y \<union> H) F (P\<lparr>page_metadata := qs\<rparr>)"
proof -
  note d = binvD [OF b]
  have geo: "pool_geo rg S n (P\<lparr>page_metadata := qs\<rparr>)"
    using same by (intro pool_geo_update [OF d(1)]) (auto simp: same_flags_def intro: nth_equalityI)
  have alloc: "is_allocated (qs ! j) = is_allocated (page_metadata P ! j)" if "j < n" for j
    using same d(7) that by (simp add: same_flags_def)
  have C: "order (qs ! i) = int k" if c: "(i, k) \<in> A \<union> ((Y \<union> H) \<union> free_chunks F)" for i k
  proof (cases "i \<in> fst ` Y")
    case True
    then obtain k' where y: "(i, k') \<in> Y" by auto
    then have "k' = k" using tiling_head [OF t c, of k'] by auto
    with new [OF y] show ?thesis by simp
  next
    case False
    then have c': "(i, k) \<in> A \<union> ((X \<union> H) \<union> free_chunks F)" using c by (auto intro: rev_image_eqI)
    have "i \<notin> fst ` X"
    proof
      assume "i \<in> fst ` X"
      then obtain k' where "(i, k') \<in> X" by auto
      from cover' [OF this head_in_blk] obtain e where e: "e \<in> Y" "i \<in> blk e" by blast
      then have "e = (i, k)" using tiling_disjoint [OF t _ c e(2)] by simp
      with e False show False by (auto intro: rev_image_eqI)
    qed
    then show ?thesis using old [OF binv_chunk(6) [OF b c'] _ False] binv_chunk(2) [OF b c'] by simp
  qed
  have A: "is_allocated (qs ! j)" if "c \<in> A" "j \<in> blk c" for c j
  proof -
    have "j < n" using tiling_lt [OF d(2), of "fst c" "snd c" j] that by auto
    with alloc d(4) that show ?thesis unfolding pages_ok_def by blast
  qed
  have N: "\<not> is_allocated (qs ! j)" if c: "c \<in> (Y \<union> H) \<union> free_chunks F" "j \<in> blk c" for c j
  proof -
    obtain e where e: "e \<in> (X \<union> H) \<union> free_chunks F" "j \<in> blk e" using c cover [of c j] by blast
    then have "j < n" using tiling_lt [OF d(2), of "fst e" "snd e" j] by auto
    with alloc d(4) e show ?thesis unfolding pages_ok_def by blast
  qed
  have "pages_ok A ((Y \<union> H) \<union> free_chunks F) qs"
    unfolding pages_ok_def using C A N by blast
  with geo t fresh d show ?thesis unfolding binv_def by auto
qed

lemma same_flags_update:
  assumes "same_flags ps qs" "i < length ps" "page_pool q = page_pool (qs ! i)"
    "is_allocated q = is_allocated (qs ! i)"
  shows "same_flags ps (qs[i := q])"
  using assms by (auto simp: same_flags_def nth_list_update)

lemma same_flags_refl [simp]: "same_flags ps ps"
  by (simp add: same_flags_def)

lemma clear_allocated: "page_clear_flag p PG_allocated = Some (p\<lparr>flags := flags p AND NOT 1\<rparr>)"
  by (simp add: page_clear_flag_def PG_allocated_def PG_flagnum_def)

lemma check_allocated: "page_check_flag p PG_allocated = Some (if is_allocated p then 1 else 0)"
proof -
  have "flags p AND 1 = (if bit (flags p) 0 then 1 else 0)"
    by (rule bit_word_eqI) (auto simp: bit_simps intro!: Nat.gr0I)
  then show ?thesis
    by (simp add: page_check_flag_def PG_allocated_def PG_flagnum_def is_allocated_def)
qed

lemma set_allocated: "page_set_flag p PG_allocated = Some (p\<lparr>flags := flags p OR 1\<rparr>)"
  by (simp add: page_set_flag_def PG_allocated_def PG_flagnum_def)

subsection \<open>Splitting\<close>

lemma split_step:
  assumes b: "binv rg S n A (insert (i, Suc k) H) F P" and i: "(i, Suc k) \<notin> H"
  shows "\<exists>P'. split_chunk rg ord i P = (if int (Suc k) = ord then Some (i, P) else split_chunk rg ord i P') \<and>
    binv rg S n A (insert (i, k) H) (F(k := (i + 2 ^ k) # F k)) P' \<and> (i, k) \<notin> H"
proof -
  have c: "(i, Suc k) \<in> A \<union> (insert (i, Suc k) H \<union> free_chunks F)" by simp
  note d = binvD [OF b] and ch = binv_chunk [OF b c]
  let ?j = "i + 2 ^ k"
  let ?ps = "page_metadata P"
  let ?p = "(?ps ! i)\<lparr>order := int k\<rparr>"
  let ?P1 = "P\<lparr>page_metadata := ?ps[i := ?p]\<rparr>"
  have pos: "0 < (2 :: nat) ^ k" by simp
  have j: "?j < n" "?j \<noteq> i" using ch(5) pos unfolding power_Suc by linarith+
  have na: "\<not> is_allocated (?ps ! x)" if "x \<in> blk (i, Suc k)" for x
    using d(4) that unfolding pages_ok_def by blast
  have jb: "?j \<in> blk (i, Suc k)" unfolding blk_halves(1) by simp
  let ?q = "(?ps ! ?j)\<lparr>order := int k, flags := flags (?ps ! ?j) AND NOT 1\<rparr>"
  let ?P2 = "P\<lparr>page_metadata := ?ps[i := ?p, ?j := ?q]\<rparr>"
  have same: "same_flags ?ps (?ps[i := ?p])" "same_flags ?ps (?ps[i := ?p, ?j := ?q])"
    using ch(6) j d(7) na [OF jb]
    by (auto intro!: same_flags_update simp: is_allocated_def bit_simps)
  have g1: "pool_geo rg S n ?P1"
    using same(1) by (intro pool_geo_update [OF d(1)]) (auto simp: same_flags_def intro: nth_equalityI)
  have "get_buddy_chunk rg ?P1 i = Some (buddy_idx S n k i)"
    using g1 ch(3,6) d(7) by (intro get_buddy_chunk_ok) (auto simp: BUDDY_MAX_ORDER_def)
  then have buddy: "get_buddy_chunk rg ?P1 i = Some (Some ?j)"
    using buddy_idx_left [OF ch(4), of n] ch(5) by simp
  note t = tiling_split [OF d(2) c]
  have out: "(i, k) \<notin> A \<union> (insert (i, Suc k) H \<union> free_chunks F)"
    "(?j, k) \<notin> A \<union> (insert (i, Suc k) H \<union> free_chunks F)" by (fact t(2), fact t(3))
  have A: "(i, Suc k) \<notin> A" using d(4) na [of i] unfolding pages_ok_def by fastforce
  have eq: "insert (i, k) (insert (?j, k) (A \<union> (insert (i, Suc k) H \<union> free_chunks F) - {(i, Suc k)})) =
      A \<union> (({(i, k), (?j, k)} \<union> H) \<union> free_chunks F)"
    using i A d(3) by auto
  have "binv rg S n A ({(i, k), (?j, k)} \<union> H) F ?P2"
  proof (rule binv_regroup [where X = "{(i, Suc k)}"])
    show "binv rg S n A ({(i, Suc k)} \<union> H) F P" using b by simp
    show "tiling S n (A \<union> (({(i, k), (?j, k)} \<union> H) \<union> free_chunks F))" using t(1) unfolding eq .
    show "{(i, k), (?j, k)} \<inter> free_chunks F = {}" using out by auto
    show "same_flags ?ps (?ps[i := ?p, ?j := ?q])" by (fact same(2))
    show "\<exists>e \<in> {(i, Suc k)}. x \<in> blk e" if "e \<in> {(i, k), (?j, k)}" "x \<in> blk e" for e x
      using that blk_halves(1) [of i k] by auto
    show "\<exists>e \<in> {(i, k), (?j, k)}. x \<in> blk e" if "e \<in> {(i, Suc k)}" "x \<in> blk e" for e x
      using that blk_halves(1) [of i k] by auto
    show "order (?ps[i := ?p, ?j := ?q] ! x) = int y" if "(x, y) \<in> {(i, k), (?j, k)}" for x y
      using that ch(6) j d(7) by auto
    show "order (?ps[i := ?p, ?j := ?q] ! x) = order (?ps ! x)" if "x < n" "x \<notin> fst ` {(i, k), (?j, k)}" for x
      using that d(7) by (auto simp: nth_list_update)
  qed
  then have b2: "binv rg S n A (insert (?j, k) (insert (i, k) H)) F ?P2" by (simp add: insert_commute)
  have nj: "(?j, k) \<notin> insert (i, k) H" using out j by auto
  obtain P3 where P3: "put_free (int k) ?j ?P2 = Some P3"
    "binv rg S n A (insert (i, k) H) (F(k := ?j # F k)) P3"
    using put_free_ok [OF b2 nj] by blast
  have "split_chunk rg ord i P = (if int (Suc k) = ord then Some (i, P) else split_chunk rg ord i P3)"
    using ch(1,2) buddy j d(7) P3(1)
    by (subst split_chunk.simps) (simp add: set_page_def clear_allocated list_update_swap)
  with P3(2) out show ?thesis by blast
qed

text \<open>No two buddies are free at the same time.\<close>

definition coalesced :: "nat \<Rightarrow> nat \<Rightarrow> (nat \<Rightarrow> nat list) \<Rightarrow> bool" where
  "coalesced S n F \<longleftrightarrow> (\<forall>k i b. Suc k < BUDDY_MAX_ORDER \<longrightarrow> i \<in> set (F k) \<longrightarrow>
     buddy_idx S n k i = Some b \<longrightarrow> b \<notin> set (F k))"

lemma coalesced_mono:
  "coalesced S n F \<Longrightarrow> (\<And>k. set (F' k) \<subseteq> set (F k)) \<Longrightarrow> coalesced S n F'"
  unfolding coalesced_def by blast

lemma buddy_idx_sym:
  assumes "2 ^ k dvd S + i" "i + 2 ^ k \<le> n" "buddy_idx S n k i = Some b"
  shows "buddy_idx S n k b = Some i" "b \<noteq> i"
proof -
  obtain l r where h: "halves S n k l r" "i = l \<and> b = r \<or> i = r \<and> b = l"
    using buddy_idx_halves [OF assms(1,2)] assms(3) by blast
  then have al: "2 ^ k dvd S + l" "l + 2 ^ k + 2 ^ k \<le> n" "r = l + 2 ^ k"
    by (auto simp: halves_def intro: dvd_mult_right)
  then have "2 ^ k dvd S + b" "b + 2 ^ k \<le> n" using h(2) by (auto simp: add.assoc [symmetric])
  from buddy_idx_halves [OF this, of i] h show "buddy_idx S n k b = Some i" by blast
  show "b \<noteq> i" using h(2) al(3) by auto
qed

lemma coalesced_add:
  assumes t: "tiling S n C" and F: "free_chunks F \<subseteq> C" "(i, k) \<in> C" and c: "coalesced S n F"
    and no: "\<And>b. Suc k < BUDDY_MAX_ORDER \<Longrightarrow> buddy_idx S n k i = Some b \<Longrightarrow> b \<notin> set (F k)"
  shows "coalesced S n (F(k := i # F k))"
  unfolding coalesced_def
proof (intro allI impI notI)
  fix k' x b assume a: "Suc k' < BUDDY_MAX_ORDER" "x \<in> set ((F(k := i # F k)) k')"
    "buddy_idx S n k' x = Some b" "b \<in> set ((F(k := i # F k)) k')"
  have "(x, k') \<in> C" using a(1,2) F by (auto simp: free_chunks_def split: if_splits)
  note ok = tiling_ok [OF t this]
  have sym: "buddy_idx S n k' b = Some x" "b \<noteq> x" using buddy_idx_sym [OF _ _ a(3)] ok by auto
  have old: "b \<notin> set (F k')" if "x \<in> set (F k')"
    using c a(1,3) that unfolding coalesced_def by blast
  show False
  proof (cases "k' = k")
    case False
    with a(2,4) old show False by simp
  next
    case True
    consider "x = i" "b \<in> set (F k)" | "b = i" "x \<in> set (F k)" | "x \<in> set (F k)" "b \<in> set (F k)"
      using a(2,4) sym(2) True by auto
    then show False
      using no [of b] no [of x] old a(1,3) sym(1) True by cases simp_all
  qed
qed

lemma split_coalesced:
  assumes b: "binv rg S n A (insert (i, Suc k) H) F P" and c: "coalesced S n F"
  shows "coalesced S n (F(k := (i + 2 ^ k) # F k))"
proof -
  have ch: "(i, Suc k) \<in> A \<union> (insert (i, Suc k) H \<union> free_chunks F)" by simp
  note d = binvD [OF b] and t = tiling_split [OF binvD(2) [OF b] ch]
  note ok = binv_chunk [OF b ch]
  have h: "halves S n k i (i + 2 ^ k)" using ok by (simp add: halves_def)
  have al: "2 ^ k dvd S + i" using ok(4) by (auto intro: dvd_mult_right)
  then have "buddy_idx S n k (i + 2 ^ k) = Some i"
    using buddy_idx_halves [of k S i n "i + 2 ^ k"] h ok(5)
      buddy_idx_sym(1) [of k S i n "i + 2 ^ k"] by auto
  moreover have "i \<notin> set (F k)" using t(2) ok(3) by (auto simp: free_chunks_def)
  ultimately show ?thesis
  proof (intro coalesced_add [OF t(1) _ _ c])
    show "free_chunks F \<subseteq> insert (i, k) (insert (i + 2 ^ k, k)
        (A \<union> (insert (i, Suc k) H \<union> free_chunks F) - {(i, Suc k)}))"
      using d(3) by auto
  qed auto
qed

lemma split_chunk_ok:
  assumes "binv rg S n A (insert (i, c) H) F P" "(i, c) \<notin> H" "k \<le> c" "coalesced S n F"
  shows "\<exists>P' F'. split_chunk rg (int k) i P = Some (i, P') \<and> binv rg S n A (insert (i, k) H) F' P' \<and>
    (i, k) \<notin> H \<and> coalesced S n F'"
  using assms
proof (induction "c - k" arbitrary: c F P)
  case 0
  then have "c = k" by simp
  with 0 binv_chunk(1,2) [OF 0(2), of i c] have "split_chunk rg (int k) i P = Some (i, P)"
    by (subst split_chunk.simps) simp
  with 0 \<open>c = k\<close> show ?case by blast
next
  case (Suc m)
  then obtain c' where c: "c = Suc c'" "k \<le> c'" "m = c' - k" by (cases c) auto
  from split_step [OF Suc.prems(1,2) [unfolded c(1)], of "int k"] obtain P' where
    s: "split_chunk rg (int k) i P = split_chunk rg (int k) i P'"
    "binv rg S n A (insert (i, c') H) (F(c' := (i + 2 ^ c') # F c')) P'" "(i, c') \<notin> H"
    using c(2) by auto
  note co = split_coalesced [OF Suc.prems(1) [unfolded c(1)] Suc.prems(4)]
  from Suc.hyps(1) [OF c(3) s(2,3) c(2) co] s(1) show ?case by simp
qed

subsection \<open>Merging\<close>

lemma merge_step:
  assumes b: "binv rg S n A {(i, k)} F P" and k: "Suc k < BUDDY_MAX_ORDER"
    and buddy: "buddy_idx S n k i = Some j" and j: "j \<in> set (F k)"
  shows "\<exists>P'. merge_chunk rg i P = merge_chunk rg (min i j) P' \<and>
    binv rg S n A {(min i j, Suc k)} (F(k := remove1 j (F k))) P'"
proof -
  have c: "(i, k) \<in> A \<union> ({(i, k)} \<union> free_chunks F)" by simp
  have f: "(j, k) \<in> free_chunks F" using j k by (simp add: free_chunks_def)
  then have cj: "(j, k) \<in> A \<union> ({(i, k)} \<union> free_chunks F)" by simp
  note d = binvD [OF b] and ch = binv_chunk [OF b c] and chj = binv_chunk [OF b cj]
  have ne: "j \<noteq> i" using buddy_idx_sym(2) [OF ch(4,5) buddy] .
  obtain P1 where P1: "take_free (int k) j P = Some P1" "page_metadata P1 = page_metadata P"
    "binv rg S n A {(j, k), (i, k)} (F(k := remove1 j (F k))) P1"
    using take_free_ok [OF b f] by (auto simp: insert_commute)
  let ?F = "F(k := remove1 j (F k))"
  let ?ps = "page_metadata P"
  let ?q = "(?ps ! j)\<lparr>order := int k + 1\<rparr>"
  let ?p = "(?ps ! i)\<lparr>order := int k + 1\<rparr>"
  let ?qs = "?ps[j := ?q, i := ?p]"
  have na: "\<not> is_allocated (?ps ! j)" using d(4) f head_in_blk [of j k] unfolding pages_ok_def by blast
  define l r where lr: "l = min i j" "r = max i j"
  have h: "halves S n k l r"
    using buddy buddy_idx_halves [OF ch(4,5), of j] lr by (auto simp: halves_def min_def max_def)
  have set: "{(i, k), (j, k)} = {(l, k), (r, k)}" unfolding lr by (auto simp: min_def max_def)
  note d1 = binvD [OF P1(3)]
  have "(l, k) \<in> A \<union> ({(j, k), (i, k)} \<union> free_chunks ?F)" "(r, k) \<in> A \<union> ({(j, k), (i, k)} \<union> free_chunks ?F)"
    using set by auto
  note t = tiling_merge [OF d1(2) this h k]
  have A: "(i, k) \<notin> A" "(j, k) \<notin> A"
    using d1(4) head_in_blk [of i k] head_in_blk [of j k] unfolding pages_ok_def by blast+
  have eq: "insert (l, Suc k) (A \<union> ({(j, k), (i, k)} \<union> free_chunks ?F) - {(l, k), (r, k)}) =
      A \<union> (({(l, Suc k)} \<union> {}) \<union> free_chunks ?F)"
    unfolding set [symmetric] using A d1(3) by auto
  have bl: "blk (l, Suc k) = blk (l, k) \<union> blk (r, k)" using h blk_halves(1) [of l k] by (simp add: halves_def)
  have "binv rg S n A ({(l, Suc k)} \<union> {}) ?F (P1\<lparr>page_metadata := ?qs\<rparr>)"
  proof (rule binv_regroup [where X = "{(i, k), (j, k)}"])
    show "binv rg S n A ({(i, k), (j, k)} \<union> {}) ?F P1" using P1(3) by (simp add: insert_commute)
    show "tiling S n (A \<union> (({(l, Suc k)} \<union> {}) \<union> free_chunks ?F))" using t(1) unfolding eq .
    show "{(l, Suc k)} \<inter> free_chunks ?F = {}" using t(2) by auto
    show "same_flags (page_metadata P1) ?qs"
      unfolding P1(2) using ch(1) chj(1) ne by (auto intro!: same_flags_update simp: is_allocated_def)
    show "\<exists>e \<in> {(i, k), (j, k)}. x \<in> blk e" if "e \<in> {(l, Suc k)}" "x \<in> blk e" for e x
      unfolding set using that bl by auto
    show "\<exists>e \<in> {(l, Suc k)}. x \<in> blk e" if "e \<in> {(i, k), (j, k)}" "x \<in> blk e" for e x
      using that bl unfolding set by auto
    show "order (?qs ! x) = int y" if "(x, y) \<in> {(l, Suc k)}" for x y
      using that ch(1) chj(1) ne lr by (auto simp: min_def nth_list_update)
    show "order (?qs ! x) = order (page_metadata P1 ! x)"
      if "x < n" "x \<notin> fst ` {(i, k), (j, k)}" "x \<notin> fst ` {(l, Suc k)}" for x
      using that P1(2) by (auto simp: nth_list_update)
  qed
  moreover have "merge_chunk rg i P = merge_chunk rg (min i j) (P1\<lparr>page_metadata := ?qs\<rparr>)"
  proof -
    have "get_buddy_chunk rg P i = Some (Some j)"
      using get_buddy_chunk_ok [OF d(1) ch(6,2)] k buddy by (simp add: BUDDY_MAX_ORDER_def)
    then show ?thesis
      using ch(1,2) chj(1,2) k P1(1,2) na ne
      by (subst merge_chunk.simps) (simp add: set_page_def check_allocated min_def BUDDY_MAX_ORDER_def)
  qed
  ultimately show ?thesis using lr by auto
qed

lemma merge_stop:
  assumes b: "binv rg S n A {(i, k)} F P"
    and stop: "\<And>j. Suc k < BUDDY_MAX_ORDER \<Longrightarrow> buddy_idx S n k i = Some j \<Longrightarrow> j \<notin> set (F k)"
  shows "merge_chunk rg i P = Some (i, P)"
proof -
  have c: "(i, k) \<in> A \<union> ({(i, k)} \<union> free_chunks F)" by simp
  note d = binvD [OF b] and ch = binv_chunk [OF b c]
  show ?thesis
  proof (cases "Suc k < BUDDY_MAX_ORDER")
    case False
    with ch show ?thesis by (subst merge_chunk.simps) (simp add: BUDDY_MAX_ORDER_def)
  next
    case k: True
    have g: "get_buddy_chunk rg P i = Some (buddy_idx S n k i)"
      using get_buddy_chunk_ok [OF d(1) ch(6,2)] k by (simp add: BUDDY_MAX_ORDER_def)
    show ?thesis
    proof (cases "buddy_idx S n k i")
      case None
      with g ch k show ?thesis by (subst merge_chunk.simps) simp
    next
      case (Some j)
      obtain k' where cj: "(j, k') \<in> A \<union> ({(i, k)} \<union> free_chunks F)"
        using buddy_is_head [OF d(2) c Some] by blast
      note chj = binv_chunk [OF b cj]
      have ne: "j \<noteq> i" using buddy_idx_sym(2) [OF ch(4,5) Some] .
      have "is_allocated (page_metadata P ! j) \<or> k' \<noteq> k"
        using cj ne stop [OF k Some] d(4) head_in_blk [of j k']
        unfolding pages_ok_def by (auto simp: free_chunks_def)
      with g Some ch chj k show ?thesis by (subst merge_chunk.simps) (auto simp: check_allocated)
    qed
  qed
qed

lemma merge_chunk_ok:
  assumes "binv rg S n A {(i, k)} F P" "coalesced S n F"
  shows "\<exists>i' k' F' P'. merge_chunk rg i P = Some (i', P') \<and> binv rg S n A {(i', k')} F' P' \<and>
    coalesced S n F' \<and> (\<forall>j. Suc k' < BUDDY_MAX_ORDER \<longrightarrow> buddy_idx S n k' i' = Some j \<longrightarrow> j \<notin> set (F' k'))"
  using assms
proof (induction "BUDDY_MAX_ORDER - k" arbitrary: i k F P rule: less_induct)
  case less
  show ?case
  proof (cases "\<exists>j. Suc k < BUDDY_MAX_ORDER \<and> buddy_idx S n k i = Some j \<and> j \<in> set (F k)")
    case True
    then obtain j where j: "Suc k < BUDDY_MAX_ORDER" "buddy_idx S n k i = Some j" "j \<in> set (F k)" by blast
    from merge_step [OF less.prems(1) j] obtain P' where
      s: "merge_chunk rg i P = merge_chunk rg (min i j) P'"
      "binv rg S n A {(min i j, Suc k)} (F(k := remove1 j (F k))) P'" by blast
    have co: "coalesced S n (F(k := remove1 j (F k)))"
      by (rule coalesced_mono [OF less.prems(2)]) (auto split: if_splits dest: subsetD [OF set_remove1_subset])
    have "BUDDY_MAX_ORDER - Suc k < BUDDY_MAX_ORDER - k" using j(1) by simp
    from less.hyps [OF this s(2) co] s(1) show ?thesis by simp
  next
    case False
    then have stop: "\<And>j. Suc k < BUDDY_MAX_ORDER \<Longrightarrow> buddy_idx S n k i = Some j \<Longrightarrow> j \<notin> set (F k)" by blast
    with merge_stop [OF less.prems(1) stop] less.prems show ?thesis by blast
  qed
qed

end
