(* ===== verification/Page_Client.thy ===== *)
theory Page_Client
  imports Prelude
begin

text \<open>
  The contract of an allocator, as its clients use it: a request of a size, for a page allocator
  a chunk of \<open>2^k\<close> pages, from some context (a CPU), and the release of what was obtained by its
  first page or address. The two page allocators and the slab allocator satisfy it.
\<close>

text \<open>
  A client holds pairs of a place and a size; \<open>Release c m\<close> gives back the chunk at place \<open>m\<close> of the list of those it
  holds, in context \<open>c\<close>.
\<close>

datatype 'c page_op = Acquire 'c nat | Release 'c nat

primrec op_context :: "'c page_op \<Rightarrow> 'c" where
  "op_context (Acquire c k) = c"
| "op_context (Release c m) = c"

fun run_pages ::
    "('c \<Rightarrow> int \<Rightarrow> 'p \<Rightarrow> (nat option \<times> 'p) option) \<Rightarrow> ('c \<Rightarrow> nat \<Rightarrow> 'p \<Rightarrow> 'p option) \<Rightarrow> 'c page_op list \<Rightarrow>
     (nat \<times> nat) list \<Rightarrow> 'p \<Rightarrow> ((nat \<times> nat) list \<times> 'p) option" where
  "run_pages get free [] held P = Some (held, P)"
| "run_pages get free (Acquire c k # ops) held P =
     do { (r, P1) \<leftarrow> get c (int k) P;
          run_pages get free ops (case r of None \<Rightarrow> held | Some i \<Rightarrow> (i, k) # held) P1 }"
| "run_pages get free (Release c m # ops) held P =
     (if m < length held
      then do { P1 \<leftarrow> free c (fst (held ! m)) P;
                run_pages get free ops (take m held @ drop (Suc m) held) P1 }
      else run_pages get free ops held P)"

locale page_allocator =
  fixes inv :: "(nat \<times> nat) set \<Rightarrow> 'p \<Rightarrow> bool" and valid :: "'c page_op \<Rightarrow> bool"
    and get :: "'c \<Rightarrow> int \<Rightarrow> 'p \<Rightarrow> (nat option \<times> 'p) option" and free :: "'c \<Rightarrow> nat \<Rightarrow> 'p \<Rightarrow> 'p option"
  assumes get_law: "inv A P \<Longrightarrow> valid (Acquire c k) \<Longrightarrow> \<exists>r P'. get c (int k) P = Some (r, P') \<and>
      (case r of None \<Rightarrow> inv A P' | Some i \<Rightarrow> (i, k) \<notin> A \<and> inv (insert (i, k) A) P')"
    and free_law: "inv A P \<Longrightarrow> valid (Release c m) \<Longrightarrow> (i, k) \<in> A \<Longrightarrow> \<exists>P'. free c i P = Some P' \<and> inv (A - {(i, k)}) P'"
begin

lemma run_pages_inv:
  assumes "inv (set held) P" "distinct held" "\<forall>x \<in> set ops. valid x"
  shows "\<exists>held' P'. run_pages get free ops held P = Some (held', P') \<and> inv (set held') P' \<and> distinct held'"
  using assms
proof (induction ops arbitrary: held P)
  case (Cons oper ops)
  have ok: "\<forall>x \<in> set ops. valid x" "valid oper" using Cons.prems(3) by simp_all
  show ?case
  proof (cases oper)
    case (Acquire c k)
    from get_law [OF Cons.prems(1), of c k] ok(2) Acquire obtain r P' where
      g: "get c (int k) P = Some (r, P')"
      "case r of None \<Rightarrow> inv (set held) P' | Some i \<Rightarrow> (i, k) \<notin> set held \<and> inv (insert (i, k) (set held)) P'" by auto
    show ?thesis
    proof (cases r)
      case None
      with g Acquire Cons.IH [OF _ Cons.prems(2) ok(1), of P'] show ?thesis by simp
    next
      case (Some i)
      with g Acquire Cons.IH [of "(i, k) # held" P'] Cons.prems(2) ok(1) show ?thesis by simp
    qed
  next
    case (Release c m)
    show ?thesis
    proof (cases "m < length held")
      case True
      obtain i k where ik: "held ! m = (i, k)" by fastforce
      with True have mem: "(i, k) \<in> set held" by (metis nth_mem)
      from free_law [OF Cons.prems(1) _ mem, of c m] ok(2) Release obtain P' where
        f: "free c i P = Some P'" "inv (set held - {(i, k)}) P'" by auto
      have split: "held = take m held @ (i, k) # drop (Suc m) held"
        using id_take_nth_drop [OF True] ik by simp
      have "distinct (take m held @ (i, k) # drop (Suc m) held)" using Cons.prems(2) split by simp
      moreover have "set held = set (take m held @ (i, k) # drop (Suc m) held)" using split by simp
      ultimately have "set (take m held @ drop (Suc m) held) = set held - {(i, k)}"
        "distinct (take m held @ drop (Suc m) held)" by auto
      with f Cons.IH [of "take m held @ drop (Suc m) held" P'] True Release ik ok(1) show ?thesis by simp
    next
      case False
      with Release Cons.IH [OF Cons.prems(1,2) ok(1)] show ?thesis by simp
    qed
  qed
qed simp

end

end
