(* ===== verification/Buddy_Props.thy ===== *)
theory Buddy_Props
  imports Buddy_Inv Page_Client
begin

text \<open>
  The operations of the buddy allocator keep its invariant; allocation fails only when every
  aligned block of the wanted size holds an allocated page; any sequence of allocations and
  releases hands out disjoint chunks.
\<close>

definition pool_inv :: "ranges \<Rightarrow> nat \<Rightarrow> nat \<Rightarrow> chunk set \<Rightarrow> phys_mem_pool \<Rightarrow> bool" where
  "pool_inv rg S n A P \<longleftrightarrow> (\<exists>F. binv rg S n A {} F P \<and> coalesced S n F)"

subsection \<open>Marking pages\<close>

lemma mark_allocated_ok:
  assumes "i + m \<le> length (page_metadata P)"
  shows "\<exists>qs. mark_allocated i m P = Some (P\<lparr>page_metadata := qs\<rparr>) \<and>
    length qs = length (page_metadata P) \<and>
    (\<forall>j < length (page_metadata P). qs ! j = (if i \<le> j \<and> j < i + m
       then (page_metadata P ! j)\<lparr>flags := flags (page_metadata P ! j) OR 1\<rparr> else page_metadata P ! j))"
  using assms
proof (induction m arbitrary: i P)
  case 0
  then show ?case by (auto intro: exI [of _ "page_metadata P"])
next
  case (Suc m)
  let ?p = "(page_metadata P ! i)\<lparr>flags := flags (page_metadata P ! i) OR 1\<rparr>"
  let ?P = "P\<lparr>page_metadata := (page_metadata P)[i := ?p]\<rparr>"
  from Suc.IH [of "Suc i" ?P] Suc.prems obtain qs where
    qs: "mark_allocated (Suc i) m ?P = Some (?P\<lparr>page_metadata := qs\<rparr>)"
    "length qs = length (page_metadata P)"
    "\<forall>j < length (page_metadata P). qs ! j = (if Suc i \<le> j \<and> j < Suc i + m
       then ((page_metadata P)[i := ?p] ! j)\<lparr>flags := flags ((page_metadata P)[i := ?p] ! j) OR 1\<rparr>
       else (page_metadata P)[i := ?p] ! j)" by auto
  have run: "mark_allocated i (Suc m) P = Some (P\<lparr>page_metadata := qs\<rparr>)"
    using qs(1) Suc.prems by (simp add: set_allocated set_page_def)
  show ?case
    by (rule exI [of _ qs]) (use run qs(2,3) Suc.prems in \<open>auto simp: nth_list_update\<close>)
qed

lemma clear_pages_ok:
  assumes "i + m \<le> length (page_metadata P)" "\<And>j. i \<le> j \<Longrightarrow> j < i + m \<Longrightarrow> is_allocated (page_metadata P ! j)"
  shows "\<exists>qs. clear_pages i m P = Some (P\<lparr>page_metadata := qs\<rparr>) \<and>
    length qs = length (page_metadata P) \<and>
    (\<forall>j < length (page_metadata P). qs ! j = (if i \<le> j \<and> j < i + m
       then (page_metadata P ! j)\<lparr>flags := 0\<rparr> else page_metadata P ! j))"
  using assms
proof (induction m arbitrary: i P)
  case 0
  then show ?case by (auto intro: exI [of _ "page_metadata P"])
next
  case (Suc m)
  let ?p = "(page_metadata P ! i)\<lparr>flags := 0\<rparr>"
  let ?P = "P\<lparr>page_metadata := (page_metadata P)[i := ?p]\<rparr>"
  have "is_allocated (page_metadata ?P ! j)" if "Suc i \<le> j" "j < Suc i + m" for j
    using Suc.prems(2) [of j] that by simp
  from Suc.IH [of "Suc i" ?P, OF _ this] Suc.prems(1) obtain qs where
    qs: "clear_pages (Suc i) m ?P = Some (?P\<lparr>page_metadata := qs\<rparr>)"
    "length qs = length (page_metadata P)"
    "\<forall>j < length (page_metadata P). qs ! j = (if Suc i \<le> j \<and> j < Suc i + m
       then ((page_metadata P)[i := ?p] ! j)\<lparr>flags := 0\<rparr> else (page_metadata P)[i := ?p] ! j)" by auto
  have run: "clear_pages i (Suc m) P = Some (P\<lparr>page_metadata := qs\<rparr>)"
    using qs(1) Suc.prems(1) Suc.prems(2) [of i] by (simp add: check_allocated set_page_def)
  show ?case
    by (rule exI [of _ qs]) (use run qs(2,3) Suc.prems(1) in \<open>auto simp: nth_list_update\<close>)
qed

text \<open>Moving a chunk between the allocated and the held chunks by writing its flags.\<close>

lemma binv_reflag:
  assumes b: "binv rg S n A H F P" and len: "length qs = n"
    and un: "A' \<union> (H' \<union> free_chunks F) = A \<union> (H \<union> free_chunks F)" and H': "H' \<inter> free_chunks F = {}"
    and pool: "\<And>j. j < n \<Longrightarrow> page_pool (qs ! j) = page_pool (page_metadata P ! j)"
    and ord: "\<And>j. j < n \<Longrightarrow> order (qs ! j) = order (page_metadata P ! j)"
    and alloc: "\<And>c j. c \<in> A' \<Longrightarrow> j \<in> blk c \<Longrightarrow> is_allocated (qs ! j)"
    and free: "\<And>c j. c \<in> H' \<union> free_chunks F \<Longrightarrow> j \<in> blk c \<Longrightarrow> \<not> is_allocated (qs ! j)"
  shows "binv rg S n A' H' F (P\<lparr>page_metadata := qs\<rparr>)"
proof -
  note d = binvD [OF b]
  have "pool_geo rg S n (P\<lparr>page_metadata := qs\<rparr>)"
    using pool len d(7) by (intro pool_geo_update [OF d(1)]) (auto intro: nth_equalityI)
  moreover have "order (qs ! i) = int k" if "(i, k) \<in> A' \<union> (H' \<union> free_chunks F)" for i k
    using binv_chunk(2,6) [OF b, of i k] ord that unfolding un by simp
  then have "pages_ok A' (H' \<union> free_chunks F) qs"
    unfolding pages_ok_def using alloc free by blast
  ultimately show ?thesis using d H' un unfolding binv_def by simp
qed

subsection \<open>Allocation\<close>

lemma find_order_ok:
  assumes "lists_ok (free_heap P) F" "\<forall>k \<in> set ks. k < BUDDY_MAX_ORDER"
  shows "case find_order P ks of None \<Rightarrow> \<forall>k \<in> set ks. F k = [] | Some k \<Rightarrow> k \<in> set ks \<and> F k \<noteq> []"
  using assms(2)
proof (induction ks)
  case (Cons k ks)
  then show ?case using lists_empty [OF assms(1), of k] by (auto split: option.splits)
qed simp

lemma get_pages_none:
  assumes "binv rg S n A {} F P" "k < BUDDY_MAX_ORDER" "\<forall>k' \<in> {k..<BUDDY_MAX_ORDER}. F k' = []"
  shows "buddy_get_pages rg (int k) P = Some (None, P)"
proof -
  have "find_order P [k..<BUDDY_MAX_ORDER] = None"
    using find_order_ok [OF binvD(5) [OF assms(1)], of "[k..<BUDDY_MAX_ORDER]"] assms(3)
    by (auto split: option.splits)
  with assms(2) show ?thesis by (simp add: buddy_get_pages_def)
qed

lemma get_pages_some:
  assumes b: "binv rg S n A {} F P" and co: "coalesced S n F" and k: "k < BUDDY_MAX_ORDER"
    and ne: "\<exists>k' \<in> {k..<BUDDY_MAX_ORDER}. F k' \<noteq> []"
  shows "\<exists>i P'. buddy_get_pages rg (int k) P = Some (Some i, P') \<and> pool_inv rg S n (insert (i, k) A) P' \<and>
    (i, k) \<notin> A"
proof -
  note d = binvD [OF b]
  obtain c where c: "find_order P [k..<BUDDY_MAX_ORDER] = Some c" "k \<le> c" "c < BUDDY_MAX_ORDER" "F c \<noteq> []"
    using find_order_ok [OF d(5), of "[k..<BUDDY_MAX_ORDER]"] ne by (auto split: option.splits)
  then obtain i rest where i: "F c = i # rest" by (cases "F c") auto
  then have f: "(i, c) \<in> free_chunks F" using c(3) by (simp add: free_chunks_def)
  obtain P1 where P1: "take_free (int c) i P = Some P1"
    "binv rg S n A (insert (i, c) {}) (F(c := remove1 i (F c))) P1"
    using take_free_ok [OF b f] by blast
  have co1: "coalesced S n (F(c := remove1 i (F c)))"
    by (rule coalesced_mono [OF co]) (auto split: if_splits dest: subsetD [OF set_remove1_subset])
  obtain P2 F2 where P2: "split_chunk rg (int k) i P1 = Some (i, P2)"
    "binv rg S n A {(i, k)} F2 P2" "coalesced S n F2"
    using split_chunk_ok [OF P1(2) _ c(2) co1] by auto
  have ch: "(i, k) \<in> A \<union> ({(i, k)} \<union> free_chunks F2)" by simp
  note d2 = binvD [OF P2(2)] and chk = binv_chunk [OF P2(2) ch]
  obtain qs where qs: "mark_allocated i (2 ^ k) P2 = Some (P2\<lparr>page_metadata := qs\<rparr>)" "length qs = n"
    "\<forall>j < n. qs ! j = (if i \<le> j \<and> j < i + 2 ^ k
       then (page_metadata P2 ! j)\<lparr>flags := flags (page_metadata P2 ! j) OR 1\<rparr> else page_metadata P2 ! j)"
    using mark_allocated_ok [of i "2 ^ k" P2] chk(5) d2(7) by auto
  have A: "(i, k) \<notin> A" using d2(4) head_in_blk [of i k] unfolding pages_ok_def by blast
  have "binv rg S n (insert (i, k) A) {} F2 (P2\<lparr>page_metadata := qs\<rparr>)"
  proof (rule binv_reflag [OF P2(2) qs(2)])
    show "is_allocated (qs ! j)" if e: "e \<in> insert (i, k) A" "j \<in> blk e" for e j
    proof -
      have "j < n" using tiling_lt [OF d2(2), of "fst e" "snd e" j] e by auto
      with e qs(3) d2(4) show ?thesis
        unfolding pages_ok_def by (auto simp: is_allocated_def bit_simps blk_def)
    qed
    show "\<not> is_allocated (qs ! j)" if e: "e \<in> {} \<union> free_chunks F2" "j \<in> blk e" for e j
    proof -
      have "j < n" using tiling_lt [OF d2(2), of "fst e" "snd e" j] e by auto
      moreover have "j \<notin> blk (i, k)" using tiling_disjoint [OF d2(2) _ ch e(2)] e d2(3) by auto
      ultimately have "qs ! j = page_metadata P2 ! j" using qs(3) by (auto simp: blk_def)
      with e d2(4) show ?thesis unfolding pages_ok_def by auto
    qed
  qed (use qs(3) d2(3) in auto)
  moreover have "buddy_get_pages rg (int k) P = Some (Some i, P2\<lparr>page_metadata := qs\<rparr>)"
    using k c(1) lists_next [OF d(5) c(3) i] P1(1) P2(1) qs(1) by (simp add: buddy_get_pages_def)
  ultimately show ?thesis using P2(3) A by (auto simp: pool_inv_def)
qed


text \<open>A block of free pages always lies in a free chunk at least as large: otherwise its smallest
  free chunk would have a free buddy.\<close>

lemma free_block_in_chunk:
  assumes b: "binv rg S n A {} F P" and co: "coalesced S n F" and x: "chunk_ok S n (x, k)"
    and free: "\<And>c. c \<in> A \<Longrightarrow> blk c \<inter> blk (x, k) = {}"
  shows "\<exists>k' \<in> {k..<BUDDY_MAX_ORDER}. F k' \<noteq> []"
proof (rule ccontr)
  assume none: "\<not> (\<exists>k' \<in> {k..<BUDDY_MAX_ORDER}. F k' \<noteq> [])"
  note d = binvD [OF b]
  have xk: "k < BUDDY_MAX_ORDER" "2 ^ k dvd S + x" "x + 2 ^ k \<le> n" using x by (auto simp: chunk_ok_def)
  have small: "(j, c) \<in> free_chunks F \<and> c < k" if "(j, c) \<in> A \<union> ({} \<union> free_chunks F)" "y \<in> blk (j, c)" "y \<in> blk (x, k)" for j c y
  proof -
    have "(j, c) \<notin> A" using free [of "(j, c)"] that(2,3) by blast
    with that(1) have f: "(j, c) \<in> free_chunks F" by simp
    then have "F c \<noteq> []" "c < BUDDY_MAX_ORDER" by (auto simp: free_chunks_def)
    with none have "c < k" by (auto simp: not_less)
    with f show ?thesis by simp
  qed
  define K where "K = {c. \<exists>j. (j, c) \<in> free_chunks F \<and> j \<in> blk (x, k)}"
  have nested: "x \<le> j \<and> j + 2 ^ c \<le> x + 2 ^ k"
    if "2 ^ c dvd S + j" "c \<le> k" "y \<in> blk (j, c)" "y \<in> blk (x, k)" for j c y
    using aligned_nested [OF xk(2) that(1,2), of "S + y"] that(3,4) by (auto simp: blk_def)
  have "x < n" using xk(3) by (metis add_lessD1 less_le_trans less_add_same_cancel1 zero_less_power zero_less_numeral)
  then obtain j c where jc: "(j, c) \<in> A \<union> ({} \<union> free_chunks F)" "x \<in> blk (j, c)"
    using tiling_cover [OF d(2), of x] by auto
  from small [OF jc] binv_chunk(4) [OF b jc(1)] nested [of c j x] jc(2) have "c \<in> K"
    by (fastforce simp: K_def blk_def)
  then have "Least (\<lambda>c. c \<in> K) \<in> K" by (rule LeastI)
  then obtain i m where im: "m = Least (\<lambda>c. c \<in> K)" "(i, m) \<in> free_chunks F" "i \<in> blk (x, k)"
    by (auto simp: K_def)
  then have C: "(i, m) \<in> A \<union> ({} \<union> free_chunks F)" by simp
  note ch = binv_chunk [OF b C]
  have mk: "Suc m \<le> k" using small [OF C head_in_blk im(3)] by simp
  obtain l where l: "2 ^ Suc m dvd S + l" "i \<in> blk (l, Suc m)" "i = l \<or> i = l + 2 ^ m"
  proof (cases "2 ^ Suc m dvd S + i")
    case True
    then show thesis by (rule that) auto
  next
    case False
    have al: "2 ^ Suc m dvd S + i - 2 ^ m" by (rule right_aligned [OF ch(4) False])
    have "2 ^ m \<le> S + i" using xor_power_sub(2) aligned_bit [OF ch(4)] False by blast
    then have "S + i < (S + i - 2 ^ m) + 2 ^ Suc m" "S + i - 2 ^ m \<le> S + i" by auto
    from aligned_nested(1) [OF xk(2) al mk, of "S + i"] this im(3)
    have "S + x \<le> S + i - 2 ^ m" by (auto simp: blk_def)
    then have "i = (i - 2 ^ m) + 2 ^ m" "S + (i - 2 ^ m) = S + i - 2 ^ m"
      using \<open>2 ^ m \<le> S + i\<close> by linarith+
    with al show thesis by (intro that [of "i - 2 ^ m"]) (auto simp: blk_def)
  qed
  have ln: "x \<le> l \<and> l + 2 ^ Suc m \<le> x + 2 ^ k" using nested [OF l(1) mk l(2) im(3)] .
  then have h: "halves S n m l (l + 2 ^ m)" using l(1) xk(3) by (auto simp: halves_def)
  define bd where "bd = (if i = l then l + 2 ^ m else l)"
  have bud: "buddy_idx S n m i = Some bd"
    using buddy_idx_halves [OF ch(4,5), of bd] h l(3) by (auto simp: bd_def)
  have pos: "0 < (2 :: nat) ^ m" by simp
  have "bd = l \<or> bd = l + 2 ^ m" by (simp add: bd_def)
  then have "x \<le> bd \<and> bd < x + 2 ^ k" using ln pos unfolding power_Suc by (elim disjE) linarith+
  then have "bd \<in> blk (x, k)" by (simp add: blk_def)
  moreover obtain m' where m': "m' \<le> m" "(bd, m') \<in> A \<union> ({} \<union> free_chunks F)"
    using buddy_is_head [OF d(2) C bud] by blast
  ultimately have "m' \<in> K" "(bd, m') \<in> free_chunks F"
    using small [OF m'(2) head_in_blk] by (auto simp: K_def)
  then have "m' = m" using Least_le [of "\<lambda>c. c \<in> K" m'] m'(1) im(1) by simp
  with \<open>(bd, m') \<in> free_chunks F\<close> im(2) co bud mk xk(1) show False
    by (auto simp: coalesced_def free_chunks_def)
qed

subsection \<open>Release\<close>

lemma free_pages_ok:
  assumes "pool_inv rg S n A P" "(i, k) \<in> A"
  shows "\<exists>P'. buddy_free_pages rg i P = Some P' \<and> pool_inv rg S n (A - {(i, k)}) P'"
proof -
  obtain F where b: "binv rg S n A {} F P" and co: "coalesced S n F"
    using assms(1) by (auto simp: pool_inv_def)
  have C: "(i, k) \<in> A \<union> ({} \<union> free_chunks F)" using assms(2) by simp
  note d = binvD [OF b] and ch = binv_chunk [OF b C]
  have all: "is_allocated (page_metadata P ! j)" if "j \<in> blk (i, k)" for j
    using d(4) assms(2) that unfolding pages_ok_def by blast
  have "is_allocated (page_metadata P ! j)" if "i \<le> j" "j < i + 2 ^ k" for j
    using all [of j] that by (simp add: blk_def)
  from clear_pages_ok [of i "2 ^ k" P, OF _ this] ch(5) d(7) obtain qs where
    qs: "clear_pages i (2 ^ k) P = Some (P\<lparr>page_metadata := qs\<rparr>)" "length qs = n"
    "\<forall>j < n. qs ! j = (if i \<le> j \<and> j < i + 2 ^ k then (page_metadata P ! j)\<lparr>flags := 0\<rparr> else page_metadata P ! j)"
    by auto
  have fr: "(i, k) \<notin> free_chunks F" using d(4) all [of i] unfolding pages_ok_def by fastforce
  have lt: "j < n" if "e \<in> A \<union> ({} \<union> free_chunks F)" "j \<in> blk e" for e j
    using tiling_lt [OF d(2), of "fst e" "snd e" j] that by auto
  have "binv rg S n (A - {(i, k)}) {(i, k)} F (P\<lparr>page_metadata := qs\<rparr>)"
  proof (rule binv_reflag [OF b qs(2)])
    show "is_allocated (qs ! j)" if e: "e \<in> A - {(i, k)}" "j \<in> blk e" for e j
    proof -
      have "j \<notin> blk (i, k)" using tiling_disjoint [OF d(2) _ C e(2)] e by auto
      then have "qs ! j = page_metadata P ! j" using qs(3) lt [of e j] e by (auto simp: blk_def)
      with e d(4) show ?thesis unfolding pages_ok_def by auto
    qed
    show "\<not> is_allocated (qs ! j)" if e: "e \<in> {(i, k)} \<union> free_chunks F" "j \<in> blk e" for e j
    proof -
      have "e \<in> A \<union> ({} \<union> free_chunks F)" using e C by auto
      with qs(3) lt [OF this e(2)] e d(4) show ?thesis
        unfolding pages_ok_def by (auto simp: is_allocated_def blk_def)
    qed
  qed (use qs(3) assms(2) fr in auto)
  from merge_chunk_ok [OF this co] obtain i' k' F' P' where
    m: "merge_chunk rg i (P\<lparr>page_metadata := qs\<rparr>) = Some (i', P')"
    "binv rg S n (A - {(i, k)}) {(i', k')} F' P'" "coalesced S n F'"
    "\<And>j. Suc k' < BUDDY_MAX_ORDER \<Longrightarrow> buddy_idx S n k' i' = Some j \<Longrightarrow> j \<notin> set (F' k')" by blast
  have C': "(i', k') \<in> (A - {(i, k)}) \<union> ({(i', k')} \<union> free_chunks F')" by simp
  note d' = binvD [OF m(2)] and ch' = binv_chunk [OF m(2) C']
  obtain P2 where P2: "put_free (int k') i' P' = Some P2" "binv rg S n (A - {(i, k)}) {} (F'(k' := i' # F' k')) P2"
    using put_free_ok [of rg S n "A - {(i, k)}" i' k' "{}" F' P'] m(2) by auto
  have "coalesced S n (F'(k' := i' # F' k'))"
    using m(4) by (intro coalesced_add [OF d'(2) _ C' m(3)]) auto
  moreover have "buddy_free_pages rg i P = Some P2"
    using ch(1-3) qs(1) m(1) ch'(1,2) P2(1) by (simp add: buddy_free_pages_def BUDDY_MAX_ORDER_def)
  ultimately show ?thesis using P2(2) by (auto simp: pool_inv_def)
qed


lemma free_pages_unallocated:
  assumes "i < length (page_metadata P)" "\<not> is_allocated (page_metadata P ! i)"
  shows "buddy_free_pages rg i P = None"
proof -
  obtain m where "(2 :: nat) ^ nat (order (page_metadata P ! i)) = Suc m"
    by (metis nat_zero_less_power_iff gr0_implies_Suc zero_less_numeral)
  then have "clear_pages i (2 ^ nat (order (page_metadata P ! i))) P = None"
    using assms by (simp add: check_allocated)
  with assms(1) show ?thesis
    by (cases "order (page_metadata P ! i) < 0 \<or> order (page_metadata P ! i) \<ge> 31")
      (auto simp: buddy_free_pages_def bug_on_def)
qed

subsection \<open>Initialisation\<close>

lemma init_lists_ok: "lists_ok (init_lists BUDDY_MAX_ORDER h) (\<lambda>_. [])"
proof -
  have "dl.family (init_lists m h) {..<m} (\<lambda>_. [])" for m
  proof (induction m)
    case 0
    show ?case by (simp add: dl.family_def)
  next
    case (Suc m)
    from dl.family_init [OF Suc, of m] have "dl.family (init_list_head m (init_lists m h)) {..<Suc m} ((\<lambda>_. [])(m := []))"
      by (simp add: lessThan_Suc)
    then show ?case unfolding init_lists.simps free_head_def by (rule dl.family_same) simp
  qed
  then show ?thesis by (simp add: lists_ok_def)
qed

lemma free_each_ok:
  "pool_inv rg S n ((\<lambda>i. (i, 0)) ` set xs) P \<Longrightarrow> distinct xs \<Longrightarrow>
     \<exists>P'. free_each rg xs P = Some P' \<and> pool_inv rg S n {} P'"
proof (induction xs arbitrary: P)
  case (Cons x xs)
  from free_pages_ok [OF Cons.prems(1), of x 0] obtain P1 where
    P1: "buddy_free_pages rg x P = Some P1" "pool_inv rg S n ((\<lambda>i. (i, 0)) ` set (x # xs) - {(x, 0)}) P1" by auto
  moreover have "(\<lambda>i. (i, 0 :: nat)) ` set (x # xs) - {(x, 0)} = (\<lambda>i. (i, 0)) ` set xs" using Cons.prems(2) by auto
  ultimately show ?case using Cons.IH [of P1] Cons.prems(2) by auto
qed simp

lemma init_buddy_ok:
  assumes S: "unat start_addr = 4096 * S" "S + n + 2 ^ 20 \<le> 2 ^ 52"
    and rg: "\<And>a. start_addr \<le> a \<Longrightarrow> a < start_addr + of_nat n * BUDDY_PAGE_SIZE \<Longrightarrow> find_pool rg a 0 = Some self"
  shows "\<exists>P. init_buddy rg self h start_addr n type = Some P \<and> pool_inv rg S n {} P"
proof -
  let ?pg = "\<lparr>flags = push_bit PG_allocated 1, order = 0, page_pool = Some self\<rparr>"
  let ?P = "\<lparr>pool_id = self, pool_start_addr = start_addr, pool_mem_size = of_nat n * BUDDY_PAGE_SIZE,
    page_metadata = replicate n ?pg, nr_free = replicate BUDDY_MAX_ORDER 0,
    free_heap = init_lists BUDDY_MAX_ORDER h, pool_phys_page_num = of_nat n, pool_type = type\<rparr>"
  let ?A = "(\<lambda>i. (i, 0 :: nat)) ` set [0..<n]"
  have geo: "pool_geo rg S n ?P" using S rg by (auto simp: pool_geo_def unat_frame)
  have none: "free_chunks (\<lambda>_. []) = {}" by (simp add: free_chunks_def)
  have t: "tiling S n (?A \<union> ({} \<union> free_chunks (\<lambda>_. [])))"
    by (auto simp: tiling_def none chunk_ok_def blk_def BUDDY_MAX_ORDER_def)
  have "pages_ok ?A ({} \<union> free_chunks (\<lambda>_. [])) (replicate n ?pg)"
    by (auto simp: pages_ok_def none blk_def is_allocated_def PG_allocated_def)
  with geo t init_lists_ok [of h] have "binv rg S n ?A {} (\<lambda>_. []) ?P"
    by (simp add: binv_def none map_replicate_const)
  moreover have "coalesced S n (\<lambda>_. [])" by (simp add: coalesced_def)
  ultimately have "pool_inv rg S n ?A ?P" by (auto simp: pool_inv_def)
  from free_each_ok [OF this] show ?thesis by (simp add: init_buddy_def)
qed

subsection \<open>Accounting\<close>

definition free_pages :: "phys_mem_pool \<Rightarrow> nat set" where
  "free_pages P = {j. j < length (page_metadata P) \<and> \<not> is_allocated (page_metadata P ! j)}"

lemma free_pages_sum:
  assumes b: "binv rg S n A {} F P"
  shows "card (free_pages P) = (\<Sum>k < BUDDY_MAX_ORDER. length (F k) * 2 ^ k)"
proof -
  note d = binvD [OF b]
  have "free_pages P = (\<Union>c \<in> free_chunks F. blk c)"
  proof (intro equalityI subsetI)
    fix j assume j: "j \<in> free_pages P"
    then obtain c where c: "c \<in> A \<union> ({} \<union> free_chunks F)" "j \<in> blk c"
      using tiling_cover [OF d(2), of j] d(7) by (auto simp: free_pages_def)
    have "c \<notin> A" using d(4) c(2) j unfolding pages_ok_def free_pages_def by blast
    with c show "j \<in> (\<Union>c \<in> free_chunks F. blk c)" by auto
  next
    fix j assume "j \<in> (\<Union>c \<in> free_chunks F. blk c)"
    then obtain i k where c: "(i, k) \<in> free_chunks F" "j \<in> blk (i, k)" by auto
    then have "j < n" using tiling_lt [OF d(2), of i k j] by simp
    with c d(4,7) show "j \<in> free_pages P" unfolding pages_ok_def free_pages_def by blast
  qed
  moreover have fin: "finite (free_chunks F)"
  proof -
    have "free_chunks F = (\<Union>k < BUDDY_MAX_ORDER. (\<lambda>i. (i, k)) ` set (F k))" by (auto simp: free_chunks_def)
    then show ?thesis by simp
  qed
  moreover have "\<forall>c \<in> free_chunks F. \<forall>e \<in> free_chunks F. c \<noteq> e \<longrightarrow> blk c \<inter> blk e = {}"
    using d(2) unfolding tiling_def by blast
  ultimately have "card (free_pages P) = (\<Sum>c \<in> free_chunks F. card (blk c))"
    by (simp add: card_UN_disjoint blk_def)
  also have "\<dots> = (\<Sum>c \<in> free_chunks F. 2 ^ snd c)" by (simp add: blk_def)
  also have "free_chunks F = (\<lambda>(k, i). (i, k)) ` (SIGMA k : {..<BUDDY_MAX_ORDER}. set (F k))"
    by (auto simp: free_chunks_def)
  also have "(\<Sum>c \<in> \<dots>. (2 :: nat) ^ snd c) = (\<Sum>(k, i) \<in> (SIGMA k : {..<BUDDY_MAX_ORDER}. set (F k)). 2 ^ k)"
    by (subst sum.reindex) (auto simp: inj_on_def split_def)
  also have "\<dots> = (\<Sum>k < BUDDY_MAX_ORDER. \<Sum>i \<in> set (F k). 2 ^ k)"
    by (subst sum.Sigma) auto
  also have "\<dots> = (\<Sum>k < BUDDY_MAX_ORDER. length (F k) * 2 ^ k)"
    using lists_distinct [OF d(5)] by (simp add: distinct_card)
  finally show ?thesis .
qed

lemma chunk_bytes_small: "k < 19 \<Longrightarrow> chunk_bytes k = of_nat (4096 * 2 ^ k)"
proof -
  assume "k < 19"
  then have "(2 :: int) ^ (12 + k) < 2 ^ 31" by (intro power_strict_increasing) auto
  then have "signed_take_bit 31 (0x1000 * 2 ^ k :: int) = 0x1000 * 2 ^ k"
    by (intro signed_take_bit_int_eq_self) (auto simp: power_add intro: order_trans [of _ 0])
  then show ?thesis by (simp add: chunk_bytes_def)
qed

lemma chunk_bytes_19: "chunk_bytes 19 = of_nat (4096 * 2 ^ 19) - 2 ^ 32"
  by (simp add: chunk_bytes_def)


subsection \<open>The contract of a page allocator\<close>

lemma get_pages_law:
  assumes "pool_inv rg S n A P"
  shows "\<exists>r P'. buddy_get_pages rg (int k) P = Some (r, P') \<and>
    (case r of None \<Rightarrow> pool_inv rg S n A P' | Some i \<Rightarrow> (i, k) \<notin> A \<and> pool_inv rg S n (insert (i, k) A) P')"
proof -
  obtain F where b: "binv rg S n A {} F P" "coalesced S n F" using assms by (auto simp: pool_inv_def)
  show ?thesis
  proof (cases "k < BUDDY_MAX_ORDER \<and> (\<exists>k' \<in> {k..<BUDDY_MAX_ORDER}. F k' \<noteq> [])")
    case True
    with get_pages_some [OF b, of k] show ?thesis by fastforce
  next
    case False
    then show ?thesis
      using get_pages_none [OF b(1), of k] assms
      by (cases "k < BUDDY_MAX_ORDER") (auto simp: buddy_get_pages_def)
  qed
qed

interpretation bp: page_allocator "pool_inv rg S n" "\<lambda>_ :: unit page_op. True" "\<lambda>_. buddy_get_pages rg" "\<lambda>_. buddy_free_pages rg"
  for rg S n
  by unfold_locales (rule get_pages_law, assumption, rule free_pages_ok)

lemma pool_inv_disjoint:
  assumes "pool_inv rg S n A P" "c \<in> A"
  shows "chunk_ok S n c" "d \<in> A \<Longrightarrow> c \<noteq> d \<Longrightarrow> blk c \<inter> blk d = {}"
  using assms by (auto simp: pool_inv_def binv_def tiling_def)


subsection \<open>Properties of the allocator\<close>

text \<open>A pool of twelve pages that starts at page frame 2, and its initial state.\<close>

definition demo_ranges :: ranges where
  "demo_ranges = [(0x2000, 0xC000)]"

definition demo_pool :: phys_mem_pool where
  "demo_pool = the (init_buddy demo_ranges 0 \<lparr>prev_of = id, next_of = id\<rparr> 0x2000 12 DRAM_PAGE)"

lemma demo_pool_inv: "pool_inv demo_ranges 2 12 {} demo_pool"
proof -
  have "\<exists>P. init_buddy demo_ranges 0 \<lparr>prev_of = id, next_of = id\<rparr> 0x2000 12 DRAM_PAGE = Some P \<and>
      pool_inv demo_ranges 2 12 {} P"
    by (rule init_buddy_ok) (auto simp: demo_ranges_def BUDDY_PAGE_SIZE_def)
  then show ?thesis by (auto simp: demo_pool_def)
qed

text \<open>
  C22: Allocation of a chunk of a supported order returns in every state of the pool. On
  success the chunk is aligned to its size, lies in the pool and shares no page with a chunk
  that is in use. It fails, leaving the pool as it was, only when every aligned block of that
  size in the pool holds a page in use: no free memory is lost to missed merges.
\<close>

theorem buddy_get_pages_correct:
  assumes "pool_inv rg S n A P" "k < BUDDY_MAX_ORDER"
  shows "\<exists>r P'. buddy_get_pages rg (int k) P = Some (r, P') \<and>
    (case r of
       None \<Rightarrow> P' = P \<and> (\<forall>x. chunk_ok S n (x, k) \<longrightarrow> (\<exists>c \<in> A. blk c \<inter> blk (x, k) \<noteq> {}))
     | Some i \<Rightarrow> pool_inv rg S n (insert (i, k) A) P' \<and> chunk_ok S n (i, k) \<and>
         (\<forall>c \<in> A. blk c \<inter> blk (i, k) = {}))"
proof -
  obtain F where b: "binv rg S n A {} F P" "coalesced S n F" using assms(1) by (auto simp: pool_inv_def)
  show ?thesis
  proof (cases "\<exists>k' \<in> {k..<BUDDY_MAX_ORDER}. F k' \<noteq> []")
    case True
    from get_pages_some [OF b assms(2) True] obtain i P' where
      g: "buddy_get_pages rg (int k) P = Some (Some i, P')" "pool_inv rg S n (insert (i, k) A) P'" "(i, k) \<notin> A"
      by blast
    have "blk c \<inter> blk (i, k) = {}" if "c \<in> A" for c
      using pool_inv_disjoint(2) [OF g(2), of c "(i, k)"] that g(3) by auto
    with g pool_inv_disjoint(1) [OF g(2), of "(i, k)"] show ?thesis by auto
  next
    case False
    then have "buddy_get_pages rg (int k) P = Some (None, P)"
      by (intro get_pages_none [OF b(1) assms(2)]) auto
    moreover have "\<exists>c \<in> A. blk c \<inter> blk (x, k) \<noteq> {}" if "chunk_ok S n (x, k)" for x
      using free_block_in_chunk [OF b that] False by blast
    ultimately show ?thesis by auto
  qed
qed

theorem buddy_get_pages_correct_witness:
  "pool_inv demo_ranges 2 12 {} demo_pool \<and>
   (\<exists>i P'. buddy_get_pages demo_ranges 2 demo_pool = Some (Some i, P') \<and>
      pool_inv demo_ranges 2 12 {(i, 2)} P' \<and> chunk_ok 2 12 (i, 2))"
proof -
  have "chunk_ok 2 12 (2, 2)" by (simp add: chunk_ok_def BUDDY_MAX_ORDER_def)
  with buddy_get_pages_correct [OF demo_pool_inv, of 2] demo_pool_inv show ?thesis
    by (fastforce simp: BUDDY_MAX_ORDER_def split: option.splits)
qed

text \<open>
  C23: Releasing a chunk in use returns and takes exactly that chunk out of use; releasing a
  page that is not in use, as in a second release of the same chunk, stops the kernel.
\<close>

theorem buddy_free_pages_correct:
  assumes "pool_inv rg S n A P"
  shows "(\<forall>(i, k) \<in> A. \<exists>P'. buddy_free_pages rg i P = Some P' \<and> pool_inv rg S n (A - {(i, k)}) P') \<and>
    (\<forall>i < n. (\<forall>c \<in> A. i \<notin> blk c) \<longrightarrow> buddy_free_pages rg i P = None)"
proof (intro conjI ballI allI impI)
  fix c assume "c \<in> A"
  then show "case c of (i, k) \<Rightarrow> \<exists>P'. buddy_free_pages rg i P = Some P' \<and> pool_inv rg S n (A - {(i, k)}) P'"
    using free_pages_ok [OF assms] by (cases c) auto
next
  fix i assume i: "i < n" "\<forall>c \<in> A. i \<notin> blk c"
  obtain F where b: "binv rg S n A {} F P" using assms by (auto simp: pool_inv_def)
  note d = binvD [OF b]
  obtain c where "c \<in> free_chunks F" "i \<in> blk c" using tiling_cover [OF d(2) i(1)] i(2) by auto
  then have "\<not> is_allocated (page_metadata P ! i)" using d(4) unfolding pages_ok_def by blast
  with i(1) d(7) show "buddy_free_pages rg i P = None" by (intro free_pages_unallocated) auto
qed

theorem buddy_free_pages_correct_witness:
  "buddy_free_pages demo_ranges 3 demo_pool = None"
  using buddy_free_pages_correct [OF demo_pool_inv] by simp

text \<open>
  C24: Any sequence of allocations and releases of held chunks, of any orders, runs to its end,
  and the chunks held at its end are aligned, inside the pool and pairwise disjoint.
\<close>

theorem buddy_sequence_safe:
  assumes "pool_inv rg S n (set held) P" "distinct held"
  shows "\<exists>held' P'. run_pages (\<lambda>_ :: unit. buddy_get_pages rg) (\<lambda>_. buddy_free_pages rg) ops held P = Some (held', P') \<and>
    pool_inv rg S n (set held') P' \<and> distinct held' \<and> (\<forall>c \<in> set held'. chunk_ok S n c) \<and>
    (\<forall>c \<in> set held'. \<forall>d \<in> set held'. c \<noteq> d \<longrightarrow> blk c \<inter> blk d = {})"
proof -
  from bp.run_pages_inv [OF assms, of ops, simplified] obtain held' P' where
    r: "run_pages (\<lambda>_ :: unit. buddy_get_pages rg) (\<lambda>_. buddy_free_pages rg) ops held P = Some (held', P')"
    "pool_inv rg S n (set held') P'" "distinct held'" by blast
  with pool_inv_disjoint [OF r(2)] show ?thesis by blast
qed

theorem buddy_sequence_safe_witness:
  "\<exists>held' P'. run_pages (\<lambda>_ :: unit. buddy_get_pages demo_ranges) (\<lambda>_. buddy_free_pages demo_ranges)
     [Acquire () 1, Acquire () 0, Release () 1, Acquire () 2, Release () 0] [] demo_pool = Some (held', P') \<and>
   pool_inv demo_ranges 2 12 (set held') P'"
  using buddy_sequence_safe [of demo_ranges 2 12 "[]" demo_pool
      "[Acquire () 1, Acquire () 0, Release () 1, Acquire () 2, Release () 0]"] demo_pool_inv
  by (auto simp del: run_pages.simps)





end
