(* ===== verification/Locks.thy ===== *)
theory Locks
  imports Prelude
begin

text \<open>
  The ticket lock and the reader-writer lock of \<^verbatim>\<open>kernel/arch/x86_64/sync/ticket.c\<close> and
  \<^verbatim>\<open>rwlock.c\<close>. Every atomic access is one definition on the 32-bit words of the lock; the step
  relations interleave the accesses of \<open>T\<close> threads arbitrarily. Handling of inter-processor
  interrupts inside the waiting loops does not touch the lock and is left out.
\<close>

subsection \<open>Ticket lock: the accesses\<close>

record lock_impl =
  owner :: u32
  nextt :: u32

definition lock_init :: "lock_impl \<Rightarrow> lock_impl" where
  "lock_init l = l\<lparr>owner := 0, nextt := 0\<rparr>"

text \<open>\<open>lock\<close> takes a ticket with a fetch-and-add and then waits until it is served.\<close>

definition lock_ticket :: "lock_impl \<Rightarrow> u32 \<times> lock_impl" where
  "lock_ticket l = (nextt l, l\<lparr>nextt := nextt l + 1\<rparr>)"

definition lock_served :: "u32 \<Rightarrow> lock_impl \<Rightarrow> bool" where
  "lock_served lockval l \<longleftrightarrow> lockval = owner l"

text \<open>\<open>try_lock\<close> reads \<open>next\<close>, compares it with \<open>owner\<close>, and then swaps it.\<close>

definition try_lock_read :: "lock_impl \<Rightarrow> u32" where
  "try_lock_read l = nextt l"

definition try_lock_check :: "u32 \<Rightarrow> lock_impl \<Rightarrow> bool" where
  "try_lock_check newval l \<longleftrightarrow> owner l = newval"

definition try_lock_swap :: "u32 \<Rightarrow> lock_impl \<Rightarrow> int \<times> lock_impl" where
  "try_lock_swap newval l =
     (if nextt l = newval then (0, l\<lparr>nextt := newval + 1\<rparr>) else (-1, l))"

definition unlock_ticket :: "lock_impl \<Rightarrow> lock_impl" where
  "unlock_ticket l = l\<lparr>owner := owner l + 1\<rparr>"

definition is_locked :: "lock_impl \<Rightarrow> bool" where
  "is_locked l \<longleftrightarrow> owner l < nextt l"

subsection \<open>Ticket lock: the interleavings\<close>

text \<open>
  Where a thread stands. The second number of a ticket counts tickets without wrap-around; it
  is not part of the program and no access reads it.
\<close>

datatype tpc = TIdle | TWait u32 nat | TRead u32 nat | TChecked u32 nat | THeld nat

record tstate =
  tlock :: lock_impl
  tpc_of :: "nat \<Rightarrow> tpc"
  served :: nat
  taken :: nat

definition set_tpc :: "nat \<Rightarrow> tpc \<Rightarrow> tstate \<Rightarrow> tstate" where
  "set_tpc t p s = s\<lparr>tpc_of := (tpc_of s)(t := p)\<rparr>"

text \<open>
  Two threads never take \<open>2^32\<close> tickets while a third is inside \<open>try_lock\<close>: the guard
  \<open>slow_ok\<close>.
\<close>

definition slow_ok :: "nat \<Rightarrow> tstate \<Rightarrow> bool" where
  "slow_ok T s \<longleftrightarrow> (\<forall>t < T. \<forall>v m. tpc_of s t \<in> {TRead v m, TChecked v m} \<longrightarrow> Suc (taken s) < m + 2 ^ 32)"

inductive tstep :: "nat \<Rightarrow> tstate \<Rightarrow> tstate \<Rightarrow> bool" for T where
  take_ticket: "t < T \<Longrightarrow> tpc_of s t = TIdle \<Longrightarrow> slow_ok T s \<Longrightarrow> lock_ticket (tlock s) = (v, l) \<Longrightarrow>
     tstep T s (set_tpc t (TWait v (taken s)) (s\<lparr>tlock := l, taken := Suc (taken s)\<rparr>))"
| enter: "t < T \<Longrightarrow> tpc_of s t = TWait v m \<Longrightarrow> lock_served v (tlock s) \<Longrightarrow>
     tstep T s (set_tpc t (THeld m) s)"
| try_read: "t < T \<Longrightarrow> tpc_of s t = TIdle \<Longrightarrow>
     tstep T s (set_tpc t (TRead (try_lock_read (tlock s)) (taken s)) s)"
| try_check: "t < T \<Longrightarrow> tpc_of s t = TRead v m \<Longrightarrow>
     tstep T s (set_tpc t (if try_lock_check v (tlock s) then TChecked v m else TIdle) s)"
| try_swap: "t < T \<Longrightarrow> tpc_of s t = TChecked v m \<Longrightarrow> slow_ok T s \<Longrightarrow> try_lock_swap v (tlock s) = (r, l) \<Longrightarrow>
     tstep T s (if r = 0 then set_tpc t (THeld m) (s\<lparr>tlock := l, taken := Suc (taken s)\<rparr>)
                else set_tpc t TIdle s)"
| release: "t < T \<Longrightarrow> tpc_of s t = THeld m \<Longrightarrow>
     tstep T s (set_tpc t TIdle (s\<lparr>tlock := unlock_ticket (tlock s), served := Suc (served s)\<rparr>))"

definition tinit :: tstate where
  "tinit = \<lparr>tlock = \<lparr>owner = 0, nextt = 0\<rparr>, tpc_of = (\<lambda>_. TIdle), served = 0, taken = 0\<rparr>"

inductive treach :: "nat \<Rightarrow> tstate \<Rightarrow> bool" for T where
  init: "treach T tinit"
| step: "treach T s \<Longrightarrow> tstep T s s' \<Longrightarrow> treach T s'"


text \<open>The ticket a thread has drawn and not yet given back.\<close>

fun ticket_of :: "tpc \<Rightarrow> nat option" where
  "ticket_of (TWait v m) = Some m"
| "ticket_of (THeld m) = Some m"
| "ticket_of _ = None"

text \<open>
  The words of the lock are the counters modulo \<open>2^32\<close>; the tickets drawn and not given back
  are exactly those between the counters, one per thread; the holder has the ticket being
  served; a thread inside \<open>try_lock\<close> read a ticket not yet out of range.
\<close>

definition tinv :: "nat \<Rightarrow> tstate \<Rightarrow> bool" where
  "tinv T s \<longleftrightarrow> owner (tlock s) = of_nat (served s) \<and> nextt (tlock s) = of_nat (taken s) \<and>
     served s \<le> taken s \<and>
     (\<forall>m. served s \<le> m \<and> m < taken s \<longleftrightarrow> (\<exists>t < T. ticket_of (tpc_of s t) = Some m)) \<and>
     (\<forall>t < T. \<forall>t' < T. \<forall>m. ticket_of (tpc_of s t) = Some m \<longrightarrow> ticket_of (tpc_of s t') = Some m \<longrightarrow> t = t') \<and>
     (\<forall>t < T. \<forall>m. tpc_of s t = THeld m \<longrightarrow> m = served s) \<and>
     (\<forall>t < T. \<forall>v m. tpc_of s t = TWait v m \<longrightarrow> v = of_nat m) \<and>
     (\<forall>t < T. \<forall>v m. tpc_of s t \<in> {TRead v m, TChecked v m} \<longrightarrow> v = of_nat m \<and> m \<le> taken s \<and> taken s < m + 2 ^ 32) \<and>
     (\<forall>t < T. \<forall>v m. tpc_of s t = TChecked v m \<longrightarrow> m \<le> served s)"


subsection \<open>Ticket lock: the invariant\<close>

lemma of_nat_window:
  assumes "(of_nat a :: u32) = of_nat b" "a \<le> b" "b < a + 2 ^ 32"
  shows "a = b"
proof -
  have "a mod 2 ^ 32 = b mod 2 ^ 32"
    using assms(1) by (simp add: word_of_nat_eq_iff take_bit_eq_mod)
  then have "2 ^ 32 dvd b - a" using assms(2) by (metis mod_eq_dvd_iff_nat)
  then have "b - a = 0" using assms(2,3) by (auto dest: dvd_imp_le)
  with assms(2) show ?thesis by simp
qed

lemma tinvD:
  assumes "tinv T s"
  shows "owner (tlock s) = of_nat (served s)" "nextt (tlock s) = of_nat (taken s)" "served s \<le> taken s"
    "served s \<le> m \<Longrightarrow> m < taken s \<Longrightarrow> \<exists>t < T. ticket_of (tpc_of s t) = Some m"
    "t < T \<Longrightarrow> ticket_of (tpc_of s t) = Some m \<Longrightarrow> served s \<le> m \<and> m < taken s"
    "t < T \<Longrightarrow> t' < T \<Longrightarrow> ticket_of (tpc_of s t) = Some m \<Longrightarrow> ticket_of (tpc_of s t') = Some m \<Longrightarrow> t = t'"
    "t < T \<Longrightarrow> tpc_of s t = THeld m \<Longrightarrow> m = served s"
    "t < T \<Longrightarrow> tpc_of s t = TWait v m \<Longrightarrow> v = of_nat m"
    "t < T \<Longrightarrow> tpc_of s t = TRead v m \<or> tpc_of s t = TChecked v m \<Longrightarrow>
       v = of_nat m \<and> m \<le> taken s \<and> taken s < m + 2 ^ 32"
    "t < T \<Longrightarrow> tpc_of s t = TChecked v m \<Longrightarrow> m \<le> served s"
  using assms unfolding tinv_def by auto

lemma tinvI:
  assumes "owner (tlock s) = of_nat (served s)" "nextt (tlock s) = of_nat (taken s)" "served s \<le> taken s"
    "\<And>m. served s \<le> m \<Longrightarrow> m < taken s \<Longrightarrow> \<exists>t < T. ticket_of (tpc_of s t) = Some m"
    "\<And>t m. t < T \<Longrightarrow> ticket_of (tpc_of s t) = Some m \<Longrightarrow> served s \<le> m \<and> m < taken s"
    "\<And>t t' m. t < T \<Longrightarrow> t' < T \<Longrightarrow> ticket_of (tpc_of s t) = Some m \<Longrightarrow> ticket_of (tpc_of s t') = Some m \<Longrightarrow> t = t'"
    "\<And>t m. t < T \<Longrightarrow> tpc_of s t = THeld m \<Longrightarrow> m = served s"
    "\<And>t v m. t < T \<Longrightarrow> tpc_of s t = TWait v m \<Longrightarrow> v = of_nat m"
    "\<And>t v m. t < T \<Longrightarrow> tpc_of s t = TRead v m \<or> tpc_of s t = TChecked v m \<Longrightarrow>
       v = of_nat m \<and> m \<le> taken s \<and> taken s < m + 2 ^ 32"
    "\<And>t v m. t < T \<Longrightarrow> tpc_of s t = TChecked v m \<Longrightarrow> m \<le> served s"
  shows "tinv T s"
  unfolding tinv_def using assms(1-3) assms(4-10) by (auto 4 3)

lemma tickets_bounded:
  assumes "tinv T s"
  shows "taken s - served s \<le> T"
proof -
  define f where "f m = (SOME t. t < T \<and> ticket_of (tpc_of s t) = Some m)" for m
  have f: "f m < T \<and> ticket_of (tpc_of s (f m)) = Some m" if "m \<in> {served s..<taken s}" for m
    using someI_ex [of "\<lambda>t. t < T \<and> ticket_of (tpc_of s t) = Some m"] tinvD(4) [OF assms, of m] that
    by (auto simp: f_def)
  then have "inj_on f {served s..<taken s}" by (intro inj_onI) (metis option.inject)
  moreover have "f ` {served s..<taken s} \<subseteq> {..<T}" using f by auto
  ultimately have "card {served s..<taken s} \<le> card {..<T}" by (intro card_inj_on_le) auto
  then show ?thesis by simp
qed

text \<open>Changing the place of one thread that holds no ticket before and after.\<close>

lemma tinv_no_ticket:
  assumes i: "tinv T s" and t: "t < T" "ticket_of (tpc_of s t) = None" "ticket_of p = None"
    and r: "\<And>v m. p = TRead v m \<or> p = TChecked v m \<Longrightarrow> v = of_nat m \<and> m \<le> taken s \<and> taken s < m + 2 ^ 32"
    and c: "\<And>v m. p = TChecked v m \<Longrightarrow> m \<le> served s"
  shows "tinv T (set_tpc t p s)"
proof -
  note d = tinvD [OF i]
  have tk: "ticket_of (tpc_of (set_tpc t p s) u) = ticket_of (tpc_of s u)" for u
    using t by (simp add: set_tpc_def)
  have other: "tpc_of (set_tpc t p s) u = (if u = t then p else tpc_of s u)" for u
    by (simp add: set_tpc_def)
  have sel: "tlock (set_tpc t p s) = tlock s" "served (set_tpc t p s) = served s" "taken (set_tpc t p s) = taken s"
    by (simp_all add: set_tpc_def)
  show ?thesis
  proof (rule tinvI, unfold sel tk)
    fix u m assume "u < T" "tpc_of (set_tpc t p s) u = THeld m"
    then show "m = served s" using d(7) t(3) unfolding other by (auto split: if_splits)
  next
    fix u v m assume "u < T" "tpc_of (set_tpc t p s) u = TWait v m"
    then show "v = of_nat m" using d(8) t(3) unfolding other by (auto split: if_splits)
  next
    fix u v m assume "u < T" "tpc_of (set_tpc t p s) u = TRead v m \<or> tpc_of (set_tpc t p s) u = TChecked v m"
    then show "v = of_nat m \<and> m \<le> taken s \<and> taken s < m + 2 ^ 32"
      using d(9) r unfolding other by (auto split: if_splits)
  next
    fix u v m assume "u < T" "tpc_of (set_tpc t p s) u = TChecked v m"
    then show "m \<le> served s" using d(10) c unfolding other by (auto split: if_splits)
  qed (use d(1-6) in blast)+
qed

text \<open>Drawing the next ticket, and giving the served ticket back.\<close>

lemma tinv_draw:
  assumes i: "tinv T s" and t: "t < T" "ticket_of (tpc_of s t) = None" and slow: "slow_ok T s"
    and p: "p = TWait (of_nat (taken s)) (taken s) \<or> p = THeld (taken s) \<and> taken s = served s"
  shows "tinv T (set_tpc t p (s\<lparr>tlock := (tlock s)\<lparr>nextt := nextt (tlock s) + 1\<rparr>, taken := Suc (taken s)\<rparr>))"
    (is "tinv T ?s")
proof -
  note d = tinvD [OF i]
  have other: "tpc_of ?s u = (if u = t then p else tpc_of s u)" for u by (simp add: set_tpc_def)
  have sel: "tlock ?s = (tlock s)\<lparr>nextt := nextt (tlock s) + 1\<rparr>" "served ?s = served s" "taken ?s = Suc (taken s)"
    by (simp_all add: set_tpc_def)
  have tp: "ticket_of p = Some (taken s)" using p by auto
  have tk: "ticket_of (tpc_of ?s u) = (if u = t then Some (taken s) else ticket_of (tpc_of s u))" for u
    using tp by (simp add: other)
  have old: "m < taken s" if "u < T" "ticket_of (tpc_of s u) = Some m" for u m using d(5) that by blast
  show ?thesis
  proof (rule tinvI)
    show "owner (tlock ?s) = of_nat (served ?s)" "nextt (tlock ?s) = of_nat (taken ?s)" "served ?s \<le> taken ?s"
      unfolding sel using d(1-3) by simp_all
  next
    fix m assume m: "served ?s \<le> m" "m < taken ?s"
    show "\<exists>u < T. ticket_of (tpc_of ?s u) = Some m"
    proof (cases "m = taken s")
      case True
      then show ?thesis using t(1) by (auto simp: tk)
    next
      case False
      with m have "served s \<le> m" "m < taken s" unfolding sel by auto
      then obtain u where "u < T" "ticket_of (tpc_of s u) = Some m" using d(4) by blast
      with t(2) show ?thesis by (intro exI [of _ u]) (auto simp: tk)
    qed
  next
    fix u m assume "u < T" "ticket_of (tpc_of ?s u) = Some m"
    then show "served ?s \<le> m \<and> m < taken ?s"
      unfolding sel tk using d(3) d(5) [of u m] by (auto split: if_splits)
  next
    fix u u' m assume "u < T" "u' < T" "ticket_of (tpc_of ?s u) = Some m" "ticket_of (tpc_of ?s u') = Some m"
    then show "u = u'"
      unfolding tk using d(6) [of u u' m] old [of u m] old [of u' m] by (auto split: if_splits)
  next
    fix u m assume "u < T" "tpc_of ?s u = THeld m"
    then show "m = served ?s" unfolding sel other using p d(7) [of u m] by (auto split: if_splits)
  next
    fix u v m assume "u < T" "tpc_of ?s u = TWait v m"
    then show "v = of_nat m" unfolding other using p d(8) [of u v m] by (auto split: if_splits)
  next
    fix u v m assume u: "u < T" "tpc_of ?s u = TRead v m \<or> tpc_of ?s u = TChecked v m"
    then have "tpc_of s u \<in> {TRead v m, TChecked v m}" unfolding other using p by (auto split: if_splits)
    with u(1) slow d(9) [of u v m] show "v = of_nat m \<and> m \<le> taken ?s \<and> taken ?s < m + 2 ^ 32"
      unfolding sel slow_ok_def by auto
  next
    fix u v m assume "u < T" "tpc_of ?s u = TChecked v m"
    then show "m \<le> served ?s" unfolding sel other using p d(10) [of u v m] by (auto split: if_splits)
  qed
qed

lemma tinv_release:
  assumes i: "tinv T s" and t: "t < T" "tpc_of s t = THeld m0"
  shows "tinv T (set_tpc t TIdle (s\<lparr>tlock := unlock_ticket (tlock s), served := Suc (served s)\<rparr>))"
    (is "tinv T ?s")
proof -
  note d = tinvD [OF i]
  have m0: "m0 = served s" "ticket_of (tpc_of s t) = Some (served s)" using d(7) t by auto
  have lt: "served s < taken s" using d(5) [OF t(1) m0(2)] by simp
  have other: "tpc_of ?s u = (if u = t then TIdle else tpc_of s u)" for u by (simp add: set_tpc_def)
  have sel: "tlock ?s = unlock_ticket (tlock s)" "served ?s = Suc (served s)" "taken ?s = taken s"
    by (simp_all add: set_tpc_def)
  have tk: "ticket_of (tpc_of ?s u) = (if u = t then None else ticket_of (tpc_of s u))" for u
    by (simp add: other)
  show ?thesis
  proof (rule tinvI)
    show "owner (tlock ?s) = of_nat (served ?s)" "nextt (tlock ?s) = of_nat (taken ?s)" "served ?s \<le> taken ?s"
      unfolding sel using d(1,2) lt by (simp_all add: unlock_ticket_def)
  next
    fix m assume m: "served ?s \<le> m" "m < taken ?s"
    then obtain u where u: "u < T" "ticket_of (tpc_of s u) = Some m" using d(4) [of m] unfolding sel by auto
    with m m0(2) have "u \<noteq> t" unfolding sel by auto
    with u show "\<exists>u < T. ticket_of (tpc_of ?s u) = Some m" by (auto simp: tk)
  next
    fix u m assume u: "u < T" "ticket_of (tpc_of ?s u) = Some m"
    then have u': "u \<noteq> t" "ticket_of (tpc_of s u) = Some m" unfolding tk by (auto split: if_splits)
    have "m \<noteq> served s" using d(6) [OF u(1) t(1) u'(2)] m0(2) u'(1) by auto
    with d(5) [OF u(1) u'(2)] show "served ?s \<le> m \<and> m < taken ?s" unfolding sel by auto
  next
    fix u u' m assume "u < T" "u' < T" "ticket_of (tpc_of ?s u) = Some m" "ticket_of (tpc_of ?s u') = Some m"
    then show "u = u'" unfolding tk using d(6) [of u u' m] by (auto split: if_splits)
  next
    fix u m assume u: "u < T" "tpc_of ?s u = THeld m"
    then have "u \<noteq> t" "tpc_of s u = THeld m" unfolding other by (auto split: if_splits)
    with d(6) [OF u(1) t(1), of m] d(7) [OF u(1), of m] m0(2) show "m = served ?s" by auto
  next
    fix u v m assume "u < T" "tpc_of ?s u = TWait v m"
    then show "v = of_nat m" unfolding other using d(8) [of u v m] by (auto split: if_splits)
  next
    fix u v m assume "u < T" "tpc_of ?s u = TRead v m \<or> tpc_of ?s u = TChecked v m"
    then show "v = of_nat m \<and> m \<le> taken ?s \<and> taken ?s < m + 2 ^ 32"
      unfolding sel other using d(9) [of u v m] by (auto split: if_splits)
  next
    fix u v m assume "u < T" "tpc_of ?s u = TChecked v m"
    then show "m \<le> served ?s" unfolding sel other using d(10) [of u v m] by (auto split: if_splits)
  qed
qed


lemma tinv_step:
  assumes st: "tstep T s s'" and i: "tinv T s" and T: "T < 2 ^ 32"
  shows "tinv T s'"
proof -
  note d = tinvD [OF i]
  have win: "taken s < served s + 2 ^ 32" using tickets_bounded [OF i] T by linarith
  show ?thesis
    using st
  proof (cases rule: tstep.cases)
    case (take_ticket t v l)
    then have "v = of_nat (taken s)" "l = (tlock s)\<lparr>nextt := nextt (tlock s) + 1\<rparr>"
      using d(2) by (auto simp: lock_ticket_def)
    then have s': "s' = set_tpc t (TWait (of_nat (taken s)) (taken s))
        (s\<lparr>tlock := (tlock s)\<lparr>nextt := nextt (tlock s) + 1\<rparr>, taken := Suc (taken s)\<rparr>)"
      using take_ticket(1) by simp
    show ?thesis
      unfolding s' by (rule tinv_draw [OF i take_ticket(2) _ take_ticket(4)]) (use take_ticket(3) in auto)
  next
    case (enter t v m)
    have m: "v = of_nat m" "served s \<le> m" "m < taken s"
      using d(8) [OF enter(2,3)] d(5) [OF enter(2), of m] enter(3) by simp_all
    have eq: "(of_nat (served s) :: u32) = of_nat m"
      using enter(4) unfolding lock_served_def m(1) d(1) by (rule sym)
    have "served s = m" by (rule of_nat_window [OF eq m(2)]) (use m(3) win in linarith)
    have tk: "ticket_of (tpc_of s' u) = ticket_of (tpc_of s u)" for u
      using enter by (simp add: set_tpc_def)
    have sel: "tlock s' = tlock s" "served s' = served s" "taken s' = taken s"
      "tpc_of s' = (tpc_of s)(t := THeld m)" using enter(1) by (simp_all add: set_tpc_def)
    show ?thesis
    proof (rule tinvI, unfold tk sel(1-3))
      fix u k assume "u < T" "tpc_of s' u = THeld k"
      then show "k = served s" using d(7) [of u k] \<open>served s = m\<close> sel(4) by (auto split: if_splits)
    next
      fix u w k assume "u < T" "tpc_of s' u = TWait w k"
      then show "w = of_nat k" using d(8) [of u w k] sel(4) by (auto split: if_splits)
    next
      fix u w k assume "u < T" "tpc_of s' u = TRead w k \<or> tpc_of s' u = TChecked w k"
      then show "w = of_nat k \<and> k \<le> taken s \<and> taken s < k + 2 ^ 32"
        using d(9) [of u w k] sel(4) by (auto split: if_splits)
    next
      fix u w k assume "u < T" "tpc_of s' u = TChecked w k"
      then show "k \<le> served s" using d(10) [of u w k] sel(4) by (auto split: if_splits)
    qed (use d(1-6) in blast)+
  next
    case (try_read t)
    show ?thesis
      unfolding try_read(1) try_lock_read_def
      by (rule tinv_no_ticket [OF i try_read(2)]) (use try_read(3) d(2) in auto)
  next
    case (try_check t v m)
    have m: "v = of_nat m" "m \<le> taken s" "taken s < m + 2 ^ 32" using d(9) [of t v m] try_check by auto
    have "m = served s" if "try_lock_check v (tlock s)"
    proof -
      have eq: "(of_nat (served s) :: u32) = of_nat m" using that unfolding try_lock_check_def d(1) m(1) .
      show ?thesis
        using of_nat_window [OF eq] of_nat_window [OF eq [symmetric]] m(2,3) d(3) win by linarith
    qed
    with m show ?thesis
      unfolding try_check(1)
      by (intro tinv_no_ticket [OF i try_check(2)]) (auto simp: try_check(3) split: if_splits)
  next
    case (try_swap t v m r l)
    have m: "v = of_nat m" "m \<le> taken s" "taken s < m + 2 ^ 32" "m \<le> served s"
      using d(9) [of t v m] d(10) [of t v m] try_swap by auto
    show ?thesis
    proof (cases "nextt (tlock s) = v")
      case True
      have "(of_nat m :: u32) = of_nat (taken s)" using True unfolding d(2) m(1) by (rule sym)
      from of_nat_window [OF this m(2,3)] have eq: "m = taken s" "taken s = served s" using m(4) d(3) by auto
      have "r = 0" "l = (tlock s)\<lparr>nextt := nextt (tlock s) + 1\<rparr>"
        using try_swap(5) True by (auto simp: try_lock_swap_def)
      then have s': "s' = set_tpc t (THeld (taken s))
          (s\<lparr>tlock := (tlock s)\<lparr>nextt := nextt (tlock s) + 1\<rparr>, taken := Suc (taken s)\<rparr>)"
        using try_swap(1) eq(1) by simp
      show ?thesis
        unfolding s' by (rule tinv_draw [OF i try_swap(2) _ try_swap(4)]) (use try_swap(3) eq(2) in auto)
    next
      case False
      then have "r \<noteq> 0" using try_swap(5) by (simp add: try_lock_swap_def)
      then have s': "s' = set_tpc t TIdle s" using try_swap(1) by simp
      show ?thesis
        unfolding s' by (rule tinv_no_ticket [OF i try_swap(2)]) (use try_swap(3) in auto)
    qed
  next
    case (release t m)
    with tinv_release [OF i] show ?thesis by simp
  qed
qed

lemma tinv_init: "tinv T tinit"
  by (rule tinvI) (auto simp: tinit_def)

lemma treach_inv: "treach T s \<Longrightarrow> T < 2 ^ 32 \<Longrightarrow> tinv T s"
  by (induction rule: treach.induct) (auto intro: tinv_init tinv_step)


subsection \<open>Ticket lock: properties\<close>

text \<open>A thread that takes and gives back the lock \<open>n\<close> times.\<close>

definition tround :: "nat \<Rightarrow> tstate" where
  "tround n = \<lparr>tlock = \<lparr>owner = of_nat n, nextt = of_nat n\<rparr>, tpc_of = (\<lambda>_. TIdle), served = n, taken = n\<rparr>"

definition theld :: "nat \<Rightarrow> tstate" where
  "theld n = \<lparr>tlock = \<lparr>owner = of_nat n, nextt = of_nat n + 1\<rparr>, tpc_of = (\<lambda>_. TIdle)(0 := THeld n),
     served = n, taken = Suc n\<rparr>"

lemma theld_reach: "treach 1 (tround n) \<Longrightarrow> treach 1 (theld n)"
proof -
  assume r: "treach 1 (tround n)"
  let ?w = "set_tpc 0 (TWait (of_nat n) n) ((tround n)\<lparr>tlock := \<lparr>owner = of_nat n, nextt = of_nat n + 1\<rparr>, taken := Suc n\<rparr>)"
  have "tstep 1 (tround n) (set_tpc 0 (TWait (of_nat n) (taken (tround n)))
      ((tround n)\<lparr>tlock := \<lparr>owner = of_nat n, nextt = of_nat n + 1\<rparr>, taken := Suc (taken (tround n))\<rparr>))"
    by (rule tstep.take_ticket) (auto simp: tround_def slow_ok_def lock_ticket_def)
  then have "treach 1 ?w" using r by (auto intro: treach.step simp: tround_def)
  moreover have "tstep 1 ?w (set_tpc 0 (THeld n) ?w)"
    by (rule tstep.enter [where v = "of_nat n"]) (auto simp: set_tpc_def tround_def lock_served_def)
  moreover have "set_tpc 0 (THeld n) ?w = theld n" by (simp add: set_tpc_def tround_def theld_def)
  ultimately show ?thesis by (metis treach.step)
qed

lemma tround_reach: "treach 1 (tround n)"
proof (induction n)
  case 0
  have "tround 0 = tinit" by (simp add: tround_def tinit_def)
  then show ?case by (simp add: treach.init)
next
  case (Suc n)
  have "tstep 1 (theld n) (set_tpc 0 TIdle ((theld n)\<lparr>tlock := unlock_ticket (tlock (theld n)), served := Suc (served (theld n))\<rparr>))"
    by (rule tstep.release) (auto simp: theld_def)
  moreover have "set_tpc 0 TIdle ((theld n)\<lparr>tlock := unlock_ticket (tlock (theld n)), served := Suc (served (theld n))\<rparr>) = tround (Suc n)"
    by (auto simp: set_tpc_def theld_def tround_def unlock_ticket_def add.commute)
  ultimately show ?case using theld_reach [OF Suc] by (metis treach.step)
qed

text \<open>Two threads that have drawn a ticket each.\<close>

definition tqueue :: tstate where
  "tqueue = \<lparr>tlock = \<lparr>owner = 0, nextt = 2\<rparr>, tpc_of = (\<lambda>_. TIdle)(0 := TWait 0 0, 1 := TWait 1 1),
     served = 0, taken = 2\<rparr>"

lemma tqueue_reach: "treach 2 tqueue"
proof -
  let ?s1 = "set_tpc 0 (TWait 0 (taken tinit)) (tinit\<lparr>tlock := \<lparr>owner = 0, nextt = 1\<rparr>, taken := Suc (taken tinit)\<rparr>)"
  let ?s2 = "set_tpc 1 (TWait 1 (taken ?s1)) (?s1\<lparr>tlock := \<lparr>owner = 0, nextt = 2\<rparr>, taken := Suc (taken ?s1)\<rparr>)"
  have "tstep 2 tinit ?s1"
    by (rule tstep.take_ticket) (auto simp: tinit_def slow_ok_def lock_ticket_def)
  moreover have "tstep 2 ?s1 ?s2"
    by (rule tstep.take_ticket) (auto simp: tinit_def set_tpc_def slow_ok_def lock_ticket_def)
  ultimately have "treach 2 ?s2" using treach.step [OF treach.step [OF treach.init]] by blast
  moreover have "?s2 = tqueue" by (auto simp: tqueue_def tinit_def set_tpc_def)
  ultimately show ?thesis by simp
qed

text \<open>
  C27: With fewer than \<open>2^32\<close> threads, in every reachable interleaving of \<open>lock\<close>, \<open>try_lock\<close>
  and \<open>unlock\<close> in which fewer than \<open>2^32\<close> tickets are drawn during any one \<open>try_lock\<close>: at most one thread holds the ticket lock; the holder drew its ticket before
  every waiting thread; and whenever a thread waits, some thread holds the lock or a waiting
  thread finds itself served.
\<close>

theorem ticket_lock_safe_live:
  assumes "treach T s" "T < 2 ^ 32"
  shows "(\<forall>t < T. \<forall>t' < T. \<forall>m m'. tpc_of s t = THeld m \<longrightarrow> tpc_of s t' = THeld m' \<longrightarrow> t = t') \<and>
    (\<forall>t < T. \<forall>t' < T. \<forall>v m m'. tpc_of s t = THeld m \<longrightarrow> tpc_of s t' = TWait v m' \<longrightarrow> m < m') \<and>
    (\<forall>t < T. \<forall>v m. tpc_of s t = TWait v m \<longrightarrow>
       (\<exists>u < T. (\<exists>k. tpc_of s u = THeld k) \<or> (\<exists>w k. tpc_of s u = TWait w k \<and> lock_served w (tlock s))))"
proof (intro conjI allI impI)
  have i: "tinv T s" by (rule treach_inv [OF assms])
  note d = tinvD [OF i]
  show "t = t'" if "t < T" "t' < T" "tpc_of s t = THeld m" "tpc_of s t' = THeld m'" for t t' m m'
    using d(6) [OF that(1,2), of m] d(7) [OF that(1,3)] d(7) [OF that(2,4)] that(3,4) by simp
  show "m < m'" if "t < T" "t' < T" "tpc_of s t = THeld m" "tpc_of s t' = TWait v m'" for t t' v m m'
  proof -
    have "m = served s" "served s \<le> m'" using d(7) [OF that(1,3)] d(5) [OF that(2), of m'] that(4) by auto
    moreover have "m \<noteq> m'" using d(6) [OF that(1,2), of m] that(3,4) by auto
    ultimately show ?thesis by simp
  qed
  show "\<exists>u < T. (\<exists>k. tpc_of s u = THeld k) \<or> (\<exists>w k. tpc_of s u = TWait w k \<and> lock_served w (tlock s))"
    if t: "t < T" "tpc_of s t = TWait v m" for t v m
  proof -
    have "served s \<le> m" "m < taken s" using d(5) [OF t(1), of m] t(2) by auto
    then obtain u where u: "u < T" "ticket_of (tpc_of s u) = Some (served s)" using d(4) [of "served s"] by auto
    then show ?thesis
    proof (cases "tpc_of s u")
      case (TWait w k)
      then have "w = of_nat (served s)" "k = served s" using d(8) [OF u(1) TWait] u(2) by auto
      with u(1) TWait d(1) show ?thesis by (auto simp: lock_served_def)
    qed (use u in auto)
  qed
qed

theorem ticket_lock_safe_live_witness:
  "treach 2 tqueue \<and> (\<exists>u < 2. (\<exists>k. tpc_of tqueue u = THeld k) \<or>
     (\<exists>w k. tpc_of tqueue u = TWait w k \<and> lock_served w (tlock tqueue)))"
proof -
  have w: "tpc_of tqueue 1 = TWait 1 1" by (simp add: tqueue_def)
  have "(2 :: nat) < 2 ^ 32" by simp
  from conjunct2 [OF conjunct2 [OF ticket_lock_safe_live [OF tqueue_reach this]], rule_format, OF _ w] tqueue_reach
  show ?thesis by simp
qed

text \<open>
  C28: \<open>is_locked\<close> compares the two counters without regard to wrap-around: after
  \<open>2^32 - 1\<close> uses of the lock a thread holds it while \<open>is_locked\<close> denies it.
\<close>

theorem is_locked_wrong_after_wrap:
  "\<exists>s. treach 1 s \<and> (\<exists>m. tpc_of s 0 = THeld m) \<and> \<not> is_locked (tlock s)"
proof (intro exI conjI)
  show "treach 1 (theld (2 ^ 32 - 1))" by (rule theld_reach [OF tround_reach])
  show "tpc_of (theld (2 ^ 32 - 1)) 0 = THeld (2 ^ 32 - 1)" by (simp add: theld_def)
  show "\<not> is_locked (tlock (theld (2 ^ 32 - 1)))" by (simp add: theld_def is_locked_def)
qed

end
