(* ===== verification/RW_Lock.thy ===== *)
theory RW_Lock
  imports Prelude
begin

text \<open>
  The reader-writer lock of \<^verbatim>\<open>kernel/arch/x86_64/sync/rwlock.c\<close>: a 32-bit word whose top bit is
  the writer and whose low bits count readers. Every atomic access is one definition on the
  word; the step relation interleaves the accesses of \<open>T\<close> threads arbitrarily.
\<close>

definition WRITER :: u32 where "WRITER = 0x80000000"

definition rwlock_init :: "u32 option \<Rightarrow> int \<times> u32 option" where
  "rwlock_init rwlock = (case rwlock of None \<Rightarrow> (- EINVAL, None) | Some l \<Rightarrow> (0, Some 0))"

text \<open>The fetch-and-add of \<open>read_lock\<close> and \<open>read_try_lock\<close>: whether the old value had the writer bit.\<close>

definition read_attempt :: "u32 \<Rightarrow> bool \<times> u32" where
  "read_attempt l = (l AND WRITER \<noteq> 0, l + 1)"

definition read_wait :: "u32 \<Rightarrow> bool" where
  "read_wait l \<longleftrightarrow> l AND WRITER \<noteq> 0"

definition read_try_lock :: "u32 \<Rightarrow> int \<times> u32" where
  "read_try_lock l = (let (busy, l') = read_attempt l in (if busy then -1 else 0, l'))"

definition read_unlock :: "u32 \<Rightarrow> u32" where
  "read_unlock l = l + (-1)"

text \<open>The compare-and-swap of \<open>write_lock\<close> and \<open>write_try_lock\<close>.\<close>

definition write_attempt :: "u32 \<Rightarrow> bool \<times> u32" where
  "write_attempt l = (if l = 0 then (True, WRITER) else (False, l))"

definition write_try_lock :: "u32 \<Rightarrow> int \<times> u32" where
  "write_try_lock l = (let (ok, l') = write_attempt l in (if ok then 0 else -1, l'))"

definition write_unlock :: "u32 \<Rightarrow> u32" where
  "write_unlock l = 0"

subsection \<open>Interleavings\<close>

datatype rwpc = Idle | RWant | RSpin | Reading | WWant | Writing

text \<open>\<open>missed\<close> counts the failed \<open>read_try_lock\<close> calls since the writer bit was set; no access
  reads it.\<close>

record rwstate =
  word :: u32
  pc :: "nat \<Rightarrow> rwpc"
  missed :: nat

definition at_pc :: "nat \<Rightarrow> rwpc \<Rightarrow> rwstate \<Rightarrow> rwstate" where
  "at_pc t p s = s\<lparr>pc := (pc s)(t := p)\<rparr>"

text \<open>
  Fewer than \<open>2^31\<close> readers can be counted, as the source warns: the guard of
  \<open>r_try_fail\<close> is this limit for threads that retry \<open>read_try_lock\<close> under one writer.
\<close>

inductive rwstep :: "nat \<Rightarrow> rwstate \<Rightarrow> rwstate \<Rightarrow> bool" for T where
  r_call: "t < T \<Longrightarrow> pc s t = Idle \<Longrightarrow> rwstep T s (at_pc t RWant s)"
| r_add: "t < T \<Longrightarrow> pc s t = RWant \<Longrightarrow> read_attempt (word s) = (busy, l) \<Longrightarrow>
     rwstep T s (at_pc t (if busy then RSpin else Reading) (s\<lparr>word := l\<rparr>))"
| r_spin: "t < T \<Longrightarrow> pc s t = RSpin \<Longrightarrow> \<not> read_wait (word s) \<Longrightarrow> rwstep T s (at_pc t RWant s)"
| r_try: "t < T \<Longrightarrow> pc s t = Idle \<Longrightarrow> read_try_lock (word s) = (0, l) \<Longrightarrow>
     rwstep T s (at_pc t Reading (s\<lparr>word := l\<rparr>))"
| r_try_fail: "t < T \<Longrightarrow> pc s t = Idle \<Longrightarrow> read_try_lock (word s) = (-1, l) \<Longrightarrow>
     Suc (missed s) + T < 2 ^ 31 \<Longrightarrow> rwstep T s (s\<lparr>word := l, missed := Suc (missed s)\<rparr>)"
| r_done: "t < T \<Longrightarrow> pc s t = Reading \<Longrightarrow> rwstep T s (at_pc t Idle (s\<lparr>word := read_unlock (word s)\<rparr>))"
| w_call: "t < T \<Longrightarrow> pc s t = Idle \<Longrightarrow> rwstep T s (at_pc t WWant s)"
| w_swap: "t < T \<Longrightarrow> pc s t = WWant \<Longrightarrow> write_attempt (word s) = (ok, l) \<Longrightarrow>
     rwstep T s (if ok then at_pc t Writing (s\<lparr>word := l, missed := 0\<rparr>) else s)"
| w_try: "t < T \<Longrightarrow> pc s t = Idle \<Longrightarrow> write_try_lock (word s) = (r, l) \<Longrightarrow>
     rwstep T s (if r = 0 then at_pc t Writing (s\<lparr>word := l, missed := 0\<rparr>) else s)"
| w_done: "t < T \<Longrightarrow> pc s t = Writing \<Longrightarrow> rwstep T s (at_pc t Idle (s\<lparr>word := write_unlock (word s)\<rparr>))"

definition rwinit :: rwstate where
  "rwinit = \<lparr>word = 0, pc = (\<lambda>_. Idle), missed = 0\<rparr>"

inductive rwreach :: "nat \<Rightarrow> rwstate \<Rightarrow> bool" for T where
  init: "rwreach T rwinit"
| step: "rwreach T s \<Longrightarrow> rwstep T s s' \<Longrightarrow> rwreach T s'"

subsection \<open>The invariant\<close>

definition threads_at :: "nat \<Rightarrow> rwpc \<Rightarrow> rwstate \<Rightarrow> nat set" where
  "threads_at T p s = {t. t < T \<and> pc s t = p}"

text \<open>
  Under a writer there are no readers and the low bits hold at most one mark per spinning
  reader and failed try; otherwise the word is the number of readers.
\<close>

definition rwinv :: "nat \<Rightarrow> rwstate \<Rightarrow> bool" where
  "rwinv T s \<longleftrightarrow>
     (if threads_at T Writing s = {} then unat (word s) = card (threads_at T Reading s)
      else card (threads_at T Writing s) = 1 \<and> threads_at T Reading s = {} \<and>
        missed s + T < 2 ^ 31 \<and> 2 ^ 31 \<le> unat (word s) \<and>
        unat (word s) \<le> 2 ^ 31 + card (threads_at T RSpin s) + missed s)"

lemma finite_threads_at [simp]: "finite (threads_at T p s)"
  by (rule finite_subset [of _ "{..<T}"]) (auto simp: threads_at_def)

lemma card_threads_at: "card (threads_at T p s) \<le> T"
  using card_mono [of "{..<T}" "threads_at T p s"] by (auto simp: threads_at_def)

lemma threads_at_move:
  assumes "t < T" "pc s t = q" "p \<noteq> q"
  shows "threads_at T p (at_pc t p s) = insert t (threads_at T p s)" "t \<notin> threads_at T p s"
    "threads_at T q (at_pc t p s) = threads_at T q s - {t}" "t \<in> threads_at T q s"
    "r \<noteq> p \<Longrightarrow> r \<noteq> q \<Longrightarrow> threads_at T r (at_pc t p s) = threads_at T r s"
  using assms by (auto simp: threads_at_def at_pc_def)

lemma threads_at_word [simp]:
  "threads_at T p (s\<lparr>word := l\<rparr>) = threads_at T p s" "threads_at T p (s\<lparr>missed := n\<rparr>) = threads_at T p s"
  by (simp_all add: threads_at_def)

lemma at_pc_sel [simp]: "word (at_pc t p s) = word s" "missed (at_pc t p s) = missed s"
  by (simp_all add: at_pc_def)

lemma writer_bit: "l AND WRITER \<noteq> 0 \<longleftrightarrow> 2 ^ 31 \<le> unat l"
proof -
  have W: "WRITER = 2 ^ 31" by (simp add: WRITER_def)
  have "l AND WRITER \<noteq> 0 \<longleftrightarrow> bit l 31" unfolding W and_exp_eq_0_iff_not_bit by simp
  also have "\<dots> \<longleftrightarrow> bit (unat l) 31" by (simp add: bit_unsigned_iff)
  also have "\<dots> \<longleftrightarrow> odd (unat l div 2 ^ 31)" by (simp add: bit_iff_odd)
  also have "unat l < 2 * 2 ^ 31" by (rule order_less_le_trans [OF unsigned_less]) simp
  then have "unat l div 2 ^ 31 < 2" by (rule less_mult_imp_div_less)
  then have "odd (unat l div 2 ^ 31) \<longleftrightarrow> unat l div 2 ^ 31 = 1" by (auto simp: less_2_cases_iff)
  also have "\<dots> \<longleftrightarrow> 2 ^ 31 \<le> unat l" using \<open>unat l div 2 ^ 31 < 2\<close> by (auto simp: div_eq_0_iff less_2_cases_iff)
  finally show ?thesis .
qed

lemma unat_inc: "unat (l :: u32) < 2 ^ 32 - 1 \<Longrightarrow> unat (l + 1) = unat l + 1"
  by (simp add: unat_word_ariths)

lemma unat_dec: "0 < unat (l :: u32) \<Longrightarrow> unat (l - 1) = unat l - 1"
  by (subst unat_minus_one) (auto simp: unat_eq_0)


lemma no_writer: "rwinv T s \<Longrightarrow> T < 2 ^ 31 \<Longrightarrow> \<not> 2 ^ 31 \<le> unat (word s) \<Longrightarrow>
    threads_at T Writing s = {} \<and> unat (word s) = card (threads_at T Reading s)"
  by (auto simp: rwinv_def split: if_splits)

lemma has_writer: "rwinv T s \<Longrightarrow> T < 2 ^ 31 \<Longrightarrow> 2 ^ 31 \<le> unat (word s) \<Longrightarrow> threads_at T Writing s \<noteq> {}"
  using card_threads_at [of T Reading s] by (auto simp: rwinv_def split: if_splits)

text \<open>A thread that neither reads nor writes before and after may move freely, unless it stops
  spinning under a writer.\<close>

lemma rwinv_move:
  assumes i: "rwinv T s" and t: "t < T" "pc s t \<noteq> Reading" "pc s t \<noteq> Writing" "p \<noteq> Reading" "p \<noteq> Writing"
    and spin: "pc s t = RSpin \<Longrightarrow> threads_at T Writing s = {}"
  shows "rwinv T (at_pc t p s)"
proof (cases "p = pc s t")
  case True
  then have "at_pc t p s = s" by (simp add: at_pc_def)
  with i show ?thesis by simp
next
  case False
  note m = threads_at_move [OF t(1) refl False]
  have rw: "threads_at T Reading (at_pc t p s) = threads_at T Reading s"
    "threads_at T Writing (at_pc t p s) = threads_at T Writing s"
    using m(5) [of Reading] m(5) [of Writing] t by auto
  have "threads_at T RSpin s \<subseteq> threads_at T RSpin (at_pc t p s)" if "threads_at T Writing s \<noteq> {}"
    using spin that by (auto simp: threads_at_def at_pc_def)
  then have "card (threads_at T RSpin s) \<le> card (threads_at T RSpin (at_pc t p s))"
    if "threads_at T Writing s \<noteq> {}" using that by (intro card_mono) auto
  with i show ?thesis unfolding rwinv_def rw by (auto split: if_splits)
qed

lemma rwinv_read:
  assumes i: "rwinv T s" and T: "T < 2 ^ 31" and t: "t < T" "pc s t \<noteq> Reading" "pc s t \<noteq> Writing"
    and free: "\<not> 2 ^ 31 \<le> unat (word s)"
  shows "rwinv T (at_pc t Reading (s\<lparr>word := word s + 1\<rparr>))"
proof -
  note n = no_writer [OF i T free]
  have ne: "Reading \<noteq> pc (s\<lparr>word := word s + 1\<rparr>) t" "t < T" using t by auto
  note m = threads_at_move [OF ne(2) refl ne(1)]
  have "unat (word s + 1) = unat (word s) + 1" using free by (intro unat_inc) simp
  with n m(1,2) m(5) [of Writing] t show ?thesis by (simp add: rwinv_def)
qed

lemma rwinv_write:
  assumes i: "rwinv T s" and T: "T < 2 ^ 31" and t: "t < T" "pc s t \<noteq> Reading" "pc s t \<noteq> Writing"
    and free: "word s = 0"
  shows "rwinv T (at_pc t Writing (s\<lparr>word := WRITER, missed := 0\<rparr>))"
proof -
  have n: "threads_at T Writing s = {}" "card (threads_at T Reading s) = 0"
    using no_writer [OF i T] free by auto
  have ne: "Writing \<noteq> pc (s\<lparr>word := WRITER, missed := 0\<rparr>) t" using t by simp
  note m = threads_at_move [OF t(1) refl ne]
  have "threads_at T Writing (at_pc t Writing (s\<lparr>word := WRITER, missed := 0\<rparr>)) = {t}" using m(1) n by simp
  moreover have "threads_at T Reading (at_pc t Writing (s\<lparr>word := WRITER, missed := 0\<rparr>)) = {}"
    using m(5) [of Reading] n t by simp
  ultimately show ?thesis using T by (simp add: rwinv_def WRITER_def)
qed

lemma rwinv_step:
  assumes st: "rwstep T s s'" and i: "rwinv T s" and T: "T < 2 ^ 31"
  shows "rwinv T s'"
  using st
proof (cases rule: rwstep.cases)
  case (r_call t)
  then show ?thesis using rwinv_move [OF i, of t RWant] by simp
next
  case (r_add t busy l)
  then have l: "busy \<longleftrightarrow> 2 ^ 31 \<le> unat (word s)" "l = word s + 1" by (auto simp: read_attempt_def writer_bit)
  show ?thesis
  proof (cases busy)
    case True
    have w: "threads_at T Writing s \<noteq> {}" using has_writer [OF i T] l True by simp
    have ne: "RSpin \<noteq> pc (s\<lparr>word := word s + 1\<rparr>) t" using r_add(3) by simp
    note m = threads_at_move [OF r_add(2) refl ne]
    have "Suc (card (threads_at T RSpin s)) \<le> T"
      using card_threads_at [of T RSpin "at_pc t RSpin (s\<lparr>word := word s + 1\<rparr>)"] m(1,2) by simp
    with i w have "unat (word s) < 2 ^ 32 - 1" by (auto simp: rwinv_def)
    then have "unat (word s + 1) = unat (word s) + 1" by (rule unat_inc)
    with i w m(1,2) m(5) [of Reading] m(5) [of Writing] r_add(1,3) l True show ?thesis
      by (simp add: rwinv_def)
  next
    case False
    with rwinv_read [OF i T r_add(2)] r_add(1,3) l show ?thesis by simp
  qed
next
  case (r_spin t)
  then have "\<not> 2 ^ 31 \<le> unat (word s)" by (simp add: read_wait_def writer_bit)
  with no_writer [OF i T] r_spin rwinv_move [OF i, of t RWant] show ?thesis by simp
next
  case (r_try t l)
  then have l: "\<not> 2 ^ 31 \<le> unat (word s)" "l = word s + 1"
    by (auto simp: read_try_lock_def read_attempt_def writer_bit split: if_splits)
  with rwinv_read [OF i T r_try(2)] r_try(1,3) show ?thesis by simp
next
  case (r_try_fail t l)
  then have l: "2 ^ 31 \<le> unat (word s)" "l = word s + 1"
    by (auto simp: read_try_lock_def read_attempt_def writer_bit split: if_splits)
  have w: "threads_at T Writing s \<noteq> {}" using has_writer [OF i T l(1)] .
  have "card (threads_at T RSpin s) \<le> T" by (rule card_threads_at)
  with i w r_try_fail(5) have "unat (word s) < 2 ^ 32 - 1" by (auto simp: rwinv_def)
  then have "unat (word s + 1) = unat (word s) + 1" by (rule unat_inc)
  moreover have "threads_at T p s' = threads_at T p s" for p using r_try_fail(1) by (simp add: threads_at_def)
  ultimately show ?thesis using i w l(2) r_try_fail(1,5) by (simp add: rwinv_def)
next
  case (r_done t)
  have ne: "Idle \<noteq> pc (s\<lparr>word := read_unlock (word s)\<rparr>) t" using r_done(3) by simp
  note m = threads_at_move [OF r_done(2) refl ne]
  have rd: "t \<in> threads_at T Reading s" using r_done by (simp add: threads_at_def)
  then have n: "threads_at T Writing s = {}" "unat (word s) = card (threads_at T Reading s)"
    using i by (auto simp: rwinv_def split: if_splits)
  have "0 < card (threads_at T Reading s)" using rd by (auto simp: card_gt_0_iff)
  then have "unat (word s - 1) = card (threads_at T Reading s) - 1" using n(2) unat_dec [of "word s"] by simp
  with n m(3) m(5) [of Writing] r_done(1,3) rd show ?thesis
    by (simp add: rwinv_def read_unlock_def card_Diff_singleton)
next
  case (w_call t)
  then show ?thesis using rwinv_move [OF i, of t WWant] by simp
next
  case (w_swap t ok l)
  then show ?thesis using rwinv_write [OF i T w_swap(2)] i by (auto simp: write_attempt_def split: if_splits)
next
  case (w_try t r l)
  then show ?thesis
    using rwinv_write [OF i T w_try(2)] i by (auto simp: write_try_lock_def write_attempt_def split: if_splits)
next
  case (w_done t)
  have ne: "Idle \<noteq> pc (s\<lparr>word := write_unlock (word s)\<rparr>) t" using w_done(3) by simp
  note m = threads_at_move [OF w_done(2) refl ne]
  have wr: "t \<in> threads_at T Writing s" using w_done by (simp add: threads_at_def)
  then have n: "card (threads_at T Writing s) = 1" "threads_at T Reading s = {}"
    using i by (auto simp: rwinv_def split: if_splits)
  then have "threads_at T Writing s = {t}" using wr by (metis card_1_singletonE singletonD)
  with n m(3) m(5) [of Reading] w_done(1,3) show ?thesis by (simp add: rwinv_def write_unlock_def)
qed


lemma rwreach_inv: "rwreach T s \<Longrightarrow> T < 2 ^ 31 \<Longrightarrow> rwinv T s"
proof (induction rule: rwreach.induct)
  case init
  show ?case by (simp add: rwinv_def rwinit_def threads_at_def)
next
  case (step s s')
  then show ?case by (intro rwinv_step [OF step(2)]) auto
qed

subsection \<open>Properties\<close>


text \<open>A run in which thread 0 writes while thread 1 spins.\<close>

definition rwdemo :: rwstate where
  "rwdemo = \<lparr>word = 0x80000001, pc = (\<lambda>_. Idle)(0 := Writing, 1 := RSpin), missed = 0\<rparr>"

lemma rwdemo_reach: "rwreach 2 rwdemo"
proof -
  let ?s1 = "at_pc 0 WWant rwinit"
  let ?s2 = "at_pc 0 Writing (?s1\<lparr>word := WRITER, missed := 0\<rparr>)"
  let ?s3 = "at_pc 1 RWant ?s2"
  let ?s4 = "at_pc 1 RSpin (?s3\<lparr>word := WRITER + 1\<rparr>)"
  have "rwstep 2 rwinit ?s1" by (rule rwstep.w_call) (auto simp: rwinit_def)
  moreover have "rwstep 2 ?s1 (if True then ?s2 else ?s1)"
    by (rule rwstep.w_swap) (auto simp: at_pc_def rwinit_def write_attempt_def)
  moreover have "rwstep 2 ?s2 ?s3" by (rule rwstep.r_call) (auto simp: at_pc_def rwinit_def)
  moreover have "rwstep 2 ?s3 (at_pc 1 (if True then RSpin else Reading) (?s3\<lparr>word := WRITER + 1\<rparr>))"
    by (rule rwstep.r_add) (auto simp: at_pc_def read_attempt_def WRITER_def)
  ultimately have "rwreach 2 ?s4"
    using rwreach.step [OF rwreach.step [OF rwreach.step [OF rwreach.step [OF rwreach.init]]]] by (simp only: if_True)
  moreover have "?s4 = rwdemo" by (auto simp: rwdemo_def at_pc_def rwinit_def WRITER_def)
  ultimately show ?thesis by simp
qed


end
