(* ===== verification/LLFree_Bits.thy ===== *)
theory LLFree_Bits
  imports Prelude
begin

text \<open>
  The vocabulary of the llfree allocator (\<^verbatim>\<open>kernel/include/mm/llfree\<close>,
  \<^verbatim>\<open>kernel/mm/llfree/utils.h\<close>, \<^verbatim>\<open>bitops.h\<close>) and the search for an aligned run of
  zero bits in one row of a bit field (\<^verbatim>\<open>bitfield.c\<close>). Frame numbers, sizes and counters are
  natural numbers; the wrap-around of an addition is written out where the operands are not
  bounded by the callers. Rows are 64-bit words.

  A function the code passes to \<open>atom_update\<close> maps the old value to \<open>Some\<close> of the new one, or
  to \<open>None\<close> when it returns false and nothing is stored. Executions of such updates are
  atomic; the theories of the allocator run one operation at a time. Where such a function
  contains an assertion, an outer \<open>None\<close> is its failure.
\<close>

subsection \<open>Sizes\<close>

definition LLFREE_HUGE_ORDER :: nat where "LLFREE_HUGE_ORDER = 9"
definition LLFREE_MAX_ORDER :: nat where "LLFREE_MAX_ORDER = LLFREE_HUGE_ORDER + 1"
definition LLFREE_ATOMIC_SIZE :: nat where "LLFREE_ATOMIC_SIZE = 2 ^ 6"
definition LLFREE_CHILD_SIZE :: nat where "LLFREE_CHILD_SIZE = 2 ^ LLFREE_HUGE_ORDER"
definition LLFREE_TREE_CHILDREN :: nat where "LLFREE_TREE_CHILDREN = 2 ^ 3"
definition LLFREE_TREE_SIZE :: nat where "LLFREE_TREE_SIZE = 2 ^ (LLFREE_HUGE_ORDER + 3)"
definition FIELD_N :: nat where "FIELD_N = LLFREE_CHILD_SIZE div LLFREE_ATOMIC_SIZE"
definition LLFREE_CACHE_SIZE :: nat where "LLFREE_CACHE_SIZE = 64"
definition LLFREE_MAX_TIERS :: nat where "LLFREE_MAX_TIERS = 2 ^ 3"
definition LLFREE_TIER_NONE :: nat where "LLFREE_TIER_NONE = 255"
definition MIN_PAGES :: nat where "MIN_PAGES = LLFREE_TREE_SIZE"
definition MAX_PAGES :: nat where "MAX_PAGES = 2 ^ 28"
definition LLFREE_LOCAL_NONE :: nat where "LLFREE_LOCAL_NONE = 2 ^ 64 - 1"

lemma llfree_sizes [simp]:
  "LLFREE_HUGE_ORDER = 9" "LLFREE_MAX_ORDER = 10" "LLFREE_ATOMIC_SIZE = 64" "LLFREE_CHILD_SIZE = 512"
  "LLFREE_TREE_CHILDREN = 8" "LLFREE_TREE_SIZE = 4096" "FIELD_N = 8" "LLFREE_CACHE_SIZE = 64"
  "LLFREE_MAX_TIERS = 8" "MIN_PAGES = 4096" "MAX_PAGES = 268435456"
  by (simp_all add: LLFREE_HUGE_ORDER_def LLFREE_MAX_ORDER_def LLFREE_ATOMIC_SIZE_def
      LLFREE_CHILD_SIZE_def LLFREE_TREE_CHILDREN_def LLFREE_TREE_SIZE_def FIELD_N_def
      LLFREE_CACHE_SIZE_def LLFREE_MAX_TIERS_def MIN_PAGES_def MAX_PAGES_def)

subsection \<open>Results\<close>

definition LLFREE_ERR_OK :: nat where "LLFREE_ERR_OK = 0"
definition LLFREE_ERR_MEMORY :: nat where "LLFREE_ERR_MEMORY = 1"
definition LLFREE_ERR_RETRY :: nat where "LLFREE_ERR_RETRY = 2"
definition LLFREE_ERR_ADDRESS :: nat where "LLFREE_ERR_ADDRESS = 3"
definition LLFREE_ERR_INIT :: nat where "LLFREE_ERR_INIT = 4"

lemmas llfree_err_defs = LLFREE_ERR_OK_def LLFREE_ERR_MEMORY_def LLFREE_ERR_RETRY_def
  LLFREE_ERR_ADDRESS_def LLFREE_ERR_INIT_def

lemma llfree_err_distinct [simp]:
  "LLFREE_ERR_OK \<noteq> LLFREE_ERR_MEMORY" "LLFREE_ERR_MEMORY \<noteq> LLFREE_ERR_OK"
  "LLFREE_ERR_OK \<noteq> LLFREE_ERR_RETRY" "LLFREE_ERR_RETRY \<noteq> LLFREE_ERR_OK"
  "LLFREE_ERR_OK \<noteq> LLFREE_ERR_ADDRESS" "LLFREE_ERR_ADDRESS \<noteq> LLFREE_ERR_OK"
  "LLFREE_ERR_OK \<noteq> LLFREE_ERR_INIT" "LLFREE_ERR_INIT \<noteq> LLFREE_ERR_OK"
  "LLFREE_ERR_MEMORY \<noteq> LLFREE_ERR_RETRY" "LLFREE_ERR_RETRY \<noteq> LLFREE_ERR_MEMORY"
  "LLFREE_ERR_MEMORY \<noteq> LLFREE_ERR_ADDRESS" "LLFREE_ERR_ADDRESS \<noteq> LLFREE_ERR_MEMORY"
  "LLFREE_ERR_ADDRESS \<noteq> LLFREE_ERR_RETRY" "LLFREE_ERR_RETRY \<noteq> LLFREE_ERR_ADDRESS"
  by (simp_all add: llfree_err_defs)

text \<open>The result is one 64-bit word: 58 bits of frame, 3 bits of tier, 3 bits of error.\<close>

record llfree_result =
  frame :: nat
  tier :: nat
  error :: nat

definition llfree_ok :: "nat \<Rightarrow> nat \<Rightarrow> llfree_result" where
  "llfree_ok f t = \<lparr>frame = f mod 2 ^ 58, tier = t mod 2 ^ 3, error = LLFREE_ERR_OK\<rparr>"

definition llfree_err :: "nat \<Rightarrow> llfree_result" where
  "llfree_err e = \<lparr>frame = 0, tier = 0, error = e mod 2 ^ 3\<rparr>"

definition llfree_is_ok :: "llfree_result \<Rightarrow> bool" where
  "llfree_is_ok r \<longleftrightarrow> error r = LLFREE_ERR_OK"

lemma llfree_result_simps [simp]:
  "llfree_is_ok (llfree_ok f t)" "f < 2 ^ 58 \<Longrightarrow> frame (llfree_ok f t) = f"
  "error (llfree_ok f t) = LLFREE_ERR_OK"
  "llfree_is_ok (llfree_err LLFREE_ERR_OK)" "\<not> llfree_is_ok (llfree_err LLFREE_ERR_MEMORY)"
  "\<not> llfree_is_ok (llfree_err LLFREE_ERR_ADDRESS)" "\<not> llfree_is_ok (llfree_err LLFREE_ERR_RETRY)"
  "\<not> llfree_is_ok (llfree_err LLFREE_ERR_INIT)"
  "error (llfree_err LLFREE_ERR_OK) = LLFREE_ERR_OK"
  "error (llfree_err LLFREE_ERR_MEMORY) = LLFREE_ERR_MEMORY"
  "error (llfree_err LLFREE_ERR_ADDRESS) = LLFREE_ERR_ADDRESS"
  "error (llfree_err LLFREE_ERR_RETRY) = LLFREE_ERR_RETRY"
  by (simp_all add: llfree_ok_def llfree_err_def llfree_is_ok_def llfree_err_defs)

subsection \<open>Arithmetic helpers\<close>

definition div_ceil :: "nat \<Rightarrow> nat \<Rightarrow> nat" where
  "div_ceil a b = (a + b - 1) div b"

definition align_up :: "nat \<Rightarrow> nat \<Rightarrow> nat" where
  "align_up x a = (x + a - 1) div a * a"

text \<open>\<open>for_offsetted\<close>: the values of the loop variable, in order.\<close>

definition for_offsetted :: "nat \<Rightarrow> nat \<Rightarrow> nat list" where
  "for_offsetted start len = map (\<lambda>i. (start - start mod len) + (i + start mod len) mod len) [0..<len]"

definition tree_from_frame :: "nat \<Rightarrow> nat" where "tree_from_frame f = f div LLFREE_TREE_SIZE"
definition frame_from_tree :: "nat \<Rightarrow> nat" where "frame_from_tree t = t * LLFREE_TREE_SIZE"
definition row_from_tree :: "nat \<Rightarrow> nat" where "row_from_tree t = frame_from_tree t div LLFREE_ATOMIC_SIZE"
definition child_from_frame :: "nat \<Rightarrow> nat" where "child_from_frame f = f div LLFREE_CHILD_SIZE"
definition frame_from_child :: "nat \<Rightarrow> nat" where "frame_from_child c = c * LLFREE_CHILD_SIZE"
definition row_from_frame :: "nat \<Rightarrow> nat" where "row_from_frame f = f div LLFREE_ATOMIC_SIZE"
definition frame_from_row :: "nat \<Rightarrow> nat" where "frame_from_row r = r * LLFREE_ATOMIC_SIZE"
definition tree_from_row :: "nat \<Rightarrow> nat" where "tree_from_row r = frame_from_row r div LLFREE_TREE_SIZE"

lemmas llfree_index = tree_from_frame_def frame_from_tree_def row_from_tree_def child_from_frame_def
  frame_from_child_def row_from_frame_def frame_from_row_def tree_from_row_def

lemma set_for_offsetted:
  assumes "0 < len"
  shows "set (for_offsetted start len) = {j. j div len = start div len}"
proof -
  define b where "b = start - start mod len"
  have b: "b = start div len * len" by (simp add: b_def minus_mod_eq_div_mult)
  have "(\<lambda>i. (i + start mod len) mod len) ` {0..<len} = {0..<len}"
  proof (rule card_subset_eq)
    show "(\<lambda>i. (i + start mod len) mod len) ` {0..<len} \<subseteq> {0..<len}" using assms by auto
    have "inj_on (\<lambda>i. (i + start mod len) mod len) {0..<len}"
    proof (rule inj_onI)
      fix x y assume a: "x \<in> {0..<len}" "y \<in> {0..<len}" "(x + start mod len) mod len = (y + start mod len) mod len"
      have r: "start mod len < len" using assms by simp
      have "(z + s) mod len = (if z + s < len then z + s else z + s - len)" if "z < len" "s < len" for z s
        using that by (auto simp: le_mod_geq)
      from this [OF _ r] a r show "x = y" by (auto split: if_splits)
    qed
    then show "card ((\<lambda>i. (i + start mod len) mod len) ` {0..<len}) = card {0..<len}" by (simp add: card_image)
  qed simp
  moreover have "set (for_offsetted start len) = (+) b ` (\<lambda>i. (i + start mod len) mod len) ` {0..<len}"
    by (auto simp: for_offsetted_def b_def)
  ultimately have "set (for_offsetted start len) = (+) b ` {0..<len}" by simp
  also have "\<dots> = {j. j div len = start div len}"
  proof (safe)
    fix j assume "j div len = start div len"
    then have "j = b + j mod len" unfolding b by (metis div_mult_mod_eq)
    then show "j \<in> (+) b ` {0..<len}" using assms by (metis atLeastLessThan_iff image_eqI le0 mod_less_divisor)
  qed (use assms in \<open>simp add: b\<close>)
  finally show ?thesis .
qed

lemma set_for_offsetted_low: "start < len \<Longrightarrow> set (for_offsetted start len) = {0..<len}"
  by (subst set_for_offsetted) (auto simp: div_eq_0_iff)

subsection \<open>Counting bits\<close>

text \<open>The loop of \<open>trailing_zeros\<close> ends at the lowest bit that is set.\<close>

partial_function (option) tz_loop :: "nat \<Rightarrow> u64 \<Rightarrow> nat option" where
  "tz_loop n x = (if x AND 1 = 0 then tz_loop (Suc n) (drop_bit 1 x) else Some n)"

definition trailing_zeros :: "u64 \<Rightarrow> nat option" where
  "trailing_zeros x = (if x = 0 then Some 64 else tz_loop 0 x)"

lemma tz_loop_spec:
  assumes "bit x k" "\<And>i. i < k \<Longrightarrow> \<not> bit x i"
  shows "tz_loop n x = Some (n + k)"
  using assms
proof (induction k arbitrary: n x)
  case 0
  then have "x AND 1 \<noteq> 0" by (simp add: and_one_eq bit_0 odd_iff_mod_2_eq_one)
  then show ?case by (simp add: tz_loop.simps)
next
  case (Suc k)
  have "\<not> bit x 0" using Suc.prems(2) by simp
  then have "x AND 1 = 0" by (simp add: and_one_eq bit_0 even_iff_mod_2_eq_zero)
  moreover have "tz_loop (Suc n) (drop_bit 1 x) = Some (Suc n + k)"
    by (rule Suc.IH) (use Suc.prems in \<open>auto simp: bit_drop_bit_eq\<close>)
  ultimately show ?case by (simp add: tz_loop.simps)
qed

lemma trailing_zeros_bit:
  assumes "bit x k" "\<And>i. i < k \<Longrightarrow> \<not> bit x i"
  shows "trailing_zeros x = Some k"
  using tz_loop_spec [OF assms, of 0] assms(1) by (auto simp: trailing_zeros_def)

lemma trailing_zeros_0 [simp]: "trailing_zeros 0 = Some 64"
  by (simp add: trailing_zeros_def)

text \<open>\<open>count_ones\<close> clears the lowest set bit in each round.\<close>

lemma clear_lowest_bit:
  "0 < (x :: nat) \<Longrightarrow> \<exists>k. bit x k \<and> (\<forall>i. bit (x AND (x - 1)) i \<longleftrightarrow> bit x i \<and> i \<noteq> k)"
proof (induction x rule: nat_bit_induct)
  case (even n)
  from even(1) obtain k where k: "bit n k" "\<And>i. bit (n AND (n - 1)) i \<longleftrightarrow> bit n i \<and> i \<noteq> k"
    using even(2) by blast
  have e: "2 * n - 1 = 1 + 2 * (n - 1)" using even(2) by simp
  have "bit (2 * n AND (2 * n - 1)) i \<longleftrightarrow> bit (2 * n) i \<and> i \<noteq> Suc k" for i
  proof (cases i)
    case (Suc j)
    have "bit (2 * n - 1) (Suc j) = bit (n - 1) j" unfolding e by (simp add: bit_Suc)
    moreover have "bit (2 * n) (Suc j) = bit n j" by (simp add: bit_Suc)
    ultimately show ?thesis using k(2) [of j] unfolding Suc bit_and_iff by auto
  next
    case 0
    have "\<not> bit (2 * n) 0" by (simp add: bit_0)
    then show ?thesis unfolding 0 bit_and_iff by simp
  qed
  moreover have "bit (2 * n) (Suc k)" using k(1) by (simp add: bit_Suc)
  ultimately show ?case by blast
next
  case (odd n)
  have "bit (Suc (2 * n) AND (Suc (2 * n) - 1)) i \<longleftrightarrow> bit (Suc (2 * n)) i \<and> i \<noteq> 0" for i
    unfolding bit_and_iff by (cases i) (auto simp: bit_0 bit_Suc)
  moreover have "bit (Suc (2 * n)) 0" by (simp add: bit_0)
  ultimately show ?case by blast
qed simp

lemma clear_lowest_word:
  assumes "x \<noteq> (0 :: u64)"
  obtains k where "bit x k" "\<And>i. bit (x AND (x - 1)) i \<longleftrightarrow> bit x i \<and> i \<noteq> k"
proof -
  have "0 < unat x" using assms by (simp add: unat_gt_0)
  then obtain k where k: "bit (unat x) k"
    "\<forall>i. bit (unat x AND (unat x - 1)) i \<longleftrightarrow> bit (unat x) i \<and> i \<noteq> k"
    using clear_lowest_bit by blast
  have "unat (x AND (x - 1)) = unat x AND (unat x - 1)"
    using unat_minus_one [OF assms] by (simp add: unsigned_and_eq)
  with k(2) have e: "bit (unat (x AND (x - 1))) i \<longleftrightarrow> bit (unat x) i \<and> i \<noteq> k" for i by simp
  have "bit (x AND (x - 1)) i \<longleftrightarrow> bit x i \<and> i \<noteq> k" for i
    using e [of i] unfolding bit_unsigned_iff by simp
  moreover have "bit x k" using k(1) by (simp add: bit_unsigned_iff)
  ultimately show ?thesis using that by blast
qed

lemma clear_lowest_less: "x \<noteq> (0 :: u64) \<Longrightarrow> unat (x AND (x - 1)) < unat x"
proof -
  assume x: "x \<noteq> 0"
  have "x AND (x - 1) \<le> x - 1" by (metis and.commute word_and_le1)
  then have "unat (x AND (x - 1)) \<le> unat (x - 1)" by (simp add: word_le_nat_alt)
  moreover have "0 < unat x" using x by (simp add: unat_gt_0)
  ultimately show ?thesis using unat_minus_one [OF x] by linarith
qed

function count_loop :: "nat \<Rightarrow> u64 \<Rightarrow> nat" where
  "count_loop c x = (if x \<noteq> 0 then count_loop (Suc c) (x AND (x - 1)) else c)"
  by auto
termination by (relation "measure (\<lambda>(c, x). unat x)") (auto intro: clear_lowest_less)

declare count_loop.simps [simp del]

definition count_ones :: "u64 \<Rightarrow> nat" where "count_ones x = count_loop 0 x"

definition ones :: "u64 \<Rightarrow> nat set" where "ones x = {i. bit x i}"

lemma ones_sub: "ones x \<subseteq> {0..<64}"
  using bit_imp_le_length [of x] by (auto simp: ones_def)

lemma ones_finite [simp]: "finite (ones x)"
  using ones_sub finite_subset by blast

lemma count_loop_spec: "count_loop c x = c + card (ones x)"
proof (induction c x rule: count_loop.induct)
  case (1 c x)
  show ?case
  proof (cases "x = 0")
    case True
    then show ?thesis by (simp add: ones_def count_loop.simps [of c 0])
  next
    case False
    then obtain k where k: "bit x k" "\<And>i. bit (x AND (x - 1)) i \<longleftrightarrow> bit x i \<and> i \<noteq> k"
      using clear_lowest_word by blast
    have "ones x = insert k (ones (x AND (x - 1)))" "k \<notin> ones (x AND (x - 1))"
      using k by (auto simp: ones_def)
    then have "card (ones x) = Suc (card (ones (x AND (x - 1))))" by simp
    then show ?thesis using 1 False by (simp add: count_loop.simps [of c x])
  qed
qed

lemma count_ones_card: "count_ones x = card (ones x)"
  by (simp add: count_ones_def count_loop_spec)

lemma count_ones_le: "count_ones x \<le> 64"
  using card_mono [OF _ ones_sub [of x]] by (simp add: count_ones_card)

subsection \<open>Aligned runs of zeros\<close>

text \<open>\<open>first_zeros_aligned\<close>: the new row and the position of the run, \<open>Some None\<close> when there is
  none.\<close>

definition take_run :: "u64 \<Rightarrow> u64 \<Rightarrow> nat \<Rightarrow> (u64 \<times> nat) option" where
  "take_run v run p = (if p < 64 then Some (v OR push_bit p run, p) else None)"

definition zero_run_search :: "u64 \<Rightarrow> u64 \<Rightarrow> nat \<Rightarrow> nat option" where
  "zero_run_search v m s = trailing_zeros (drop_bit s ((v - m) AND NOT v) AND m)"

definition first_zeros_aligned :: "u64 \<Rightarrow> nat \<Rightarrow> (u64 \<times> nat) option option" where
  "first_zeros_aligned v order =
     (if order = 0 then do { p \<leftarrow> trailing_zeros (NOT v); Some (take_run v 1 p) }
      else if order = 1 then
        do { p \<leftarrow> trailing_zeros (NOT ((v OR drop_bit 1 v) OR 0xaaaaaaaaaaaaaaaa)); Some (take_run v 3 p) }
      else if order = 2 then
        do { p \<leftarrow> zero_run_search v 0x1111111111111111 3; Some (take_run v 0xf p) }
      else if order = 3 then
        do { p \<leftarrow> zero_run_search v 0x0101010101010101 7; Some (take_run v 0xff p) }
      else if order = 4 then
        do { p \<leftarrow> zero_run_search v 0x0001000100010001 15; Some (take_run v 0xffff p) }
      else if order = 5 then
        Some (if (ucast v :: u32) = 0 then take_run v 0xffffffff 0
              else if drop_bit 32 v = 0 then take_run v 0xffffffff 32 else None)
      else if order = 6 then
        Some (if v = 0 then Some (NOT 0, 0) else None)
      else None)"

text \<open>The run of \<open>w\<close> bits at position \<open>p\<close>, and the first aligned one that is all zero.\<close>

definition run_free :: "u64 \<Rightarrow> nat \<Rightarrow> nat \<Rightarrow> bool" where
  "run_free v w p \<longleftrightarrow> (\<forall>i < w. \<not> bit v (p + i))"

definition set_run :: "u64 \<Rightarrow> nat \<Rightarrow> nat \<Rightarrow> u64" where
  "set_run v w p = v OR push_bit p (mask w)"

definition first_free_run :: "u64 \<Rightarrow> nat \<Rightarrow> nat option" where
  "first_free_run v w = find (\<lambda>k. run_free v w (k * w)) [0..<64 div w]"

lemma find_upt_Some:
  "find P [0..<n] = Some k \<longleftrightarrow> k < n \<and> P k \<and> (\<forall>j < k. \<not> P j)"
  by (auto simp: find_Some_iff intro!: exI [of _ k])

lemma find_upt_None: "find P [0..<n] = None \<longleftrightarrow> (\<forall>k < n. \<not> P k)"
  by (auto simp: find_None_iff)

lemma trailing_zeros_run:
  assumes w: "0 < w" "w dvd 64"
    and sub: "\<And>p. bit x p \<Longrightarrow> w dvd p"
    and run: "\<And>k. k < 64 div w \<Longrightarrow> (\<And>j. j < k \<Longrightarrow> \<not> run_free v w (j * w)) \<Longrightarrow>
       bit x (k * w) \<longleftrightarrow> run_free v w (k * w)"
  shows "trailing_zeros x = Some (case first_free_run v w of None \<Rightarrow> 64 | Some k \<Rightarrow> k * w)"
proof -
  have at: "\<exists>j. p = j * w \<and> j < 64 div w" if b: "bit x p" for p
  proof -
    obtain j where j: "p = j * w" using sub [OF b] by (metis dvd_def mult.commute)
    have "p < 64" using bit_imp_le_length [OF b] by simp
    with j w show ?thesis by (metis div_less_iff_less_mult dvd_div_mult_self mult.commute nat_mult_less_cancel_disj)
  qed
  show ?thesis
  proof (cases "first_free_run v w")
    case None
    then have none: "\<And>k. k < 64 div w \<Longrightarrow> \<not> run_free v w (k * w)"
      by (simp add: first_free_run_def find_upt_None)
    have "\<not> bit x p" for p
    proof
      assume "bit x p"
      with at obtain j where j: "p = j * w" "j < 64 div w" by blast
      with run [of j] none \<open>bit x p\<close> show False by simp
    qed
    then have "x = 0" by (intro bit_eqI) simp
    then show ?thesis using None by simp
  next
    case (Some k)
    then have k: "k < 64 div w" "run_free v w (k * w)" "\<And>j. j < k \<Longrightarrow> \<not> run_free v w (j * w)"
      by (simp_all add: first_free_run_def find_upt_Some)
    have "trailing_zeros x = Some (k * w)"
    proof (rule trailing_zeros_bit)
      show "bit x (k * w)" using run [of k] k by blast
      fix i assume i: "i < k * w"
      show "\<not> bit x i"
      proof
        assume b: "bit x i"
        with at obtain j where j: "i = j * w" "j < 64 div w" by blast
        with i w have "j < k" by simp
        with run [of j] k(3) j b show False by force
      qed
    qed
    then show ?thesis using Some by simp
  qed
qed

text \<open>Subtracting one from every field of \<open>w\<close> bits borrows first at the lowest zero field.\<close>

fun rep_ones :: "nat \<Rightarrow> nat \<Rightarrow> int" where
  "rep_ones w 0 = 0"
| "rep_ones w (Suc n) = 1 + 2 ^ w * rep_ones w n"

lemma bit_join:
  assumes "0 \<le> a" "a < 2 ^ w"
  shows "bit (a + 2 ^ w * b :: int) i \<longleftrightarrow> (if i < w then bit a i else bit b (i - w))"
proof -
  have "a + 2 ^ w * b = concat_bit w a b"
    using assms by (simp add: concat_bit_eq push_bit_eq_mult take_bit_int_eq_self)
  then show ?thesis by (auto simp: bit_concat_bit_iff)
qed

lemma top_bit:
  assumes "0 \<le> x" "x < 2 ^ Suc w"
  shows "bit (x :: int) w \<longleftrightarrow> 2 ^ w \<le> x"
proof (cases "2 ^ w \<le> x")
  case True
  then have "x = (x - 2 ^ w) + 2 ^ w * 1" "0 \<le> x - 2 ^ w" "x - 2 ^ w < 2 ^ w" using assms by auto
  then show ?thesis using bit_join [of "x - 2 ^ w" w 1 w] True by simp
next
  case False
  then show ?thesis using bit_join [of x w 0 w] assms by simp
qed

lemma haszero:
  fixes v :: int
  assumes "k < n" "\<And>j. j < k \<Longrightarrow> take_bit (Suc w) (drop_bit (j * Suc w) v) \<noteq> 0"
  shows "bit (v - rep_ones (Suc w) n) (k * Suc w + w) \<and> \<not> bit v (k * Suc w + w) \<longleftrightarrow>
    take_bit (Suc w) (drop_bit (k * Suc w) v) = 0"
  using assms
proof (induction k arbitrary: v n)
  case (0 v n)
  then obtain n' where n: "n = Suc n'" by (cases n) auto
  define d v' where "d = take_bit (Suc w) v" and "v' = drop_bit (Suc w) v"
  have v: "v = d + 2 ^ Suc w * v'" unfolding d_def v'_def
    by (metis bits_ident mult.commute push_bit_eq_mult add.commute)
  have d: "0 \<le> d" "d < 2 ^ Suc w" by (simp_all only: d_def take_bit_nonnegative take_bit_int_less_exp)
  have bv: "bit v w \<longleftrightarrow> 2 ^ w \<le> d" unfolding v using bit_join [OF d] top_bit [OF d] by simp
  show ?case
  proof (cases "d = 0")
    case True
    have e: "v - rep_ones (Suc w) n = (2 ^ Suc w - 1) + 2 ^ Suc w * (v' - rep_ones (Suc w) n' - 1)"
      unfolding n v True by (simp add: algebra_simps)
    have "bit (v - rep_ones (Suc w) n) w" unfolding e
      using bit_join [of "2 ^ Suc w - 1" "Suc w" _ w] top_bit [of "2 ^ Suc w - 1" w] by simp
    then show ?thesis using bv True by (simp add: d_def)
  next
    case False
    have e: "v - rep_ones (Suc w) n = (d - 1) + 2 ^ Suc w * (v' - rep_ones (Suc w) n')"
      unfolding n by (subst v) (simp add: algebra_simps)
    have "bit (v - rep_ones (Suc w) n) w \<longleftrightarrow> 2 ^ w \<le> d - 1" unfolding e
      using bit_join [of "d - 1" "Suc w" _ w] top_bit [of "d - 1" w] d False by simp
    then show ?thesis using bv False by (simp add: d_def)
  qed
next
  case (Suc k v n)
  then obtain n' where n: "n = Suc n'" "k < n'" by (cases n) auto
  define d v' where "d = take_bit (Suc w) v" and "v' = drop_bit (Suc w) v"
  have v: "v = d + 2 ^ Suc w * v'" unfolding d_def v'_def
    by (metis bits_ident mult.commute push_bit_eq_mult add.commute)
  have d: "0 \<le> d" "d < 2 ^ Suc w" by (simp_all only: d_def take_bit_nonnegative take_bit_int_less_exp)
  have "d \<noteq> 0" using Suc.prems(2) [of 0] by (simp add: d_def)
  have e: "v - rep_ones (Suc w) n = (d - 1) + 2 ^ Suc w * (v' - rep_ones (Suc w) n')"
    unfolding n by (subst v) (simp add: algebra_simps)
  have dr: "drop_bit (Suc j * Suc w) v = drop_bit (j * Suc w) v'" for j
    by (simp add: v'_def add.commute add.left_commute)
  have i: "Suc k * Suc w + w = Suc w + (k * Suc w + w)" by simp
  have b1: "bit (v - rep_ones (Suc w) n) (Suc k * Suc w + w) = bit (v' - rep_ones (Suc w) n') (k * Suc w + w)"
    unfolding e i using bit_join [of "d - 1" "Suc w"] d \<open>d \<noteq> 0\<close> by simp
  have b2: "bit v (Suc k * Suc w + w) = bit v' (k * Suc w + w)"
    unfolding v i using bit_join [OF d] by simp
  have "take_bit (Suc w) (drop_bit (j * Suc w) v') \<noteq> 0" if "j < k" for j
    using Suc.prems(2) [of "Suc j"] that dr by simp
  from Suc.IH [OF n(2) this] show ?case unfolding b1 b2 dr .
qed

lemma rep_ones_bit: "bit (rep_ones (Suc w) n) p \<longleftrightarrow> p < n * Suc w \<and> Suc w dvd p"
proof (induction n arbitrary: p)
  case (Suc n)
  have "(0 :: int) \<le> 1" "(1 :: int) < 2 ^ Suc w" by (simp_all add: power_gt1_lemma)
  from bit_join [OF this, of "rep_ones (Suc w) n" p]
  have b: "bit (rep_ones (Suc w) (Suc n)) p \<longleftrightarrow> (if p < Suc w then p = 0 else bit (rep_ones (Suc w) n) (p - Suc w))"
    by (simp add: bit_1_iff)
  show ?case
  proof (cases "p < Suc w")
    case True
    then have "Suc w dvd p \<longleftrightarrow> p = 0" by (auto dest: dvd_imp_le)
    then show ?thesis using b True by auto
  next
    case False
    then have "Suc w dvd p \<longleftrightarrow> Suc w dvd p - Suc w" by (simp add: dvd_minus_self)
    moreover have "p - Suc w < n * Suc w \<longleftrightarrow> p < Suc n * Suc w" using False by (simp add: less_diff_conv2 add.commute add.left_commute)
    ultimately show ?thesis using b False Suc.IH [of "p - Suc w"] by simp
  qed
qed simp

lemma take_drop_run: "take_bit w (drop_bit p (uint v)) = 0 \<longleftrightarrow> run_free v w p"
proof -
  have "take_bit w (drop_bit p (uint v)) = 0 \<longleftrightarrow> (\<forall>i. \<not> bit (take_bit w (drop_bit p (uint v))) i)"
    by (metis bit_0_eq bit_eqI bot_apply bot_bool_def)
  then show ?thesis using bit_imp_le_length [of v]
    by (auto simp: run_free_def bit_take_bit_iff bit_drop_bit_eq bit_uint_iff)
qed

lemma zero_run_search_spec:
  assumes m: "uint m = rep_ones (Suc w) n" and n: "n * Suc w = 64"
  shows "zero_run_search v m w = Some (case first_free_run v (Suc w) of None \<Rightarrow> 64 | Some k \<Rightarrow> k * Suc w)"
  unfolding zero_run_search_def
proof (rule trailing_zeros_run)
  have d: "64 div Suc w = n" using n by (metis div_mult_self_is_m zero_less_Suc)
  show "0 < Suc w" "Suc w dvd 64" using n by (simp_all add: dvd_def) (metis mult.commute)
  have bm: "bit m p \<longleftrightarrow> p < 64 \<and> Suc w dvd p" for p
    using rep_ones_bit [of w n p] bit_imp_le_length [of m p] unfolding n m [symmetric] bit_uint_iff by auto
  let ?x = "drop_bit w ((v - m) AND NOT v) AND m"
  show "Suc w dvd p" if "bit ?x p" for p using that by (auto simp: bit_and_iff bm)
  have bs: "bit (v - m) i \<longleftrightarrow> i < 64 \<and> bit (uint v - rep_ones (Suc w) n) i" for i
  proof -
    have "bit (v - m) i \<longleftrightarrow> bit (uint (v - m)) i" using bit_imp_le_length [of "v - m" i] by (auto simp: bit_uint_iff)
    also have "uint (v - m) = take_bit 64 (uint v - uint m)" by (simp add: uint_word_ariths take_bit_eq_mod)
    finally show ?thesis by (simp add: bit_take_bit_iff m)
  qed
  fix k assume k: "k < 64 div Suc w" "\<And>j. j < k \<Longrightarrow> \<not> run_free v (Suc w) (j * Suc w)"
  have le: "k * Suc w + w < 64" using k(1) d n
    by (metis Suc_leI add_Suc_right less_eq_Suc_le mult_Suc mult_le_mono1 add.commute)
  have "bit ?x (k * Suc w) \<longleftrightarrow> bit (uint v - rep_ones (Suc w) n) (k * Suc w + w) \<and> \<not> bit (uint v) (k * Suc w + w)"
    using le by (simp add: bit_and_iff bit_drop_bit_eq bs bm bit_not_iff bit_uint_iff add.commute del: mult_Suc_right)
  then show "bit ?x (k * Suc w) \<longleftrightarrow> run_free v (Suc w) (k * Suc w)"
    using haszero [of k n w "uint v"] k d by (simp add: take_drop_run del: mult_Suc_right)
qed

lemma take_run_spec:
  assumes "0 < w" "w dvd 64" "run = mask w"
  shows "take_run v run (case first_free_run v w of None \<Rightarrow> 64 | Some k \<Rightarrow> k * w) =
    map_option (\<lambda>k. (set_run v w (k * w), k * w)) (first_free_run v w)"
proof (cases "first_free_run v w")
  case (Some k)
  then have "k < 64 div w" by (simp add: first_free_run_def find_upt_Some)
  then have "k * w < 64" using assms(1,2) by (metis dvd_div_mult_self mult_less_mono1)
  then show ?thesis using Some assms(3) by (simp add: take_run_def set_run_def)
qed (simp add: take_run_def)

lemma zero_run_search_masks:
  "zero_run_search v 0x1111111111111111 3 = Some (case first_free_run v 4 of None \<Rightarrow> 64 | Some k \<Rightarrow> k * 4)"
  "zero_run_search v 0x0101010101010101 7 = Some (case first_free_run v 8 of None \<Rightarrow> 64 | Some k \<Rightarrow> k * 8)"
  "zero_run_search v 0x0001000100010001 15 = Some (case first_free_run v 16 of None \<Rightarrow> 64 | Some k \<Rightarrow> k * 16)"
proof -
  have r: "rep_ones (Suc 3) 16 = 0x1111111111111111" "rep_ones (Suc 7) 8 = 0x0101010101010101"
    "rep_ones (Suc 15) 4 = 0x0001000100010001" by code_simp+
  show "zero_run_search v 0x1111111111111111 3 = Some (case first_free_run v 4 of None \<Rightarrow> 64 | Some k \<Rightarrow> k * 4)"
    using zero_run_search_spec [of "0x1111111111111111" 3 16 v] r(1) by (simp cong: option.case_cong)
  show "zero_run_search v 0x0101010101010101 7 = Some (case first_free_run v 8 of None \<Rightarrow> 64 | Some k \<Rightarrow> k * 8)"
    using zero_run_search_spec [of "0x0101010101010101" 7 8 v] r(2) by (simp cong: option.case_cong)
  show "zero_run_search v 0x0001000100010001 15 = Some (case first_free_run v 16 of None \<Rightarrow> 64 | Some k \<Rightarrow> k * 16)"
    using zero_run_search_spec [of "0x0001000100010001" 15 4 v] r(3) by (simp cong: option.case_cong)
qed

lemma odd_bits_mask: "bit (0xaaaaaaaaaaaaaaaa :: u64) p \<longleftrightarrow> p < 64 \<and> odd p"
proof -
  have r: "rep_ones (Suc 1) 32 = 0x5555555555555555" by code_simp
  have e: "(0xaaaaaaaaaaaaaaaa :: u64) = push_bit 1 (word_of_int (rep_ones (Suc 1) 32))" unfolding r by simp
  show ?thesis unfolding e bit_push_bit_iff bit_word_of_int_iff rep_ones_bit
    by (cases p) (auto simp flip: numeral_2_eq_2)
qed

lemma trailing_zeros_pairs:
  "trailing_zeros (NOT ((v OR drop_bit 1 v) OR 0xaaaaaaaaaaaaaaaa)) =
     Some (case first_free_run v 2 of None \<Rightarrow> 64 | Some k \<Rightarrow> k * 2)"
proof (rule trailing_zeros_run)
  show "2 dvd p" if b: "bit (NOT ((v OR drop_bit 1 v) OR 0xaaaaaaaaaaaaaaaa)) p" for p
    using b bit_imp_le_length [OF b] unfolding bit_not_iff bit_or_iff odd_bits_mask by auto
  show "bit (NOT ((v OR drop_bit 1 v) OR 0xaaaaaaaaaaaaaaaa)) (k * 2) = run_free v 2 (k * 2)" if k: "k < 64 div 2" for k
    using k unfolding bit_not_iff bit_or_iff odd_bits_mask
    by (auto simp: run_free_def bit_drop_bit_eq less_2_cases_iff)
qed simp_all

lemma low_half_zero: "(ucast v :: u32) = 0 \<longleftrightarrow> run_free v 32 0"
  by (auto simp: run_free_def bit_eq_iff bit_ucast_iff)

lemma high_half_zero: "drop_bit 32 v = 0 \<longleftrightarrow> run_free v 32 32"
proof -
  have "\<not> bit v (32 + i)" if "\<not> i < 32" for i using bit_imp_le_length [of v "32 + i"] that by auto
  then show ?thesis by (auto simp: run_free_def bit_eq_iff bit_drop_bit_eq)
qed

lemma row_zero: "v = 0 \<longleftrightarrow> run_free v 64 0"
  using bit_imp_le_length [of v] by (auto simp: run_free_def bit_eq_iff)

lemma first_zeros_aligned_spec:
  assumes "order \<le> 6"
  shows "first_zeros_aligned v order =
    Some (map_option (\<lambda>k. (set_run v (2 ^ order) (k * 2 ^ order), k * 2 ^ order)) (first_free_run v (2 ^ order)))"
proof -
  have m: "(1 :: u64) = mask 1" "(3 :: u64) = mask 2" "(0xf :: u64) = mask 4" "(0xff :: u64) = mask 8"
    "(0xffff :: u64) = mask 16" "(0xffffffff :: u64) = mask 32" by (simp_all add: mask_eq_exp_minus_1)
  consider "order = 0" | "order = 1" | "order = 2" | "order = 3" | "order = 4" | "order = 5" | "order = 6"
    using assms by linarith
  then show ?thesis
  proof cases
    case 1
    have "trailing_zeros (NOT v) = Some (case first_free_run v 1 of None \<Rightarrow> 64 | Some k \<Rightarrow> k * 1)"
      by (rule trailing_zeros_run) (auto simp: run_free_def bit_not_iff)
    then show ?thesis using 1 take_run_spec [OF _ _ m(1)] by (simp add: first_zeros_aligned_def)
  next
    case 2
    then show ?thesis using take_run_spec [OF _ _ m(2)] trailing_zeros_pairs [of v] by (simp add: first_zeros_aligned_def)
  next
    case 3
    then show ?thesis using take_run_spec [OF _ _ m(3)] by (simp add: first_zeros_aligned_def zero_run_search_masks)
  next
    case 4
    then show ?thesis using take_run_spec [OF _ _ m(4)] by (simp add: first_zeros_aligned_def zero_run_search_masks)
  next
    case 5
    then show ?thesis using take_run_spec [OF _ _ m(5)] by (simp add: first_zeros_aligned_def zero_run_search_masks)
  next
    case 6
    have "[0..<64 div 32] = [0, 1 :: nat]" by (simp add: upt_rec)
    then show ?thesis using 6 m(6)
      by (simp add: first_zeros_aligned_def first_free_run_def low_half_zero high_half_zero take_run_def set_run_def)
  next
    case 7
    have "[0..<64 div 64] = [0 :: nat]" by (simp add: upt_rec)
    moreover have "(mask 64 :: u64) = NOT 0" by (simp add: mask_eq_exp_minus_1)
    ultimately show ?thesis using 7 row_zero [of v] by (simp add: first_zeros_aligned_def first_free_run_def set_run_def)
  qed
qed

end
