(* ===== verification/LLFree_Field.thy ===== *)
theory LLFree_Field
  imports LLFree_Bits
begin

text \<open>
  The bit fields of \<^verbatim>\<open>kernel/mm/llfree/bitfield.c\<close>: 512 bits in eight rows, a set bit for a
  frame in use. The lemmas state every operation in terms of the set of frames in use.
\<close>

type_synonym bitfield = "u64 list"

definition get_pos :: "nat \<Rightarrow> nat \<times> nat" where
  "get_pos index = (let i = index mod LLFREE_CHILD_SIZE in (i div LLFREE_ATOMIC_SIZE, i mod LLFREE_ATOMIC_SIZE))"

definition field_init :: "bitfield \<Rightarrow> bitfield" where
  "field_init self = replicate FIELD_N 0"

subsection \<open>Claiming free bits\<close>

fun set_in_rows :: "bitfield \<Rightarrow> nat \<Rightarrow> nat list \<Rightarrow> (llfree_result \<times> bitfield) option" where
  "set_in_rows f order [] = Some (llfree_err LLFREE_ERR_MEMORY, f)"
| "set_in_rows f order (i # is) =
     do { v \<leftarrow> load_at f i;
          r \<leftarrow> first_zeros_aligned v order;
          case r of
            Some (v', pos) \<Rightarrow>
              do { f' \<leftarrow> store_at f i v'; Some (llfree_ok (i * LLFREE_ATOMIC_SIZE + pos) 0, f') }
          | None \<Rightarrow> set_in_rows f order is }"

text \<open>Runs of several rows: each row is exchanged from all zeros to all ones; at the first
  failure the rows exchanged so far are given back.\<close>

fun undo_rows :: "bitfield \<Rightarrow> nat \<Rightarrow> nat \<Rightarrow> bitfield option" where
  "undo_rows f idx2 0 = Some f"
| "undo_rows f idx2 (Suc n) =
     do { v \<leftarrow> load_at f idx2;
          bug_on (v \<noteq> NOT 0);
          f' \<leftarrow> store_at f idx2 0;
          undo_rows f' (Suc idx2) n }"

fun claim_rows :: "bitfield \<Rightarrow> nat \<Rightarrow> nat \<Rightarrow> nat \<Rightarrow> (bool \<times> bitfield) option" where
  "claim_rows f base i 0 = Some (True, f)"
| "claim_rows f base i (Suc n) =
     do { v \<leftarrow> load_at f (base + i);
          if v = 0 then do { f' \<leftarrow> store_at f (base + i) (NOT 0); claim_rows f' base (Suc i) n }
          else do { f' \<leftarrow> undo_rows f base i; Some (False, f') } }"

fun set_row_groups :: "bitfield \<Rightarrow> nat \<Rightarrow> nat list \<Rightarrow> (llfree_result \<times> bitfield) option" where
  "set_row_groups f entries [] = Some (llfree_err LLFREE_ERR_MEMORY, f)"
| "set_row_groups f entries (c # cs) =
     do { (ok, f') \<leftarrow> claim_rows f (c * entries) 0 entries;
          if ok then Some (llfree_ok (c * entries * LLFREE_ATOMIC_SIZE) 0, f')
          else set_row_groups f' entries cs }"

definition field_set_next :: "bitfield \<Rightarrow> nat \<Rightarrow> nat \<Rightarrow> (llfree_result \<times> bitfield) option" where
  "field_set_next f start_frame order =
     do { let num_frames = 2 ^ order;
          bug_on (\<not> num_frames < LLFREE_CHILD_SIZE);
          let row = row_from_frame start_frame mod FIELD_N;
          if num_frames \<le> LLFREE_ATOMIC_SIZE then set_in_rows f order (for_offsetted row FIELD_N)
          else let entries = num_frames div LLFREE_ATOMIC_SIZE in
               set_row_groups f entries (for_offsetted (row div entries) (FIELD_N div entries)) }"

subsection \<open>Switching given bits\<close>

definition row_toggle :: "u64 \<Rightarrow> u64 \<Rightarrow> bool \<Rightarrow> u64 option" where
  "row_toggle row m expected =
     (if expected then if row AND m = m then Some (row AND NOT m) else None
      else if row AND m = 0 then Some (row OR m) else None)"

fun toggle_rows :: "bitfield \<Rightarrow> nat \<Rightarrow> bool \<Rightarrow> nat \<Rightarrow> (llfree_result \<times> bitfield) option" where
  "toggle_rows f r expected 0 = Some (llfree_err LLFREE_ERR_OK, f)"
| "toggle_rows f r expected (Suc n) =
     do { let m = (if expected then NOT 0 else 0 :: u64);
          v \<leftarrow> load_at f r;
          if v = m then do { f' \<leftarrow> store_at f r (NOT m); toggle_rows f' (Suc r) expected n }
          else Some (llfree_err LLFREE_ERR_ADDRESS, f) }"

definition field_toggle :: "bitfield \<Rightarrow> nat \<Rightarrow> nat \<Rightarrow> bool \<Rightarrow> (llfree_result \<times> bitfield) option" where
  "field_toggle f index order expected =
     do { bug_on (\<not> index < LLFREE_CHILD_SIZE);
          let (row, b) = get_pos index;
          let num_frames = 2 ^ order;
          if num_frames > LLFREE_ATOMIC_SIZE
          then toggle_rows f row expected (num_frames div LLFREE_ATOMIC_SIZE)
          else do {
            let m = push_bit b (drop_bit (LLFREE_ATOMIC_SIZE - num_frames) (NOT 0));
            v \<leftarrow> load_at f row;
            case row_toggle v m expected of
              Some v' \<Rightarrow> do { f' \<leftarrow> store_at f row v'; Some (llfree_err LLFREE_ERR_OK, f') }
            | None \<Rightarrow> Some (llfree_err LLFREE_ERR_ADDRESS, f) } }"

definition field_count_ones :: "bitfield \<Rightarrow> nat option" where
  "field_count_ones f =
     do { let counter = (\<Sum>i \<leftarrow> [0..<FIELD_N]. count_ones (f ! i));
          bug_on (\<not> counter \<le> LLFREE_CHILD_SIZE);
          Some counter }"

definition field_is_free :: "bitfield \<Rightarrow> nat \<Rightarrow> bool option" where
  "field_is_free f index =
     do { bug_on (\<not> index < LLFREE_CHILD_SIZE);
          let (row, b) = get_pos index;
          v \<leftarrow> load_at f row;
          Some (v AND push_bit b 1 = 0) }"

subsection \<open>The frames in use\<close>

definition field_used :: "bitfield \<Rightarrow> nat set" where
  "field_used f = {i. i < 512 \<and> bit (f ! (i div 64)) (i mod 64)}"

definition block :: "nat \<Rightarrow> nat \<Rightarrow> nat set" where
  "block p order = {p..<p + 2 ^ order}"

lemma block_mem [simp]: "x \<in> block p order \<longleftrightarrow> p \<le> x \<and> x < p + 2 ^ order"
  by (simp add: block_def)

lemma field_used_update:
  "length f = 8 \<Longrightarrow> r < 8 \<Longrightarrow>
   x \<in> field_used (f[r := v]) \<longleftrightarrow> (if x div 64 = r then bit v (x mod 64) else x \<in> field_used f)"
  by (auto simp: field_used_def div_less_iff_less_mult)

lemma bit_set_run: "bit (set_run v w p) i \<longleftrightarrow> bit v i \<or> p \<le> i \<and> i < p + w \<and> i < 64"
  by (auto simp: set_run_def bit_or_iff bit_push_bit_iff bit_mask_iff)

lemma field_used_at: "j < 64 \<Longrightarrow> r < 8 \<Longrightarrow> 64 * r + j \<in> field_used f \<longleftrightarrow> bit (f ! r) j"
  by (simp add: field_used_def)

text \<open>A run inside one row.\<close>

lemma in_row:
  assumes "p + 2 ^ order \<le> 64" "x \<in> block (64 * r + p) order"
  obtains i where "x = 64 * r + (p + i)" "p + i < 64" "i < 2 ^ order"
proof (rule that [of "x - (64 * r + p)"])
qed (use assms in auto)

lemma row_block:
  assumes "r < 8" "p + 2 ^ order \<le> 64"
  shows "run_free (f ! r) (2 ^ order) p \<longleftrightarrow> block (64 * r + p) order \<inter> field_used f = {}"
proof
  assume a: "run_free (f ! r) (2 ^ order) p"
  show "block (64 * r + p) order \<inter> field_used f = {}"
  proof (rule equals0I)
    fix x assume x: "x \<in> block (64 * r + p) order \<inter> field_used f"
    then obtain i where i: "x = 64 * r + (p + i)" "p + i < 64" "i < 2 ^ order" using in_row [OF assms(2)] by blast
    have "bit (f ! r) (p + i)" using x field_used_at [OF i(2) assms(1)] unfolding i(1) by blast
    then show False using a i(3) by (simp add: run_free_def)
  qed
next
  assume a: "block (64 * r + p) order \<inter> field_used f = {}"
  show "run_free (f ! r) (2 ^ order) p" unfolding run_free_def
  proof (intro allI impI notI)
    fix i assume i: "i < 2 ^ order" "bit (f ! r) (p + i)"
    have "p + i < 64" using i assms(2) by simp
    from field_used_at [OF this assms(1)] i(2) have "64 * r + (p + i) \<in> field_used f" by blast
    moreover have "64 * r + (p + i) \<in> block (64 * r + p) order" using i(1) by simp
    ultimately show False using a by blast
  qed
qed

lemma row_set_run:
  assumes "length f = 8" "r < 8" "p + 2 ^ order \<le> 64"
  shows "field_used (f[r := set_run (f ! r) (2 ^ order) p]) = field_used f \<union> block (64 * r + p) order"
proof (rule set_eqI)
  fix x
  show "x \<in> field_used (f[r := set_run (f ! r) (2 ^ order) p]) \<longleftrightarrow> x \<in> field_used f \<union> block (64 * r + p) order"
  proof (cases "x div 64 = r")
    case True
    define j where "j = x mod 64"
    have x: "x = 64 * r + j" "j < 64" using mult_div_mod_eq [of 64 x] True by (simp_all add: j_def)
    have "x \<in> block (64 * r + p) order \<longleftrightarrow> p \<le> j \<and> j < p + 2 ^ order" unfolding x(1) by auto
    then show ?thesis using field_used_at [OF x(2) assms(2)] x(2) assms(1,2)
      by (simp add: x(1) bit_set_run)
  next
    case False
    then have "\<not> (64 * r \<le> x \<and> x < 64 * r + 64)" using div_nat_eqI [of 64 r x] by auto
    then have "x \<notin> block (64 * r + p) order" using assms(3) by auto
    then show ?thesis unfolding field_used_update [OF assms(1,2), of x] Un_iff using False by (simp del: block_mem)
  qed
qed

text \<open>What a search returns: a free aligned run that is now in use, or the error and no run.\<close>

definition field_taken :: "bitfield \<Rightarrow> nat \<Rightarrow> nat \<Rightarrow> bitfield \<Rightarrow> bool" where
  "field_taken f order q f' \<longleftrightarrow> 2 ^ order dvd q \<and> q + 2 ^ order \<le> 512 \<and>
     block q order \<inter> field_used f = {} \<and> field_used f' = field_used f \<union> block q order \<and> length f' = 8"

lemma row_aligned:
  assumes "order \<le> 6" "2 ^ order dvd q" "q + 2 ^ order \<le> (512 :: nat)"
  obtains r k where "r < 8" "k < 64 div 2 ^ order" "q = 64 * r + k * 2 ^ order"
proof -
  have d: "2 ^ order dvd (64 :: nat)" using le_imp_power_dvd [of order 6 2] assms(1) by simp
  have "2 ^ order dvd q mod 64" using assms(2) d by (simp add: dvd_mod)
  then obtain k where k: "q mod 64 = k * 2 ^ order" by (metis dvd_def mult.commute)
  have "0 < (2 :: nat) ^ order" by simp
  then have q: "q < 512" using assms(3) by linarith
  show ?thesis
  proof (rule that [of "q div 64" k])
    show "q div 64 < 8" using q by simp
    have "k * 2 ^ order < 64" using k [symmetric] by simp
    then show "k < 64 div 2 ^ order" using d by (metis div_less_iff_less_mult dvd_div_mult_self mult.commute
        nat_mult_less_cancel_disj \<open>0 < 2 ^ order\<close>)
    show "q = 64 * (q div 64) + k * 2 ^ order" using k mult_div_mod_eq [of 64 q] by simp
  qed
qed

lemma run_in_row:
  assumes "order \<le> 6" "k < 64 div 2 ^ order"
  shows "k * 2 ^ order + 2 ^ order \<le> (64 :: nat)" "2 ^ order dvd (64 * r + k * 2 ^ order :: nat)"
proof -
  have d: "2 ^ order dvd (64 :: nat)" using le_imp_power_dvd [of order 6 2] assms(1) by simp
  have "Suc k * 2 ^ order \<le> 64 div 2 ^ order * 2 ^ order" using assms(2) by (intro mult_le_mono1) simp
  then show "k * 2 ^ order + 2 ^ order \<le> (64 :: nat)" using d by simp
  show "2 ^ order dvd (64 * r + k * 2 ^ order :: nat)" using d by simp
qed

lemma set_in_rows_spec:
  assumes "length f = 8" "order \<le> 6" "\<And>i. i \<in> set is \<Longrightarrow> i < 8"
  shows "(\<exists>q f'. set_in_rows f order is = Some (llfree_ok q 0, f') \<and> field_taken f order q f') \<or>
    (set_in_rows f order is = Some (llfree_err LLFREE_ERR_MEMORY, f) \<and>
     (\<forall>i \<in> set is. \<forall>k < 64 div 2 ^ order. \<not> block (64 * i + k * 2 ^ order) order \<inter> field_used f = {}))"
  using assms(3)
proof (induction "is")
  case (Cons i "is")
  have i: "i < 8" using Cons.prems by simp
  show ?case
  proof (cases "first_free_run (f ! i) (2 ^ order)")
    case None
    then have "\<not> run_free (f ! i) (2 ^ order) (k * 2 ^ order)" if "k < 64 div 2 ^ order" for k
      using that by (simp add: first_free_run_def find_upt_None)
    then have "\<forall>k < 64 div 2 ^ order. \<not> block (64 * i + k * 2 ^ order) order \<inter> field_used f = {}"
      using row_block [OF i run_in_row(1) [OF assms(2)]] by blast
    moreover have "set_in_rows f order (i # is) = set_in_rows f order is"
      using None i assms(1) first_zeros_aligned_spec [OF assms(2), of "f ! i"] by simp
    ultimately show ?thesis using Cons by simp
  next
    case (Some k)
    then have k: "k < 64 div 2 ^ order" "run_free (f ! i) (2 ^ order) (k * 2 ^ order)"
      by (simp_all add: first_free_run_def find_upt_Some)
    let ?f = "f[i := set_run (f ! i) (2 ^ order) (k * 2 ^ order)]" and ?q = "64 * i + k * 2 ^ order"
    note r = run_in_row [OF assms(2) k(1)]
    have "set_in_rows f order (i # is) = Some (llfree_ok ?q 0, ?f)"
      using Some i assms(1) first_zeros_aligned_spec [OF assms(2), of "f ! i"] by (simp add: mult.commute)
    moreover have "field_taken f order ?q ?f"
      unfolding field_taken_def row_set_run [OF assms(1) i r(1)]
      using row_block [OF i r(1), of f] k(2) r i assms(1) by simp
    ultimately show ?thesis by blast
  qed
qed simp

text \<open>Runs of whole rows.\<close>

definition fill_rows :: "bitfield \<Rightarrow> nat \<Rightarrow> nat \<Rightarrow> u64 \<Rightarrow> bitfield" where
  "fill_rows f a n v = map (\<lambda>j. if a \<le> j \<and> j < a + n then v else f ! j) [0..<length f]"

lemma fill_rows_simps [simp]:
  "length (fill_rows f a n v) = length f"
  "j < length f \<Longrightarrow> fill_rows f a n v ! j = (if a \<le> j \<and> j < a + n then v else f ! j)"
  "fill_rows f a 0 v = f"
  by (auto simp: fill_rows_def intro!: nth_equalityI)

lemma fill_rows_snoc: "(fill_rows f a n v)[a + n := v] = fill_rows f a (Suc n) v"
  by (rule nth_equalityI) (auto simp: nth_list_update_neq less_Suc_eq)

lemma fill_rows_cons: "a < length f \<Longrightarrow> (fill_rows f a (Suc n) v)[a := f ! a] = fill_rows f (Suc a) n v"
  by (rule nth_equalityI) (auto simp: nth_list_update)

lemma undo_rows_spec:
  "a + n \<le> length f \<Longrightarrow> (\<And>j. a \<le> j \<Longrightarrow> j < a + n \<Longrightarrow> f ! j = 0) \<Longrightarrow>
   undo_rows (fill_rows f a n (NOT 0)) a n = Some f"
proof (induction n arbitrary: a)
  case (Suc n)
  have "undo_rows (fill_rows f (Suc a) n (NOT 0)) (Suc a) n = Some f" by (rule Suc.IH) (use Suc.prems in auto)
  moreover have "f ! a = 0" using Suc.prems by simp
  ultimately show ?case using Suc.prems(1) fill_rows_cons [of a f n "NOT 0"] by simp
qed simp

lemma claim_rows_spec:
  assumes "a + i + n \<le> length f" "\<And>j. a \<le> j \<Longrightarrow> j < a + i \<Longrightarrow> f ! j = 0"
  shows "claim_rows (fill_rows f a i (NOT 0)) a i n =
    Some (if \<forall>j. a \<le> j \<and> j < a + i + n \<longrightarrow> f ! j = 0 then (True, fill_rows f a (i + n) (NOT 0)) else (False, f))"
  using assms
proof (induction n arbitrary: i)
  case (Suc n)
  have at: "fill_rows f a i (NOT 0) ! (a + i) = f ! (a + i)" using Suc.prems(1) by simp
  show ?case
  proof (cases "f ! (a + i) = 0")
    case True
    have "f ! j = 0" if "a \<le> j" "j < a + Suc i" for j using that True Suc.prems(2) by (cases "j = a + i") auto
    with Suc.IH [of "Suc i"] Suc.prems(1) True at show ?thesis by (simp add: fill_rows_snoc)
  next
    case False
    then have "\<not> (\<forall>j. a \<le> j \<and> j < a + i + Suc n \<longrightarrow> f ! j = 0)" by (auto intro!: exI [of _ "a + i"])
    with False undo_rows_spec [of a i f] Suc.prems at show ?thesis by simp
  qed
qed simp

lemma row_bits_0: "v = 0 \<longleftrightarrow> (\<forall>j < 64. \<not> bit (v :: u64) j)"
  using bit_imp_le_length [of v] by (auto simp: bit_eq_iff)

lemma row_bits_ones: "v = NOT 0 \<longleftrightarrow> (\<forall>j < 64. bit (v :: u64) j)"
  by (auto simp: bit_eq_iff bit_not_iff)

definition rows_span :: "nat \<Rightarrow> nat \<Rightarrow> nat set" where
  "rows_span a n = {64 * a..<64 * (a + n)}"

lemma rows_span_at: "j < 64 \<Longrightarrow> 64 * r + j \<in> rows_span a n \<longleftrightarrow> a \<le> r \<and> r < a + n"
  by (auto simp: rows_span_def)

lemma field_cases:
  assumes "x < (512 :: nat)"
  obtains r j where "x = 64 * r + j" "j < 64" "r < 8"
proof (rule that [of "x div 64" "x mod 64"])
qed (use assms in auto)

lemma field_used_bound: "x \<in> field_used f \<Longrightarrow> x < 512"
  by (simp add: field_used_def)

lemma rows_span_bound: "a + n \<le> 8 \<Longrightarrow> x \<in> rows_span a n \<Longrightarrow> x < 512"
  by (auto simp: rows_span_def)

lemma rows_all:
  assumes "a + n \<le> 8" "\<And>v. P v \<longleftrightarrow> (\<forall>j < 64. Q (bit v j))"
  shows "(\<forall>r. a \<le> r \<and> r < a + n \<longrightarrow> P (f ! r)) \<longleftrightarrow> (\<forall>x \<in> rows_span a n. Q (x \<in> field_used f))"
proof (intro iffI ballI allI impI)
  fix x assume p: "\<forall>r. a \<le> r \<and> r < a + n \<longrightarrow> P (f ! r)" and x: "x \<in> rows_span a n"
  obtain r j where r: "x = 64 * r + j" "j < 64" "r < 8" using field_cases [OF rows_span_bound [OF assms(1) x]] .
  then have "a \<le> r" "r < a + n" using x rows_span_at [OF r(2)] by auto
  then have "Q (bit (f ! r) j)" using p assms(2) r(2) by blast
  then show "Q (x \<in> field_used f)" using r field_used_at [OF r(2,3)] by simp
next
  fix r assume q: "\<forall>x \<in> rows_span a n. Q (x \<in> field_used f)" and r: "a \<le> r \<and> r < a + n"
  show "P (f ! r)" unfolding assms(2)
  proof (intro allI impI)
    fix j assume j: "j < (64 :: nat)"
    then have "64 * r + j \<in> rows_span a n" using r rows_span_at by blast
    with q have "Q (64 * r + j \<in> field_used f)" by blast
    then show "Q (bit (f ! r) j)" using field_used_at [OF j, of r f] r assms(1) by simp
  qed
qed

lemma field_used_fill:
  assumes "length f = 8" "a + n \<le> 8"
  shows "field_used (fill_rows f a n (NOT 0)) = field_used f \<union> rows_span a n"
    and "field_used (fill_rows f a n 0) = field_used f - rows_span a n"
proof -
  have "x \<in> field_used (fill_rows f a n v) \<longleftrightarrow>
      (if x \<in> rows_span a n then bit v (x mod 64) else x \<in> field_used f)" for x v
  proof (cases "x < 512")
    case True
    then obtain r j where r: "x = 64 * r + j" "j < 64" "r < 8" using field_cases by blast
    then show ?thesis using assms rows_span_at [OF r(2), of r a n] by (simp add: field_used_at)
  next
    case False
    then show ?thesis using field_used_bound rows_span_bound [OF assms(2)] by auto
  qed
  note fill = this
  show "field_used (fill_rows f a n (NOT 0)) = field_used f \<union> rows_span a n"
    by (rule set_eqI) (simp add: fill bit_not_iff)
  show "field_used (fill_rows f a n 0) = field_used f - rows_span a n"
    by (rule set_eqI) (simp add: fill)
qed

lemma set_row_groups_spec:
  assumes "length f = 8" "2 ^ order = 64 * e" "\<And>c. c \<in> set cs \<Longrightarrow> c * e + e \<le> 8"
  shows "(\<exists>q f'. set_row_groups f e cs = Some (llfree_ok q 0, f') \<and> field_taken f order q f') \<or>
    (set_row_groups f e cs = Some (llfree_err LLFREE_ERR_MEMORY, f) \<and>
     (\<forall>c \<in> set cs. \<not> block (c * 2 ^ order) order \<inter> field_used f = {}))"
  using assms(3)
proof (induction cs)
  case (Cons c cs)
  have c: "c * e + e \<le> 8" using Cons.prems by simp
  have b: "block (c * 2 ^ order) order = rows_span (c * e) e"
    unfolding block_def rows_span_def assms(2) by (simp add: algebra_simps)
  have free: "(\<forall>r. c * e \<le> r \<and> r < c * e + e \<longrightarrow> f ! r = 0) \<longleftrightarrow> block (c * 2 ^ order) order \<inter> field_used f = {}"
    using rows_all [OF c, of "\<lambda>v. v = 0" "\<lambda>b. \<not> b" f] row_bits_0 unfolding b by blast
  have cl: "claim_rows f (c * e) 0 e = Some (if \<forall>r. c * e \<le> r \<and> r < c * e + e \<longrightarrow> f ! r = 0
      then (True, fill_rows f (c * e) e (NOT 0)) else (False, f))"
    using claim_rows_spec [of "c * e" 0 e f] c assms(1) by simp
  show ?case
  proof (cases "block (c * 2 ^ order) order \<inter> field_used f = {}")
    case True
    have "set_row_groups f e (c # cs) = Some (llfree_ok (c * 2 ^ order) 0, fill_rows f (c * e) e (NOT 0))"
      using cl free True by (simp add: assms(2) algebra_simps)
    moreover have "field_taken f order (c * 2 ^ order) (fill_rows f (c * e) e (NOT 0))"
      unfolding field_taken_def field_used_fill(1) [OF assms(1) c] b
      using True b c assms(1) by (auto simp: assms(2) algebra_simps)
    ultimately show ?thesis by blast
  next
    case False
    then have "set_row_groups f e (c # cs) = set_row_groups f e cs" using cl free by simp
    then show ?thesis using Cons False by simp
  qed
qed simp

text \<open>The outcome of a search over all aligned runs.\<close>

definition field_search :: "bitfield \<Rightarrow> nat \<Rightarrow> (llfree_result \<times> bitfield) option \<Rightarrow> bool" where
  "field_search f order out \<longleftrightarrow> (\<exists>q f'. out = Some (llfree_ok q 0, f') \<and> field_taken f order q f') \<or>
     (out = Some (llfree_err LLFREE_ERR_MEMORY, f) \<and>
      (\<forall>q. 2 ^ order dvd q \<longrightarrow> q + 2 ^ order \<le> 512 \<longrightarrow> \<not> block q order \<inter> field_used f = {}))"

lemma field_set_next_small:
  assumes "length f = 8" "order \<le> 6"
  shows "field_search f order (field_set_next f s order)"
proof -
  have "(2 :: nat) ^ order \<le> 2 ^ 6" using assms(2) by (intro power_increasing) auto
  then have e: "field_set_next f s order = set_in_rows f order (for_offsetted (row_from_frame s mod 8) 8)"
    by (simp add: field_set_next_def)
  have all: "set (for_offsetted (row_from_frame s mod 8) 8) = {0..<8}"
    by (rule set_for_offsetted_low) simp
  have "\<not> block q order \<inter> field_used f = {}"
    if n: "\<forall>i \<in> {0..<8}. \<forall>k < 64 div 2 ^ order. \<not> block (64 * i + k * 2 ^ order) order \<inter> field_used f = {}"
      and q: "2 ^ order dvd q" "q + 2 ^ order \<le> 512" for q
  proof -
    obtain r k where "r < 8" "k < 64 div 2 ^ order" "q = 64 * r + k * 2 ^ order" by (rule row_aligned [OF assms(2) q])
    with n show ?thesis by simp
  qed
  moreover have "i < 8" if "i \<in> {0..<8}" for i :: nat using that by simp
  ultimately show ?thesis using set_in_rows_spec [OF assms, of "for_offsetted (row_from_frame s mod 8) 8", unfolded all]
    unfolding field_search_def e by blast
qed

lemma field_set_next_rows:
  assumes "length f = 8" "order = 7 \<and> e = (2 :: nat) \<or> order = 8 \<and> e = 4"
  shows "field_search f order (field_set_next f s order)"
proof -
  define g where "g = 8 div e"
  have e: "2 ^ order = 64 * e" "0 < e" "0 < g" "e * g = 8" using assms(2) by (auto simp: g_def)
  define cs where "cs = for_offsetted (row_from_frame s mod 8 div e) g"
  have "row_from_frame s mod 8 < e * g" unfolding e(4) by simp
  then have "row_from_frame s mod 8 div e < g" using e(2) by (metis less_mult_imp_div_less mult.commute)
  then have cs: "set cs = {0..<g}" unfolding cs_def by (rule set_for_offsetted_low)
  have fs: "field_set_next f s order = set_row_groups f e cs"
    using assms(2) by (auto simp: field_set_next_def cs_def g_def)
  have "c * e + e \<le> 8" if "c \<in> set cs" for c
  proof -
    have "Suc c * e \<le> g * e" using that cs by (intro mult_le_mono1) auto
    then show ?thesis using e(4) by (simp add: mult.commute)
  qed
  note groups = set_row_groups_spec [OF assms(1) e(1) this]
  have "\<not> block q order \<inter> field_used f = {}"
    if n: "\<forall>c \<in> set cs. \<not> block (c * 2 ^ order) order \<inter> field_used f = {}"
      and q: "2 ^ order dvd q" "q + 2 ^ order \<le> 512" for q
  proof -
    obtain c where c: "q = 2 ^ order * c" using q(1) by blast
    have "64 * (e * Suc c) \<le> 64 * (e * g)" using q(2) unfolding c e(1) e(4) by simp
    then have "Suc c \<le> g" using e(2) by (simp del: mult_Suc_right)
    then have "c \<in> set cs" using cs by simp
    with n c show ?thesis by (simp add: mult.commute)
  qed
  with groups show ?thesis unfolding field_search_def fs by blast
qed

lemma field_set_next_spec:
  assumes "length f = 8" "order \<le> 8"
  shows "field_search f order (field_set_next f s order)"
proof (cases "order \<le> 6")
  case False
  then have "order = 7 \<or> order = 8" using assms(2) by linarith
  then show ?thesis using field_set_next_rows [OF assms(1), of order] by blast
qed (rule field_set_next_small [OF assms(1)])

subsection \<open>Switching a run\<close>

lemma bit_run_mask:
  assumes "0 < w" "w \<le> 64"
  shows "bit (push_bit p (drop_bit (64 - w) (NOT 0)) :: u64) i \<longleftrightarrow> p \<le> i \<and> i < p + w \<and> i < 64"
proof -
  have a: "64 - w + j < 64 \<longleftrightarrow> j < w" for j using assms by linarith
  have "bit (NOT 0 :: u64) j \<longleftrightarrow> j < 64" for j by simp
  then have d: "bit (drop_bit (64 - w) (NOT 0) :: u64) j \<longleftrightarrow> j < w" for j
    unfolding bit_drop_bit_eq comp_def using a [of j] by blast
  have p: "bit (push_bit p y :: u64) i \<longleftrightarrow> p \<le> i \<and> i < 64 \<and> bit y (i - p)" for y
    by (auto simp: bit_push_bit_iff)
  have "i - p < w \<longleftrightarrow> i < p + w" if "p \<le> i" using that by linarith
  then show ?thesis unfolding p d by blast
qed

lemma row_toggle_spec:
  assumes w: "0 < w" "p + w \<le> 64"
  defines "m \<equiv> push_bit p (drop_bit (64 - w) (NOT 0)) :: u64"
  shows "row_toggle v m False = (if run_free v w p then Some (set_run v w p) else None)"
    and "row_toggle v m True = (if \<forall>i < w. bit v (p + i) then Some (v AND NOT m) else None)"
proof -
  have m: "bit m i \<longleftrightarrow> p \<le> i \<and> i < p + w" for i using bit_run_mask [of w p i] w by (auto simp: m_def)
  have "v AND m = 0 \<longleftrightarrow> run_free v w p"
  proof
    assume e: "v AND m = 0"
    have "\<not> (bit v (p + i) \<and> bit m (p + i))" for i using arg_cong [OF e, of "\<lambda>x. bit x (p + i)"] by (simp add: bit_and_iff)
    then show "run_free v w p" unfolding run_free_def m by auto
  next
    assume r: "run_free v w p"
    show "v AND m = 0"
    proof (rule bit_eqI)
      fix i
      show "bit (v AND m) i = bit 0 i" using r [unfolded run_free_def, rule_format, of "i - p"] by (auto simp: bit_and_iff m less_diff_conv2)
    qed
  qed
  moreover have "v OR m = set_run v w p" by (rule bit_eqI) (use w in \<open>auto simp: bit_or_iff m bit_set_run\<close>)
  ultimately show "row_toggle v m False = (if run_free v w p then Some (set_run v w p) else None)"
    by (simp add: row_toggle_def)
  have "v AND m = m \<longleftrightarrow> (\<forall>i < w. bit v (p + i))"
  proof
    assume e: "v AND m = m"
    have "bit m (p + i) \<longrightarrow> bit v (p + i)" for i using arg_cong [OF e, of "\<lambda>x. bit x (p + i)"] by (auto simp: bit_and_iff)
    then show "\<forall>i < w. bit v (p + i)" unfolding m by auto
  next
    assume r: "\<forall>i < w. bit v (p + i)"
    show "v AND m = m"
    proof (rule bit_eqI)
      fix i
      show "bit (v AND m) i = bit m i" using r [rule_format, of "i - p"] by (auto simp: bit_and_iff m less_diff_conv2)
    qed
  qed
  then show "row_toggle v m True = (if \<forall>i < w. bit v (p + i) then Some (v AND NOT m) else None)"
    by (simp add: row_toggle_def)
qed

lemma row_block_full:
  assumes "r < 8" "p + 2 ^ order \<le> 64"
  shows "(\<forall>i < 2 ^ order. bit (f ! r) (p + i)) \<longleftrightarrow> block (64 * r + p) order \<subseteq> field_used f"
proof
  assume a: "\<forall>i < 2 ^ order. bit (f ! r) (p + i)"
  show "block (64 * r + p) order \<subseteq> field_used f"
  proof
    fix x assume "x \<in> block (64 * r + p) order"
    then obtain i where i: "x = 64 * r + (p + i)" "p + i < 64" "i < 2 ^ order" by (rule in_row [OF assms(2)])
    then show "x \<in> field_used f" using a field_used_at [OF i(2) assms(1)] by blast
  qed
next
  assume a: "block (64 * r + p) order \<subseteq> field_used f"
  show "\<forall>i < 2 ^ order. bit (f ! r) (p + i)"
  proof (intro allI impI)
    fix i assume i: "i < (2 :: nat) ^ order"
    have "p + i < 64" using i assms(2) by simp
    moreover have "64 * r + (p + i) \<in> block (64 * r + p) order" using i by simp
    ultimately show "bit (f ! r) (p + i)" using a field_used_at [of "p + i" r f] assms(1) by blast
  qed
qed

lemma row_clear_run:
  assumes "length f = 8" "r < 8" "p + 2 ^ order \<le> 64"
  shows "field_used (f[r := f ! r AND NOT (push_bit p (drop_bit (64 - 2 ^ order) (NOT 0)))]) =
    field_used f - block (64 * r + p) order" (is "field_used (f[r := ?v]) = _")
proof (rule set_eqI)
  fix x
  have m: "bit (push_bit p (drop_bit (64 - 2 ^ order) (NOT 0)) :: u64) i \<longleftrightarrow> p \<le> i \<and> i < p + 2 ^ order" for i
    using bit_run_mask [of "2 ^ order" p i] assms(3) by auto
  show "x \<in> field_used (f[r := ?v]) \<longleftrightarrow> x \<in> field_used f - block (64 * r + p) order"
  proof (cases "x div 64 = r")
    case True
    define j where "j = x mod 64"
    have x: "x = 64 * r + j" "j < 64" using mult_div_mod_eq [of 64 x] True by (simp_all add: j_def)
    have b: "x \<in> block (64 * r + p) order \<longleftrightarrow> p \<le> j \<and> j < p + 2 ^ order" unfolding x(1) by auto
    have "bit ?v j \<longleftrightarrow> bit (f ! r) j \<and> \<not> (p \<le> j \<and> j < p + 2 ^ order)"
      unfolding bit_and_iff bit_not_iff m using x(2) by simp
    then show ?thesis unfolding Diff_iff b
      using field_used_at [OF x(2) assms(2), of f] field_used_at [OF x(2) assms(2), of "f[r := ?v]"] assms(1,2)
      by (simp add: x(1))
  next
    case False
    then have "\<not> (64 * r \<le> x \<and> x < 64 * r + 64)" using div_nat_eqI [of 64 r x] by auto
    then have "x \<notin> block (64 * r + p) order" using assms(3) by auto
    then show ?thesis unfolding field_used_update [OF assms(1,2), of x] Diff_iff using False by (simp del: block_mem)
  qed
qed

lemma fill_rows_head:
  "r < length f \<Longrightarrow> fill_rows (f[r := v]) (Suc r) n v = fill_rows f r (Suc n) v"
  by (rule nth_equalityI) (auto simp: nth_list_update)

definition old_row :: "bool \<Rightarrow> u64" where
  "old_row expected = (if expected then NOT 0 else 0)"

lemma toggle_rows_Suc:
  assumes "r < length f"
  shows "toggle_rows f r expected (Suc n) =
    (if f ! r = old_row expected then toggle_rows (f[r := NOT (old_row expected)]) (Suc r) expected n
     else Some (llfree_err LLFREE_ERR_ADDRESS, f))"
  using assms by (simp add: old_row_def)

lemma toggle_rows_ok:
  assumes "r + n \<le> length f" "\<And>j. r \<le> j \<Longrightarrow> j < r + n \<Longrightarrow> f ! j = old_row expected"
  shows "toggle_rows f r expected n = Some (llfree_err LLFREE_ERR_OK, fill_rows f r n (NOT (old_row expected)))"
  using assms
proof (induction n arbitrary: f r)
  case (Suc n)
  let ?f = "f[r := NOT (old_row expected)]"
  have "toggle_rows ?f (Suc r) expected n = Some (llfree_err LLFREE_ERR_OK, fill_rows ?f (Suc r) n (NOT (old_row expected)))"
  proof (rule Suc.IH)
    fix j assume "Suc r \<le> j" "j < Suc r + n"
    then show "?f ! j = old_row expected" using Suc.prems(2) [of j] by simp
  qed (use Suc.prems(1) in simp)
  moreover have "r < length f" using Suc.prems(1) by simp
  ultimately show ?case unfolding toggle_rows_Suc [OF \<open>r < length f\<close>]
    using Suc.prems(2) [of r] fill_rows_head [of r f "NOT (old_row expected)" n] by simp
qed simp

lemma toggle_rows_fail:
  assumes "r + n \<le> length f" "r \<le> j" "j < r + n" "f ! j \<noteq> old_row expected"
  shows "\<exists>f'. toggle_rows f r expected n = Some (llfree_err LLFREE_ERR_ADDRESS, f') \<and> length f' = length f"
  using assms
proof (induction n arbitrary: f r)
  case (Suc n)
  have r: "r < length f" using Suc.prems(1) by simp
  show ?case
  proof (cases "f ! r = old_row expected")
    case True
    let ?f = "f[r := NOT (old_row expected)]"
    have j: "Suc r \<le> j" using Suc.prems(2,4) True by (cases "j = r") auto
    then have "?f ! j \<noteq> old_row expected" using Suc.prems(4) by simp
    with Suc.IH [of "Suc r" ?f] Suc.prems(1,3) j show ?thesis unfolding toggle_rows_Suc [OF r] using True by auto
  next
    case False
    then show ?thesis unfolding toggle_rows_Suc [OF r] by simp
  qed
qed simp

text \<open>The outcome of switching the run at \<open>q\<close>: it succeeds exactly when every bit has the
  expected value; for runs of at most one row a failure changes nothing.\<close>

definition run_expected :: "bitfield \<Rightarrow> nat \<Rightarrow> nat \<Rightarrow> bool \<Rightarrow> bool" where
  "run_expected f q order expected \<longleftrightarrow>
     (if expected then block q order \<subseteq> field_used f else block q order \<inter> field_used f = {})"

definition run_switched :: "bitfield \<Rightarrow> nat \<Rightarrow> nat \<Rightarrow> bool \<Rightarrow> bitfield \<Rightarrow> bool" where
  "run_switched f q order expected f' \<longleftrightarrow> length f' = 8 \<and>
     field_used f' = (if expected then field_used f - block q order else field_used f \<union> block q order)"

lemma field_toggle_small:
  assumes "length f = 8" "order \<le> 6" "r < 8" "k < 64 div 2 ^ order"
  defines "q \<equiv> 64 * r + k * 2 ^ order"
  shows "if run_expected f q order expected
    then \<exists>f'. field_toggle f q order expected = Some (llfree_err LLFREE_ERR_OK, f') \<and> run_switched f q order expected f'
    else field_toggle f q order expected = Some (llfree_err LLFREE_ERR_ADDRESS, f)"
proof -
  note le = run_in_row(1) [OF assms(2,4)]
  have w: "(2 :: nat) ^ order \<le> 64" "0 < (2 :: nat) ^ order" using le by auto
  then have p: "k * 2 ^ order < 64" using le by linarith
  define p where "p = k * 2 ^ order"
  have pos: "get_pos q = (r, p)" using p assms(3) by (simp add: get_pos_def q_def p_def)
  have q: "q < 512" "q = 64 * r + p" using p assms(3) by (simp_all add: q_def p_def)
  let ?m = "push_bit p (drop_bit (64 - 2 ^ order) (NOT 0)) :: u64"
  have ft: "field_toggle f q order expected = (case row_toggle (f ! r) ?m expected of
      Some v' \<Rightarrow> Some (llfree_err LLFREE_ERR_OK, f[r := v']) | None \<Rightarrow> Some (llfree_err LLFREE_ERR_ADDRESS, f))"
    unfolding field_toggle_def pos using q(1) w(1) assms(1,3) by (simp split: option.split)
  have le: "p + 2 ^ order \<le> 64" using le by (simp add: p_def)
  note rt = row_toggle_spec [OF w(2) le, of "f ! r"]
  show ?thesis
  proof (cases expected)
    case True
    then have x: "expected = True" by simp
    have e: "run_expected f q order True \<longleftrightarrow> (\<forall>i < 2 ^ order. bit (f ! r) (p + i))"
      unfolding run_expected_def q(2) using row_block_full [OF assms(3) le] by simp
    have "run_switched f q order True (f[r := f ! r AND NOT ?m])"
      unfolding run_switched_def q(2) row_clear_run [OF assms(1,3) le] using assms(1) by simp
    then show ?thesis unfolding x ft [unfolded x] rt(2) e by auto
  next
    case False
    then have x: "expected = False" by simp
    have e: "run_expected f q order False \<longleftrightarrow> run_free (f ! r) (2 ^ order) p"
      unfolding run_expected_def q(2) using row_block [OF assms(3) le] by simp
    have "run_switched f q order False (f[r := set_run (f ! r) (2 ^ order) p])"
      unfolding run_switched_def q(2) row_set_run [OF assms(1,3) le] using assms(1) by simp
    then show ?thesis unfolding x ft [unfolded x] rt(1) e by auto
  qed
qed

lemma field_toggle_rows:
  assumes "length f = 8" "order = 7 \<and> e = (2 :: nat) \<or> order = 8 \<and> e = 4" "c * e + e \<le> 8"
  defines "q \<equiv> 64 * (c * e)"
  shows "if run_expected f q order expected
    then \<exists>f'. field_toggle f q order expected = Some (llfree_err LLFREE_ERR_OK, f') \<and> run_switched f q order expected f'
    else \<exists>f'. field_toggle f q order expected = Some (llfree_err LLFREE_ERR_ADDRESS, f') \<and> length f' = 8"
proof -
  have w: "2 ^ order = 64 * e" "0 < e" using assms(2) by auto
  have ce: "c * e < 8" using assms(3) w(2) by linarith
  have pos: "get_pos q = (c * e, 0)" using ce by (simp add: get_pos_def q_def)
  have ft: "field_toggle f q order expected = toggle_rows f (c * e) expected e"
    unfolding field_toggle_def pos using ce assms(2) by (auto simp: q_def)
  have b: "block q order = rows_span (c * e) e"
    unfolding block_def rows_span_def w q_def by (simp add: algebra_simps)
  have len: "c * e + e \<le> length f" using assms(1,3) by simp
  have ex: "run_expected f q order expected \<longleftrightarrow>
      (\<forall>r. c * e \<le> r \<and> r < c * e + e \<longrightarrow> f ! r = old_row expected)"
  proof (cases expected)
    case True
    then show ?thesis using rows_all [OF assms(3), of "\<lambda>v. v = NOT 0" "\<lambda>b. b" f] row_bits_ones
      unfolding run_expected_def old_row_def b subset_eq by simp
  next
    case False
    then show ?thesis using rows_all [OF assms(3), of "\<lambda>v. v = 0" "\<lambda>b. \<not> b" f] row_bits_0
      unfolding run_expected_def old_row_def b disjoint_iff by auto
  qed
  show ?thesis
  proof (cases "run_expected f q order expected")
    case True
    have "run_switched f q order expected (fill_rows f (c * e) e (NOT (old_row expected)))"
      unfolding run_switched_def b using field_used_fill [OF assms(1,3)] assms(1) by (simp add: old_row_def)
    moreover have "toggle_rows f (c * e) expected e =
        Some (llfree_err LLFREE_ERR_OK, fill_rows f (c * e) e (NOT (old_row expected)))"
      by (rule toggle_rows_ok [OF len]) (use True ex in blast)
    ultimately show ?thesis unfolding ft using True by auto
  next
    case False
    then obtain j where "c * e \<le> j" "j < c * e + e" "f ! j \<noteq> old_row expected" using ex by blast
    from toggle_rows_fail [OF len this] show ?thesis unfolding ft using False assms(1) by simp
  qed
qed

lemma field_toggle_spec:
  assumes "length f = 8" "order \<le> 8" "2 ^ order dvd q" "q + 2 ^ order \<le> 512"
  shows "if run_expected f q order expected
    then \<exists>f'. field_toggle f q order expected = Some (llfree_err LLFREE_ERR_OK, f') \<and> run_switched f q order expected f'
    else \<exists>f'. field_toggle f q order expected = Some (llfree_err LLFREE_ERR_ADDRESS, f') \<and> length f' = 8 \<and>
           (order \<le> 6 \<longrightarrow> f' = f)"
proof (cases "order \<le> 6")
  case True
  obtain r k where rk: "r < 8" "k < 64 div 2 ^ order" "q = 64 * r + k * 2 ^ order"
    by (rule row_aligned [OF True assms(3,4)])
  then show ?thesis using field_toggle_small [OF assms(1) True rk(1,2), of expected] assms(1) by simp
next
  case False
  define e :: nat where "e = (if order = 7 then 2 else 4)"
  have "order = 7 \<or> order = 8" using False assms(2) by linarith
  then have e: "order = 7 \<and> e = 2 \<or> order = 8 \<and> e = 4" "2 ^ order = 64 * e" by (auto simp: e_def)
  obtain c where c: "q = 2 ^ order * c" using assms(3) by blast
  have "c * e + e \<le> 8" using assms(4) unfolding c e(2) by (simp add: algebra_simps)
  moreover have "q = 64 * (c * e)" unfolding c e(2) by simp
  ultimately show ?thesis using field_toggle_rows [OF assms(1) e(1), of c expected] False by simp
qed

text \<open>Counting.\<close>

lemma field_used_rows: "field_used f = (\<Union>r < 8. (\<lambda>j. 64 * r + j) ` ones (f ! r))"
proof (rule set_eqI)
  fix x
  show "x \<in> field_used f \<longleftrightarrow> x \<in> (\<Union>r < 8. (\<lambda>j. 64 * r + j) ` ones (f ! r))"
  proof
    assume x: "x \<in> field_used f"
    obtain r j where r: "x = 64 * r + j" "j < 64" "r < 8" using field_cases [OF field_used_bound [OF x]] .
    then have "j \<in> ones (f ! r)" using x field_used_at [OF r(2,3)] by (simp add: ones_def)
    then show "x \<in> (\<Union>r < 8. (\<lambda>j. 64 * r + j) ` ones (f ! r))" using r by blast
  next
    assume "x \<in> (\<Union>r < 8. (\<lambda>j. 64 * r + j) ` ones (f ! r))"
    then obtain r j where r: "x = 64 * r + j" "j \<in> ones (f ! r)" "r < 8" by blast
    have "j < 64" using r(2) ones_sub by fastforce
    then show "x \<in> field_used f" using r field_used_at by (simp add: ones_def)
  qed
qed

lemma field_used_finite [simp]: "finite (field_used f)"
  by (simp add: field_used_def)

lemma field_count_ones_spec: "field_count_ones f = Some (card (field_used f))"
proof -
  have "card (field_used f) = (\<Sum>r < 8. card ((\<lambda>j. 64 * r + j) ` ones (f ! r)))"
    unfolding field_used_rows
  proof (rule card_UN_disjoint)
    show "\<forall>i \<in> {..<8}. \<forall>j \<in> {..<8}. i \<noteq> j \<longrightarrow>
        (\<lambda>k. 64 * i + k) ` ones (f ! i) \<inter> (\<lambda>k. 64 * j + k) ` ones (f ! j) = {}"
    proof (intro ballI impI equals0I)
      fix i j x assume d: "i \<noteq> j" and "x \<in> (\<lambda>k. 64 * i + k) ` ones (f ! i) \<inter> (\<lambda>k. 64 * j + k) ` ones (f ! j)"
      then obtain a b where ab: "x = 64 * i + a" "x = 64 * j + b" "a \<in> ones (f ! i)" "b \<in> ones (f ! j)" by blast
      have "a < 64" "b < 64" using ab(3,4) ones_sub by fastforce+
      then show False using ab(1,2) d by linarith
    qed
  qed auto
  also have "\<dots> = (\<Sum>r < 8. count_ones (f ! r))" by (simp add: card_image inj_on_def count_ones_card)
  finally have c: "(\<Sum>i \<leftarrow> [0..<8]. count_ones (f ! i)) = card (field_used f)"
    by (simp add: interv_sum_list_conv_sum_set_nat lessThan_atLeast0)
  have "card (field_used f) \<le> card {..<512 :: nat}" by (rule card_mono) (auto simp: field_used_def)
  then show ?thesis by (simp add: field_count_ones_def c)
qed

end
