(* ===== verification/LLFree_Lower.thy ===== *)
theory LLFree_Lower
  imports LLFree_Field
begin

text \<open>
  The lower allocator of \<^verbatim>\<open>kernel/mm/llfree/lower.c\<close> with the child entries of
  \<^verbatim>\<open>child.c\<close> and \<^verbatim>\<open>child.h\<close>. A child stands for 512 frames: a counter of its free frames,
  or the mark that it is allocated as one huge frame, next to its bit field. The array of child
  entries, eight to a tree, is one list. Operations run one at a time.
\<close>

subsection \<open>Child entries\<close>

record child =
  child_free :: nat
  child_huge :: bool

definition child_new :: "nat \<Rightarrow> bool \<Rightarrow> child option" where
  "child_new f h =
     do { bug_on (\<not> f \<le> LLFREE_CHILD_SIZE);
          bug_on (\<not> (\<not> h \<or> f = 0));
          Some \<lparr>child_free = f, child_huge = h\<rparr> }"

definition child_inc :: "child \<Rightarrow> nat \<Rightarrow> child option" where
  "child_inc c order =
     (let num_pages = 2 ^ order in
      if child_huge c \<or> (child_free c + num_pages) mod 2 ^ 32 > LLFREE_CHILD_SIZE then None
      else Some (c\<lparr>child_free := (child_free c + num_pages) mod 2 ^ 31\<rparr>))"

definition child_dec :: "child \<Rightarrow> nat \<Rightarrow> child option" where
  "child_dec c order =
     (let num_pages = 2 ^ order in
      if \<not> child_huge c \<and> child_free c \<ge> num_pages then Some (c\<lparr>child_free := child_free c - num_pages\<rparr>)
      else None)"

definition child_set_huge :: "child \<Rightarrow> child option option" where
  "child_set_huge c =
     (if child_free c = LLFREE_CHILD_SIZE
      then do { bug_on (child_huge c); c' \<leftarrow> child_new 0 True; Some (Some c') }
      else Some None)"

definition child_clear_huge :: "child \<Rightarrow> child option option" where
  "child_clear_huge c =
     (if child_huge c
      then do { bug_on (child_free c \<noteq> 0); c' \<leftarrow> child_new LLFREE_CHILD_SIZE False; Some (Some c') }
      else Some None)"

definition child_set_max :: "child \<times> child \<Rightarrow> (child \<times> child) option option" where
  "child_set_max p =
     (case p of (a, b) \<Rightarrow>
        if child_free a = LLFREE_CHILD_SIZE \<and> child_free b = LLFREE_CHILD_SIZE
        then do { bug_on (child_huge a \<or> child_huge b);
                  a' \<leftarrow> child_new 0 True; b' \<leftarrow> child_new 0 True; Some (Some (a', b')) }
        else Some None)"

definition child_clear_max :: "child \<times> child \<Rightarrow> (child \<times> child) option option" where
  "child_clear_max p =
     (case p of (a, b) \<Rightarrow>
        if child_huge a \<and> child_huge b
        then do { bug_on (\<not> (child_free a = 0 \<and> child_free b = 0));
                  a' \<leftarrow> child_new LLFREE_CHILD_SIZE False; b' \<leftarrow> child_new LLFREE_CHILD_SIZE False;
                  Some (Some (a', b')) }
        else Some None)"

subsection \<open>The lower allocator\<close>

record lower =
  frames :: nat
  bitfields :: "bitfield list"
  children :: "child list"

definition child_count :: "lower \<Rightarrow> nat" where
  "child_count self = div_ceil (frames self) LLFREE_CHILD_SIZE"

definition get_child :: "lower \<Rightarrow> nat \<Rightarrow> child option" where
  "get_child self i =
     do { bug_on (\<not> i < align_up (child_count self) LLFREE_TREE_CHILDREN); load_at (children self) i }"

definition set_child :: "lower \<Rightarrow> nat \<Rightarrow> child \<Rightarrow> lower option" where
  "set_child self i c =
     do { bug_on (\<not> i < align_up (child_count self) LLFREE_TREE_CHILDREN);
          cs \<leftarrow> store_at (children self) i c;
          Some (self\<lparr>children := cs\<rparr>) }"

definition set_field :: "lower \<Rightarrow> nat \<Rightarrow> bitfield \<Rightarrow> lower option" where
  "set_field self i f = do { fs \<leftarrow> store_at (bitfields self) i f; Some (self\<lparr>bitfields := fs\<rparr>) }"

text \<open>A bit field and the eight entries of a tree take 64 bytes each.\<close>

definition lower_metadata_size :: "nat \<Rightarrow> nat" where
  "lower_metadata_size n =
     (let cs = div_ceil n LLFREE_CHILD_SIZE; trees = div_ceil cs LLFREE_TREE_CHILDREN in
      align_up (cs * 64) 64 + align_up (trees * 64) (max 64 64))"

definition zero_field :: "bitfield \<Rightarrow> bitfield" where
  "zero_field f = replicate FIELD_N 0"

fun init_rows :: "nat \<Rightarrow> nat \<Rightarrow> bitfield" where
  "init_rows 0 free = []"
| "init_rows (Suc n) free =
     (if free \<ge> LLFREE_ATOMIC_SIZE then 0 # init_rows n (free - LLFREE_ATOMIC_SIZE)
      else if free > 0 then push_bit free (NOT 0) # init_rows n 0
      else NOT 0 # init_rows n 0)"

definition init_field :: "bitfield \<Rightarrow> nat \<Rightarrow> bitfield" where
  "init_field f free = init_rows FIELD_N free"

fun clear_children :: "bool \<Rightarrow> nat list \<Rightarrow> lower \<Rightarrow> lower option" where
  "clear_children free_all [] self = Some self"
| "clear_children free_all (i # is) self =
     do { let f = min LLFREE_CHILD_SIZE (frames self - i * LLFREE_CHILD_SIZE);
          let free = (if free_all then f else 0);
          c \<leftarrow> child_new (free mod 2 ^ 16) (free = 0);
          self1 \<leftarrow> set_child self i c;
          old \<leftarrow> load_at (bitfields self1) i;
          self2 \<leftarrow> set_field self1 i (if free = 0 then zero_field old else init_field old free);
          clear_children free_all is self2 }"

fun pad_children :: "nat list \<Rightarrow> lower \<Rightarrow> lower option" where
  "pad_children [] self = Some self"
| "pad_children (i # is) self =
     do { c \<leftarrow> child_new 0 True; self1 \<leftarrow> set_child self i c; pad_children is self1 }"

definition lower_clear :: "lower \<Rightarrow> bool \<Rightarrow> lower option" where
  "lower_clear self free_all =
     do { let child_c = child_count self;
          self1 \<leftarrow> clear_children free_all [0..<child_c] self;
          pad_children [child_c..<align_up child_c LLFREE_TREE_CHILDREN] self1 }"

fun recover_children :: "nat list \<Rightarrow> lower \<Rightarrow> lower option" where
  "recover_children [] self = Some self"
| "recover_children (i # is) self =
     do { c \<leftarrow> get_child self i;
          f \<leftarrow> load_at (bitfields self) i;
          self' \<leftarrow>
            (if child_huge c
             then do { c' \<leftarrow> child_new 0 True; self1 \<leftarrow> set_child self i c'; set_field self1 i (field_init f) }
             else do { k \<leftarrow> field_count_ones f;
                       c' \<leftarrow> child_new ((LLFREE_CHILD_SIZE - k) mod 2 ^ 16) False;
                       set_child self i c' });
          recover_children is self' }"

definition lower_recover :: "lower \<Rightarrow> lower option" where
  "lower_recover self = recover_children [0..<child_count self] self"

definition LLFREE_INIT_FREE :: nat where "LLFREE_INIT_FREE = 0"
definition LLFREE_INIT_ALLOC :: nat where "LLFREE_INIT_ALLOC = 1"
definition LLFREE_INIT_RECOVER :: nat where "LLFREE_INIT_RECOVER = 2"
definition LLFREE_INIT_NONE :: nat where "LLFREE_INIT_NONE = 4"
definition LLFREE_INIT_MAX :: nat where "LLFREE_INIT_MAX = 5"

lemmas llfree_init_defs = LLFREE_INIT_FREE_def LLFREE_INIT_ALLOC_def LLFREE_INIT_RECOVER_def
  LLFREE_INIT_NONE_def LLFREE_INIT_MAX_def

text \<open>\<open>lower_init\<close>: the arrays are those found in the metadata memory.\<close>

definition lower_init :: "bitfield list \<Rightarrow> child list \<Rightarrow> nat \<Rightarrow> nat \<Rightarrow> (llfree_result \<times> lower) option" where
  "lower_init fs cs n init =
     (let self = \<lparr>frames = n, bitfields = fs, children = cs\<rparr> in
      if init = LLFREE_INIT_FREE then
        do { self' \<leftarrow> lower_clear self True; Some (llfree_err LLFREE_ERR_OK, self') }
      else if init = LLFREE_INIT_ALLOC then
        do { self' \<leftarrow> lower_clear self False; Some (llfree_err LLFREE_ERR_OK, self') }
      else if init = LLFREE_INIT_NONE then Some (llfree_err LLFREE_ERR_OK, self)
      else if init = LLFREE_INIT_RECOVER then
        do { self' \<leftarrow> lower_recover self; Some (llfree_err LLFREE_ERR_OK, self') }
      else Some (llfree_err LLFREE_ERR_INIT, self))"

subsection \<open>Allocation\<close>

definition update_pair ::
    "(child \<times> child \<Rightarrow> (child \<times> child) option option) \<Rightarrow> lower \<Rightarrow> nat \<Rightarrow> (bool \<times> lower) option" where
  "update_pair fn self i =
     do { a \<leftarrow> get_child self i;
          b \<leftarrow> load_at (children self) (Suc i);
          r \<leftarrow> fn (a, b);
          case r of
            Some (a', b') \<Rightarrow>
              do { self1 \<leftarrow> set_child self i a';
                   cs \<leftarrow> store_at (children self1) (Suc i) b';
                   Some (True, self1\<lparr>children := cs\<rparr>) }
          | None \<Rightarrow> Some (False, self) }"

definition update_child :: "(child \<Rightarrow> child option option) \<Rightarrow> lower \<Rightarrow> nat \<Rightarrow> (bool \<times> lower) option" where
  "update_child fn self i =
     do { c \<leftarrow> get_child self i;
          r \<leftarrow> fn c;
          case r of
            Some c' \<Rightarrow> do { self1 \<leftarrow> set_child self i c'; Some (True, self1) }
          | None \<Rightarrow> Some (False, self) }"

fun max_in :: "lower \<Rightarrow> nat list \<Rightarrow> (llfree_result \<times> lower) option" where
  "max_in self [] = Some (llfree_err LLFREE_ERR_MEMORY, self)"
| "max_in self (current_i # is) =
     do { (ok, self') \<leftarrow> update_pair child_set_max self (current_i * 2);
          if ok then Some (llfree_ok (frame_from_child (current_i * 2)) 0, self')
          else max_in self' is }"

definition get_max :: "lower \<Rightarrow> nat \<Rightarrow> (llfree_result \<times> lower) option" where
  "get_max self f =
     do { let idx = child_from_frame f div 2;
          bug_on (\<not> idx < child_count self div 2);
          max_in self (for_offsetted idx (LLFREE_TREE_CHILDREN div 2)) }"

fun huge_in :: "lower \<Rightarrow> nat list \<Rightarrow> (llfree_result \<times> lower) option" where
  "huge_in self [] = Some (llfree_err LLFREE_ERR_MEMORY, self)"
| "huge_in self (current_i # is) =
     do { (ok, self') \<leftarrow> update_child child_set_huge self current_i;
          if ok then Some (llfree_ok (frame_from_child current_i) 0, self')
          else huge_in self' is }"

definition get_huge :: "lower \<Rightarrow> nat \<Rightarrow> (llfree_result \<times> lower) option" where
  "get_huge self f =
     do { let idx = child_from_frame f;
          bug_on (\<not> idx < child_count self);
          huge_in self (for_offsetted idx LLFREE_TREE_CHILDREN) }"

fun small_in :: "lower \<Rightarrow> nat \<Rightarrow> nat \<Rightarrow> nat list \<Rightarrow> (llfree_result \<times> lower) option" where
  "small_in self f order [] = Some (llfree_err LLFREE_ERR_MEMORY, self)"
| "small_in self f order (current_i # is) =
     do { (ok, self1) \<leftarrow> update_child (\<lambda>c. Some (child_dec c order)) self current_i;
          if \<not> ok then small_in self1 f order is
          else do {
            field \<leftarrow> load_at (bitfields self1) current_i;
            (pos, field') \<leftarrow> field_set_next field f order;
            self2 \<leftarrow> set_field self1 current_i field';
            if llfree_is_ok pos then Some (llfree_ok (frame_from_child current_i + frame pos) 0, self2)
            else do {
              (ok, self3) \<leftarrow> update_child (\<lambda>c. Some (child_inc c order)) self2 current_i;
              bug_on (\<not> ok);
              small_in self3 f order is } } }"

definition lower_get_inner :: "lower \<Rightarrow> nat \<Rightarrow> nat \<Rightarrow> (llfree_result \<times> lower) option" where
  "lower_get_inner self f order =
     (if order = LLFREE_MAX_ORDER then get_max self f
      else if order = LLFREE_HUGE_ORDER then get_huge self f
      else do {
        let idx = child_from_frame f;
        bug_on (\<not> idx < child_count self);
        small_in self f order (for_offsetted idx LLFREE_TREE_CHILDREN) })"

text \<open>The end of \<open>lower_get\<close> for a given frame below the size of a child.\<close>

definition get_bits :: "lower \<Rightarrow> nat \<Rightarrow> nat \<Rightarrow> (llfree_result \<times> lower) option" where
  "get_bits self f order =
     do { let child_idx = child_from_frame f;
          (ok, self1) \<leftarrow> update_child (\<lambda>c. Some (child_dec c order)) self child_idx;
          if \<not> ok then Some (llfree_err LLFREE_ERR_MEMORY, self1)
          else do {
            field \<leftarrow> load_at (bitfields self1) child_idx;
            (ret, field') \<leftarrow> field_toggle field (f mod LLFREE_CHILD_SIZE) order False;
            self2 \<leftarrow> set_field self1 child_idx field';
            if llfree_is_ok ret then Some (llfree_ok f 0, self2)
            else do {
              (ok, self3) \<leftarrow> update_child (\<lambda>c. Some (child_inc c order)) self2 child_idx;
              bug_on (\<not> ok);
              Some (llfree_err LLFREE_ERR_MEMORY, self3) } } }"

definition lower_get :: "lower \<Rightarrow> nat \<Rightarrow> nat \<Rightarrow> nat option \<Rightarrow> (llfree_result \<times> lower) option" where
  "lower_get self start_frame order at =
     do { bug_on (\<not> order \<le> LLFREE_MAX_ORDER);
          case at of
            Some f \<Rightarrow>
              if (f + 2 ^ order) mod 2 ^ 64 > frames self \<or> f mod 2 ^ order \<noteq> 0
              then Some (llfree_err LLFREE_ERR_ADDRESS, self)
              else do {
                let child_idx = child_from_frame f;
                bug_on (\<not> child_idx < align_up (child_count self) LLFREE_TREE_CHILDREN);
                if order = LLFREE_MAX_ORDER then
                  do { (ok, self') \<leftarrow> update_pair child_set_max self child_idx;
                       Some (if ok then llfree_ok f 0 else llfree_err LLFREE_ERR_MEMORY, self') }
                else if order = LLFREE_HUGE_ORDER then
                  do { (ok, self') \<leftarrow> update_child child_set_huge self child_idx;
                       Some (if ok then llfree_ok f 0 else llfree_err LLFREE_ERR_MEMORY, self') }
                else get_bits self f order }
          | None \<Rightarrow>
              do { bug_on (\<not> start_frame < frames self); lower_get_inner self start_frame order } }"

subsection \<open>Release\<close>

text \<open>\<open>split_huge\<close>: nobody else clears the mark while the operation runs, so the retries of the
  second branch all read the same entry.\<close>

definition split_huge :: "lower \<Rightarrow> nat \<Rightarrow> (llfree_result \<times> lower) option" where
  "split_huge self i =
     do { field \<leftarrow> load_at (bitfields self) i;
          row0 \<leftarrow> load_at field 0;
          if row0 = 0 then
            do { self1 \<leftarrow> set_field self i (replicate FIELD_N (NOT 0));
                 expected \<leftarrow> child_new 0 True;
                 new \<leftarrow> child_new 0 False;
                 c \<leftarrow> get_child self1 i;
                 bug_on (c \<noteq> expected);
                 self2 \<leftarrow> set_child self1 i new;
                 Some (llfree_err LLFREE_ERR_OK, self2) }
          else
            do { c \<leftarrow> get_child self i;
                 Some (if \<not> child_huge c then llfree_err LLFREE_ERR_OK else llfree_err LLFREE_ERR_RETRY, self) } }"

text \<open>The end of \<open>lower_put\<close>: the bits of the run, then the counter.\<close>

definition put_bits :: "lower \<Rightarrow> nat \<Rightarrow> nat \<Rightarrow> (llfree_result \<times> lower) option" where
  "put_bits self f order =
     do { let child_idx = child_from_frame f;
          field \<leftarrow> load_at (bitfields self) child_idx;
          (ret, field') \<leftarrow> field_toggle field (f mod LLFREE_CHILD_SIZE) order True;
          self2 \<leftarrow> set_field self child_idx field';
          if \<not> llfree_is_ok ret then Some (ret, self2)
          else do {
            (ok, self3) \<leftarrow> update_child (\<lambda>c. Some (child_inc c order)) self2 child_idx;
            bug_on (\<not> ok);
            Some (llfree_err LLFREE_ERR_OK, self3) } }"

definition lower_put :: "lower \<Rightarrow> nat \<Rightarrow> nat \<Rightarrow> (llfree_result \<times> lower) option" where
  "lower_put self f order =
     do { bug_on (\<not> order \<le> LLFREE_MAX_ORDER);
          if (f + 2 ^ order) mod 2 ^ 64 > frames self \<or> f mod 2 ^ order \<noteq> 0
          then Some (llfree_err LLFREE_ERR_ADDRESS, self)
          else do {
            let child_idx = child_from_frame f;
            bug_on (\<not> child_idx < align_up (child_count self) LLFREE_TREE_CHILDREN);
            if order = LLFREE_MAX_ORDER then
              do { (ok, self') \<leftarrow> update_pair child_clear_max self child_idx;
                   Some (llfree_err (if ok then LLFREE_ERR_OK else LLFREE_ERR_MEMORY), self') }
            else if order = LLFREE_HUGE_ORDER then
              do { (ok, self') \<leftarrow> update_child child_clear_huge self child_idx;
                   Some (llfree_err (if ok then LLFREE_ERR_OK else LLFREE_ERR_ADDRESS), self') }
            else do {
              old \<leftarrow> get_child self child_idx;
              (res, self1) \<leftarrow> (if child_huge old then split_huge self child_idx
                               else Some (llfree_err LLFREE_ERR_OK, self));
              if \<not> llfree_is_ok res then Some (res, self1) else put_bits self1 f order } } }"

end
