(* ===== verification/LLFree_Lower_Inv.thy ===== *)
theory LLFree_Lower_Inv
  imports LLFree_Lower
begin

text \<open>
  The invariant of the lower allocator, the set of frames it counts as free, and what
  allocation and release do to that set.
\<close>

subsection \<open>Invariant\<close>

definition child_ok :: "child \<Rightarrow> bitfield \<Rightarrow> bool" where
  "child_ok c f \<longleftrightarrow> length f = 8 \<and>
     (if child_huge c then child_free c = 0 \<and> field_used f = {} else child_free c = 512 - card (field_used f))"

definition child_frames :: "child \<Rightarrow> bitfield \<Rightarrow> nat set" where
  "child_frames c f = (if child_huge c then {} else {0..<512} - field_used f)"

definition lower_free :: "lower \<Rightarrow> nat set" where
  "lower_free L = {x. x div 512 < child_count L \<and>
     x mod 512 \<in> child_frames (children L ! (x div 512)) (bitfields L ! (x div 512))}"

definition lower_ok :: "lower \<Rightarrow> bool" where
  "lower_ok L \<longleftrightarrow> frames L \<le> MAX_PAGES \<and> length (bitfields L) = child_count L \<and>
     length (children L) = align_up (child_count L) 8 \<and>
     (\<forall>i < child_count L. child_ok (children L ! i) (bitfields L ! i)) \<and>
     (\<forall>i. child_count L \<le> i \<longrightarrow> i < length (children L) \<longrightarrow> children L ! i = \<lparr>child_free = 0, child_huge = True\<rparr>) \<and>
     lower_free L \<subseteq> {..<frames L}"

lemma align_up_ge: "0 < a \<Longrightarrow> x \<le> align_up x a"
  unfolding align_up_def using div_mult_mod_eq [of "x + a - 1" a] mod_less_divisor [of a "x + a - 1"] by linarith

lemma lower_okD:
  assumes "lower_ok L"
  shows "frames L \<le> 2 ^ 28" "length (bitfields L) = child_count L"
    "length (children L) = align_up (child_count L) 8"
    "\<And>i. i < child_count L \<Longrightarrow> child_ok (children L ! i) (bitfields L ! i)"
    "\<And>i. child_count L \<le> i \<Longrightarrow> i < length (children L) \<Longrightarrow> children L ! i = \<lparr>child_free = 0, child_huge = True\<rparr>"
    "\<And>x. x \<in> lower_free L \<Longrightarrow> x < frames L"
    "child_count L \<le> length (children L)"
  using assms align_up_ge [of 8 "child_count L"] by (auto simp: lower_ok_def)

lemma child_frames_card:
  assumes "child_ok c f"
  shows "card (child_frames c f) = child_free c" "child_frames c f \<subseteq> {0..<512}" "finite (child_frames c f)"
proof -
  have "field_used f \<subseteq> {0..<512}" by (auto simp: field_used_def)
  then show "card (child_frames c f) = child_free c"
    using assms by (simp add: child_ok_def child_frames_def card_Diff_subset)
qed (auto simp: child_frames_def)

lemma child_free_le: "child_ok c f \<Longrightarrow> child_free c \<le> 512"
  by (auto simp: child_ok_def split: if_splits)

subsection \<open>Replacing one child\<close>

definition put_child :: "lower \<Rightarrow> nat \<Rightarrow> child \<Rightarrow> bitfield \<Rightarrow> lower" where
  "put_child L i c f = L\<lparr>children := (children L)[i := c], bitfields := (bitfields L)[i := f]\<rparr>"

lemma child_count_put [simp]:
  "child_count (put_child L i c f) = child_count L" "frames (put_child L i c f) = frames L"
  by (simp_all add: child_count_def put_child_def)

lemma lower_free_put:
  assumes "lower_ok L" "i < child_count L"
  shows "x \<in> lower_free (put_child L i c f) \<longleftrightarrow> (if x div 512 = i then x mod 512 \<in> child_frames c f else x \<in> lower_free L)"
proof -
  have "i < length (children L)" "i < length (bitfields L)"
    using assms lower_okD(2,7) [OF assms(1)] by auto
  then show ?thesis using assms(2) by (simp add: lower_free_def put_child_def child_count_def)
qed

lemma lower_ok_put:
  assumes "lower_ok L" "i < child_count L" "child_ok c f" "\<And>y. y \<in> child_frames c f \<Longrightarrow> 512 * i + y < frames L"
  shows "lower_ok (put_child L i c f)"
  unfolding lower_ok_def
proof (intro conjI allI impI subsetI)
  note d = lower_okD [OF assms(1)]
  show "frames (put_child L i c f) \<le> MAX_PAGES" using d(1) by simp
  show "length (bitfields (put_child L i c f)) = child_count (put_child L i c f)"
    "length (children (put_child L i c f)) = align_up (child_count (put_child L i c f)) 8"
    using d(2,3) by (simp_all add: put_child_def child_count_def)
  show "child_ok (children (put_child L i c f) ! j) (bitfields (put_child L i c f) ! j)"
    if "j < child_count (put_child L i c f)" for j
    using that d(2,4,7) assms(2,3) by (cases "j = i") (auto simp: put_child_def child_count_def)
  show "children (put_child L i c f) ! j = \<lparr>child_free = 0, child_huge = True\<rparr>"
    if "child_count (put_child L i c f) \<le> j" "j < length (children (put_child L i c f))" for j
    using that d(5) assms(2) by (cases "j = i") (auto simp: put_child_def child_count_def)
  fix x assume "x \<in> lower_free (put_child L i c f)"
  then have x: "if x div 512 = i then x mod 512 \<in> child_frames c f else x \<in> lower_free L"
    using lower_free_put [OF assms(1,2)] by blast
  show "x \<in> {..<frames (put_child L i c f)}"
  proof (cases "x div 512 = i")
    case True
    then show ?thesis using x assms(4) [of "x mod 512"] mult_div_mod_eq [of 512 x] by simp
  next
    case False
    then show ?thesis using x d(6) by simp
  qed
qed

text \<open>A run of at most 512 aligned frames lies inside one child.\<close>

lemma block_in_child:
  assumes "2 ^ order dvd q" "order \<le> 9"
  shows "x \<in> block q order \<longleftrightarrow> x div 512 = q div 512 \<and> x mod 512 \<in> block (q mod 512) order"
    and "2 ^ order dvd q mod 512" "q mod 512 + 2 ^ order \<le> 512"
proof -
  have d: "(2 :: nat) ^ order dvd 512" using le_imp_power_dvd [of order 9 2] assms(2) by simp
  show dm: "2 ^ order dvd q mod 512" using assms(1) d by (simp add: dvd_mod)
  show le: "q mod 512 + 2 ^ order \<le> 512"
  proof -
    obtain a where a: "q mod 512 = 2 ^ order * a" using dm by blast
    obtain b where b: "(512 :: nat) = 2 ^ order * b" using d by blast
    have "2 ^ order * a < 2 ^ order * b" unfolding a [symmetric] b [symmetric] by simp
    then have "Suc a \<le> b" by simp
    then have "2 ^ order * Suc a \<le> 2 ^ order * b" by (rule mult_le_mono2)
    then show ?thesis unfolding a b [symmetric] by simp
  qed
  have q: "q = 512 * (q div 512) + q mod 512" and x: "x = 512 * (x div 512) + x mod 512" by simp_all
  show "x \<in> block q order \<longleftrightarrow> x div 512 = q div 512 \<and> x mod 512 \<in> block (q mod 512) order"
  proof
    assume b: "x \<in> block q order"
    then have b: "q \<le> x" "x < q + 2 ^ order" by simp_all
    then have "512 * (q div 512) \<le> x" "x < 512 * (q div 512) + 512" using q le by linarith+
    then have e: "x div 512 = q div 512" by (intro div_nat_eqI) simp_all
    then have "q mod 512 \<le> x mod 512" "x mod 512 < q mod 512 + 2 ^ order" using b q x by linarith+
    with e show "x div 512 = q div 512 \<and> x mod 512 \<in> block (q mod 512) order" by simp
  next
    assume a: "x div 512 = q div 512 \<and> x mod 512 \<in> block (q mod 512) order"
    then have "q mod 512 \<le> x mod 512" "x mod 512 < q mod 512 + 2 ^ order" by simp_all
    then have "q \<le> x" "x < q + 2 ^ order" using a q x by linarith+
    then show "x \<in> block q order" by simp
  qed
qed

text \<open>The children allocated as one huge frame, and the children a run touches.\<close>

definition huge_set :: "lower \<Rightarrow> nat set" where
  "huge_set L = {i. i < child_count L \<and> child_huge (children L ! i)}"

definition block_children :: "nat \<Rightarrow> nat \<Rightarrow> nat set" where
  "block_children q order = (\<lambda>x. x div 512) ` block q order"

lemma huge_set_put:
  assumes "lower_ok L" "i < child_count L"
  shows "huge_set (put_child L i c f) = (if child_huge c then insert i (huge_set L) else huge_set L - {i})"
proof -
  have "i < length (children L)" using assms lower_okD(7) [OF assms(1)] by simp
  then have "children (put_child L i c f) ! j = (if j = i then c else children L ! j)" for j
    by (simp add: put_child_def)
  then show ?thesis using assms(2) by (auto simp: huge_set_def)
qed

lemma block_children_one:
  assumes "2 ^ order dvd q" "order \<le> 9"
  shows "block_children q order = {q div 512}"
proof -
  have "q \<in> block q order" by simp
  then show ?thesis using block_in_child(1) [OF assms] unfolding block_children_def by (auto simp del: block_mem)
qed

definition lower_taken :: "lower \<Rightarrow> nat \<Rightarrow> nat \<Rightarrow> lower \<Rightarrow> bool" where
  "lower_taken L order q L' \<longleftrightarrow> lower_ok L' \<and> frames L' = frames L \<and> 2 ^ order dvd q \<and>
     block q order \<subseteq> lower_free L \<and> lower_free L' = lower_free L - block q order \<and>
     huge_set L' = huge_set L \<union> (if 9 \<le> order then block_children q order else {})"

definition lower_given :: "lower \<Rightarrow> nat \<Rightarrow> nat \<Rightarrow> lower \<Rightarrow> bool" where
  "lower_given L order q L' \<longleftrightarrow> lower_ok L' \<and> frames L' = frames L \<and>
     block q order \<inter> lower_free L = {} \<and> lower_free L' = lower_free L \<union> block q order \<and>
     huge_set L' = huge_set L - block_children q order"

lemma take_from_child:
  assumes "lower_ok L" "i < child_count L" "order \<le> 9" "2 ^ order dvd p" "p + 2 ^ order \<le> 512"
    and "child_ok c f" "block p order \<subseteq> child_frames (children L ! i) (bitfields L ! i)"
    and "child_frames c f = child_frames (children L ! i) (bitfields L ! i) - block p order"
    and "child_huge c \<longleftrightarrow> order = 9"
  shows "lower_taken L order (512 * i + p) (put_child L i c f)"
proof -
  have d: "(2 :: nat) ^ order dvd 512" using le_imp_power_dvd [of order 9 2] assms(3) by simp
  have "0 < (2 :: nat) ^ order" by simp
  then have "p < 512" using assms(5) by linarith
  then have i: "(512 * i + p) div 512 = i" "(512 * i + p) mod 512 = p" by auto
  have al: "2 ^ order dvd 512 * i + p" using d assms(4) by simp
  note b = block_in_child(1) [OF al assms(3), unfolded i]
  have at: "x \<in> lower_free L \<longleftrightarrow> x mod 512 \<in> child_frames (children L ! i) (bitfields L ! i)" if "x div 512 = i" for x
    using that assms(2) by (simp add: lower_free_def)
  have "lower_ok (put_child L i c f)"
  proof (rule lower_ok_put [OF assms(1,2,6)])
    fix y assume y: "y \<in> child_frames c f"
    then have "y < 512" using child_frames_card(2) [OF assms(6)] by auto
    then have "512 * i + y \<in> lower_free L" using at [of "512 * i + y"] y assms(8) by auto
    then show "512 * i + y < frames L" using lower_okD(6) [OF assms(1)] by blast
  qed
  moreover have "lower_free (put_child L i c f) = lower_free L - block (512 * i + p) order"
    by (rule set_eqI) (use lower_free_put [OF assms(1,2)] at assms(8) b in \<open>auto simp del: block_mem\<close>)
  moreover have "block (512 * i + p) order \<subseteq> lower_free L"
    using assms(7) at b by (auto simp del: block_mem)
  moreover have "huge_set (put_child L i c f) = huge_set L \<union> (if 9 \<le> order then block_children (512 * i + p) order else {})"
  proof -
    have "p \<in> block p order" by simp
    then have "p \<in> child_frames (children L ! i) (bitfields L ! i)" using assms(7) by blast
    then have "i \<notin> huge_set L" by (auto simp: huge_set_def child_frames_def)
    moreover have "9 \<le> order \<longleftrightarrow> order = 9" using assms(3) by auto
    ultimately show ?thesis using huge_set_put [OF assms(1,2)] assms(9) block_children_one [OF al assms(3)] i(1)
      by (cases "order = 9") simp_all
  qed
  ultimately show ?thesis using al by (simp add: lower_taken_def)
qed

lemma give_to_child:
  assumes "lower_ok L" "i < child_count L" "order \<le> 9" "2 ^ order dvd p" "p + 2 ^ order \<le> 512"
    and "512 * i + p + 2 ^ order \<le> frames L"
    and "child_ok c f" "block p order \<inter> child_frames (children L ! i) (bitfields L ! i) = {}"
    and "child_frames c f = child_frames (children L ! i) (bitfields L ! i) \<union> block p order"
    and "\<not> child_huge c"
  shows "lower_given L order (512 * i + p) (put_child L i c f)"
proof -
  have d: "(2 :: nat) ^ order dvd 512" using le_imp_power_dvd [of order 9 2] assms(3) by simp
  have "0 < (2 :: nat) ^ order" by simp
  then have "p < 512" using assms(5) by linarith
  then have i: "(512 * i + p) div 512 = i" "(512 * i + p) mod 512 = p" by auto
  have al: "2 ^ order dvd 512 * i + p" using d assms(4) by simp
  note b = block_in_child(1) [OF al assms(3), unfolded i]
  have at: "x \<in> lower_free L \<longleftrightarrow> x mod 512 \<in> child_frames (children L ! i) (bitfields L ! i)" if "x div 512 = i" for x
    using that assms(2) by (simp add: lower_free_def)
  have "lower_ok (put_child L i c f)"
  proof (rule lower_ok_put [OF assms(1,2,7)])
    fix y assume y: "y \<in> child_frames c f"
    show "512 * i + y < frames L"
    proof (cases "y \<in> block p order")
      case True
      then show ?thesis using assms(6) by auto
    next
      case False
      have "y < 512" using child_frames_card(2) [OF assms(7)] y by auto
      then have "512 * i + y \<in> lower_free L" using at [of "512 * i + y"] y False assms(9) by auto
      then show ?thesis using lower_okD(6) [OF assms(1)] by blast
    qed
  qed
  moreover have "lower_free (put_child L i c f) = lower_free L \<union> block (512 * i + p) order"
    by (rule set_eqI) (use lower_free_put [OF assms(1,2)] at assms(9) b in \<open>auto simp del: block_mem\<close>)
  moreover have "block (512 * i + p) order \<inter> lower_free L = {}"
    using assms(8) at b by (auto simp del: block_mem)
  moreover have "huge_set (put_child L i c f) = huge_set L - block_children (512 * i + p) order"
    using huge_set_put [OF assms(1,2)] assms(10) block_children_one [OF al assms(3)] i(1) by simp
  ultimately show ?thesis by (simp add: lower_given_def)
qed

lemma block_card [simp]: "card (block p order) = 2 ^ order" "finite (block p order)"
  by (simp_all add: block_def)

lemma card_used_le: "card (field_used f) \<le> 512"
proof -
  have "card (field_used f) \<le> card {0..<512 :: nat}" by (rule card_mono) (auto simp: field_used_def)
  then show ?thesis by simp
qed

lemma field_taken_bound:
  assumes "field_taken f order p f'"
  shows "p < 512"
proof -
  have "0 < (2 :: nat) ^ order" by simp
  then show ?thesis using assms unfolding field_taken_def by linarith
qed

subsection \<open>Single updates\<close>

lemma update_child_eval:
  assumes "lower_ok L" "i < length (children L)"
  shows "update_child fn L i = (case fn (children L ! i) of None \<Rightarrow> None | Some None \<Rightarrow> Some (False, L)
     | Some (Some c) \<Rightarrow> Some (True, L\<lparr>children := (children L)[i := c]\<rparr>))"
  using assms lower_okD(3) [OF assms(1)]
  by (simp add: update_child_def get_child_def set_child_def split: option.split)

lemma set_fields_eq:
  assumes "lower_ok L" "i < child_count L"
  shows "L\<lparr>children := (children L)[i := c]\<rparr> = put_child L i c (bitfields L ! i)"
    and "(put_child L i c g)\<lparr>bitfields := (bitfields (put_child L i c g))[i := f]\<rparr> = put_child L i c f"
    and "(put_child L i c g)\<lparr>children := (children (put_child L i c g))[i := d]\<rparr> = put_child L i d g"
    and "put_child L i (children L ! i) (bitfields L ! i) = L"
    and "children (put_child L i c f) ! i = c" "bitfields (put_child L i c f) ! i = f"
  using assms lower_okD(2,7) [OF assms(1)] by (simp_all add: put_child_def)

lemma lengths_put [simp]:
  "length (children (put_child L i c f)) = length (children L)"
  "length (bitfields (put_child L i c f)) = length (bitfields L)"
  by (simp_all add: put_child_def)

lemma child_dec_ok:
  assumes "child_ok c f" "order \<le> 8"
  shows "child_dec c order = (if 2 ^ order \<le> child_free c then Some (c\<lparr>child_free := child_free c - 2 ^ order\<rparr>) else None)"
    and "2 ^ order \<le> child_free c \<Longrightarrow> child_inc (c\<lparr>child_free := child_free c - 2 ^ order\<rparr>) order = Some c"
    and "2 ^ order \<le> child_free c \<Longrightarrow> \<not> child_huge c"
proof -
  have "0 < (2 :: nat) ^ order" by simp
  then show h: "2 ^ order \<le> child_free c \<Longrightarrow> \<not> child_huge c"
    using assms(1) by (auto simp: child_ok_def split: if_splits)
  then show "child_dec c order = (if 2 ^ order \<le> child_free c then Some (c\<lparr>child_free := child_free c - 2 ^ order\<rparr>) else None)"
    by (auto simp: child_dec_def Let_def)
  show "2 ^ order \<le> child_free c \<Longrightarrow> child_inc (c\<lparr>child_free := child_free c - 2 ^ order\<rparr>) order = Some c"
    using h child_free_le [OF assms(1)] by (simp add: child_inc_def Let_def)
qed

text \<open>The outcome of a search over the children in \<open>S\<close>.\<close>

definition lower_search :: "lower \<Rightarrow> nat \<Rightarrow> nat set \<Rightarrow> (llfree_result \<times> lower) option \<Rightarrow> bool" where
  "lower_search L order S out \<longleftrightarrow>
     (\<exists>q L'. out = Some (llfree_ok q 0, L') \<and> lower_taken L order q L' \<and> q div 512 \<in> S) \<or>
     (out = Some (llfree_err LLFREE_ERR_MEMORY, L) \<and>
      (\<forall>q. q div 512 \<in> S \<longrightarrow> 2 ^ order dvd q \<longrightarrow> \<not> block q order \<subseteq> lower_free L))"

lemma lower_search_skip:
  assumes "lower_search L order S out" "\<And>q. q div 512 = i \<Longrightarrow> 2 ^ order dvd q \<Longrightarrow> \<not> block q order \<subseteq> lower_free L"
  shows "lower_search L order (insert i S) out"
  using assms unfolding lower_search_def by blast

lemma lower_search_hit:
  assumes "lower_taken L order q L'" "q div 512 = i"
  shows "lower_search L order (insert i S) (Some (llfree_ok q 0, L'))"
  using assms unfolding lower_search_def by blast

lemma block_needs_free:
  assumes "lower_ok L" "order \<le> 9" "2 ^ order dvd q" "block q order \<subseteq> lower_free L"
  shows "q div 512 < child_count L" "2 ^ order \<le> child_free (children L ! (q div 512))"
    "block (q mod 512) order \<subseteq> child_frames (children L ! (q div 512)) (bitfields L ! (q div 512))"
proof -
  have "q \<in> block q order" by simp
  then have "q \<in> lower_free L" using assms(4) by blast
  then show i: "q div 512 < child_count L" by (simp add: lower_free_def)
  note b = block_in_child [OF assms(3,2)]
  show sub: "block (q mod 512) order \<subseteq> child_frames (children L ! (q div 512)) (bitfields L ! (q div 512))"
  proof
    fix y assume y: "y \<in> block (q mod 512) order"
    then have "y < 512" using b(3) by auto
    then have m: "(512 * (q div 512) + y) div 512 = q div 512" "(512 * (q div 512) + y) mod 512 = y" by auto
    then have "512 * (q div 512) + y \<in> block q order" using b(1) [of "512 * (q div 512) + y"] y by (simp del: block_mem)
    then have "512 * (q div 512) + y \<in> lower_free L" using assms(4) by blast
    then show "y \<in> child_frames (children L ! (q div 512)) (bitfields L ! (q div 512))" unfolding lower_free_def using m by simp
  qed
  note ok = lower_okD(4) [OF assms(1) i]
  have "card (block (q mod 512) order) \<le> card (child_frames (children L ! (q div 512)) (bitfields L ! (q div 512)))"
    by (rule card_mono [OF child_frames_card(3) [OF ok] sub])
  then show "2 ^ order \<le> child_free (children L ! (q div 512))"
    unfolding child_frames_card(1) [OF ok] by (simp add: block_def)
qed

text \<open>Runs below the size of a child.\<close>

lemma small_in_hit:
  assumes "lower_ok L" "i < child_count L" "order \<le> 8" "field_taken (bitfields L ! i) order p f'"
    and "2 ^ order \<le> child_free (children L ! i)"
  shows "lower_taken L order (512 * i + p)
    (put_child L i ((children L ! i)\<lparr>child_free := child_free (children L ! i) - 2 ^ order\<rparr>) f')"
proof (rule take_from_child [OF assms(1,2)])
  note ok = lower_okD(4) [OF assms(1,2)]
  note nh = child_dec_ok(3) [OF ok assms(3,5)]
  note t = assms(4) [unfolded field_taken_def]
  show "order \<le> 9" "2 ^ order dvd p" "p + 2 ^ order \<le> 512" using assms(3) t by auto
  have "card (field_used f') = card (field_used (bitfields L ! i)) + 2 ^ order"
    using t card_Un_disjoint [of "field_used (bitfields L ! i)" "block p order"] by (simp add: Int_commute del: block_mem)
  moreover have "card (field_used (bitfields L ! i)) + child_free (children L ! i) = 512"
    using ok nh card_used_le by (simp add: child_ok_def)
  ultimately show "child_ok ((children L ! i)\<lparr>child_free := child_free (children L ! i) - 2 ^ order\<rparr>) f'"
    using ok nh t by (simp add: child_ok_def)
  have "block p order \<subseteq> {0..<512}" using t by auto
  then show "block p order \<subseteq> child_frames (children L ! i) (bitfields L ! i)"
    using t nh by (auto simp: child_frames_def simp del: block_mem)
  show "child_frames ((children L ! i)\<lparr>child_free := child_free (children L ! i) - 2 ^ order\<rparr>) f' =
      child_frames (children L ! i) (bitfields L ! i) - block p order"
    using t nh by (auto simp: child_frames_def simp del: block_mem)
  show "child_huge ((children L ! i)\<lparr>child_free := child_free (children L ! i) - 2 ^ order\<rparr>) \<longleftrightarrow> order = 9"
    using nh assms(3) by simp
qed

lemma small_in_spec:
  assumes "lower_ok L" "order \<le> 8" "\<And>i. i \<in> set is \<Longrightarrow> i < length (children L)"
  shows "lower_search L order (set is) (small_in L f order is)"
  using assms(3)
proof (induction "is")
  case Nil
  then show ?case by (simp add: lower_search_def)
next
  case (Cons i "is")
  have il: "i < length (children L)" using Cons.prems by simp
  have IH: "lower_search L order (set is) (small_in L f order is)" using Cons by simp
  note ev = update_child_eval [OF assms(1) il]
  note o9 = order.trans [OF assms(2), of 9]
  show ?case
  proof (cases "i < child_count L \<and> 2 ^ order \<le> child_free (children L ! i)")
    case False
    have "child_dec (children L ! i) order = None"
    proof (cases "i < child_count L")
      case True
      then show ?thesis using False child_dec_ok(1) [OF lower_okD(4) [OF assms(1) True] assms(2)] by simp
    next
      case out: False
      then show ?thesis using lower_okD(5) [OF assms(1) _ il] by (simp add: child_dec_def)
    qed
    then have "small_in L f order (i # is) = small_in L f order is" by (simp add: ev)
    moreover have "\<not> block q order \<subseteq> lower_free L" if "q div 512 = i" "2 ^ order dvd q" for q
      using that False block_needs_free(1,2) [OF assms(1) _ that(2)] assms(2) by auto
    ultimately show ?thesis using lower_search_skip [OF IH] by simp
  next
    case True
    then have i: "i < child_count L" and fr: "2 ^ order \<le> child_free (children L ! i)" by auto
    note ok = lower_okD(4) [OF assms(1) i]
    note dec = child_dec_ok [OF ok assms(2)]
    define c where "c = (children L ! i)\<lparr>child_free := child_free (children L ! i) - 2 ^ order\<rparr>"
    note eqs = set_fields_eq [OF assms(1) i]
    have len: "i < length (bitfields L)" using i lower_okD(2) [OF assms(1)] by simp
    have up: "update_child (\<lambda>c. Some (child_dec c order)) L i = Some (True, put_child L i c (bitfields L ! i))"
      using dec(1) fr by (simp add: ev c_def eqs(1))
    have sf: "set_field (put_child L i c (bitfields L ! i)) i f' = Some (put_child L i c f')" for f'
      using len by (simp add: set_field_def eqs(2))
    have "length (bitfields L ! i) = 8" using ok by (simp add: child_ok_def)
    from field_set_next_spec [OF this assms(2), of f]
    show ?thesis unfolding field_search_def
    proof (elim disjE exE conjE)
      fix p f' assume s: "field_set_next (bitfields L ! i) f order = Some (llfree_ok p 0, f')"
        and t: "field_taken (bitfields L ! i) order p f'"
      have "p < 512" by (rule field_taken_bound [OF t])
      then have p: "frame (llfree_ok p 0) = p" "(512 * i + p) div 512 = i" by auto
      have "small_in L f order (i # is) = Some (llfree_ok (512 * i + p) 0, put_child L i c f')"
        using s len p(1) by (simp add: up eqs(5,6) sf frame_from_child_def mult.commute)
      then show ?thesis using lower_search_hit [OF small_in_hit [OF assms(1) i assms(2) t fr] p(2)]
        by (simp add: c_def)
    next
      assume s: "field_set_next (bitfields L ! i) f order = Some (llfree_err LLFREE_ERR_MEMORY, bitfields L ! i)"
        and n: "\<forall>q. 2 ^ order dvd q \<longrightarrow> q + 2 ^ order \<le> 512 \<longrightarrow> \<not> block q order \<inter> field_used (bitfields L ! i) = {}"
      have inc: "child_inc c order = Some (children L ! i)" using dec(2) [OF fr] by (simp add: c_def)
      have "get_child (put_child L i c (bitfields L ! i)) i = Some c"
        using il lower_okD(3) [OF assms(1)] eqs(5) by (simp add: get_child_def)
      moreover have "set_child (put_child L i c (bitfields L ! i)) i (children L ! i) = Some L"
        using il lower_okD(3) [OF assms(1)] by (simp add: set_child_def eqs(3,4))
      ultimately have "update_child (\<lambda>c. Some (child_inc c order)) (put_child L i c (bitfields L ! i)) i = Some (True, L)"
        by (simp add: update_child_def inc)
      then have "small_in L f order (i # is) = small_in L f order is"
        using s len by (simp add: up eqs(5,6) sf)
      moreover have "\<not> block q order \<subseteq> lower_free L" if q: "q div 512 = i" "2 ^ order dvd q" for q
      proof
        assume b: "block q order \<subseteq> lower_free L"
        have "block (q mod 512) order \<inter> field_used (bitfields L ! i) = {}"
          using block_needs_free(3) [OF assms(1) _ q(2) b] q(1) assms(2) by (auto simp: child_frames_def split: if_splits)
        moreover have "2 ^ order dvd q mod 512" "q mod 512 + 2 ^ order \<le> 512"
          using block_in_child(2,3) [OF q(2)] assms(2) by auto
        ultimately show False using n by blast
      qed
      ultimately show ?thesis using lower_search_skip [OF IH] by simp
    qed
  qed
qed

text \<open>One whole child.\<close>

lemma child_full:
  assumes "child_ok c f"
  shows "child_free c = 512 \<longleftrightarrow> \<not> child_huge c \<and> field_used f = {}"
proof -
  have "512 - card (field_used f) = 512 \<longleftrightarrow> card (field_used f) = 0" using card_used_le [of f] by linarith
  then have "512 - card (field_used f) = 512 \<longleftrightarrow> field_used f = {}" by simp
  then show ?thesis using assms by (cases "child_huge c") (simp_all add: child_ok_def)
qed

lemma child_set_huge_eval:
  assumes "child_ok c f"
  shows "child_set_huge c = Some (if child_free c = 512 then Some \<lparr>child_free = 0, child_huge = True\<rparr> else None)"
  using child_full [OF assms] by (simp add: child_set_huge_def child_new_def)

lemma huge_taken:
  assumes "lower_ok L" "i < child_count L" "child_free (children L ! i) = 512"
  shows "lower_taken L 9 (512 * i) (put_child L i \<lparr>child_free = 0, child_huge = True\<rparr> (bitfields L ! i))"
proof -
  note ok = lower_okD(4) [OF assms(1,2)]
  have f: "\<not> child_huge (children L ! i)" "field_used (bitfields L ! i) = {}" using child_full [OF ok] assms(3) by auto
  have b: "block 0 9 = {0..<512}" by (auto simp: block_def)
  have "lower_taken L 9 (512 * i + 0) (put_child L i \<lparr>child_free = 0, child_huge = True\<rparr> (bitfields L ! i))"
    by (rule take_from_child [OF assms(1,2)])
      (use f b ok in \<open>auto simp: child_ok_def child_frames_def simp del: block_mem\<close>)
  then show ?thesis by simp
qed

lemma huge_needs_full:
  assumes "lower_ok L" "512 dvd q" "block q 9 \<subseteq> lower_free L"
  shows "q div 512 < child_count L" "child_free (children L ! (q div 512)) = 512"
proof -
  have d: "2 ^ 9 dvd q" using assms(2) by simp
  note n = block_needs_free [OF assms(1) _ d assms(3)]
  then show i: "q div 512 < child_count L" by simp
  show "child_free (children L ! (q div 512)) = 512"
    using n(2) child_free_le [OF lower_okD(4) [OF assms(1) i]] by simp
qed

lemma huge_in_spec:
  assumes "lower_ok L" "\<And>i. i \<in> set is \<Longrightarrow> i < length (children L)"
  shows "lower_search L 9 (set is) (huge_in L is)"
  using assms(2)
proof (induction "is")
  case (Cons i "is")
  have il: "i < length (children L)" using Cons.prems by simp
  have IH: "lower_search L 9 (set is) (huge_in L is)" using Cons by simp
  show ?case
  proof (cases "i < child_count L \<and> child_free (children L ! i) = 512")
    case True
    then have "child_set_huge (children L ! i) = Some (Some \<lparr>child_free = 0, child_huge = True\<rparr>)"
      using child_set_huge_eval [OF lower_okD(4) [OF assms(1)], of i] by simp
    then have "huge_in L (i # is) = Some (llfree_ok (512 * i) 0, put_child L i \<lparr>child_free = 0, child_huge = True\<rparr> (bitfields L ! i))"
      using True by (simp add: update_child_eval [OF assms(1) il] set_fields_eq(1) [OF assms(1)] frame_from_child_def mult.commute)
    then show ?thesis using lower_search_hit [OF huge_taken [OF assms(1)], of i i "set is"] True by simp
  next
    case False
    have "child_set_huge (children L ! i) = Some None"
    proof (cases "i < child_count L")
      case True
      then show ?thesis using False child_set_huge_eval [OF lower_okD(4) [OF assms(1) True]] by simp
    next
      case out: False
      then show ?thesis using lower_okD(5) [OF assms(1) _ il] by (simp add: child_set_huge_def)
    qed
    then have "huge_in L (i # is) = huge_in L is" by (simp add: update_child_eval [OF assms(1) il])
    moreover have "\<not> block q 9 \<subseteq> lower_free L" if "q div 512 = i" "2 ^ 9 dvd q" for q
      using that False huge_needs_full [OF assms(1), of q] by auto
    ultimately show ?thesis using lower_search_skip [OF IH] by simp
  qed
qed (simp add: lower_search_def)

text \<open>Two children at once.\<close>

lemma block_halves: "block q (Suc order) = block q order \<union> block (q + 2 ^ order) order"
  by (auto simp: block_def)

lemma pair_taken:
  assumes "lower_ok L" "Suc i < child_count L" "even i"
    and "child_free (children L ! i) = 512" "child_free (children L ! Suc i) = 512"
  defines "H \<equiv> \<lparr>child_free = 0, child_huge = True\<rparr>"
  shows "lower_taken L 10 (512 * i) (put_child (put_child L i H (bitfields L ! i)) (Suc i) H (bitfields L ! Suc i))"
proof -
  let ?L1 = "put_child L i H (bitfields L ! i)"
  have "i < child_count L" using assms(2) by simp
  then have t1: "lower_taken L 9 (512 * i) ?L1" unfolding H_def by (rule huge_taken [OF assms(1) _ assms(4)])
  have "children ?L1 ! Suc i = children L ! Suc i" "bitfields ?L1 ! Suc i = bitfields L ! Suc i"
    by (simp_all add: put_child_def)
  then have t2: "lower_taken ?L1 9 (512 * Suc i) (put_child ?L1 (Suc i) H (bitfields L ! Suc i))"
    using huge_taken [of ?L1 "Suc i"] t1 assms(2,5) by (simp add: lower_taken_def H_def)
  have b: "block (512 * i) 10 = block (512 * i) 9 \<union> block (512 * Suc i) 9"
    using block_halves [of "512 * i" 9] by (simp add: add.commute)
  then have bc: "block_children (512 * i) 10 = block_children (512 * i) 9 \<union> block_children (512 * Suc i) 9"
    by (simp add: block_children_def image_Un)
  obtain j where "i = 2 * j" using assms(3) by blast
  then have "(2 :: nat) ^ 10 dvd 512 * i" by simp
  then show ?thesis using t1 t2 unfolding lower_taken_def b bc by auto
qed

lemma update_pair_eval:
  assumes "lower_ok L" "Suc i < length (children L)"
  shows "update_pair fn L i = (case fn (children L ! i, children L ! Suc i) of None \<Rightarrow> None | Some None \<Rightarrow> Some (False, L)
     | Some (Some (a, b)) \<Rightarrow> Some (True, L\<lparr>children := (children L)[i := a, Suc i := b]\<rparr>))"
  using assms lower_okD(3) [OF assms(1)]
  by (simp add: update_pair_def get_child_def set_child_def split: option.split)

lemma set_pair_eq:
  assumes "lower_ok L" "Suc i < child_count L"
  shows "L\<lparr>children := (children L)[i := a, Suc i := b]\<rparr> =
    put_child (put_child L i a (bitfields L ! i)) (Suc i) b (bitfields L ! Suc i)"
proof -
  have "i < length (bitfields L)" "Suc i < length (bitfields L)" using assms lower_okD(2) [OF assms(1)] by auto
  then show ?thesis by (simp add: put_child_def)
qed

lemma child_set_max_eval:
  assumes "child_ok a f" "child_ok b g"
  shows "child_set_max (a, b) = Some (if child_free a = 512 \<and> child_free b = 512
    then Some (\<lparr>child_free = 0, child_huge = True\<rparr>, \<lparr>child_free = 0, child_huge = True\<rparr>) else None)"
  using child_full [OF assms(1)] child_full [OF assms(2)] by (simp add: child_set_max_def child_new_def)

lemma max_needs_full:
  assumes "lower_ok L" "1024 dvd q" "block q 10 \<subseteq> lower_free L"
  shows "Suc (q div 512) < child_count L" "child_free (children L ! (q div 512)) = 512"
    "child_free (children L ! Suc (q div 512)) = 512"
proof -
  have "block q (Suc 9) = block q 9 \<union> block (q + 2 ^ 9) 9" by (rule block_halves)
  then have b: "block q 9 \<subseteq> lower_free L" "block (q + 512) 9 \<subseteq> lower_free L" using assms(3) by auto
  have d: "512 dvd q" "512 dvd q + 512" using assms(2) by (auto elim!: dvdE)
  have "(q + 512) div 512 = Suc (q div 512)" by simp
  then show "Suc (q div 512) < child_count L" "child_free (children L ! (q div 512)) = 512"
    "child_free (children L ! Suc (q div 512)) = 512"
    using huge_needs_full [OF assms(1) d(1) b(1)] huge_needs_full [OF assms(1) d(2) b(2)] by simp_all
qed

lemma child_set_max_pad:
  assumes "lower_ok L" "Suc i < length (children L)" "\<not> Suc i < child_count L"
  shows "child_set_max (children L ! i, children L ! Suc i) = Some None"
  using lower_okD(5) [OF assms(1), of "Suc i"] assms(2,3) by (simp add: child_set_max_def)

lemma max_in_spec:
  assumes "lower_ok L" "\<And>i. i \<in> set is \<Longrightarrow> Suc (i * 2) < length (children L)"
  shows "lower_search L 10 ((\<lambda>i. i * 2) ` set is) (max_in L is)"
  using assms(2)
proof (induction "is")
  case (Cons i "is")
  have il: "Suc (i * 2) < length (children L)" using Cons.prems by simp
  have IH: "lower_search L 10 ((\<lambda>i. i * 2) ` set is) (max_in L is)" using Cons by simp
  let ?full = "Suc (i * 2) < child_count L \<and> child_free (children L ! (i * 2)) = 512 \<and> child_free (children L ! Suc (i * 2)) = 512"
  let ?H = "\<lparr>child_free = 0, child_huge = True\<rparr>"
  show ?case
  proof (cases ?full)
    case True
    then have cc: "i * 2 < child_count L" "Suc (i * 2) < child_count L" by auto
    have "child_set_max (children L ! (i * 2), children L ! Suc (i * 2)) = Some (Some (?H, ?H))"
      using True child_set_max_eval [OF lower_okD(4) [OF assms(1) cc(1)] lower_okD(4) [OF assms(1) cc(2)]] by simp
    then have "max_in L (i # is) = Some (llfree_ok (512 * (i * 2)) 0, put_child (put_child L (i * 2) ?H (bitfields L ! (i * 2)))
        (Suc (i * 2)) ?H (bitfields L ! Suc (i * 2)))"
      by (simp add: update_pair_eval [OF assms(1) il] set_pair_eq [OF assms(1) cc(2)] frame_from_child_def)
    moreover have "(512 * (i * 2)) div 512 = i * 2" by simp
    ultimately show ?thesis using lower_search_hit [OF pair_taken [OF assms(1) cc(2)]] True by simp
  next
    case False
    have "child_set_max (children L ! (i * 2), children L ! Suc (i * 2)) = Some None"
    proof (cases "Suc (i * 2) < child_count L")
      case True
      then have cc: "i * 2 < child_count L" by simp
      show ?thesis using False True child_set_max_eval [OF lower_okD(4) [OF assms(1) cc] lower_okD(4) [OF assms(1) True]] by auto
    qed (rule child_set_max_pad [OF assms(1) il])
    then have "max_in L (i # is) = max_in L is" by (simp add: update_pair_eval [OF assms(1) il])
    moreover have "\<not> block q 10 \<subseteq> lower_free L" if "q div 512 = i * 2" "2 ^ 10 dvd q" for q
      using that False max_needs_full [OF assms(1), of q] by auto
    ultimately show ?thesis using lower_search_skip [OF IH, of "i * 2"] by simp
  qed
qed (simp add: lower_search_def)

subsection \<open>Allocation\<close>

lemma in_tree_bound:
  assumes "s < child_count L" "j div 8 = s div 8"
  shows "j < align_up (child_count L) 8"
proof -
  have "child_count L \<le> align_up (child_count L) 8" "8 dvd align_up (child_count L) 8"
    using align_up_ge [of 8] by (auto simp: align_up_def)
  then obtain k where "align_up (child_count L) 8 = 8 * k" "s < 8 * k" using assms(1) by (auto elim!: dvdE)
  moreover then have "s div 8 < k" by (simp add: div_less_iff_less_mult mult.commute)
  ultimately show ?thesis using assms(2) by (simp add: div_less_iff_less_mult [of 8 j k, symmetric] mult.commute)
qed

lemma frame_child_bound:
  assumes "f < frames L"
  shows "f div 512 < child_count L"
proof -
  have "f div 512 * 512 \<le> f" by simp
  then have "f div 512 * 512 + 512 \<le> frames L + 511" using assms by linarith
  then have "Suc (f div 512) \<le> (frames L + 511) div 512" by (simp add: less_eq_div_iff_mult_less_eq)
  then show ?thesis by (simp add: child_count_def div_ceil_def)
qed

text \<open>The outcome of an allocation that searches the tree of \<open>s\<close>.\<close>

definition tree_search :: "lower \<Rightarrow> nat \<Rightarrow> nat \<Rightarrow> (llfree_result \<times> lower) option \<Rightarrow> bool" where
  "tree_search L order t out \<longleftrightarrow>
     (\<exists>q L'. out = Some (llfree_ok q 0, L') \<and> lower_taken L order q L' \<and> tree_from_frame q = t) \<or>
     (out = Some (llfree_err LLFREE_ERR_MEMORY, L) \<and>
      (\<forall>q. tree_from_frame q = t \<longrightarrow> 2 ^ order dvd q \<longrightarrow> \<not> block q order \<subseteq> lower_free L))"

lemma tree_search_children:
  assumes "lower_search L order {j. j div 8 = t} out"
  shows "tree_search L order t out"
proof -
  have "q div 4096 = q div 512 div 8" for q :: nat by (simp add: div_mult2_eq [symmetric])
  then show ?thesis using assms unfolding lower_search_def tree_search_def tree_from_frame_def by simp
qed

lemma tree_search_pairs:
  assumes "lower_search L 10 ((\<lambda>i. i * 2) ` {j. j div 4 = t}) out"
  shows "tree_search L 10 t out"
proof -
  have e: "tree_from_frame q = q div 512 div 2 div 4" for q by (simp add: tree_from_frame_def div_mult2_eq [symmetric])
  have "tree_from_frame q = t" if "q div 512 \<in> (\<lambda>i. i * 2) ` {j. j div 4 = t}" for q using that unfolding e by auto
  moreover have "q div 512 \<in> (\<lambda>i. i * 2) ` {j. j div 4 = t}" if q: "tree_from_frame q = t" "2 ^ 10 dvd q" for q
  proof -
    obtain k where k: "q = 1024 * k" using q(2) by auto
    then have "q div 512 = k * 2" by simp
    then show ?thesis using q(1) unfolding e by auto
  qed
  ultimately show ?thesis using assms unfolding lower_search_def tree_search_def by blast
qed

lemma lower_get_spec:
  assumes "lower_ok L" "order \<le> 10" "s < frames L" "order = 10 \<longrightarrow> s div 512 div 2 < child_count L div 2"
  shows "tree_search L order (tree_from_frame s) (lower_get L s order None)"
proof -
  have t: "tree_from_frame s = s div 512 div 8" "tree_from_frame s = s div 512 div 2 div 4"
    by (simp_all add: tree_from_frame_def div_mult2_eq [symmetric])
  have cc: "s div 512 < child_count L" by (rule frame_child_bound [OF assms(3)])
  have at: "i < length (children L)" if i: "i div 8 = s div 512 div 8" for i
    using in_tree_bound [OF cc i] lower_okD(3) [OF assms(1)] by simp
  have all: "set (for_offsetted (s div 512) 8) = {j. j div 8 = tree_from_frame s}"
    unfolding t(1) by (rule set_for_offsetted) simp
  consider "order = 10" | "order = 9" | "order \<le> 8" using assms(2) by linarith
  then show ?thesis
  proof cases
    case 1
    let ?is = "for_offsetted (s div 512 div 2) 4"
    have sis: "set ?is = {j. j div 4 = tree_from_frame s}" unfolding t(2) by (rule set_for_offsetted) simp
    have b: "Suc (i * 2) < length (children L)" if i: "i \<in> set ?is" for i
    proof (rule at)
      have "Suc (i * 2) div 8 = Suc (i * 2) div 2 div 4" using div_mult2_eq [of "Suc (i * 2)" 2 4] by simp
      then show "Suc (i * 2) div 8 = s div 512 div 8" using i sis t by simp
    qed
    have e: "lower_get L s order None = max_in L ?is"
      using 1 assms(3,4) by (simp add: lower_get_def lower_get_inner_def get_max_def child_from_frame_def)
    have "lower_search L 10 ((\<lambda>i. i * 2) ` set ?is) (max_in L ?is)" by (rule max_in_spec [OF assms(1) b])
    from tree_search_pairs [OF this [unfolded sis]] show ?thesis using e 1 by simp
  next
    case 2
    have e: "lower_get L s order None = huge_in L (for_offsetted (s div 512) 8)"
      using 2 assms(3) cc by (simp add: lower_get_def lower_get_inner_def get_huge_def child_from_frame_def)
    have "lower_search L 9 {j. j div 8 = tree_from_frame s} (huge_in L (for_offsetted (s div 512) 8))"
      unfolding all [symmetric] by (rule huge_in_spec [OF assms(1)]) (use all t(1) at in simp)
    from tree_search_children [OF this] show ?thesis using e 2 by simp
  next
    case 3
    have e: "lower_get L s order None = small_in L s order (for_offsetted (s div 512) 8)"
      using 3 assms(3) cc by (simp add: lower_get_def lower_get_inner_def child_from_frame_def)
    have "lower_search L order {j. j div 8 = tree_from_frame s} (small_in L s order (for_offsetted (s div 512) 8))"
      unfolding all [symmetric] by (rule small_in_spec [OF assms(1) 3]) (use all t(1) at in simp)
    then show ?thesis unfolding e by (rule tree_search_children)
  qed
qed

subsection \<open>Release\<close>

lemma in_bounds:
  assumes "lower_ok L" "q + 2 ^ order \<le> frames L"
  shows "(q + 2 ^ order) mod 2 ^ 64 = q + 2 ^ order" "q div 512 < child_count L" "q div 512 < length (children L)"
    "q div 512 < align_up (child_count L) 8" "q < 2 ^ 28"
proof -
  have "0 < (2 :: nat) ^ order" by simp
  then have q: "q < frames L" using assms(2) by linarith
  note d = lower_okD [OF assms(1)]
  have "q + 2 ^ order < 2 ^ 64" using assms(2) d(1) by (rule order.strict_trans1 [OF order.trans]) simp
  then show "(q + 2 ^ order) mod 2 ^ 64 = q + 2 ^ order" by (rule mod_less)
  show cc: "q div 512 < child_count L" by (rule frame_child_bound [OF q])
  then show "q div 512 < length (children L)" using d(7) by simp
  then show "q div 512 < align_up (child_count L) 8" using d(3) by simp
  show "q < 2 ^ 28" using q d(1) by linarith
qed

lemma lower_free_child:
  "q div 512 < child_count L \<Longrightarrow> x div 512 = q div 512 \<Longrightarrow>
   x \<in> lower_free L \<longleftrightarrow> x mod 512 \<in> child_frames (children L ! (q div 512)) (bitfields L ! (q div 512))"
  by (simp add: lower_free_def)

lemma block_free_child:
  assumes "q div 512 < child_count L" "2 ^ order dvd q" "order \<le> 9"
  shows "block q order \<inter> lower_free L = {} \<longleftrightarrow>
    block (q mod 512) order \<inter> child_frames (children L ! (q div 512)) (bitfields L ! (q div 512)) = {}"
proof -
  note b = block_in_child [OF assms(2,3)]
  have "block q order \<inter> lower_free L = {} \<longleftrightarrow> (\<forall>x. x \<in> block q order \<longrightarrow> x \<notin> lower_free L)" by blast
  also have "\<dots> \<longleftrightarrow> (\<forall>y. y \<in> block (q mod 512) order \<longrightarrow> y \<notin> child_frames (children L ! (q div 512)) (bitfields L ! (q div 512)))"
  proof (intro iffI allI impI)
    fix y assume a: "\<forall>x. x \<in> block q order \<longrightarrow> x \<notin> lower_free L" and y: "y \<in> block (q mod 512) order"
    have "y < 512" using y b(3) by auto
    then have x: "(512 * (q div 512) + y) div 512 = q div 512" "(512 * (q div 512) + y) mod 512 = y" by auto
    then have "512 * (q div 512) + y \<in> block q order" using b(1) y by (simp del: block_mem)
    then show "y \<notin> child_frames (children L ! (q div 512)) (bitfields L ! (q div 512))"
      using a lower_free_child [OF assms(1) x(1)] x(2) by auto
  next
    fix x assume a: "\<forall>y. y \<in> block (q mod 512) order \<longrightarrow> y \<notin> child_frames (children L ! (q div 512)) (bitfields L ! (q div 512))"
      and x: "x \<in> block q order"
    then show "x \<notin> lower_free L" using b(1) [of x] lower_free_child [OF assms(1), of x] by blast
  qed
  finally show ?thesis by blast
qed

lemma put_bits_ok:
  assumes "lower_ok L" "order \<le> 8" "2 ^ order dvd q" "q + 2 ^ order \<le> frames L"
    and "\<not> child_huge (children L ! (q div 512))" "block q order \<inter> lower_free L = {}"
  shows "\<exists>L'. put_bits L q order = Some (llfree_err LLFREE_ERR_OK, L') \<and> lower_given L order q L'"
proof -
  let ?i = "q div 512" and ?p = "q mod 512"
  let ?c = "children L ! ?i" and ?f = "bitfields L ! ?i"
  note i = in_bounds(2,3,4) [OF assms(1,4)]
  note ok = lower_okD(4) [OF assms(1) i(1)]
  have o9: "order \<le> 9" using assms(2) by simp
  note b = block_in_child [OF assms(3) o9]
  have len: "length ?f = 8" "?i < length (bitfields L)" using ok i(1) lower_okD(2) [OF assms(1)] by (auto simp: child_ok_def)
  have used: "block ?p order \<subseteq> field_used ?f"
    using block_free_child [OF i(1) assms(3) o9] assms(5,6) b(3) by (auto simp: child_frames_def)
  then have ex: "run_expected ?f ?p order True" by (simp add: run_expected_def)
  obtain f' where tg: "field_toggle ?f ?p order True = Some (llfree_err LLFREE_ERR_OK, f')" "run_switched ?f ?p order True f'"
    using field_toggle_spec [OF len(1) assms(2) b(2,3), of True] ex by auto
  have f': "length f' = 8" "field_used f' = field_used ?f - block ?p order" using tg(2) by (simp_all add: run_switched_def)
  have c1: "card (field_used f') + 2 ^ order = card (field_used ?f)"
    unfolding f'(2) using used card_mono [OF field_used_finite used] by (simp add: card_Diff_subset del: block_mem)
  have c2: "child_free ?c + card (field_used ?f) = 512" using ok assms(5) card_used_le by (simp add: child_ok_def)
  define c' where "c' = ?c\<lparr>child_free := child_free ?c + 2 ^ order\<rparr>"
  have inc: "child_inc ?c order = Some c'" using c1 c2 assms(5) by (simp add: child_inc_def c'_def Let_def)
  have ok': "child_ok c' f'" using assms(5) f'(1) c1 c2 by (simp add: child_ok_def c'_def)
  let ?L1 = "put_child L ?i ?c f'"
  have s: "set_field L ?i f' = Some ?L1" using len(2) i(2) by (simp add: set_field_def put_child_def)
  have "update_child (\<lambda>c. Some (child_inc c order)) ?L1 ?i = Some (True, put_child L ?i c' f')"
    using i(2,3) lower_okD(3) [OF assms(1)] inc set_fields_eq(3,5) [OF assms(1) i(1)]
    by (simp add: update_child_def get_child_def set_child_def)
  then have "put_bits L q order = Some (llfree_err LLFREE_ERR_OK, put_child L ?i c' f')"
    using tg(1) s len(2) by (simp add: put_bits_def child_from_frame_def)
  moreover have "lower_given L order (512 * ?i + ?p) (put_child L ?i c' f')"
  proof (rule give_to_child [OF assms(1) i(1) o9 b(2,3) _ ok'])
    show "512 * ?i + ?p + 2 ^ order \<le> frames L" using assms(4) by simp
    show "block ?p order \<inter> child_frames ?c ?f = {}" using used by (auto simp: child_frames_def simp del: block_mem)
    have "block ?p order \<subseteq> {0..<512}" using b(3) by auto
    then show "child_frames c' f' = child_frames ?c ?f \<union> block ?p order"
      using used assms(5) f'(2) by (auto simp: child_frames_def c'_def simp del: block_mem)
    show "\<not> child_huge c'" using assms(5) by (simp add: c'_def)
  qed
  ultimately show ?thesis by auto
qed

lemma ones_field: "field_used (replicate 8 (NOT 0)) = {0..<512}"
proof (rule set_eqI)
  fix x show "x \<in> field_used (replicate 8 (NOT 0)) \<longleftrightarrow> x \<in> {0..<512}"
    by (auto simp: field_used_def div_less_iff_less_mult)
qed

lemma split_huge_ok:
  assumes "lower_ok L" "i < child_count L" "child_huge (children L ! i)"
  obtains L' where "split_huge L i = Some (llfree_err LLFREE_ERR_OK, L')" "lower_ok L'" "lower_free L' = lower_free L"
    "frames L' = frames L" "\<not> child_huge (children L' ! i)" "huge_set L' = huge_set L - {i}"
proof -
  let ?c = "\<lparr>child_free = 0, child_huge = False\<rparr>" and ?ones = "replicate 8 (NOT 0) :: bitfield"
  let ?L = "put_child L i ?c ?ones"
  note ok = lower_okD(4) [OF assms(1,2)]
  have h: "children L ! i = \<lparr>child_free = 0, child_huge = True\<rparr>" "field_used (bitfields L ! i) = {}" "length (bitfields L ! i) = 8"
    using ok assms(3) by (auto simp: child_ok_def)
  have len: "i < length (children L)" "i < length (bitfields L)" "i < align_up (child_count L) 8"
    using assms(2) lower_okD(2,3,7) [OF assms(1)] by auto
  have "bitfields L ! i ! 0 = 0" using h(2) field_used_at [of _ 0 "bitfields L ! i"] by (auto simp: row_bits_0)
  then have s: "split_huge L i = Some (llfree_err LLFREE_ERR_OK, ?L)"
    using len h by (simp add: split_huge_def set_field_def child_new_def get_child_def set_child_def put_child_def child_count_def)
  have ok': "child_ok ?c ?ones" unfolding child_ok_def ones_field by simp
  have e: "child_frames ?c ?ones = {}" unfolding child_frames_def ones_field by simp
  have "child_frames (children L ! i) (bitfields L ! i) = {}" using h(1) by (simp add: child_frames_def)
  then have "x \<in> lower_free ?L \<longleftrightarrow> x \<in> lower_free L" for x
    unfolding lower_free_put [OF assms(1,2)] e by (simp add: lower_free_def)
  moreover have "lower_ok ?L" by (rule lower_ok_put [OF assms(1,2) ok']) (unfold e, blast)
  ultimately show ?thesis using that [OF s] set_fields_eq(5) [OF assms(1,2)] huge_set_put [OF assms(1,2)] by auto
qed

lemma lower_put_small:
  assumes "lower_ok L" "order \<le> 8" "2 ^ order dvd q" "q + 2 ^ order \<le> frames L" "block q order \<inter> lower_free L = {}"
  shows "\<exists>L'. lower_put L q order = Some (llfree_err LLFREE_ERR_OK, L') \<and> lower_given L order q L'"
proof -
  note i = in_bounds [OF assms(1,4)]
  have al: "q mod 2 ^ order = 0" using assms(3) by simp
  have g: "get_child L (q div 512) = Some (children L ! (q div 512))"
    using i(3,4) by (simp add: get_child_def)
  show ?thesis
  proof (cases "child_huge (children L ! (q div 512))")
    case False
    then have "lower_put L q order = put_bits L q order"
      using i(1,4) al assms(2,4) g by (simp add: lower_put_def child_from_frame_def)
    with put_bits_ok [OF assms(1-4) False assms(5)] show ?thesis by simp
  next
    case True
    then obtain L1 where s: "split_huge L (q div 512) = Some (llfree_err LLFREE_ERR_OK, L1)" "lower_ok L1"
      "lower_free L1 = lower_free L" "frames L1 = frames L" "\<not> child_huge (children L1 ! (q div 512))"
      "huge_set L1 = huge_set L - {q div 512}"
      by (rule split_huge_ok [OF assms(1) i(2)])
    have "lower_put L q order = put_bits L1 q order"
      using i(1,4) al assms(2,4) g True s(1) by (simp add: lower_put_def child_from_frame_def)
    moreover obtain L' where "put_bits L1 q order = Some (llfree_err LLFREE_ERR_OK, L')" "lower_given L1 order q L'"
      using put_bits_ok [OF s(2) assms(2,3) _ s(5)] assms(4,5) s(3,4) by auto
    moreover have "block_children q order = {q div 512}" using block_children_one [OF assms(3)] assms(2) by simp
    ultimately show ?thesis using s(3,4,6) by (simp add: lower_given_def)
  qed
qed

lemma child_clear_huge_eval:
  "child_ok c f \<Longrightarrow> child_clear_huge c = Some (if child_huge c then Some \<lparr>child_free = 512, child_huge = False\<rparr> else None)"
  by (simp add: child_clear_huge_def child_new_def child_ok_def)

lemma huge_given:
  assumes "lower_ok L" "i < child_count L" "512 * i + 512 \<le> frames L" "child_huge (children L ! i)"
  shows "lower_given L 9 (512 * i) (put_child L i \<lparr>child_free = 512, child_huge = False\<rparr> (bitfields L ! i))"
proof -
  note ok = lower_okD(4) [OF assms(1,2)]
  have f: "field_used (bitfields L ! i) = {}" "length (bitfields L ! i) = 8" using ok assms(4) by (auto simp: child_ok_def)
  have b: "block 0 9 = {0..<512}" by (auto simp: block_def)
  have "lower_given L 9 (512 * i + 0) (put_child L i \<lparr>child_free = 512, child_huge = False\<rparr> (bitfields L ! i))"
    by (rule give_to_child [OF assms(1,2)])
      (use f b assms(3,4) in \<open>auto simp: child_ok_def child_frames_def simp del: block_mem\<close>)
  then show ?thesis by simp
qed

lemma lower_put_huge:
  assumes "lower_ok L" "512 dvd q" "q + 512 \<le> frames L"
  shows "if child_huge (children L ! (q div 512))
    then \<exists>L'. lower_put L q 9 = Some (llfree_err LLFREE_ERR_OK, L') \<and> lower_given L 9 q L'
    else lower_put L q 9 = Some (llfree_err LLFREE_ERR_ADDRESS, L)"
proof -
  have "q + 2 ^ 9 \<le> frames L" using assms(3) by simp
  note i = in_bounds [OF assms(1) this]
  note ok = lower_okD(4) [OF assms(1) i(2)]
  have "q mod 512 = 0" using assms(2) by simp
  then have e: "lower_put L q 9 = (case update_child child_clear_huge L (q div 512) of None \<Rightarrow> None
      | Some (b, L') \<Rightarrow> Some (llfree_err (if b then LLFREE_ERR_OK else LLFREE_ERR_ADDRESS), L'))"
    using i(1,4) assms(3) by (simp add: lower_put_def child_from_frame_def split: option.split)
  have q: "512 * (q div 512) = q" using assms(2) by simp
  show ?thesis
    unfolding e update_child_eval [OF assms(1) i(3)] child_clear_huge_eval [OF ok]
    using huge_given [OF assms(1) i(2)] assms(3) q set_fields_eq(1) [OF assms(1) i(2)] by auto
qed

lemma child_clear_max_eval:
  "child_ok a f \<Longrightarrow> child_ok b g \<Longrightarrow> child_clear_max (a, b) =
    Some (if child_huge a \<and> child_huge b
      then Some (\<lparr>child_free = 512, child_huge = False\<rparr>, \<lparr>child_free = 512, child_huge = False\<rparr>) else None)"
  by (simp add: child_clear_max_def child_new_def child_ok_def)

lemma lower_put_max:
  assumes "lower_ok L" "1024 dvd q" "q + 1024 \<le> frames L"
  shows "if child_huge (children L ! (q div 512)) \<and> child_huge (children L ! Suc (q div 512))
    then \<exists>L'. lower_put L q 10 = Some (llfree_err LLFREE_ERR_OK, L') \<and> lower_given L 10 q L'
    else lower_put L q 10 = Some (llfree_err LLFREE_ERR_MEMORY, L)"
proof -
  let ?i = "q div 512" and ?F = "\<lparr>child_free = 512, child_huge = False\<rparr>"
  have "q + 2 ^ 10 \<le> frames L" "(q + 512) + 2 ^ 9 \<le> frames L" using assms(3) by simp_all
  note i = in_bounds [OF assms(1) this(1)] and j = in_bounds [OF assms(1) this(2)]
  have s: "(q + 512) div 512 = Suc ?i" by simp
  note ok = lower_okD(4) [OF assms(1) i(2)] lower_okD(4) [OF assms(1) j(2) [unfolded s]]
  have "q mod 1024 = 0" using assms(2) by simp
  then have e: "lower_put L q 10 = (case update_pair child_clear_max L ?i of None \<Rightarrow> None
      | Some (b, L') \<Rightarrow> Some (llfree_err (if b then LLFREE_ERR_OK else LLFREE_ERR_MEMORY), L'))"
    using i(1,4) assms(3) by (simp add: lower_put_def child_from_frame_def split: option.split)
  have q: "512 * ?i = q" using dvd_trans [of 512 1024 q] assms(2) by simp
  note up = update_pair_eval [OF assms(1) j(3) [unfolded s]]
  show ?thesis
  proof (cases "child_huge (children L ! ?i) \<and> child_huge (children L ! Suc ?i)")
    case True
    let ?L1 = "put_child L ?i ?F (bitfields L ! ?i)"
    let ?L2 = "put_child ?L1 (Suc ?i) ?F (bitfields L ! Suc ?i)"
    have g1: "lower_given L 9 q ?L1" using huge_given [OF assms(1) i(2)] True assms(3) q by simp
    have "lower_given ?L1 9 (512 * Suc ?i) (put_child ?L1 (Suc ?i) ?F (bitfields ?L1 ! Suc ?i))"
      by (rule huge_given) (use g1 j(2) s True assms(3) q in \<open>auto simp: lower_given_def put_child_def child_count_def\<close>)
    then have g2: "lower_given ?L1 9 (q + 512) ?L2" using q by (simp add: put_child_def add.commute)
    have "block q (Suc 9) = block q 9 \<union> block (q + 2 ^ 9) 9" by (rule block_halves)
    then have b: "block q 10 = block q 9 \<union> block (q + 512) 9" by simp
    then have bc: "block_children q 10 = block_children q 9 \<union> block_children (q + 512) 9"
      by (simp add: block_children_def image_Un)
    have "lower_given L 10 q ?L2" using g1 g2 unfolding lower_given_def b bc by (auto simp del: block_mem)
    then show ?thesis unfolding e up child_clear_max_eval [OF ok] using True
      by (simp add: set_pair_eq [OF assms(1) j(2) [unfolded s]])
  next
    case False
    then show ?thesis unfolding e up child_clear_max_eval [OF ok] by auto
  qed
qed

lemma lower_put_spec:
  assumes "lower_ok L" "order \<le> 10" "2 ^ order dvd q" "q + 2 ^ order \<le> frames L" "block q order \<inter> lower_free L = {}"
    and "9 \<le> order \<Longrightarrow> block_children q order \<subseteq> huge_set L"
  shows "\<exists>L'. lower_put L q order = Some (llfree_err LLFREE_ERR_OK, L') \<and> lower_given L order q L'"
proof -
  consider "order \<le> 8" | "order = 9" | "order = 10" using assms(2) by linarith
  then show ?thesis
  proof cases
    case 1
    then show ?thesis using lower_put_small [OF assms(1) _ assms(3-5)] by simp
  next
    case 2
    then have "q div 512 \<in> huge_set L" using assms(6) block_children_one [OF assms(3)] by simp
    then show ?thesis using lower_put_huge [OF assms(1), of q] assms(3,4) 2 by (simp add: huge_set_def)
  next
    case 3
    have "q \<in> block q order" "q + 512 \<in> block q order" using 3 by simp_all
    then have "q div 512 \<in> block_children q order" "(q + 512) div 512 \<in> block_children q order"
      unfolding block_children_def by blast+
    moreover have "(q + 512) div 512 = Suc (q div 512)" by simp
    ultimately have "q div 512 \<in> huge_set L" "Suc (q div 512) \<in> huge_set L" using assms(6) 3 by auto
    then show ?thesis using lower_put_max [OF assms(1), of q] assms(3,4) 3 by (simp add: huge_set_def)
  qed
qed

end
