(* ===== verification/LLFree_Lower_Init.thy ===== *)
theory LLFree_Lower_Init
  imports LLFree_Lower_Inv
begin

text \<open>
  Initialisation and recovery of the lower allocator: what \<open>lower_init\<close> makes of the arrays it
  finds, for each of its modes.
\<close>

subsection \<open>Fresh bit fields\<close>

lemma init_rows_length [simp]: "length (init_rows n free) = n"
  by (induction n arbitrary: free) auto

lemma init_rows_bit:
  "r < n \<Longrightarrow> j < 64 \<Longrightarrow> bit (init_rows n free ! r) j \<longleftrightarrow> free \<le> 64 * r + j"
proof (induction n arbitrary: free r)
  case (Suc n)
  consider "64 \<le> free" | "0 < free" "free < 64" | "free = 0" by linarith
  then show ?case
  proof cases
    case 1
    show ?thesis
    proof (cases r)
      case 0
      then show ?thesis using 1 Suc.prems by simp
    next
      case (Suc k)
      have "bit (init_rows n (free - 64) ! k) j \<longleftrightarrow> free - 64 \<le> 64 * k + j" using Suc.IH [of k "free - 64"] Suc.prems Suc by simp
      then show ?thesis using 1 Suc by auto
    qed
  next
    case 2
    show ?thesis
    proof (cases r)
      case 0
      have "bit (push_bit free (NOT 0) :: u64) j \<longleftrightarrow> free \<le> j" using Suc.prems(2) by (auto simp: bit_not_iff bit_mask_iff)
      then show ?thesis using 2 0 by simp
    next
      case (Suc k)
      then show ?thesis using 2 Suc.IH [of k 0] Suc.prems by simp
    qed
  next
    case 3
    then show ?thesis using Suc.IH [of "r - 1" 0] Suc.prems by (cases r) auto
  qed
qed simp

lemma init_field_used: "field_used (init_field f free) = {free..<512}"
proof (rule set_eqI)
  fix x
  show "x \<in> field_used (init_field f free) \<longleftrightarrow> x \<in> {free..<512}"
  proof (cases "x < 512")
    case True
    then obtain r j where r: "x = 64 * r + j" "j < 64" "r < 8" by (rule field_cases)
    have "bit (init_rows 8 free ! r) j \<longleftrightarrow> free \<le> x" using init_rows_bit [OF r(3,2)] r(1) by simp
    then show ?thesis using field_used_at [OF r(2,3)] True r(1) by (simp add: init_field_def)
  qed (auto simp: field_used_def)
qed

lemma zero_field_used: "field_used (zero_field f) = {}" "field_used (field_init f) = {}"
  by (auto simp: field_used_def zero_field_def field_init_def div_less_iff_less_mult)

subsection \<open>Clearing\<close>

definition fresh_child :: "bool \<Rightarrow> nat \<Rightarrow> nat \<Rightarrow> child" where
  "fresh_child free_all n i = (let free = (if free_all then min 512 (n - i * 512) else 0) in
     \<lparr>child_free = free, child_huge = (free = 0)\<rparr>)"

definition fresh_field :: "bool \<Rightarrow> nat \<Rightarrow> nat \<Rightarrow> bitfield \<Rightarrow> bitfield" where
  "fresh_field free_all n i f = (let free = (if free_all then min 512 (n - i * 512) else 0) in
     if free = 0 then zero_field f else init_field f free)"

definition shaped :: "lower \<Rightarrow> bool" where
  "shaped L \<longleftrightarrow> length (bitfields L) = child_count L \<and> length (children L) = align_up (child_count L) 8"

lemma shapedD:
  assumes "shaped L"
  shows "length (bitfields L) = child_count L" "length (children L) = align_up (child_count L) 8"
    "child_count L \<le> length (children L)"
  using assms align_up_ge [of 8 "child_count L"] by (simp_all add: shaped_def)

lemma shaped_put [simp]: "shaped (put_child L i c f) \<longleftrightarrow> shaped L"
  by (simp add: shaped_def)

lemma clear_step:
  assumes "shaped L" "i < child_count L"
  shows "clear_children fa (i # is) L =
    clear_children fa is (put_child L i (fresh_child fa (frames L) i) (fresh_field fa (frames L) i (bitfields L ! i)))"
proof -
  note d = shapedD [OF assms(1)]
  have len: "i < length (bitfields L)" "i < length (children L)" "i < align_up (child_count L) 8"
    using assms(2) d by auto
  define free where "free = (if fa then min 512 (frames L - i * 512) else 0)"
  have "free \<le> 512" by (simp add: free_def)
  then have c: "child_new (free mod 2 ^ 16) (free = 0) = Some \<lparr>child_free = free, child_huge = (free = 0)\<rparr>"
    by (auto simp: child_new_def)
  have "set_child L i \<lparr>child_free = free, child_huge = (free = 0)\<rparr> =
      Some (L\<lparr>children := (children L)[i := \<lparr>child_free = free, child_huge = (free = 0)\<rparr>]\<rparr>)"
    using len by (simp add: set_child_def)
  then show ?thesis using c len
    by (simp add: Let_def free_def [symmetric] set_field_def put_child_def fresh_child_def fresh_field_def)
qed

text \<open>The loops visit each index once.\<close>

lemma clear_children_spec:
  assumes "shaped L" "\<And>i. i \<in> set is \<Longrightarrow> i < child_count L" "distinct is"
  shows "\<exists>L'. clear_children fa is L = Some L' \<and> shaped L' \<and> frames L' = frames L \<and>
    (\<forall>i. children L' ! i = (if i \<in> set is then fresh_child fa (frames L) i else children L ! i)) \<and>
    (\<forall>i. bitfields L' ! i = (if i \<in> set is then fresh_field fa (frames L) i (bitfields L ! i) else bitfields L ! i))"
  using assms
proof (induction "is" arbitrary: L)
  case (Cons i "is")
  let ?L1 = "put_child L i (fresh_child fa (frames L) i) (fresh_field fa (frames L) i (bitfields L ! i))"
  have i: "i < child_count L" "i \<notin> set is" using Cons.prems by auto
  have len: "i < length (children L)" "i < length (bitfields L)" using i shapedD [OF Cons.prems(1)] by auto
  have at: "children ?L1 ! j = (if j = i then fresh_child fa (frames L) i else children L ! j)"
    "bitfields ?L1 ! j = (if j = i then fresh_field fa (frames L) i (bitfields L ! i) else bitfields L ! j)" for j
    using len by (simp_all add: put_child_def)
  have "\<exists>L'. clear_children fa is ?L1 = Some L' \<and> shaped L' \<and> frames L' = frames ?L1 \<and>
    (\<forall>j. children L' ! j = (if j \<in> set is then fresh_child fa (frames ?L1) j else children ?L1 ! j)) \<and>
    (\<forall>j. bitfields L' ! j = (if j \<in> set is then fresh_field fa (frames ?L1) j (bitfields ?L1 ! j) else bitfields ?L1 ! j))"
    by (rule Cons.IH) (use Cons.prems in auto)
  then show ?case unfolding clear_step [OF Cons.prems(1) i(1)] using i(2) unfolding at by (auto split: if_splits)
qed simp

lemma pad_children_spec:
  assumes "shaped L" "\<And>i. i \<in> set is \<Longrightarrow> i < length (children L)"
  shows "\<exists>L'. pad_children is L = Some L' \<and> shaped L' \<and> frames L' = frames L \<and> bitfields L' = bitfields L \<and>
    (\<forall>i. children L' ! i = (if i \<in> set is then \<lparr>child_free = 0, child_huge = True\<rparr> else children L ! i))"
  using assms
proof (induction "is" arbitrary: L)
  case (Cons i "is")
  let ?L1 = "L\<lparr>children := (children L)[i := \<lparr>child_free = 0, child_huge = True\<rparr>]\<rparr>"
  have i: "i < length (children L)" using Cons.prems by simp
  have e: "pad_children (i # is) L = pad_children is ?L1"
    using i shapedD(2) [OF Cons.prems(1)] by (simp add: child_new_def set_child_def)
  have "\<exists>L'. pad_children is ?L1 = Some L' \<and> shaped L' \<and> frames L' = frames ?L1 \<and> bitfields L' = bitfields ?L1 \<and>
    (\<forall>j. children L' ! j = (if j \<in> set is then \<lparr>child_free = 0, child_huge = True\<rparr> else children ?L1 ! j))"
    by (rule Cons.IH) (use Cons.prems in \<open>auto simp: shaped_def child_count_def\<close>)
  then show ?case unfolding e using i by (auto simp: nth_list_update split: if_splits)
qed simp

lemma child_count_bound: "i < child_count L \<longleftrightarrow> i * 512 < frames L"
proof -
  have "i < child_count L \<longleftrightarrow> Suc i \<le> (frames L + 511) div 512" by (simp add: child_count_def div_ceil_def less_eq_Suc_le add.commute)
  also have "\<dots> \<longleftrightarrow> Suc i * 512 \<le> frames L + 511" by (simp add: less_eq_div_iff_mult_less_eq)
  finally show ?thesis by auto
qed

lemma fresh_ok:
  assumes "i < child_count L"
  shows "child_ok (fresh_child fa (frames L) i) (fresh_field fa (frames L) i f)"
    and "child_frames (fresh_child fa (frames L) i) (fresh_field fa (frames L) i f) =
      (if fa then {0..<min 512 (frames L - i * 512)} else {})"
proof -
  have "i * 512 < frames L" using assms child_count_bound by simp
  then have p: "0 < min 512 (frames L - i * 512)" by simp
  have l: "length (init_field f n) = 8" "length (zero_field f) = 8" for n by (simp_all add: init_field_def zero_field_def)
  show "child_ok (fresh_child fa (frames L) i) (fresh_field fa (frames L) i f)"
    using p l by (auto simp: child_ok_def fresh_child_def fresh_field_def Let_def init_field_used zero_field_used)
  have "{0..<512} - {n..<512} = {0..<min 512 n}" for n :: nat by auto
  then show "child_frames (fresh_child fa (frames L) i) (fresh_field fa (frames L) i f) =
      (if fa then {0..<min 512 (frames L - i * 512)} else {})"
    using p by (auto simp: child_frames_def fresh_child_def fresh_field_def Let_def init_field_used)
qed

lemma lower_clear_spec:
  assumes "shaped L" "frames L \<le> MAX_PAGES"
  shows "\<exists>L'. lower_clear L fa = Some L' \<and> lower_ok L' \<and> frames L' = frames L \<and>
    lower_free L' = (if fa then {..<frames L} else {})"
proof -
  let ?n = "child_count L"
  obtain L1 where L1: "clear_children fa [0..<?n] L = Some L1" "shaped L1" "frames L1 = frames L"
    "\<And>i. children L1 ! i = (if i < ?n then fresh_child fa (frames L) i else children L ! i)"
    "\<And>i. bitfields L1 ! i = (if i < ?n then fresh_field fa (frames L) i (bitfields L ! i) else bitfields L ! i)"
    using clear_children_spec [OF assms(1), of "[0..<?n]" fa] by auto
  have c1: "child_count L1 = ?n" using L1(3) by (simp add: child_count_def)
  have "\<And>i. i \<in> set [?n..<align_up ?n 8] \<Longrightarrow> i < length (children L1)" using shapedD(2) [OF L1(2)] c1 by simp
  from pad_children_spec [OF L1(2) this] obtain L' where
    L': "pad_children [?n..<align_up ?n 8] L1 = Some L'" "shaped L'" "frames L' = frames L1" "bitfields L' = bitfields L1"
    "\<And>i. children L' ! i = (if i \<in> set [?n..<align_up ?n 8] then \<lparr>child_free = 0, child_huge = True\<rparr> else children L1 ! i)"
    by blast
  have c: "child_count L' = ?n" using L'(3) L1(3) by (simp add: child_count_def)
  have at: "children L' ! i = fresh_child fa (frames L) i" "bitfields L' ! i = fresh_field fa (frames L) i (bitfields L ! i)"
    if "i < ?n" for i using that L'(4,5) L1(4,5) by simp_all
  have free: "lower_free L' = (if fa then {..<frames L} else {})"
  proof (rule set_eqI)
    fix x :: nat
    have m: "x = 512 * (x div 512) + x mod 512" by simp
    have "x div 512 < ?n \<longleftrightarrow> 512 * (x div 512) < frames L" using child_count_bound [of "x div 512" L] by (simp add: mult.commute)
    moreover have "x < frames L \<longleftrightarrow> 512 * (x div 512) < frames L \<and> x mod 512 < frames L - 512 * (x div 512)"
      using m by linarith
    ultimately show "x \<in> lower_free L' \<longleftrightarrow> x \<in> (if fa then {..<frames L} else {})"
      unfolding lower_free_def c by (auto simp: at fresh_ok(2) mult.commute)
  qed
  have "lower_ok L'" unfolding lower_ok_def c
  proof (intro conjI allI impI)
    show "frames L' \<le> MAX_PAGES" using assms(2) L'(3) L1(3) by simp
    show "length (bitfields L') = ?n" "length (children L') = align_up ?n 8" using shapedD [OF L'(2)] c by auto
    show "child_ok (children L' ! i) (bitfields L' ! i)" if "i < ?n" for i using at [OF that] fresh_ok(1) [OF that] by simp
    show "children L' ! i = \<lparr>child_free = 0, child_huge = True\<rparr>" if "?n \<le> i" "i < length (children L')" for i
      using that L'(5) shapedD(2) [OF L'(2)] c by simp
    show "lower_free L' \<subseteq> {..<frames L'}" using free L'(3) L1(3) by auto
  qed
  moreover have "lower_clear L fa = Some L'" using L1(1) L'(1) by (simp add: lower_clear_def)
  ultimately show ?thesis using free L'(3) L1(3) by auto
qed

subsection \<open>Recovery\<close>

text \<open>What a crash leaves behind: the marks and the bits are trusted, the counters are not, and the
  bits of a child allocated as a whole are arbitrary.\<close>

definition recoverable :: "lower \<Rightarrow> bool" where
  "recoverable L \<longleftrightarrow> frames L \<le> MAX_PAGES \<and> shaped L \<and> (\<forall>i < child_count L. length (bitfields L ! i) = 8) \<and>
     (\<forall>i. child_count L \<le> i \<longrightarrow> i < length (children L) \<longrightarrow> children L ! i = \<lparr>child_free = 0, child_huge = True\<rparr>) \<and>
     lower_free L \<subseteq> {..<frames L}"

definition recovered_child :: "child \<Rightarrow> bitfield \<Rightarrow> child" where
  "recovered_child c f = (if child_huge c then \<lparr>child_free = 0, child_huge = True\<rparr>
     else \<lparr>child_free = 512 - card (field_used f), child_huge = False\<rparr>)"

definition recovered_field :: "child \<Rightarrow> bitfield \<Rightarrow> bitfield" where
  "recovered_field c f = (if child_huge c then field_init f else f)"

lemma recovered_ok:
  assumes "length f = 8"
  shows "child_ok (recovered_child c f) (recovered_field c f)"
    "child_frames (recovered_child c f) (recovered_field c f) = child_frames c f"
proof -
  have "length (field_init f) = 8" by (simp add: field_init_def)
  then show "child_ok (recovered_child c f) (recovered_field c f)"
    using assms by (simp add: child_ok_def recovered_child_def recovered_field_def zero_field_used)
qed (simp add: child_frames_def recovered_child_def recovered_field_def)

lemma recover_step:
  assumes "shaped L" "i < child_count L" "length (bitfields L ! i) = 8"
  shows "recover_children (i # is) L = recover_children is
    (put_child L i (recovered_child (children L ! i) (bitfields L ! i)) (recovered_field (children L ! i) (bitfields L ! i)))"
proof -
  note d = shapedD [OF assms(1)]
  have len: "i < length (bitfields L)" "i < length (children L)" "i < align_up (child_count L) 8"
    using assms(2) d by auto
  have m: "(512 - card (field_used (bitfields L ! i))) mod 65536 = 512 - card (field_used (bitfields L ! i))" by simp
  show ?thesis
    using len by (auto simp: get_child_def child_new_def set_child_def set_field_def put_child_def m
        recovered_child_def recovered_field_def field_count_ones_spec child_count_def)
qed

lemma recover_children_spec:
  assumes "shaped L" "\<And>i. i \<in> set is \<Longrightarrow> i < child_count L \<and> length (bitfields L ! i) = 8" "distinct is"
  shows "\<exists>L'. recover_children is L = Some L' \<and> shaped L' \<and> frames L' = frames L \<and>
    (\<forall>i. children L' ! i = (if i \<in> set is then recovered_child (children L ! i) (bitfields L ! i) else children L ! i)) \<and>
    (\<forall>i. bitfields L' ! i = (if i \<in> set is then recovered_field (children L ! i) (bitfields L ! i) else bitfields L ! i))"
  using assms
proof (induction "is" arbitrary: L)
  case (Cons i "is")
  let ?L1 = "put_child L i (recovered_child (children L ! i) (bitfields L ! i)) (recovered_field (children L ! i) (bitfields L ! i))"
  have i: "i < child_count L" "length (bitfields L ! i) = 8" "i \<notin> set is" using Cons.prems by auto
  have len: "i < length (children L)" "i < length (bitfields L)" using i shapedD [OF Cons.prems(1)] by auto
  have at: "children ?L1 ! j = (if j = i then recovered_child (children L ! i) (bitfields L ! i) else children L ! j)"
    "bitfields ?L1 ! j = (if j = i then recovered_field (children L ! i) (bitfields L ! i) else bitfields L ! j)" for j
    using len by (simp_all add: put_child_def)
  have "\<exists>L'. recover_children is ?L1 = Some L' \<and> shaped L' \<and> frames L' = frames ?L1 \<and>
    (\<forall>j. children L' ! j = (if j \<in> set is then recovered_child (children ?L1 ! j) (bitfields ?L1 ! j) else children ?L1 ! j)) \<and>
    (\<forall>j. bitfields L' ! j = (if j \<in> set is then recovered_field (children ?L1 ! j) (bitfields ?L1 ! j) else bitfields ?L1 ! j))"
  proof (rule Cons.IH)
    fix j assume "j \<in> set is"
    then show "j < child_count ?L1 \<and> length (bitfields ?L1 ! j) = 8" using Cons.prems(2) [of j] i(3) at(2) by auto
  qed (use Cons.prems in auto)
  then show ?case unfolding recover_step [OF Cons.prems(1) i(1,2)] using i(3) unfolding at by (auto split: if_splits)
qed simp

lemma lower_recover_spec:
  assumes "recoverable L"
  shows "\<exists>L'. lower_recover L = Some L' \<and> lower_ok L' \<and> frames L' = frames L \<and> lower_free L' = lower_free L"
proof -
  let ?n = "child_count L"
  note r = assms [unfolded recoverable_def]
  have "\<exists>L'. recover_children [0..<?n] L = Some L' \<and> shaped L' \<and> frames L' = frames L \<and>
    (\<forall>i. children L' ! i = (if i \<in> set [0..<?n] then recovered_child (children L ! i) (bitfields L ! i) else children L ! i)) \<and>
    (\<forall>i. bitfields L' ! i = (if i \<in> set [0..<?n] then recovered_field (children L ! i) (bitfields L ! i) else bitfields L ! i))"
    by (rule recover_children_spec) (use r in auto)
  then obtain L' where L': "recover_children [0..<?n] L = Some L'" "shaped L'" "frames L' = frames L"
    "\<And>i. children L' ! i = (if i < ?n then recovered_child (children L ! i) (bitfields L ! i) else children L ! i)"
    "\<And>i. bitfields L' ! i = (if i < ?n then recovered_field (children L ! i) (bitfields L ! i) else bitfields L ! i)" by auto
  have c: "child_count L' = ?n" using L'(3) by (simp add: child_count_def)
  have free: "lower_free L' = lower_free L"
    unfolding lower_free_def c using r by (auto simp: L'(4,5) recovered_ok(2))
  have "lower_ok L'" unfolding lower_ok_def c
  proof (intro conjI allI impI)
    show "frames L' \<le> MAX_PAGES" using r L'(3) by simp
    show "length (bitfields L') = ?n" "length (children L') = align_up ?n 8" using shapedD [OF L'(2)] c by auto
    show "child_ok (children L' ! i) (bitfields L' ! i)" if "i < ?n" for i using that L'(4,5) r recovered_ok(1) by simp
    show "children L' ! i = \<lparr>child_free = 0, child_huge = True\<rparr>" if "?n \<le> i" "i < length (children L')" for i
      using that L'(4) r shapedD(2) [OF L'(2)] shapedD(2) [of L] c by simp
    show "lower_free L' \<subseteq> {..<frames L'}" using free L'(3) r by simp
  qed
  then show ?thesis using L'(1,3) free by (simp add: lower_recover_def)
qed

end
