(* ===== verification/LLFree_Lower_Props.thy ===== *)
theory LLFree_Lower_Props
  imports LLFree_Lower_Init
begin

text \<open>
  The properties of the bit fields and of the lower allocator.
\<close>

text \<open>Lower allocators with \<open>n\<close> free children.\<close>

definition demo_lower :: "nat \<Rightarrow> lower" where
  "demo_lower n = \<lparr>frames = 512 * n, bitfields = replicate n (replicate 8 0),
     children = replicate n \<lparr>child_free = 512, child_huge = False\<rparr> @
       replicate (align_up n 8 - n) \<lparr>child_free = 0, child_huge = True\<rparr>\<rparr>"

lemma zero_rows: "field_used (replicate 8 0) = {}"
  using zero_field_used(1) [of "[]"] by (simp add: zero_field_def)

lemma demo_child_count [simp]: "child_count (demo_lower n) = n"
  by (simp add: child_count_def demo_lower_def div_ceil_def)

lemma demo_lower_free: "lower_free (demo_lower n) = {..<512 * n}"
proof (rule set_eqI)
  fix x :: nat
  have at: "children (demo_lower n) ! i = \<lparr>child_free = 512, child_huge = False\<rparr>" "bitfields (demo_lower n) ! i = replicate 8 0"
    if "i < n" for i using that by (simp_all add: demo_lower_def nth_append)
  have "x div 512 < n \<longleftrightarrow> x < 512 * n" by (simp add: div_less_iff_less_mult mult.commute)
  then show "x \<in> lower_free (demo_lower n) \<longleftrightarrow> x \<in> {..<512 * n}"
    by (auto simp: lower_free_def at child_frames_def zero_rows)
qed

lemma demo_lower_ok:
  assumes "n \<le> 2 ^ 19"
  shows "lower_ok (demo_lower n)"
  unfolding lower_ok_def
proof (intro conjI allI impI)
  have le: "n \<le> align_up n 8" by (rule align_up_ge) simp
  show "frames (demo_lower n) \<le> MAX_PAGES" using assms by (simp add: demo_lower_def)
  show "length (bitfields (demo_lower n)) = child_count (demo_lower n)" unfolding demo_child_count by (simp add: demo_lower_def)
  show "length (children (demo_lower n)) = align_up (child_count (demo_lower n)) 8"
    unfolding demo_child_count using le by (simp add: demo_lower_def)
  show "child_ok (children (demo_lower n) ! i) (bitfields (demo_lower n) ! i)" if "i < child_count (demo_lower n)" for i
    using that unfolding demo_child_count by (simp add: demo_lower_def nth_append child_ok_def zero_rows)
  show "children (demo_lower n) ! i = \<lparr>child_free = 0, child_huge = True\<rparr>"
    if "child_count (demo_lower n) \<le> i" "i < length (children (demo_lower n))" for i
    using that unfolding demo_child_count by (simp add: demo_lower_def nth_append)
  show "lower_free (demo_lower n) \<subseteq> {..<frames (demo_lower n)}" unfolding demo_lower_free by (simp add: demo_lower_def)
qed

subsection \<open>Rows\<close>

text \<open>
  C30: For every order up to 6 the bit tricks of \<open>first_zeros_aligned\<close> agree with a search that
  tests the aligned runs of \<open>2^order\<close> bits one after the other: the function takes the lowest run
  without a set bit, sets exactly its bits and returns its position, and it reports failure
  exactly when every aligned run contains a set bit.
\<close>

theorem first_zeros_aligned_lowest:
  assumes "order \<le> 6"
  shows "first_zeros_aligned v order =
    Some (case find (\<lambda>k. \<forall>i < 2 ^ order. \<not> bit v (k * 2 ^ order + i)) [0..<64 div 2 ^ order] of
            None \<Rightarrow> None
          | Some k \<Rightarrow> Some (v OR push_bit (k * 2 ^ order) (mask (2 ^ order)), k * 2 ^ order))"
  using first_zeros_aligned_spec [OF assms, of v]
  by (simp add: first_free_run_def run_free_def set_run_def split: option.split)

theorem first_zeros_aligned_lowest_witness:
  "first_zeros_aligned 0xff0f 2 = Some (Some (0xffff, 4))"
proof -
  have a: "\<not> bit (0xff0f :: u64) (1 * 2 ^ 2 + i)" if "i < 2 ^ 2" for i
  proof -
    have "i = 0 \<or> i = 1 \<or> i = 2 \<or> i = 3" using that by auto
    then show ?thesis by auto
  qed
  have b: "bit (0xff0f :: u64) (0 * 2 ^ 2 + 0)" by simp
  have "find (\<lambda>k. \<forall>i < 2 ^ 2. \<not> bit (0xff0f :: u64) (k * 2 ^ 2 + i)) [0..<64 div 2 ^ 2] = Some 1"
    unfolding find_upt_Some using a b by (auto intro!: exI [of _ "0 :: nat"])
  then show ?thesis using first_zeros_aligned_lowest [of 2 "0xff0f"] by (simp add: mask_eq_exp_minus_1)
qed

subsection \<open>Lower allocator\<close>

text \<open>
  C31: \<open>lower_get\<close> finds a run if there is one. On a consistent lower allocator, with an order
  up to 10 and a start frame in range (and an even number of children for order 10), the call
  runs through without a failed assertion. When the tree of the start frame has an aligned free
  run of \<open>2^order\<close> frames, one such run is returned and exactly its frames leave the free set;
  otherwise the call reports \<open>LLFREE_ERR_MEMORY\<close> and changes nothing. The allocator stays
  consistent.
\<close>

theorem lower_get_correct:
  assumes "lower_ok L" "order \<le> 10" "s < frames L" "order = 10 \<longrightarrow> even (child_count L)"
  shows "\<exists>r L'. lower_get L s order None = Some (r, L') \<and> lower_ok L' \<and> frames L' = frames L \<and>
    (if \<exists>q. tree_from_frame q = tree_from_frame s \<and> 2 ^ order dvd q \<and> block q order \<subseteq> lower_free L
     then llfree_is_ok r \<and> tree_from_frame (frame r) = tree_from_frame s \<and> 2 ^ order dvd frame r \<and>
          block (frame r) order \<subseteq> lower_free L \<and> lower_free L' = lower_free L - block (frame r) order
     else error r = LLFREE_ERR_MEMORY \<and> L' = L)"
proof -
  have "s div 512 < child_count L" by (rule frame_child_bound [OF assms(3)])
  then have "order = 10 \<longrightarrow> s div 512 div 2 < child_count L div 2" using assms(4) by (auto elim!: evenE)
  from lower_get_spec [OF assms(1-3) this] show ?thesis unfolding tree_search_def
  proof (elim disjE exE conjE)
    fix q L' assume e: "lower_get L s order None = Some (llfree_ok q 0, L')" and t: "lower_taken L order q L'"
      and tr: "tree_from_frame q = tree_from_frame s"
    have "q \<in> block q order" by simp
    then have "q < frames L" using t lower_okD(6) [OF assms(1)] unfolding lower_taken_def by blast
    then have "q < 2 ^ 58" using lower_okD(1) [OF assms(1)] by (rule order.strict_trans2 [OF order.strict_trans2]) simp
    then have "frame (llfree_ok q 0) = q" by simp
    moreover have "\<exists>q. tree_from_frame q = tree_from_frame s \<and> 2 ^ order dvd q \<and> block q order \<subseteq> lower_free L"
      using t tr by (auto simp: lower_taken_def)
    ultimately show ?thesis using e t tr by (simp add: lower_taken_def)
  next
    assume "lower_get L s order None = Some (llfree_err LLFREE_ERR_MEMORY, L)"
      "\<forall>q. tree_from_frame q = tree_from_frame s \<longrightarrow> 2 ^ order dvd q \<longrightarrow> \<not> block q order \<subseteq> lower_free L"
    then show ?thesis using assms(1) by auto
  qed
qed

theorem lower_get_correct_witness:
  "\<exists>r L'. lower_get (demo_lower 2) 700 7 None = Some (r, L') \<and> llfree_is_ok r \<and>
     lower_free L' = {..<1024} - block (frame r) 7"
proof -
  have ok: "lower_ok (demo_lower 2)" by (rule demo_lower_ok) simp
  have f: "frames (demo_lower 2) = 1024" by (simp add: demo_lower_def)
  have "block 0 7 \<subseteq> lower_free (demo_lower 2)" unfolding demo_lower_free by (auto simp: block_def)
  then have "\<exists>q. tree_from_frame q = tree_from_frame 700 \<and> 2 ^ 7 dvd q \<and> block q 7 \<subseteq> lower_free (demo_lower 2)"
    by (intro exI [of _ 0]) (simp add: tree_from_frame_def)
  with lower_get_correct [OF ok, of 7 700] f show ?thesis unfolding demo_lower_free by (auto simp del: block_mem)
qed





subsection \<open>Two defects\<close>

text \<open>A child whose second row is in use.\<close>

definition half_used :: lower where
  "half_used = \<lparr>frames = 512, bitfields = [[0, - 1, 0, 0, 0, 0, 0, 0]],
     children = \<lparr>child_free = 448, child_huge = False\<rparr> # replicate 7 \<lparr>child_free = 0, child_huge = True\<rparr>\<rparr>"

definition half_leaked :: lower where
  "half_leaked = half_used\<lparr>bitfields := [[- 1, - 1, 0, 0, 0, 0, 0, 0]]\<rparr>"

lemma half_counts: "child_count half_used = 1" "child_count half_leaked = 1" "align_up 1 8 = 8"
  by (simp_all add: child_count_def half_leaked_def half_used_def div_ceil_def align_up_def)

lemma half_frames: "frames half_used = 512"
  by (simp add: half_used_def)

lemma half_fields:
  "field_used [0, - 1, 0, 0, 0, 0, 0, 0] = {64..<128}" "field_used [- 1, - 1, 0, 0, 0, 0, 0, 0] = {0..<128}"
proof -
  have "fill_rows (replicate 8 0) 1 1 (NOT 0) = [0, - 1, 0, 0, 0, 0, 0, 0]"
    "fill_rows (replicate 8 0) 0 2 (NOT 0) = [- 1, - 1, 0, 0, 0, 0, 0, 0]"
    by (simp_all add: fill_rows_def upt_rec)
  then show "field_used [0, - 1, 0, 0, 0, 0, 0, 0] = {64..<128}" "field_used [- 1, - 1, 0, 0, 0, 0, 0, 0] = {0..<128}"
    using field_used_fill(1) [of "replicate 8 0" 1 1] field_used_fill(1) [of "replicate 8 0" 0 2]
    by (simp_all add: zero_rows rows_span_def)
qed

lemma half_used_get: "lower_get half_used 0 7 (Some 0) = Some (llfree_err LLFREE_ERR_MEMORY, half_leaked)"
proof -
  have "field_toggle [0, - 1, 0, 0, 0, 0, 0, 0] 0 7 False = toggle_rows [0, - 1, 0, 0, 0, 0, 0, 0] 0 False (Suc (Suc 0))"
    by (simp add: field_toggle_def get_pos_def numeral_2_eq_2 [symmetric])
  then have t: "field_toggle [0, - 1, 0, 0, 0, 0, 0, 0] 0 7 False =
      Some (llfree_err LLFREE_ERR_ADDRESS, [- 1, - 1, 0, 0, 0, 0, 0, 0])" by simp
  have "update_child (\<lambda>c. Some (child_dec c 7)) half_used 0 =
      Some (True, half_used\<lparr>children := \<lparr>child_free = 320, child_huge = False\<rparr> # replicate 7 \<lparr>child_free = 0, child_huge = True\<rparr>\<rparr>)"
    by (simp add: update_child_def get_child_def set_child_def child_dec_def half_used_def child_count_def div_ceil_def align_up_def)
  moreover have "update_child (\<lambda>c. Some (child_inc c 7))
      (half_leaked\<lparr>children := \<lparr>child_free = 320, child_huge = False\<rparr> # replicate 7 \<lparr>child_free = 0, child_huge = True\<rparr>\<rparr>) 0 =
      Some (True, half_leaked)"
    by (simp add: update_child_def get_child_def set_child_def child_inc_def half_used_def half_leaked_def child_count_def
        div_ceil_def align_up_def)
  ultimately have "get_bits half_used 0 7 = Some (llfree_err LLFREE_ERR_MEMORY, half_leaked)"
    using t by (simp add: get_bits_def child_from_frame_def set_field_def half_used_def half_leaked_def)
  then show ?thesis by (simp add: lower_get_def child_from_frame_def half_counts [simplified] half_frames)
qed

lemma half_used_ok: "lower_ok half_used"
  unfolding lower_ok_def half_counts
proof (intro conjI allI impI)
  show "child_ok (children half_used ! i) (bitfields half_used ! i)" if "i < 1" for i
    using that by (simp add: half_used_def child_ok_def half_fields)
  show "children half_used ! i = \<lparr>child_free = 0, child_huge = True\<rparr>" if "1 \<le> i" "i < length (children half_used)" for i
    using that by (cases i) (simp_all add: half_used_def)
  show "lower_free half_used \<subseteq> {..<frames half_used}"
    unfolding lower_free_def half_counts half_frames by auto
qed (simp_all add: half_used_def)

text \<open>
  C34: Taking a given run of two or four rows is not undone on failure. In a consistent child
  whose first row is free and whose second row is in use, the request for the run of 128 frames
  at frame 0 fails with \<open>LLFREE_ERR_MEMORY\<close>, but frame 0 is in use afterwards although nobody
  owns it, and the counter no longer matches the bits.
\<close>

theorem lower_get_at_leaks:
  "\<exists>L'. lower_ok half_used \<and> lower_get half_used 0 7 (Some 0) = Some (llfree_err LLFREE_ERR_MEMORY, L') \<and>
     0 \<in> lower_free half_used \<and> 0 \<notin> lower_free L' \<and> \<not> lower_ok L'"
proof (intro exI conjI)
  show "lower_ok half_used" by (rule half_used_ok)
  show "lower_get half_used 0 7 (Some 0) = Some (llfree_err LLFREE_ERR_MEMORY, half_leaked)" by (rule half_used_get)
  show "0 \<in> lower_free half_used" "0 \<notin> lower_free half_leaked"
    by (simp_all add: lower_free_def half_counts, simp_all add: half_leaked_def half_used_def child_frames_def half_fields)
  have "\<not> child_ok (children half_leaked ! 0) (bitfields half_leaked ! 0)"
    by (simp add: child_ok_def half_leaked_def half_used_def half_fields)
  then show "\<not> lower_ok half_leaked" using lower_okD(4) [of half_leaked 0] half_counts(2) by auto
qed

text \<open>
  C35: With an odd number of children the search for a pair of children fails its assertion
  when it starts in the last child, however many pairs of the tree are free.
\<close>

theorem lower_get_odd_children:
  assumes "odd (child_count L)" "s < frames L" "s div 512 = child_count L - 1"
  shows "lower_get L s 10 None = None"
proof -
  have "\<not> s div 512 div 2 < child_count L div 2" using assms(1,3) by (auto elim!: oddE)
  then show ?thesis using assms(2) by (simp add: lower_get_def lower_get_inner_def get_max_def child_from_frame_def)
qed

theorem lower_get_odd_children_witness:
  "block 0 10 \<subseteq> lower_free (demo_lower 3) \<and> lower_get (demo_lower 3) 1030 10 None = None"
proof -
  have "lower_get (demo_lower 3) 1030 10 None = None"
    by (rule lower_get_odd_children) (simp_all, simp add: demo_lower_def)
  then show ?thesis unfolding demo_lower_free by (auto simp: block_def)
qed

end
