(* ===== verification/LLFree_Trees.thy ===== *)
theory LLFree_Trees
  imports LLFree_Bits
begin

text \<open>
  The array of trees of \<^verbatim>\<open>kernel/mm/llfree/trees.c\<close> with the tree entries of \<^verbatim>\<open>tree.c\<close> and
  \<^verbatim>\<open>tree.h\<close>. A tree stands for 4096 frames: a counter of the free frames no CPU has
  reserved, the tier the tree serves, and the mark that a CPU holds it. The policy that matches
  tiers is an argument. At the end: the order in which a search visits the trees.
\<close>

subsection \<open>Atomic updates\<close>

text \<open>
  \<open>atom_update\<close> on an element of an array: the old value, what the function reports when it
  stores a new value, and the array.
\<close>

definition atom_update ::
    "('a \<Rightarrow> ('a \<times> 'b) option option) \<Rightarrow> 'a list \<Rightarrow> nat \<Rightarrow> ('a \<times> 'b option \<times> 'a list) option" where
  "atom_update fn xs i =
     do { old \<leftarrow> load_at xs i;
          r \<leftarrow> fn old;
          case r of
            None \<Rightarrow> Some (old, None, xs)
          | Some (value, out) \<Rightarrow> Some (old, Some out, xs[i := value]) }"

lemma atom_update_eval:
  "i < length xs \<Longrightarrow> fn (xs ! i) = Some r \<Longrightarrow>
   atom_update fn xs i = Some (case r of None \<Rightarrow> (xs ! i, None, xs) | Some (v, out) \<Rightarrow> (xs ! i, Some out, xs[i := v]))"
  by (simp add: atom_update_def split: option.splits prod.splits)

subsection \<open>Policies\<close>

datatype llfree_policy_type =
  LLFREE_POLICY_MATCH | LLFREE_POLICY_STEAL | LLFREE_POLICY_DEMOTE | LLFREE_POLICY_INVALID

record llfree_policy =
  policy_type :: llfree_policy_type
  policy_priority :: nat

type_synonym llfree_policy_fn = "nat \<Rightarrow> nat \<Rightarrow> nat \<Rightarrow> llfree_policy"

definition UINT8_MAX :: nat where "UINT8_MAX = 255"

definition llfree_simple_policy :: llfree_policy_fn where
  "llfree_simple_policy requested target free =
     (if requested > target then \<lparr>policy_type = LLFREE_POLICY_STEAL, policy_priority = 0\<rparr>
      else if requested < target then \<lparr>policy_type = LLFREE_POLICY_DEMOTE, policy_priority = 0\<rparr>
      else if free \<ge> LLFREE_TREE_SIZE div 2 then \<lparr>policy_type = LLFREE_POLICY_MATCH, policy_priority = 1\<rparr>
      else if free \<ge> LLFREE_TREE_SIZE div 64
      then \<lparr>policy_type = LLFREE_POLICY_MATCH, policy_priority = UINT8_MAX\<rparr>
      else \<lparr>policy_type = LLFREE_POLICY_MATCH, policy_priority = 0\<rparr>)"

text \<open>
  A tiering: for each of the first \<open>num_tiers\<close> places a tier and its number of local entries.
\<close>

record llfree_tiering =
  tiers :: "(nat \<times> nat) list"
  num_tiers :: nat
  default_tier :: nat
  tiering_policy :: llfree_policy_fn

definition llfree_tiering_simple :: "nat \<Rightarrow> llfree_tiering" where
  "llfree_tiering_simple cores =
     \<lparr>tiers = [(0, cores), (1, cores)] @ replicate 6 (0, 0), num_tiers = 2, default_tier = 1,
      tiering_policy = llfree_simple_policy\<rparr>"

record llfree_request =
  req_order :: nat
  req_tier :: nat
  req_local :: nat

definition llfree_simple_request :: "nat \<Rightarrow> nat \<Rightarrow> nat \<Rightarrow> llfree_request option" where
  "llfree_simple_request cores order core =
     do { bug_on (cores = 0);
          Some (if order \<ge> LLFREE_HUGE_ORDER
                then \<lparr>req_order = order, req_tier = 1, req_local = core mod cores\<rparr>
                else \<lparr>req_order = order, req_tier = 0, req_local = core mod cores\<rparr>) }"

subsection \<open>Tree entries\<close>

record tree =
  tree_reserved :: bool
  tree_tier :: nat
  tree_free :: nat

text \<open>The check decides with the tier and the counter of the tree; its arguments are fixed.\<close>

type_synonym tree_check_fn = "nat \<Rightarrow> nat \<Rightarrow> nat"

definition tree_new :: "bool \<Rightarrow> nat \<Rightarrow> nat \<Rightarrow> tree option" where
  "tree_new r t free =
     do { bug_on (\<not> free \<le> LLFREE_TREE_SIZE);
          bug_on (\<not> t < LLFREE_MAX_TIERS);
          Some \<lparr>tree_reserved = r, tree_tier = t, tree_free = free\<rparr> }"

definition tree_put :: "nat \<Rightarrow> llfree_policy_fn \<Rightarrow> nat \<Rightarrow> tree \<Rightarrow> (tree \<times> unit) option option" where
  "tree_put n policy dt self =
     do { let free = (tree_free self + n) mod 2 ^ 32;
          bug_on (\<not> free \<le> LLFREE_TREE_SIZE);
          let self1 = self\<lparr>tree_free := free\<rparr>;
          Some (Some
            (if free = LLFREE_TREE_SIZE \<and>
                policy_type (policy (tree_tier self1) dt (tree_free self1)) \<noteq> LLFREE_POLICY_INVALID
             then self1\<lparr>tree_tier := dt mod 2 ^ 3\<rparr> else self1, ())) }"

definition tree_get :: "nat \<Rightarrow> tree_check_fn \<Rightarrow> tree \<Rightarrow> (tree \<times> nat) option option" where
  "tree_get n check self =
     Some (if tree_free self < n then None
           else let new_tier = check (tree_tier self) (tree_free self) in
             if new_tier = LLFREE_TIER_NONE then None
             else Some (self\<lparr>tree_free := tree_free self - n, tree_tier := new_tier mod 2 ^ 3\<rparr>, new_tier))"

definition tree_reserve :: "tree_check_fn \<Rightarrow> tree \<Rightarrow> (tree \<times> nat) option option" where
  "tree_reserve check self =
     Some (if tree_reserved self then None
           else let new_tier = check (tree_tier self) (tree_free self) in
             if new_tier = LLFREE_TIER_NONE then None
             else Some (self\<lparr>tree_reserved := True, tree_tier := new_tier mod 2 ^ 3, tree_free := 0\<rparr>, new_tier))"

definition tree_unreserve_add ::
    "nat \<Rightarrow> nat \<Rightarrow> llfree_policy_fn \<Rightarrow> nat \<Rightarrow> tree \<Rightarrow> (tree \<times> unit) option option" where
  "tree_unreserve_add n t policy dt self =
     (if \<not> tree_reserved self then Some None
      else let self1 = self\<lparr>tree_reserved := False\<rparr>;
               p = policy t (tree_tier self1) n;
               self2 = (if policy_type p = LLFREE_POLICY_DEMOTE then self1\<lparr>tree_tier := t mod 2 ^ 3\<rparr> else self1)
           in tree_put n policy dt self2)"

definition tree_sync_steal :: "nat \<Rightarrow> tree \<Rightarrow> (tree \<times> unit) option option" where
  "tree_sync_steal m self =
     Some (if tree_reserved self \<and> tree_free self > m then Some (self\<lparr>tree_free := 0\<rparr>, ()) else None)"

subsection \<open>The array of trees\<close>

text \<open>\<open>entries\<close> is the metadata memory, an array of at least \<open>trees_len\<close> elements.\<close>

record trees =
  entries :: "tree list"
  trees_len :: nat
  trees_default_tier :: nat

definition trees_metadata_size :: "nat \<Rightarrow> nat" where
  "trees_metadata_size n = align_up (4 * div_ceil n LLFREE_TREE_SIZE) LLFREE_CACHE_SIZE"

fun trees_init_entries :: "(nat \<Rightarrow> nat option) \<Rightarrow> nat \<Rightarrow> nat list \<Rightarrow> tree list \<Rightarrow> tree list option" where
  "trees_init_entries init_fn dt [] es = Some es"
| "trees_init_entries init_fn dt (i # is) es =
     do { free \<leftarrow> init_fn (i * LLFREE_TREE_SIZE);
          t \<leftarrow> tree_new False dt free;
          es' \<leftarrow> store_at es i t;
          trees_init_entries init_fn dt is es' }"

definition trees_init :: "nat \<Rightarrow> tree list \<Rightarrow> (nat \<Rightarrow> nat option) option \<Rightarrow> nat \<Rightarrow> trees option" where
  "trees_init n buffer init_fn dt =
     do { let self = \<lparr>entries = buffer, trees_len = div_ceil n LLFREE_TREE_SIZE, trees_default_tier = dt\<rparr>;
          case init_fn of
            None \<Rightarrow> Some self
          | Some fn \<Rightarrow> do { es \<leftarrow> trees_init_entries fn dt [0..<trees_len self] buffer; Some (self\<lparr>entries := es\<rparr>) } }"

text \<open>The assertion on the index and the update, common to the operations.\<close>

definition trees_update ::
    "(tree \<Rightarrow> (tree \<times> 'b) option option) \<Rightarrow> trees \<Rightarrow> nat \<Rightarrow> (tree \<times> 'b option \<times> trees) option" where
  "trees_update fn self idx =
     do { bug_on (\<not> idx < trees_len self);
          (old, r, es) \<leftarrow> atom_update fn (entries self) idx;
          Some (old, r, self\<lparr>entries := es\<rparr>) }"

definition trees_get :: "trees \<Rightarrow> nat \<Rightarrow> nat \<Rightarrow> tree_check_fn \<Rightarrow> (nat option \<times> trees) option" where
  "trees_get self idx n check =
     do { (old, r, self') \<leftarrow> trees_update (tree_get n check) self idx; Some (r, self') }"

definition trees_put :: "trees \<Rightarrow> nat \<Rightarrow> nat \<Rightarrow> llfree_policy_fn \<Rightarrow> trees option" where
  "trees_put self idx n policy =
     do { (old, r, self') \<leftarrow> trees_update (tree_put n policy (trees_default_tier self)) self idx; Some self' }"

text \<open>On success: the counter and the tier of the reservation.\<close>

definition trees_reserve :: "trees \<Rightarrow> nat \<Rightarrow> tree_check_fn \<Rightarrow> ((nat \<times> nat) option \<times> trees) option" where
  "trees_reserve self idx check =
     do { (old, r, self') \<leftarrow> trees_update (tree_reserve check) self idx;
          Some (case r of None \<Rightarrow> None | Some t \<Rightarrow> Some (tree_free old, t), self') }"

definition trees_unreserve :: "trees \<Rightarrow> nat \<Rightarrow> nat \<Rightarrow> nat \<Rightarrow> llfree_policy_fn \<Rightarrow> trees option" where
  "trees_unreserve self idx free t policy =
     do { (old, r, self') \<leftarrow> trees_update (tree_unreserve_add free t policy (trees_default_tier self)) self idx;
          Some self' }"

definition trees_sync_steal :: "trees \<Rightarrow> nat \<Rightarrow> nat \<Rightarrow> (nat option \<times> trees) option" where
  "trees_sync_steal self idx m =
     do { (old, r, self') \<leftarrow> trees_update (tree_sync_steal m) self idx;
          Some (case r of None \<Rightarrow> None | Some _ \<Rightarrow> Some (tree_free old), self') }"

subsection \<open>Searches\<close>

text \<open>
  The index visited in round \<open>i\<close> of a search: offsets \<open>0, -1, 1, -2, 2, \<dots>\<close> from the start,
  computed in signed 64-bit integers and reduced modulo the number of trees. The callback
  works on a state the caller chooses.
\<close>

definition search_offset :: "nat \<Rightarrow> int" where
  "search_offset i = (if i mod 2 = 0 then int (i div 2) else - int ((i + 1) div 2))"

definition search_index :: "nat \<Rightarrow> nat \<Rightarrow> nat \<Rightarrow> nat" where
  "search_index len start i = nat ((int (start + len) + search_offset i) mod 2 ^ 64) mod len"

type_synonym 's trees_access_fn = "nat \<Rightarrow> 's \<Rightarrow> (llfree_result \<times> 's) option"

fun search_visit :: "'s trees_access_fn \<Rightarrow> nat list \<Rightarrow> 's \<Rightarrow> (llfree_result \<times> 's) option" where
  "search_visit cb [] s = Some (llfree_err LLFREE_ERR_MEMORY, s)"
| "search_visit cb (idx # is) s =
     do { (res, s') \<leftarrow> cb idx s;
          if error res \<noteq> LLFREE_ERR_MEMORY then Some (res, s') else search_visit cb is s' }"

definition trees_search ::
    "trees \<Rightarrow> nat \<Rightarrow> nat \<Rightarrow> nat \<Rightarrow> 's trees_access_fn \<Rightarrow> 's \<Rightarrow> (llfree_result \<times> 's) option" where
  "trees_search self start offset len cb s =
     search_visit cb (map (search_index (trees_len self) start) [offset..<len]) s"

definition TREES_SEARCH_BEST :: nat where "TREES_SEARCH_BEST = 3"

text \<open>The three best candidates, as pairs of priority and index; priority 0 is an empty place.\<close>

definition best_insert :: "nat \<Rightarrow> nat \<Rightarrow> (nat \<times> nat) list \<Rightarrow> (nat \<times> nat) list" where
  "best_insert prio idx best =
     (let pos = length (takeWhile (\<lambda>b. \<not> prio > fst b) best) in
      if pos < TREES_SEARCH_BEST
      then take pos best @ (prio, idx) # take (TREES_SEARCH_BEST - 1 - pos) (drop pos best)
      else best)"

text \<open>
  \<open>view\<close> reads the array of trees in the state. The scan ends with a result, or with the
  candidates it collected.
\<close>

fun best_scan ::
    "('s \<Rightarrow> trees) \<Rightarrow> nat \<Rightarrow> nat \<Rightarrow> llfree_policy_fn \<Rightarrow> 's trees_access_fn \<Rightarrow> nat list \<Rightarrow>
     (nat \<times> nat) list \<Rightarrow> 's \<Rightarrow> ((llfree_result + (nat \<times> nat) list) \<times> 's) option" where
  "best_scan view t min_free policy cb [] best s = Some (Inr best, s)"
| "best_scan view t min_free policy cb (idx # is) best s =
     do { tr \<leftarrow> load_at (entries (view s)) idx;
          if tree_reserved tr \<or> tree_free tr < min_free \<or> tree_free tr = LLFREE_TREE_SIZE
          then best_scan view t min_free policy cb is best s
          else let p = policy t (tree_tier tr) (tree_free tr) in
            if policy_type p \<noteq> LLFREE_POLICY_MATCH then best_scan view t min_free policy cb is best s
            else if policy_priority p = UINT8_MAX then
              do { (res, s') \<leftarrow> cb idx s;
                   if error res \<noteq> LLFREE_ERR_MEMORY then Some (Inl res, s')
                   else best_scan view t min_free policy cb is best s' }
            else best_scan view t min_free policy cb is
                   (best_insert ((policy_priority p + 1) mod 2 ^ 8) idx best) s }"

definition trees_search_best ::
    "('s \<Rightarrow> trees) \<Rightarrow> nat \<Rightarrow> nat \<Rightarrow> nat \<Rightarrow> nat \<Rightarrow> nat \<Rightarrow> llfree_policy_fn \<Rightarrow> 's trees_access_fn \<Rightarrow> 's \<Rightarrow>
     (llfree_result \<times> 's) option" where
  "trees_search_best view t start offset len min_free policy cb s =
     do { (r, s') \<leftarrow> best_scan view t min_free policy cb
            (map (search_index (trees_len (view s)) start) [offset..<len])
            (replicate TREES_SEARCH_BEST (0, 0)) s;
          case r of
            Inl res \<Rightarrow> Some (res, s')
          | Inr best \<Rightarrow> search_visit cb (map snd (takeWhile (\<lambda>b. fst b \<noteq> 0) best)) s' }"

end
