(* ===== verification/LLFree_Local.thy ===== *)
theory LLFree_Local
  imports LLFree_Trees
begin

text \<open>
  The local reservations of \<^verbatim>\<open>kernel/mm/llfree/local.c\<close>: for every tier an array of entries,
  one per core, each with the tree it has reserved, the free frames of that tree it may hand
  out, and the history of its last releases. An array that is a null pointer is \<open>None\<close>.
\<close>

subsection \<open>Reservations\<close>

text \<open>A reservation is one 64-bit word: 1 bit present, 28 bits free, 35 bits row.\<close>

record reserved =
  res_present :: bool
  res_free :: nat
  res_row :: nat

record local_history =
  history_idx :: nat
  history_frees :: nat

definition ll_reserved_new :: "bool \<Rightarrow> nat \<Rightarrow> nat \<Rightarrow> reserved option" where
  "ll_reserved_new p free row =
     do { bug_on (\<not> free \<le> LLFREE_TREE_SIZE);
          Some \<lparr>res_present = p, res_free = free, res_row = row mod 2 ^ 35\<rparr> }"

definition ll_reserved_dec :: "nat option \<Rightarrow> nat \<Rightarrow> reserved \<Rightarrow> (reserved \<times> unit) option option" where
  "ll_reserved_dec tree_idx n self =
     Some (if \<not> res_present self then None
           else if (case tree_idx of None \<Rightarrow> False | Some t \<Rightarrow> tree_from_row (res_row self) \<noteq> t) then None
           else if res_free self < n then None
           else Some (self\<lparr>res_free := res_free self - n\<rparr>, ()))"

definition ll_reserved_inc :: "nat \<Rightarrow> nat \<Rightarrow> reserved \<Rightarrow> (reserved \<times> unit) option option" where
  "ll_reserved_inc tree_idx n self =
     (if \<not> res_present self \<or> tree_from_row (res_row self) \<noteq> tree_idx then Some None
      else do { let free = (res_free self + n) mod 2 ^ 32;
                bug_on (\<not> free \<le> LLFREE_TREE_SIZE);
                Some (Some (self\<lparr>res_free := free\<rparr>, ())) })"

definition ll_reserved_swap :: "reserved \<Rightarrow> reserved \<Rightarrow> (reserved \<times> unit) option option" where
  "ll_reserved_swap newv self = Some (Some (newv, ()))"

definition ll_reserved_set_start :: "nat \<Rightarrow> reserved \<Rightarrow> (reserved \<times> unit) option option" where
  "ll_reserved_set_start start_row self =
     Some (if \<not> res_present self \<or> tree_from_row (res_row self) \<noteq> tree_from_row start_row then None
           else Some (self\<lparr>res_row := start_row mod 2 ^ 35\<rparr>, ()))"

definition ll_reserved_take :: "reserved \<Rightarrow> (reserved \<times> unit) option option" where
  "ll_reserved_take self =
     (if \<not> res_present self then Some None
      else do { r \<leftarrow> ll_reserved_new False 0 0; Some (Some (r, ())) })"

subsection \<open>Entries\<close>

record entry =
  preferred :: reserved
  last_history :: local_history

record local =
  local_len :: nat
  local_num_tiers :: nat
  local_tiers :: "entry list option list"

text \<open>The header of the structure takes 144 bytes, rounded up to 192; an entry takes 128.\<close>

definition SIZEOF_LOCAL :: nat where "SIZEOF_LOCAL = 144"
definition SIZEOF_ENTRY :: nat where "SIZEOF_ENTRY = 128"

fun tier_total :: "(nat \<times> nat) list \<Rightarrow> nat list \<Rightarrow> nat option" where
  "tier_total ts [] = Some 0"
| "tier_total ts (i # is) = do { (t, count) \<leftarrow> load_at ts i; n \<leftarrow> tier_total ts is; Some (count + n) }"

definition ll_local_size :: "llfree_tiering \<Rightarrow> nat option" where
  "ll_local_size tiering =
     do { total \<leftarrow> tier_total (tiers tiering) [0..<num_tiers tiering];
          Some (align_up SIZEOF_LOCAL LLFREE_CACHE_SIZE + SIZEOF_ENTRY * total) }"

definition new_entry :: "entry option" where
  "new_entry =
     do { r \<leftarrow> ll_reserved_new False 0 0;
          Some \<lparr>preferred = r, last_history = \<lparr>history_idx = 0, history_frees = 0\<rparr>\<rparr> }"

fun init_tiers :: "(nat \<times> nat) list \<Rightarrow> nat list \<Rightarrow> entry list option list \<Rightarrow> entry list option list option" where
  "init_tiers ts [] lts = Some lts"
| "init_tiers ts (i # is) lts =
     do { (t, count) \<leftarrow> load_at ts i;
          e \<leftarrow> new_entry;
          lts' \<leftarrow> store_at lts t (Some (replicate count e));
          init_tiers ts is lts' }"

text \<open>\<open>self\<close> is the address of the structure.\<close>

definition ll_local_init :: "nat \<Rightarrow> llfree_tiering \<Rightarrow> local option" where
  "ll_local_init self tiering =
     do { bug_on (self = 0);
          bug_on (self mod LLFREE_CACHE_SIZE \<noteq> 0);
          total \<leftarrow> tier_total (tiers tiering) [0..<num_tiers tiering];
          lts \<leftarrow> init_tiers (tiers tiering) [0..<num_tiers tiering] (replicate LLFREE_MAX_TIERS None);
          Some \<lparr>local_len = total, local_num_tiers = num_tiers tiering mod 2 ^ 8, local_tiers = lts\<rparr> }"

definition ll_local_tier_locals :: "local \<Rightarrow> nat \<Rightarrow> nat option" where
  "ll_local_tier_locals self t =
     (if t \<ge> LLFREE_MAX_TIERS then Some LLFREE_LOCAL_NONE
      else do { lt \<leftarrow> load_at (local_tiers self) t;
                Some (case lt of None \<Rightarrow> LLFREE_LOCAL_NONE | Some es \<Rightarrow> length es) })"

definition ll_local_mem_size :: "local \<Rightarrow> nat" where
  "ll_local_mem_size self = align_up SIZEOF_LOCAL LLFREE_CACHE_SIZE + SIZEOF_ENTRY * local_len self"

record local_result =
  lr_success :: bool
  lr_present :: bool
  lr_tier :: nat
  lr_free :: nat
  lr_row :: nat

definition make_result :: "bool \<Rightarrow> nat \<Rightarrow> reserved \<Rightarrow> local_result" where
  "make_result ok t old =
     \<lparr>lr_success = ok, lr_present = res_present old, lr_tier = t, lr_free = res_free old, lr_row = res_row old\<rparr>"

text \<open>The entries of a tier: none for a null pointer.\<close>

definition tier_entries :: "local \<Rightarrow> nat \<Rightarrow> entry list option" where
  "tier_entries self t =
     do { lt \<leftarrow> load_at (local_tiers self) t; Some (case lt of None \<Rightarrow> [] | Some es \<Rightarrow> es) }"

definition set_entry :: "local \<Rightarrow> nat \<Rightarrow> nat \<Rightarrow> entry \<Rightarrow> local option" where
  "set_entry self t i e =
     do { es \<leftarrow> tier_entries self t;
          es' \<leftarrow> store_at es i e;
          Some (self\<lparr>local_tiers := (local_tiers self)[t := Some es']\<rparr>) }"

text \<open>\<open>atom_update\<close> on the reservation of an entry.\<close>

definition update_preferred ::
    "(reserved \<Rightarrow> (reserved \<times> unit) option option) \<Rightarrow> local \<Rightarrow> nat \<Rightarrow> nat \<Rightarrow> (bool \<times> reserved \<times> local) option" where
  "update_preferred fn self t i =
     do { es \<leftarrow> tier_entries self t;
          e \<leftarrow> load_at es i;
          r \<leftarrow> fn (preferred e);
          case r of
            None \<Rightarrow> Some (False, preferred e, self)
          | Some (value, _) \<Rightarrow>
              do { self' \<leftarrow> set_entry self t i (e\<lparr>preferred := value\<rparr>); Some (True, preferred e, self') } }"

text \<open>The two assertions every operation on one entry begins with.\<close>

definition check_entry :: "local \<Rightarrow> nat \<Rightarrow> nat \<Rightarrow> unit option" where
  "check_entry self t index =
     do { bug_on (\<not> t < LLFREE_MAX_TIERS);
          es \<leftarrow> tier_entries self t;
          bug_on (\<not> index < length es) }"

definition ll_local_get :: "local \<Rightarrow> nat \<Rightarrow> nat \<Rightarrow> nat option \<Rightarrow> nat \<Rightarrow> (local_result \<times> local) option" where
  "ll_local_get self t index tree_idx n =
     do { check_entry self t index;
          (ok, old, self') \<leftarrow> update_preferred (ll_reserved_dec tree_idx n) self t index;
          Some (make_result ok t old, self') }"

definition ll_local_put :: "local \<Rightarrow> nat \<Rightarrow> nat \<Rightarrow> nat \<Rightarrow> nat \<Rightarrow> (bool \<times> local) option" where
  "ll_local_put self t index tree_idx n =
     do { check_entry self t index;
          (ok, old, self') \<leftarrow> update_preferred (ll_reserved_inc tree_idx n) self t index;
          Some (ok, self') }"

definition ll_local_set_start :: "local \<Rightarrow> nat \<Rightarrow> nat \<Rightarrow> nat \<Rightarrow> (local_result \<times> local) option" where
  "ll_local_set_start self t index start_row =
     do { check_entry self t index;
          (ok, old, self') \<leftarrow> update_preferred (ll_reserved_set_start start_row) self t index;
          Some (make_result ok t old, self') }"

definition ll_local_swap :: "local \<Rightarrow> nat \<Rightarrow> nat \<Rightarrow> nat \<Rightarrow> nat \<Rightarrow> (local_result \<times> local) option" where
  "ll_local_swap self t index new_tree_idx new_free =
     do { check_entry self t index;
          newv \<leftarrow> ll_reserved_new True new_free (row_from_tree new_tree_idx);
          (ok, old, self') \<leftarrow> update_preferred (ll_reserved_swap newv) self t index;
          Some (make_result True t old, self') }"

definition ll_local_drain :: "local \<Rightarrow> nat \<Rightarrow> nat \<Rightarrow> (local_result \<times> local) option" where
  "ll_local_drain self t index =
     do { check_entry self t index;
          newv \<leftarrow> ll_reserved_new False 0 0;
          (ok, old, self') \<leftarrow> update_preferred (ll_reserved_swap newv) self t index;
          Some (make_result (res_present old) t old, self') }"

subsection \<open>History of releases\<close>

definition LAST_FREES :: nat where "LAST_FREES = 4"

definition frees_inc :: "nat \<Rightarrow> local_history \<Rightarrow> local_history option" where
  "frees_inc tree_idx self =
     (if history_idx self \<noteq> tree_idx then Some \<lparr>history_idx = tree_idx mod 2 ^ 48, history_frees = 1\<rparr>
      else if history_frees self < LAST_FREES then Some (self\<lparr>history_frees := history_frees self + 1\<rparr>)
      else None)"

definition ll_local_free_inc :: "local \<Rightarrow> nat \<Rightarrow> nat \<Rightarrow> nat \<Rightarrow> (bool \<times> local) option" where
  "ll_local_free_inc self t index tree_idx =
     do { check_entry self t index;
          es \<leftarrow> tier_entries self t;
          e \<leftarrow> load_at es index;
          case frees_inc tree_idx (last_history e) of
            None \<Rightarrow> Some (True, self)
          | Some h \<Rightarrow> do { self' \<leftarrow> set_entry self t index (e\<lparr>last_history := h\<rparr>); Some (False, self') } }"

subsection \<open>Taking from other entries\<close>

fun steal_entries ::
    "nat \<Rightarrow> nat option \<Rightarrow> nat \<Rightarrow> nat list \<Rightarrow> local \<Rightarrow> (local_result option \<times> local) option" where
  "steal_entries tt tree_idx n [] self = Some (None, self)"
| "steal_entries tt tree_idx n (jj # js) self =
     do { (ok, old, self') \<leftarrow> update_preferred (ll_reserved_dec tree_idx n) self tt jj;
          if ok then Some (Some (make_result True tt old), self')
          else steal_entries tt tree_idx n js self' }"

fun steal_tiers ::
    "nat \<Rightarrow> nat \<Rightarrow> nat option \<Rightarrow> nat \<Rightarrow> llfree_policy_fn \<Rightarrow> nat list \<Rightarrow> local \<Rightarrow> (local_result \<times> local) option" where
  "steal_tiers t index tree_idx n policy [] self =
     Some (\<lparr>lr_success = False, lr_present = False, lr_tier = 0, lr_free = 0, lr_row = 0\<rparr>, self)"
| "steal_tiers t index tree_idx n policy (i # is) self =
     do { let target_tier = (i + t) mod LLFREE_MAX_TIERS;
          es \<leftarrow> tier_entries self target_tier;
          if length es = 0 \<or> policy_type (policy t target_tier n) \<notin> {LLFREE_POLICY_MATCH, LLFREE_POLICY_STEAL}
          then steal_tiers t index tree_idx n policy is self
          else do {
            (r, self') \<leftarrow> steal_entries target_tier tree_idx n
               (map (\<lambda>j. (index + j) mod length es) [0..<length es]) self;
            case r of
              Some res \<Rightarrow> Some (res, self')
            | None \<Rightarrow> steal_tiers t index tree_idx n policy is self' } }"

definition ll_local_steal ::
    "local \<Rightarrow> nat \<Rightarrow> nat \<Rightarrow> nat option \<Rightarrow> nat \<Rightarrow> llfree_policy_fn \<Rightarrow> (local_result \<times> local) option" where
  "ll_local_steal self t index tree_idx n policy =
     steal_tiers t index tree_idx n policy [0..<LLFREE_MAX_TIERS] self"

text \<open>A demotion: the row taken over, and the reservation it displaced at the requesting entry.\<close>

record demote_any_result =
  demote_found :: bool
  demote_row :: nat
  demote_old_present :: bool
  demote_old_row :: nat
  demote_old_tier :: nat
  demote_old_free :: nat

definition demote_none :: "bool \<Rightarrow> nat \<Rightarrow> demote_any_result" where
  "demote_none found row = \<lparr>demote_found = found, demote_row = row, demote_old_present = False,
     demote_old_row = 0, demote_old_tier = 0, demote_old_free = 0\<rparr>"

definition demote_install :: "local \<Rightarrow> nat \<Rightarrow> nat \<Rightarrow> nat \<Rightarrow> reserved \<Rightarrow> (demote_any_result \<times> local) option" where
  "demote_install self t index n old =
     do { new_res \<leftarrow> ll_reserved_new True (res_free old - n) (res_row old);
          req \<leftarrow> tier_entries self t;
          if length req > 0 \<and> index < length req
          then do { (ok, prev, self') \<leftarrow> update_preferred (ll_reserved_swap new_res) self t index;
                    Some (\<lparr>demote_found = True, demote_row = res_row old, demote_old_present = res_present prev,
                       demote_old_row = res_row prev, demote_old_tier = t, demote_old_free = res_free prev\<rparr>, self') }
          else Some (demote_none True (res_row old), self) }"

fun demote_entries ::
    "nat \<Rightarrow> nat \<Rightarrow> nat \<Rightarrow> nat option \<Rightarrow> nat \<Rightarrow> nat list \<Rightarrow> local \<Rightarrow> (demote_any_result option \<times> local) option" where
  "demote_entries t index tt tree_idx n [] self = Some (None, self)"
| "demote_entries t index tt tree_idx n (jj # js) self =
     do { (ok, old, self1) \<leftarrow> update_preferred ll_reserved_take self tt jj;
          if \<not> ok then demote_entries t index tt tree_idx n js self1
          else if res_free old < n \<or> (case tree_idx of None \<Rightarrow> False | Some v \<Rightarrow> tree_from_row (res_row old) \<noteq> v)
          then do { (ok2, old2, self2) \<leftarrow> update_preferred (ll_reserved_swap old) self1 tt jj;
                    demote_entries t index tt tree_idx n js self2 }
          else do { (r, self2) \<leftarrow> demote_install self1 t index n old; Some (Some r, self2) } }"

fun demote_tiers ::
    "nat \<Rightarrow> nat \<Rightarrow> nat option \<Rightarrow> nat \<Rightarrow> llfree_policy_fn \<Rightarrow> nat list \<Rightarrow> local \<Rightarrow> (demote_any_result \<times> local) option" where
  "demote_tiers t index tree_idx n policy [] self =
     Some (demote_none False 0, self)"
| "demote_tiers t index tree_idx n policy (i # is) self =
     do { let target_tier = (i + t) mod LLFREE_MAX_TIERS;
          es \<leftarrow> tier_entries self target_tier;
          if length es = 0 \<or> policy_type (policy t target_tier n) \<noteq> LLFREE_POLICY_DEMOTE
          then demote_tiers t index tree_idx n policy is self
          else do {
            (r, self') \<leftarrow> demote_entries t index target_tier tree_idx n
               (map (\<lambda>j. (index + j) mod length es) [0..<length es]) self;
            case r of
              Some res \<Rightarrow> Some (res, self')
            | None \<Rightarrow> demote_tiers t index tree_idx n policy is self' } }"

definition ll_local_demote_any ::
    "local \<Rightarrow> nat \<Rightarrow> nat \<Rightarrow> nat option \<Rightarrow> nat \<Rightarrow> llfree_policy_fn \<Rightarrow> (demote_any_result \<times> local) option" where
  "ll_local_demote_any self t index tree_idx n policy =
     demote_tiers t index tree_idx n policy [1..<LLFREE_MAX_TIERS] self"

end
