(* ===== verification/LLFree.thy ===== *)
theory LLFree
  imports LLFree_Lower LLFree_Local
begin

text \<open>
  The allocator of \<^verbatim>\<open>kernel/mm/llfree/llfree.c\<close>: the lower allocator, the array of trees and
  the local reservations under one structure. Tracing is compiled out. Operations run one at a
  time, so an update of a shared word never has to be repeated.
\<close>

subsection \<open>State\<close>

record llfree =
  ll_lower :: lower
  ll_local :: local
  ll_trees :: trees
  ll_policy :: llfree_policy_fn
  ll_num_tiers :: nat

subsection \<open>Initialisation\<close>

fun sum_children :: "lower \<Rightarrow> nat list \<Rightarrow> nat option" where
  "sum_children L [] = Some 0"
| "sum_children L (i # is) =
     do { c \<leftarrow> load_at (children L) i; n \<leftarrow> sum_children L is; Some (child_free c + n) }"

definition init_tree_cb :: "lower \<Rightarrow> nat \<Rightarrow> nat option" where
  "init_tree_cb L tree_start_frame =
     (let tree_idx = tree_start_frame div LLFREE_TREE_SIZE in
      sum_children L [tree_idx * LLFREE_TREE_CHILDREN..<tree_idx * LLFREE_TREE_CHILDREN + LLFREE_TREE_CHILDREN])"

record llfree_meta_size =
  size_llfree :: nat
  size_local :: nat
  size_trees :: nat
  size_lower :: nat

text \<open>The structure takes 65 bytes, rounded up to its alignment of 64.\<close>

definition llfree_metadata_size :: "llfree_tiering \<Rightarrow> nat \<Rightarrow> llfree_meta_size option" where
  "llfree_metadata_size tiering n =
     do { l \<leftarrow> ll_local_size tiering;
          Some \<lparr>size_llfree = 128, size_local = l, size_trees = trees_metadata_size n,
                size_lower = lower_metadata_size n\<rparr> }"

text \<open>The addresses of the three metadata buffers.\<close>

record llfree_meta =
  meta_local :: nat
  meta_trees :: nat
  meta_lower :: nat

definition check_meta :: "llfree_meta \<Rightarrow> llfree_meta_size \<Rightarrow> bool" where
  "check_meta meta sizes \<longleftrightarrow>
     (if meta_local meta mod LLFREE_CACHE_SIZE \<noteq> 0 \<or> meta_trees meta mod LLFREE_CACHE_SIZE \<noteq> 0 \<or>
         meta_lower meta mod LLFREE_CACHE_SIZE \<noteq> 0 then False
      else (meta_local meta + size_local sizes \<le> meta_lower meta \<or> meta_lower meta + size_lower sizes \<le> meta_local meta) \<and>
           (meta_local meta + size_local sizes \<le> meta_trees meta \<or> meta_trees meta + size_trees sizes \<le> meta_local meta) \<and>
           (meta_lower meta + size_lower sizes \<le> meta_trees meta \<or> meta_trees meta + size_trees sizes \<le> meta_lower meta))"

text \<open>What the metadata memory holds before the initialisation.\<close>

record llfree_memory =
  mem_fields :: "bitfield list"
  mem_children :: "child list"
  mem_trees :: "tree list"
  mem_local :: local

definition llfree_init ::
    "llfree \<Rightarrow> nat \<Rightarrow> nat \<Rightarrow> llfree_meta \<Rightarrow> llfree_memory \<Rightarrow> llfree_tiering \<Rightarrow> (llfree_result \<times> llfree) option" where
  "llfree_init self n init meta mem tiering =
     do { bug_on (\<not> (num_tiers tiering \<ge> 1 \<and> num_tiers tiering \<le> LLFREE_MAX_TIERS));
          sizes \<leftarrow> llfree_metadata_size tiering n;
          bug_on (\<not> check_meta meta sizes);
          if init \<ge> LLFREE_INIT_MAX then Some (llfree_err LLFREE_ERR_INIT, self)
          else if n < MIN_PAGES \<or> n > MAX_PAGES then Some (llfree_err LLFREE_ERR_INIT, self)
          else do {
            (res, L) \<leftarrow> lower_init (mem_fields mem) (mem_children mem) n init;
            let self1 = self\<lparr>ll_lower := L\<rparr>;
            if \<not> llfree_is_ok res then Some (res, self1)
            else do {
              T \<leftarrow> trees_init n (mem_trees mem)
                    (if init \<noteq> LLFREE_INIT_NONE then Some (init_tree_cb L) else None) (default_tier tiering);
              lc \<leftarrow> (if init \<noteq> LLFREE_INIT_NONE then ll_local_init (meta_local meta) tiering
                     else Some (mem_local mem));
              Some (llfree_ok 0 0, self1\<lparr>ll_trees := T, ll_local := lc, ll_policy := tiering_policy tiering,
                 ll_num_tiers := num_tiers tiering mod 2 ^ 8\<rparr>) } } }"

subsection \<open>Allocation\<close>

definition swap_reserved :: "llfree \<Rightarrow> nat \<Rightarrow> nat \<Rightarrow> nat \<Rightarrow> nat \<Rightarrow> llfree option" where
  "swap_reserved self t index new_idx new_free =
     do { (old, lc) \<leftarrow> ll_local_swap (ll_local self) t index new_idx new_free;
          let self1 = self\<lparr>ll_local := lc\<rparr>;
          bug_on (\<not> lr_success old);
          if lr_present old
          then do { T \<leftarrow> trees_unreserve (ll_trees self1) (tree_from_row (lr_row old)) (lr_free old) (lr_tier old)
                          (ll_policy self1);
                    Some (self1\<lparr>ll_trees := T\<rparr>) }
          else Some self1 }"

text \<open>\<open>check_reserve_tree\<close> with the fields of its \<open>check_args\<close> first.\<close>

definition check_reserve_tree :: "nat \<Rightarrow> nat \<Rightarrow> llfree_policy_fn \<Rightarrow> tree_check_fn" where
  "check_reserve_tree a_tier a_min_free a_policy tier_of_tree n =
     (if n < a_min_free then LLFREE_TIER_NONE
      else let p = a_policy a_tier tier_of_tree n in
        if policy_type p = LLFREE_POLICY_MATCH then a_tier
        else if policy_type p = LLFREE_POLICY_DEMOTE \<and> n = LLFREE_TREE_SIZE then a_tier
        else LLFREE_TIER_NONE)"

definition get_reserve :: "nat \<Rightarrow> nat \<Rightarrow> tree_check_fn \<Rightarrow> nat \<Rightarrow> llfree \<Rightarrow> (llfree_result \<times> llfree) option" where
  "get_reserve order lcl check idx self =
     do { (r, T) \<leftarrow> trees_reserve (ll_trees self) idx check;
          let self1 = self\<lparr>ll_trees := T\<rparr>;
          case r of
            None \<Rightarrow> Some (llfree_err LLFREE_ERR_MEMORY, self1)
          | Some (old_free, target_tier) \<Rightarrow>
              do { tier_len \<leftarrow> ll_local_tier_locals (ll_local self1) target_tier;
                   if tier_len = 0 \<or> tier_len = LLFREE_LOCAL_NONE
                   then do { T2 \<leftarrow> trees_unreserve (ll_trees self1) idx old_free target_tier (ll_policy self1);
                             Some (llfree_err LLFREE_ERR_MEMORY, self1\<lparr>ll_trees := T2\<rparr>) }
                   else do {
                     let local2 = lcl mod tier_len;
                     (res, L) \<leftarrow> lower_get (ll_lower self1) (frame_from_tree idx) order None;
                     let self2 = self1\<lparr>ll_lower := L\<rparr>;
                     if llfree_is_ok res
                     then do { let new_free = (old_free + 2 ^ 32 - 2 ^ order) mod 2 ^ 32;
                               self3 \<leftarrow> swap_reserved self2 target_tier local2 idx new_free;
                               Some (res\<lparr>tier := target_tier mod 2 ^ 3\<rparr>, self3) }
                     else do { T2 \<leftarrow> trees_unreserve (ll_trees self2) idx old_free target_tier (ll_policy self2);
                               Some (res, self2\<lparr>ll_trees := T2\<rparr>) } } } }"

definition get_matching_reserve :: "llfree \<Rightarrow> nat \<Rightarrow> nat \<Rightarrow> nat \<Rightarrow> nat \<Rightarrow> (llfree_result \<times> llfree) option" where
  "get_matching_reserve self t lcl order start =
     trees_search (ll_trees self) start 0 (trees_len (ll_trees self))
       (get_reserve order lcl (check_reserve_tree t (2 ^ order) (ll_policy self))) self"

definition sync_with_global :: "llfree \<Rightarrow> nat \<Rightarrow> nat \<Rightarrow> nat \<Rightarrow> local_result \<Rightarrow> (bool \<times> llfree) option" where
  "sync_with_global self t index needed old =
     (if lr_free old \<ge> needed then Some (False, self)
      else do {
        let tree_idx = tree_from_row (lr_row old);
        let steal_min = needed - lr_free old;
        (r, T) \<leftarrow> trees_sync_steal (ll_trees self) tree_idx steal_min;
        let self1 = self\<lparr>ll_trees := T\<rparr>;
        case r of
          None \<Rightarrow> Some (False, self1)
        | Some stolen \<Rightarrow>
            do { (ok, lc) \<leftarrow> ll_local_put (ll_local self1) t index tree_idx stolen;
                 let self2 = self1\<lparr>ll_local := lc\<rparr>;
                 if \<not> ok
                 then do { T2 \<leftarrow> trees_put (ll_trees self2) tree_idx stolen (ll_policy self2);
                           Some (False, self2\<lparr>ll_trees := T2\<rparr>) }
                 else Some (True, self2) } })"

text \<open>Returns the result and the record the caller's \<open>old\<close> points to.\<close>

definition get_from_local ::
    "llfree \<Rightarrow> nat \<Rightarrow> nat \<Rightarrow> nat \<Rightarrow> nat \<Rightarrow> (llfree_result \<times> local_result \<times> llfree) option" where
  "get_from_local self t index order n =
     do { (old, lc) \<leftarrow> ll_local_get (ll_local self) t index None n;
          let self1 = self\<lparr>ll_local := lc\<rparr>;
          if lr_success old
          then do {
            (res, L) \<leftarrow> lower_get (ll_lower self1) (frame_from_row (lr_row old)) order None;
            let self2 = self1\<lparr>ll_lower := L\<rparr>;
            if llfree_is_ok res
            then do { let start_row = row_from_frame (frame res);
                      (old', lc2) \<leftarrow> (if lr_row old \<noteq> start_row
                         then ll_local_set_start (ll_local self2) t index start_row
                         else Some (old, ll_local self2));
                      Some (llfree_ok (frame res) t, old', self2\<lparr>ll_local := lc2\<rparr>) }
            else do { (ok, lc2) \<leftarrow> ll_local_put (ll_local self2) t index (tree_from_row (lr_row old)) n;
                      bug_on (\<not> ok);
                      Some (res, old, self2\<lparr>ll_local := lc2\<rparr>) } }
          else do {
            (sync, self2) \<leftarrow> (if lr_present old then sync_with_global self1 t index n old else Some (False, self1));
            Some (if sync then llfree_err LLFREE_ERR_RETRY else llfree_err LLFREE_ERR_MEMORY, old, self2) } }"

text \<open>
  The loop of at most 16 rounds in \<open>get_matching\<close>: the result if one is returned, the start
  tree and the state.
\<close>

fun local_rounds ::
    "nat \<Rightarrow> llfree_request \<Rightarrow> nat \<Rightarrow> nat \<Rightarrow> llfree \<Rightarrow> (llfree_result option \<times> nat \<times> llfree) option" where
  "local_rounds 0 request n start self = Some (None, start, self)"
| "local_rounds (Suc k) request n start self =
     do { (res, old, self') \<leftarrow> get_from_local self (req_tier request) (req_local request) (req_order request) n;
          let start' = (if lr_present old then tree_from_row (lr_row old) else start);
          if error res = LLFREE_ERR_RETRY then local_rounds k request n start' self'
          else if error res = LLFREE_ERR_MEMORY then Some (None, start', self')
          else Some (Some res, start', self') }"

definition get_matching :: "llfree \<Rightarrow> llfree_request \<Rightarrow> nat \<Rightarrow> (llfree_result \<times> llfree) option" where
  "get_matching self request start =
     do { tier_count \<leftarrow> ll_local_tier_locals (ll_local self) (req_tier request);
          let n = 2 ^ req_order request;
          if req_local request \<noteq> LLFREE_LOCAL_NONE \<and> tier_count \<noteq> LLFREE_LOCAL_NONE \<and> tier_count > 0 \<and>
             tier_count < trees_len (ll_trees self)
          then do {
            (r, start', self') \<leftarrow> local_rounds 16 request n start self;
            case r of
              Some res \<Rightarrow> Some (res, self')
            | None \<Rightarrow> get_matching_reserve self' (req_tier request) (req_local request) (req_order request) start' }
          else trees_search (ll_trees self) start 0 (trees_len (ll_trees self))
                 (get_reserve (req_order request) 0 (check_reserve_tree (req_tier request) n (ll_policy self))) self }"

definition llfree_get :: "llfree \<Rightarrow> nat option \<Rightarrow> llfree_request \<Rightarrow> (llfree_result \<times> llfree) option" where
  "llfree_get self at request =
     do { bug_on (\<not> req_order request \<le> LLFREE_MAX_ORDER);
          case at of
            Some f \<Rightarrow>
              do { (direct, L) \<leftarrow> lower_get (ll_lower self) f (req_order request) (Some f);
                   Some (direct, self\<lparr>ll_lower := L\<rparr>) }
          | None \<Rightarrow>
              do { tier_count \<leftarrow> ll_local_tier_locals (ll_local self) (req_tier request);
                   let start = (if tier_count > 0 \<and> req_local request \<noteq> LLFREE_LOCAL_NONE
                     then (trees_len (ll_trees self) div tier_count * req_local request) mod 2 ^ 64 else 0);
                   (res, self') \<leftarrow> get_matching self request start;
                   if error res \<noteq> LLFREE_ERR_MEMORY then Some (res, self')
                   else Some (llfree_err LLFREE_ERR_MEMORY, self') } }"

subsection \<open>Release\<close>

definition llfree_put :: "llfree \<Rightarrow> nat \<Rightarrow> llfree_request \<Rightarrow> (llfree_result \<times> llfree) option" where
  "llfree_put self f request =
     do { bug_on (\<not> req_order request \<le> LLFREE_MAX_ORDER);
          bug_on (\<not> f < frames (ll_lower self));
          (res, L) \<leftarrow> lower_put (ll_lower self) f (req_order request);
          let self1 = self\<lparr>ll_lower := L\<rparr>;
          if \<not> llfree_is_ok res then Some (res, self1)
          else do {
            let tree_idx = tree_from_frame f;
            let n = 2 ^ req_order request;
            if req_local request \<noteq> LLFREE_LOCAL_NONE
            then do {
              (_, lc) \<leftarrow> ll_local_free_inc (ll_local self1) (req_tier request) (req_local request) tree_idx;
              (ok, lc2) \<leftarrow> ll_local_put lc (req_tier request) (req_local request) tree_idx n;
              let self2 = self1\<lparr>ll_local := lc2\<rparr>;
              if ok then Some (llfree_ok 0 0, self2)
              else do { T \<leftarrow> trees_put (ll_trees self2) tree_idx n (ll_policy self2);
                        Some (llfree_ok 0 0, self2\<lparr>ll_trees := T\<rparr>) } }
            else do { T \<leftarrow> trees_put (ll_trees self1) tree_idx n (ll_policy self1);
                      Some (llfree_ok 0 0, self1\<lparr>ll_trees := T\<rparr>) } } }"

definition llfree_drain :: "llfree \<Rightarrow> llfree" where
  "llfree_drain self = self"

definition llfree_frames :: "llfree \<Rightarrow> nat" where
  "llfree_frames self = frames (ll_lower self)"

end
