(* ===== verification/CXL_Layout.thy ===== *)
theory CXL_Layout
  imports LLFree
begin

text \<open>
  Where \<open>compute_llfree_layout\<close> of \<^verbatim>\<open>kernel/mm/buddy-lock-free.c\<close> places the llfree structure,
  its metadata, the page metadata and the pages in a range of CXL memory. Addresses are natural
  numbers below \<open>2^64\<close>; sums wrap where the code computes them in \<open>u64\<close>.
\<close>

subsection \<open>Model\<close>

definition PAGE_BYTES :: nat where "PAGE_BYTES = 0x1000"
definition LLFREE_MIN_PAGES :: nat where "LLFREE_MIN_PAGES = LLFREE_TREE_SIZE"
definition LLFREE_MAX_PAGES :: nat where "LLFREE_MAX_PAGES = 2 ^ 28"

text \<open>\<open>sizeof(struct page)\<close> with the fields of the shared-memory configuration.\<close>

definition SIZEOF_PAGE :: nat where "SIZEOF_PAGE = 152"

text \<open>\<open>add_overflow_u64\<close>: no value is an overflow.\<close>

definition add_overflow_u64 :: "nat \<Rightarrow> nat \<Rightarrow> nat option" where
  "add_overflow_u64 a b = (let out = (a + b) mod 2 ^ 64 in if out < a then None else Some out)"

text \<open>Clearing the low bits rounds down to a multiple of the power of two \<open>a\<close>.\<close>

definition align_up_u64 :: "nat \<Rightarrow> nat \<Rightarrow> nat" where
  "align_up_u64 x a = (x + a - 1) mod 2 ^ 64 div a * a"

record buddy_llfree_layout =
  layout_frames :: nat
  layout_meta :: llfree_meta_size
  llfree_phys :: nat
  local_phys :: nat
  trees_phys :: nat
  lower_phys :: nat
  page_meta_phys :: nat
  data_phys :: nat

text \<open>
  One round of the loop: the layout for a number of frames and the number of pages that fit
  behind it, or no value where the function returns false. An outer \<open>None\<close> is an access outside
  the array of tiers.
\<close>

definition layout_round :: "nat \<Rightarrow> nat \<Rightarrow> llfree_tiering \<Rightarrow> nat \<Rightarrow> (buddy_llfree_layout \<times> nat) option option" where
  "layout_round llfree_at free_mem_end tiering n =
     do { meta_sz \<leftarrow> llfree_metadata_size tiering n;
          let llfree_bytes = align_up_u64 (size_llfree meta_sz) LLFREE_CACHE_SIZE;
          Some (do {
            local_at \<leftarrow> add_overflow_u64 llfree_at llfree_bytes;
            trees_at \<leftarrow> add_overflow_u64 local_at (size_local meta_sz);
            lower_at \<leftarrow> add_overflow_u64 trees_at (size_trees meta_sz);
            after_lower \<leftarrow> add_overflow_u64 lower_at (size_lower meta_sz);
            let page_meta_at = align_up_u64 after_lower 16;
            page_meta_end \<leftarrow> add_overflow_u64 page_meta_at (n * SIZEOF_PAGE mod 2 ^ 64);
            let data_at = align_up_u64 page_meta_end PAGE_BYTES;
            let fit = (if data_at \<ge> free_mem_end then 0 else (free_mem_end - data_at) div PAGE_BYTES);
            let fit_frames = (if fit > LLFREE_MAX_PAGES then LLFREE_MAX_PAGES else fit);
            if fit_frames < LLFREE_MIN_PAGES then None
            else Some (\<lparr>layout_frames = n, layout_meta = meta_sz, llfree_phys = llfree_at, local_phys = local_at,
               trees_phys = trees_at, lower_phys = lower_at, page_meta_phys = page_meta_at, data_phys = data_at\<rparr>,
               fit_frames) }) }"

fun layout_loop :: "nat \<Rightarrow> nat \<Rightarrow> nat \<Rightarrow> llfree_tiering \<Rightarrow> nat \<Rightarrow> buddy_llfree_layout option option" where
  "layout_loop 0 llfree_at free_mem_end tiering n = Some None"
| "layout_loop (Suc iter) llfree_at free_mem_end tiering n =
     do { r \<leftarrow> layout_round llfree_at free_mem_end tiering n;
          case r of
            None \<Rightarrow> Some None
          | Some (out, fit_frames) \<Rightarrow>
              if fit_frames = n then Some (Some out)
              else layout_loop iter llfree_at free_mem_end tiering fit_frames }"

definition compute_llfree_layout :: "nat \<Rightarrow> nat \<Rightarrow> nat \<Rightarrow> buddy_llfree_layout option option" where
  "compute_llfree_layout free_mem_start free_mem_end locals =
     (if free_mem_end \<le> free_mem_start then Some None
      else let llfree_at = align_up_u64 free_mem_start LLFREE_CACHE_SIZE in
        if llfree_at \<ge> free_mem_end then Some None
        else let avail_pages = (free_mem_end - llfree_at) div PAGE_BYTES in
          if avail_pages < LLFREE_MIN_PAGES then Some None
          else layout_loop 64 llfree_at free_mem_end (llfree_tiering_simple locals)
                 (if avail_pages > LLFREE_MAX_PAGES then LLFREE_MAX_PAGES else avail_pages))"

subsection \<open>Without wrap-around\<close>

lemma add_overflow_no: "a + b < 2 ^ 64 \<Longrightarrow> add_overflow_u64 a b = Some (a + b)"
  by (simp add: add_overflow_u64_def)

lemma align_up_u64_eq: "x + a \<le> 2 ^ 64 \<Longrightarrow> 0 < a \<Longrightarrow> align_up_u64 x a = align_up x a"
  by (simp add: align_up_u64_def align_up_def)

lemma align_up_bounds:
  assumes "0 < a"
  shows "x \<le> align_up x a" "align_up x a < x + a" "a dvd align_up x a"
proof -
  show "x \<le> align_up x a" unfolding align_up_def
    using assms div_mult_mod_eq [of "x + a - 1" a] mod_less_divisor [OF assms, of "x + a - 1"] by linarith
  show "align_up x a < x + a" unfolding align_up_def
    using assms div_mult_mod_eq [of "x + a - 1" a] by linarith
  show "a dvd align_up x a" by (simp add: align_up_def)
qed

text \<open>The sizes of the metadata for the simple tiering.\<close>

definition simple_sizes :: "nat \<Rightarrow> nat \<Rightarrow> llfree_meta_size" where
  "simple_sizes locals n = \<lparr>size_llfree = 128, size_local = 192 + 256 * locals, size_trees = trees_metadata_size n,
     size_lower = lower_metadata_size n\<rparr>"

lemma simple_metadata_size: "llfree_metadata_size (llfree_tiering_simple locals) n = Some (simple_sizes locals n)"
  by (simp add: llfree_metadata_size_def ll_local_size_def llfree_tiering_simple_def upt_rec simple_sizes_def
      SIZEOF_LOCAL_def SIZEOF_ENTRY_def align_up_def)

lemma meta_sizes_bound:
  assumes "n \<le> 2 ^ 28"
  shows "trees_metadata_size n < 2 ^ 40" "lower_metadata_size n < 2 ^ 40" "64 dvd trees_metadata_size n"
    "64 dvd lower_metadata_size n"
proof -
  have t: "div_ceil n k \<le> n" if "0 < k" for k
  proof -
    have "n * 1 \<le> n * k" using that by (intro mult_le_mono2) simp
    then have "n + k - 1 \<le> n * k + (k - 1)" using that by linarith
    then have "(n + k - 1) div k \<le> (n * k + (k - 1)) div k" by (rule div_le_mono)
    also have "(n * k + (k - 1)) div k = n + (k - 1) div k" using that by (intro div_mult_self3) simp
    also have "(k - 1) div k = 0" using that by simp
    finally show ?thesis by (simp add: div_ceil_def)
  qed
  have a: "align_up x 64 < x + 64" "64 dvd align_up x 64" for x using align_up_bounds [of 64] by simp_all
  have n: "n \<le> 268435456" using assms by simp
  have "4 * div_ceil n 4096 \<le> 1073741824" using t [of 4096] n by linarith
  then show "trees_metadata_size n < 2 ^ 40" using a(1) [of "4 * div_ceil n 4096"] by (simp add: trees_metadata_size_def)
  have "div_ceil n 512 \<le> 268435456" using t [of 512] n by simp
  moreover have "div_ceil (div_ceil n 512) 8 \<le> div_ceil n 512 + 8"
    unfolding div_ceil_def by (rule order_trans [OF div_le_dividend]) simp
  ultimately show "lower_metadata_size n < 2 ^ 40"
    using a(1) [of "div_ceil n 512 * 64"] a(1) [of "div_ceil (div_ceil n 512) 8 * 64"]
    by (simp add: lower_metadata_size_def Let_def)
  show "64 dvd trees_metadata_size n" by (simp add: trees_metadata_size_def a(2))
  show "64 dvd lower_metadata_size n" by (simp add: lower_metadata_size_def Let_def a(2))
qed

text \<open>Where the parts stand, in exact arithmetic.\<close>

definition layout_at :: "nat \<Rightarrow> nat \<Rightarrow> nat \<Rightarrow> buddy_llfree_layout" where
  "layout_at s locals n =
     (let after = s + 128 + (192 + 256 * locals) + trees_metadata_size n + lower_metadata_size n;
          page_meta = align_up after 16 in
      \<lparr>layout_frames = n, layout_meta = simple_sizes locals n, llfree_phys = s, local_phys = s + 128,
       trees_phys = s + 128 + (192 + 256 * locals),
       lower_phys = s + 128 + (192 + 256 * locals) + trees_metadata_size n,
       page_meta_phys = page_meta, data_phys = align_up (page_meta + n * 152) 4096\<rparr>)"

definition fit_frames_of :: "nat \<Rightarrow> nat \<Rightarrow> nat" where
  "fit_frames_of data_at e = min (2 ^ 28) ((e - data_at) div 4096)"

lemma layout_round_exact:
  assumes "s \<le> 2 ^ 52" "locals \<le> 2 ^ 32" "n \<le> 2 ^ 28"
  shows "layout_round s e (llfree_tiering_simple locals) n =
    Some (let d = data_phys (layout_at s locals n) in
      if fit_frames_of d e < 4096 then None else Some (layout_at s locals n, fit_frames_of d e))"
proof -
  let ?t = "trees_metadata_size n" and ?w = "lower_metadata_size n"
  let ?after = "s + 128 + (192 + 256 * locals) + ?t + ?w"
  have b: "?t < 1099511627776" "?w < 1099511627776" "s \<le> 4503599627370496" "locals \<le> 4294967296" "n \<le> 268435456"
    using meta_sizes_bound(1,2) [OF assms(3)] assms by simp_all
  have a: "?after \<le> 4600000000000000" using b by linarith
  have p: "align_up ?after 16 < ?after + 16" by (rule align_up_bounds) simp
  have pe: "align_up ?after 16 + n * 152 \<le> 5000000000000000" using p a b by linarith
  have e: "align_up_u64 128 64 = 128" "align_up_u64 ?after 16 = align_up ?after 16"
    "align_up_u64 (align_up ?after 16 + n * 152) 4096 = align_up (align_up ?after 16 + n * 152) 4096"
    using a pe by (simp_all add: align_up_u64_eq, simp add: align_up_def)
  have o: "add_overflow_u64 s 128 = Some (s + 128)"
    "add_overflow_u64 (s + 128) (192 + 256 * locals) = Some (s + 128 + (192 + 256 * locals))"
    "add_overflow_u64 (s + 128 + (192 + 256 * locals)) ?t = Some (s + 128 + (192 + 256 * locals) + ?t)"
    "add_overflow_u64 (s + 128 + (192 + 256 * locals) + ?t) ?w = Some ?after"
    "add_overflow_u64 (align_up ?after 16) (n * 152 mod 2 ^ 64) = Some (align_up ?after 16 + n * 152)"
    using a b pe by (simp_all add: add_overflow_no)
  show ?thesis
    unfolding layout_round_def simple_metadata_size
    by (simp add: simple_sizes_def SIZEOF_PAGE_def PAGE_BYTES_def LLFREE_MAX_PAGES_def LLFREE_MIN_PAGES_def
        o [simplified] e [simplified] layout_at_def Let_def fit_frames_of_def min_def)
qed

lemma layout_loop_result:
  assumes "s \<le> 2 ^ 52" "locals \<le> 2 ^ 32" "n \<le> 2 ^ 28"
  shows "\<exists>r. layout_loop k s e (llfree_tiering_simple locals) n = Some r \<and>
    (\<forall>out. r = Some out \<longrightarrow> (\<exists>m. 4096 \<le> m \<and> m \<le> 2 ^ 28 \<and> out = layout_at s locals m \<and> fit_frames_of (data_phys out) e = m))"
  using assms(3)
proof (induction k arbitrary: n)
  case (Suc k)
  let ?d = "data_phys (layout_at s locals n)"
  have le: "fit_frames_of ?d e \<le> 2 ^ 28" by (simp add: fit_frames_of_def)
  note r = layout_round_exact [OF assms(1,2) Suc.prems, of e, unfolded Let_def]
  consider "fit_frames_of ?d e < 4096" | "\<not> fit_frames_of ?d e < 4096" "fit_frames_of ?d e = n"
    | "\<not> fit_frames_of ?d e < 4096" "fit_frames_of ?d e \<noteq> n" by blast
  then show ?case
  proof cases
    case 2
    then show ?thesis using r Suc.prems by auto
  next
    case 3
    then show ?thesis using r Suc.IH [OF le] by simp
  qed (use r in simp)
qed simp

lemma fit_frames_end:
  assumes "fit_frames_of d e = m" "0 < m"
  shows "d + m * 4096 \<le> e"
proof -
  have "m \<le> (e - d) div 4096" using assms(1) by (auto simp: fit_frames_of_def)
  then have "m * 4096 \<le> e - d" by (simp add: less_eq_div_iff_mult_less_eq)
  then show ?thesis using assms(2) by linarith
qed

text \<open>The parts of a layout: aligned, in order, one behind the other.\<close>

definition layout_parts :: "nat \<Rightarrow> nat \<Rightarrow> buddy_llfree_layout \<Rightarrow> bool" where
  "layout_parts lo hi l \<longleftrightarrow>
     (let n = layout_frames l; sz = layout_meta l in
      lo \<le> llfree_phys l \<and> 64 dvd llfree_phys l \<and> llfree_phys l + size_llfree sz \<le> local_phys l \<and>
      64 dvd local_phys l \<and> local_phys l + size_local sz \<le> trees_phys l \<and>
      64 dvd trees_phys l \<and> trees_phys l + size_trees sz \<le> lower_phys l \<and>
      64 dvd lower_phys l \<and> lower_phys l + size_lower sz \<le> page_meta_phys l \<and>
      16 dvd page_meta_phys l \<and> page_meta_phys l + n * SIZEOF_PAGE \<le> data_phys l \<and>
      4096 dvd data_phys l \<and> data_phys l + n * PAGE_BYTES \<le> hi)"

lemma layout_at_parts:
  assumes "64 dvd s" "lo \<le> s" "n \<le> 2 ^ 28" "0 < n" "fit_frames_of (data_phys (layout_at s locals n)) e = n"
  shows "layout_parts lo e (layout_at s locals n)"
proof -
  note a = align_up_bounds [of 16] align_up_bounds [of 4096]
  note m = meta_sizes_bound(3,4) [OF assms(3)]
  have "64 dvd s + 128" "64 dvd 192 + 256 * locals" using assms(1) by (simp_all add: dvd_add)
  then have t: "64 dvd s + 128 + (192 + 256 * locals)" by (rule dvd_add)
  then have w: "64 dvd s + 128 + (192 + 256 * locals) + trees_metadata_size n" using m(1) by (rule dvd_add)
  have "data_phys (layout_at s locals n) + n * 4096 \<le> e" by (rule fit_frames_end [OF assms(5,4)])
  then show ?thesis using assms(1,2) \<open>64 dvd s + 128\<close> t w a
    by (simp add: layout_parts_def layout_at_def simple_sizes_def Let_def SIZEOF_PAGE_def PAGE_BYTES_def)
qed

end
