(* ===== verification/CXL_Pages.thy ===== *)
theory CXL_Pages
  imports CXL_Layout Buddy
begin

text \<open>
  The page allocator for CXL memory on top of llfree, \<^verbatim>\<open>kernel/mm/buddy-lock-free.c\<close>. The
  configuration \<open>DSM_CXL_LF_BUDDY\<close> selects it. A \<open>struct page *\<close> is a pair of a pool and an
  index in the metadata of the pool. The pools and the llfree structures are shared by all
  machines; every machine has its own array of per-CPU page caches. An operation runs on a CPU of
  a machine, and operations run one at a time. The lock of the pool and the slab and reference
  fields of the page metadata, which these operations only initialise, are left out.
\<close>

subsection \<open>State\<close>

definition N_PHYS_MEM_POOLS :: nat where "N_PHYS_MEM_POOLS = 8"
definition LF_TOTAL_CORES :: nat where "LF_TOTAL_CORES = CLUSTER_MAX_MACHINE_NUM * PLAT_CPU_NUM"
definition PCP_SIZE :: nat where "PCP_SIZE = 64"
definition PCP_BATCH :: nat where "PCP_BATCH = 32"

lemmas cxl_consts = PLAT_CPU_NUM_def CLUSTER_MAX_MACHINE_NUM_def N_PHYS_MEM_POOLS_def LF_TOTAL_CORES_def
  PCP_SIZE_def PCP_BATCH_def KBASE_def

text \<open>A CPU of a machine, and a page of a pool.\<close>

record cpu_id =
  cpu_machine :: nat
  cpu_local :: nat

type_synonym page_ptr = "nat \<times> nat"

definition lf_global_core :: "cpu_id \<Rightarrow> nat" where
  "lf_global_core c = cpu_machine c * PLAT_CPU_NUM + cpu_local c"

record buddy_lf_ctx =
  ctx_pool :: "nat option"
  ctx_llfree :: llfree
  ctx_frames :: nat
  ctx_locals :: nat

text \<open>The top of a page cache is the head of its list.\<close>

record cxl_state =
  cxl_pools :: "phys_mem_pool list"
  buddy_lf_cxl :: "buddy_lf_ctx list"
  cxlmem_map_num :: nat
  pcp_caches :: "nat \<Rightarrow> page_ptr list list"

fun lf_ctx_from :: "buddy_lf_ctx list \<Rightarrow> nat \<Rightarrow> nat list \<Rightarrow> nat option option" where
  "lf_ctx_from cs pool [] = Some None"
| "lf_ctx_from cs pool (i # is) =
     do { c \<leftarrow> load_at cs i; if ctx_pool c = Some pool then Some (Some i) else lf_ctx_from cs pool is }"

definition lf_ctx_for_pool :: "cxl_state \<Rightarrow> nat \<Rightarrow> nat option option" where
  "lf_ctx_for_pool s pool = lf_ctx_from (buddy_lf_cxl s) pool [0..<cxlmem_map_num s]"

definition page_at :: "cxl_state \<Rightarrow> page_ptr \<Rightarrow> page option" where
  "page_at s p = do { P \<leftarrow> load_at (cxl_pools s) (fst p); load_at (page_metadata P) (snd p) }"

definition put_page :: "page_ptr \<Rightarrow> page \<Rightarrow> cxl_state \<Rightarrow> cxl_state option" where
  "put_page p v s =
     do { P \<leftarrow> load_at (cxl_pools s) (fst p);
          ps \<leftarrow> store_at (page_metadata P) (snd p) v;
          Some (s\<lparr>cxl_pools := (cxl_pools s)[fst p := P\<lparr>page_metadata := ps\<rparr>]\<rparr>) }"

definition set_llfree :: "nat \<Rightarrow> llfree \<Rightarrow> cxl_state \<Rightarrow> cxl_state option" where
  "set_llfree ci l s =
     do { c \<leftarrow> load_at (buddy_lf_cxl s) ci;
          Some (s\<lparr>buddy_lf_cxl := (buddy_lf_cxl s)[ci := c\<lparr>ctx_llfree := l\<rparr>]\<rparr>) }"

definition pcp_of :: "cpu_id \<Rightarrow> cxl_state \<Rightarrow> page_ptr list option" where
  "pcp_of c s = load_at (pcp_caches s (cpu_machine c)) (cpu_local c)"

definition set_pcp :: "cpu_id \<Rightarrow> page_ptr list \<Rightarrow> cxl_state \<Rightarrow> cxl_state" where
  "set_pcp c st s =
     s\<lparr>pcp_caches := (pcp_caches s)(cpu_machine c := (pcp_caches s (cpu_machine c))[cpu_local c := st])\<rparr>"

text \<open>The difference of pointers into different arrays is not defined.\<close>

definition page_index :: "page_ptr \<Rightarrow> nat \<Rightarrow> nat option" where
  "page_index p pool = do { bug_on (fst p \<noteq> pool); Some (snd p) }"

subsection \<open>Initialisation\<close>

definition init_page_meta_shared :: "nat \<Rightarrow> nat \<Rightarrow> page list" where
  "init_page_meta_shared pool n = replicate n \<lparr>flags = 0, order = 0, page_pool = Some pool\<rparr>"

fun attach_pages :: "nat \<Rightarrow> nat list \<Rightarrow> page list \<Rightarrow> page list option" where
  "attach_pages pool [] ps = Some ps"
| "attach_pages pool (i # is) ps =
     do { p \<leftarrow> load_at ps i; attach_pages pool is (ps[i := p\<lparr>page_pool := Some pool\<rparr>]) }"

definition attach_page_meta_shared :: "nat \<Rightarrow> nat \<Rightarrow> page list \<Rightarrow> page list option" where
  "attach_page_meta_shared pool n ps = attach_pages pool [0..<n] ps"

text \<open>
  \<open>self\<close>, \<open>mem\<close> and \<open>ps\<close> are what the llfree structure, its metadata and the page metadata hold
  when the range is taken over.
\<close>

definition init_buddy_lf_common ::
    "nat \<Rightarrow> nat \<Rightarrow> page_type \<Rightarrow> nat \<Rightarrow> nat \<Rightarrow> nat \<Rightarrow> llfree \<Rightarrow> llfree_memory \<Rightarrow> page list \<Rightarrow> cxl_state \<Rightarrow> cxl_state option" where
  "init_buddy_lf_common ci pool ty free_mem_start free_mem_end mode self mem ps s =
     do { bug_on (ty \<noteq> CXL_MEM_PAGE);
          bug_on (ci \<ge> N_PHYS_MEM_POOLS);
          bug_on (ci \<ge> cxlmem_map_num s);
          let locals = (if LF_TOTAL_CORES = 0 then 1 else LF_TOTAL_CORES);
          r \<leftarrow> compute_llfree_layout free_mem_start free_mem_end locals;
          layout \<leftarrow> r;
          bug_on (llfree_phys layout < free_mem_start);
          bug_on (data_phys layout < free_mem_start);
          bug_on (data_phys layout \<ge> free_mem_end);
          P \<leftarrow> load_at (cxl_pools s) pool;
          let n = layout_frames layout;
          ps' \<leftarrow> (if mode = LLFREE_INIT_FREE then Some (init_page_meta_shared pool n)
                  else attach_page_meta_shared pool n ps);
          let P' = P\<lparr>pool_start_addr := of_nat (phys_to_virt (data_phys layout)), page_metadata := ps',
             pool_mem_size := of_nat (n * PAGE_BYTES), pool_phys_page_num := of_nat n, pool_type := ty,
             nr_free := replicate BUDDY_MAX_ORDER 0, free_heap := init_lists BUDDY_MAX_ORDER (free_heap P)\<rparr>;
          let meta = \<lparr>meta_local = phys_to_virt (local_phys layout), meta_trees = phys_to_virt (trees_phys layout),
             meta_lower = phys_to_virt (lower_phys layout)\<rparr>;
          (res, l) \<leftarrow> llfree_init self n mode meta mem (llfree_tiering_simple locals);
          bug_on (\<not> llfree_is_ok res);
          cs \<leftarrow> store_at (buddy_lf_cxl s) ci
                 \<lparr>ctx_pool = Some pool, ctx_llfree = l, ctx_frames = n, ctx_locals = locals\<rparr>;
          Some (s\<lparr>cxl_pools := (cxl_pools s)[pool := P'], buddy_lf_cxl := cs\<rparr>) }"

definition init_buddy_lf ::
    "nat \<Rightarrow> nat \<Rightarrow> page_type \<Rightarrow> nat \<Rightarrow> nat \<Rightarrow> llfree \<Rightarrow> llfree_memory \<Rightarrow> page list \<Rightarrow> cxl_state \<Rightarrow> cxl_state option" where
  "init_buddy_lf ci pool ty free_mem_start free_mem_end = init_buddy_lf_common ci pool ty free_mem_start free_mem_end LLFREE_INIT_FREE"

definition attach_buddy_lf ::
    "nat \<Rightarrow> nat \<Rightarrow> page_type \<Rightarrow> nat \<Rightarrow> nat \<Rightarrow> llfree \<Rightarrow> llfree_memory \<Rightarrow> page list \<Rightarrow> cxl_state \<Rightarrow> cxl_state option" where
  "attach_buddy_lf ci pool ty free_mem_start free_mem_end = init_buddy_lf_common ci pool ty free_mem_start free_mem_end LLFREE_INIT_NONE"

subsection \<open>Allocation\<close>

text \<open>The request to llfree, with the context of the pool.\<close>

definition lf_request :: "cpu_id \<Rightarrow> nat \<Rightarrow> nat \<Rightarrow> cxl_state \<Rightarrow> (llfree_result \<times> cxl_state) option" where
  "lf_request c ci k s =
     do { ctx \<leftarrow> load_at (buddy_lf_cxl s) ci;
          req \<leftarrow> llfree_simple_request (ctx_locals ctx) k (lf_global_core c);
          (res, l) \<leftarrow> llfree_get (ctx_llfree ctx) None req;
          s' \<leftarrow> set_llfree ci l s;
          Some (res, s') }"

definition lf_return :: "cpu_id \<Rightarrow> nat \<Rightarrow> nat \<Rightarrow> nat \<Rightarrow> cxl_state \<Rightarrow> cxl_state option" where
  "lf_return c ci k idx s =
     do { ctx \<leftarrow> load_at (buddy_lf_cxl s) ci;
          req \<leftarrow> llfree_simple_request (ctx_locals ctx) k (lf_global_core c);
          (res, l) \<leftarrow> llfree_put (ctx_llfree ctx) idx req;
          bug_on (\<not> llfree_is_ok res);
          set_llfree ci l s }"

definition lf_get_one_page :: "cpu_id \<Rightarrow> nat \<Rightarrow> nat \<Rightarrow> cxl_state \<Rightarrow> (page_ptr option \<times> cxl_state) option" where
  "lf_get_one_page c ci pool s =
     do { (res, s1) \<leftarrow> lf_request c ci 0 s;
          if \<not> llfree_is_ok res then Some (None, s1)
          else do {
            let page_idx = frame res;
            ctx \<leftarrow> load_at (buddy_lf_cxl s1) ci;
            bug_on (page_idx \<ge> ctx_frames ctx);
            page \<leftarrow> page_at s1 (pool, page_idx);
            allocated \<leftarrow> page_check_flag page PG_allocated;
            bug_on (allocated \<noteq> 0);
            page1 \<leftarrow> page_set_flag page PG_allocated;
            s2 \<leftarrow> put_page (pool, page_idx) (page1\<lparr>page_pool := Some pool, order := 0\<rparr>) s1;
            Some (Some (pool, page_idx), s2) } }"

fun pcp_refill_rounds :: "nat \<Rightarrow> cpu_id \<Rightarrow> nat \<Rightarrow> nat \<Rightarrow> cxl_state \<Rightarrow> cxl_state option" where
  "pcp_refill_rounds 0 c ci pool s = Some s"
| "pcp_refill_rounds (Suc i) c ci pool s =
     do { pcp \<leftarrow> pcp_of c s;
          if \<not> length pcp < PCP_SIZE then Some s
          else do {
            (p, s1) \<leftarrow> lf_get_one_page c ci pool s;
            case p of
              None \<Rightarrow> Some s1
            | Some q \<Rightarrow>
                do { page \<leftarrow> page_at s1 q;
                     page1 \<leftarrow> page_clear_flag page PG_allocated;
                     s2 \<leftarrow> put_page q page1 s1;
                     pcp_refill_rounds i c ci pool (set_pcp c (q # pcp) s2) } } }"

definition pcp_refill :: "cpu_id \<Rightarrow> nat \<Rightarrow> nat \<Rightarrow> cxl_state \<Rightarrow> cxl_state option" where
  "pcp_refill c ci pool s = pcp_refill_rounds PCP_BATCH c ci pool s"

fun pcp_drain_rounds :: "nat \<Rightarrow> cpu_id \<Rightarrow> nat \<Rightarrow> nat \<Rightarrow> cxl_state \<Rightarrow> cxl_state option" where
  "pcp_drain_rounds 0 c ci pool s = Some s"
| "pcp_drain_rounds (Suc i) c ci pool s =
     do { pcp \<leftarrow> pcp_of c s;
          case pcp of
            [] \<Rightarrow> Some s
          | q # rest \<Rightarrow>
              do { idx \<leftarrow> page_index q pool;
                   s1 \<leftarrow> lf_return c ci 0 idx (set_pcp c rest s);
                   pcp_drain_rounds i c ci pool s1 } }"

definition pcp_drain :: "cpu_id \<Rightarrow> nat \<Rightarrow> nat \<Rightarrow> cxl_state \<Rightarrow> cxl_state option" where
  "pcp_drain c ci pool s = pcp_drain_rounds PCP_BATCH c ci pool s"

text \<open>The loops over the pages of a chunk.\<close>

fun claim_pages :: "nat \<Rightarrow> nat list \<Rightarrow> cxl_state \<Rightarrow> cxl_state option" where
  "claim_pages pool [] s = Some s"
| "claim_pages pool (i # is) s =
     do { p \<leftarrow> page_at s (pool, i);
          allocated \<leftarrow> page_check_flag p PG_allocated;
          bug_on (allocated \<noteq> 0);
          p1 \<leftarrow> page_set_flag p PG_allocated;
          s1 \<leftarrow> put_page (pool, i) (p1\<lparr>page_pool := Some pool\<rparr>) s;
          claim_pages pool is s1 }"

fun unclaim_pages :: "nat \<Rightarrow> nat list \<Rightarrow> cxl_state \<Rightarrow> cxl_state option" where
  "unclaim_pages pool [] s = Some s"
| "unclaim_pages pool (i # is) s =
     do { p \<leftarrow> page_at s (pool, i);
          allocated \<leftarrow> page_check_flag p PG_allocated;
          bug_on (allocated = 0);
          s1 \<leftarrow> put_page (pool, i) (p\<lparr>flags := 0\<rparr>) s;
          unclaim_pages pool is s1 }"

definition buddy_lf_get_pages :: "cpu_id \<Rightarrow> nat \<Rightarrow> int \<Rightarrow> cxl_state \<Rightarrow> (page_ptr option \<times> cxl_state) option" where
  "buddy_lf_get_pages c pool ord s =
     do { ctx \<leftarrow> lf_ctx_for_pool s pool;
          if ord < 0 \<or> ord \<ge> int BUDDY_MAX_ORDER then Some (None, s)
          else if nat ord > LLFREE_MAX_ORDER then Some (None, s)
          else case ctx of
            None \<Rightarrow> Some (None, s)
          | Some ci \<Rightarrow>
              if ord = 0 then
                do { pcp \<leftarrow> pcp_of c s;
                     s1 \<leftarrow> (if pcp = [] then pcp_refill c ci pool s else Some s);
                     pcp1 \<leftarrow> pcp_of c s1;
                     case pcp1 of
                       [] \<Rightarrow> Some (None, s1)
                     | q # rest \<Rightarrow>
                         do { let s2 = set_pcp c rest s1;
                              page \<leftarrow> page_at s2 q;
                              page1 \<leftarrow> page_set_flag page PG_allocated;
                              s3 \<leftarrow> put_page q (page1\<lparr>page_pool := Some pool, order := 0\<rparr>) s2;
                              Some (Some q, s3) } }
              else
                do { (res, s1) \<leftarrow> lf_request c ci (nat ord) s;
                     if \<not> llfree_is_ok res then Some (None, s1)
                     else do {
                       let page_idx = frame res;
                       let total_pages = 2 ^ nat ord;
                       cx \<leftarrow> load_at (buddy_lf_cxl s1) ci;
                       bug_on (page_idx + total_pages > ctx_frames cx);
                       s2 \<leftarrow> claim_pages pool [page_idx..<page_idx + total_pages] s1;
                       page \<leftarrow> page_at s2 (pool, page_idx);
                       s3 \<leftarrow> put_page (pool, page_idx) (page\<lparr>order := ord\<rparr>) s2;
                       Some (Some (pool, page_idx), s3) } } }"

subsection \<open>Release\<close>

definition buddy_lf_free_pages :: "cpu_id \<Rightarrow> nat \<Rightarrow> page_ptr \<Rightarrow> cxl_state \<Rightarrow> cxl_state option" where
  "buddy_lf_free_pages c pool q s =
     do { r \<leftarrow> lf_ctx_for_pool s pool;
          page \<leftarrow> page_at s q;
          let ord = order page;
          ci \<leftarrow> r;
          bug_on (ord < 0 \<or> nat ord > LLFREE_MAX_ORDER);
          if ord = 0 then
            do { allocated \<leftarrow> page_check_flag page PG_allocated;
                 bug_on (allocated = 0);
                 s1 \<leftarrow> put_page q (page\<lparr>flags := 0\<rparr>) s;
                 pcp \<leftarrow> pcp_of c s1;
                 s2 \<leftarrow> (if length pcp \<ge> PCP_SIZE then pcp_drain c ci pool s1 else Some s1);
                 pcp1 \<leftarrow> pcp_of c s2;
                 bug_on (length pcp1 \<ge> PCP_SIZE);
                 Some (set_pcp c (q # pcp1) s2) }
          else
            do { idx \<leftarrow> page_index q pool;
                 let total_pages = 2 ^ nat ord;
                 cx \<leftarrow> load_at (buddy_lf_cxl s) ci;
                 bug_on (idx + total_pages > ctx_frames cx);
                 s1 \<leftarrow> unclaim_pages pool [idx..<idx + total_pages] s;
                 lf_return c ci (nat ord) idx s1 } }"

end
