(* ===== verification/LLFree_Inv.thy ===== *)
theory LLFree_Inv
  imports LLFree LLFree_Lower_Inv
begin

text \<open>
  The invariant of the allocator. Every free frame is counted once: for a tree no CPU holds by
  the counter of the tree, for a reserved tree by the counter of the tree and the counter of the
  one local entry that holds it.
\<close>

subsection \<open>Free frames of a tree\<close>

definition tree_count :: "lower \<Rightarrow> nat \<Rightarrow> nat" where
  "tree_count L tr = card {x \<in> lower_free L. tree_from_frame x = tr}"

lemma block_in_tree:
  assumes "2 ^ order dvd q" "order \<le> 10" "x \<in> block q order"
  shows "tree_from_frame x = tree_from_frame q"
proof -
  have "(2 :: nat) ^ order dvd 4096" using le_imp_power_dvd [of order 12 2] assms(2) by simp
  then obtain b where b: "(4096 :: nat) = 2 ^ order * b" by blast
  obtain a where a: "q = 2 ^ order * a" using assms(1) by blast
  have "x div 2 ^ order = a" using assms(3) unfolding block_mem a by (intro div_nat_eqI) (simp_all add: mult.commute)
  then show ?thesis by (simp add: tree_from_frame_def b div_mult2_eq a)
qed

lemma tree_count_finite: "finite {x \<in> A. tree_from_frame x = tr}"
proof (rule finite_subset)
  show "{x \<in> A. tree_from_frame x = tr} \<subseteq> {tr * 4096..<tr * 4096 + 4096}"
    by (auto simp: tree_from_frame_def)
qed simp

lemma tree_count_le: "tree_count L tr \<le> 4096"
proof -
  have "{x \<in> lower_free L. tree_from_frame x = tr} \<subseteq> {tr * 4096..<tr * 4096 + 4096}"
    by (auto simp: tree_from_frame_def)
  from card_mono [OF _ this] show ?thesis by (simp add: tree_count_def)
qed

lemma tree_count_block:
  assumes "2 ^ order dvd q" "order \<le> 10"
  shows "{x \<in> A. tree_from_frame x = tr} - block q order =
      {x \<in> A - block q order. tree_from_frame x = tr}"
    "{x \<in> block q order. tree_from_frame x = tr} = (if tr = tree_from_frame q then block q order else {})"
  using block_in_tree [OF assms] by (auto simp del: block_mem)

lemma tree_count_taken:
  assumes "lower_taken L order q L'" "order \<le> 10"
  shows "tree_count L' tr = (if tr = tree_from_frame q then tree_count L tr - 2 ^ order else tree_count L tr)"
    "2 ^ order \<le> tree_count L (tree_from_frame q)"
proof -
  note t = assms(1) [unfolded lower_taken_def]
  let ?S = "\<lambda>tr. {x \<in> lower_free L. tree_from_frame x = tr}"
  have d: "2 ^ order dvd q" using t by simp
  have sub: "block q order \<subseteq> ?S (tree_from_frame q)" using t block_in_tree [OF d assms(2)] by (auto simp del: block_mem)
  from card_mono [OF tree_count_finite this] show "2 ^ order \<le> tree_count L (tree_from_frame q)"
    by (simp add: tree_count_def)
  have e: "{x \<in> lower_free L'. tree_from_frame x = tr} = ?S tr - block q order"
    using t tree_count_block(1) [OF d assms(2)] by simp
  show "tree_count L' tr = (if tr = tree_from_frame q then tree_count L tr - 2 ^ order else tree_count L tr)"
  proof (cases "tr = tree_from_frame q")
    case True
    have "card (?S tr - block q order) = card (?S tr) - card (block q order)"
      using sub True by (intro card_Diff_subset) simp_all
    then show ?thesis unfolding tree_count_def e using True by simp
  next
    case False
    then have "?S tr - block q order = ?S tr" using block_in_tree [OF d assms(2)] by (auto simp del: block_mem)
    then show ?thesis unfolding tree_count_def e using False by simp
  qed
qed

lemma tree_count_given:
  assumes "lower_given L order q L'" "order \<le> 10" "2 ^ order dvd q"
  shows "tree_count L' tr = (if tr = tree_from_frame q then tree_count L tr + 2 ^ order else tree_count L tr)"
proof -
  note t = assms(1) [unfolded lower_given_def]
  let ?S = "\<lambda>tr. {x \<in> lower_free L. tree_from_frame x = tr}"
  have e: "{x \<in> lower_free L'. tree_from_frame x = tr} = ?S tr \<union> {x \<in> block q order. tree_from_frame x = tr}"
    using t by (auto simp del: block_mem)
  have "?S tr \<inter> {x \<in> block q order. tree_from_frame x = tr} = {}" using t by (auto simp del: block_mem)
  then have "tree_count L' tr = tree_count L tr + card {x \<in> block q order. tree_from_frame x = tr}"
    unfolding tree_count_def e by (intro card_Un_disjoint tree_count_finite)
  then show ?thesis unfolding tree_count_block(2) [OF assms(3,2)] by simp
qed

subsection \<open>Local entries\<close>

definition entry_at :: "local \<Rightarrow> nat \<Rightarrow> nat \<Rightarrow> entry option" where
  "entry_at lc t i = do { es \<leftarrow> tier_entries lc t; load_at es i }"

definition put_entry :: "local \<Rightarrow> nat \<Rightarrow> nat \<Rightarrow> entry \<Rightarrow> local" where
  "put_entry lc t i e =
     lc\<lparr>local_tiers := (local_tiers lc)[t := Some ((the (local_tiers lc ! t))[i := e])]\<rparr>"

lemma entry_at_Some:
  "entry_at lc t i = Some e \<longleftrightarrow>
   t < length (local_tiers lc) \<and> (\<exists>es. local_tiers lc ! t = Some es \<and> i < length es \<and> es ! i = e)"
  by (auto simp: entry_at_def tier_entries_def bind_eq_Some_iff split: option.splits)

lemma entry_at_entries:
  assumes "entry_at lc t i = Some e"
  obtains es where "tier_entries lc t = Some es" "i < length es" "es ! i = e" "local_tiers lc ! t = Some es"
    "t < length (local_tiers lc)"
  using assms unfolding entry_at_Some by (auto simp: tier_entries_def)

lemma set_entry_eval:
  assumes "entry_at lc t i = Some e"
  shows "set_entry lc t i e' = Some (put_entry lc t i e')"
  using assms by (rule entry_at_entries) (simp add: set_entry_def put_entry_def)

lemma entry_at_put:
  assumes "entry_at lc t i = Some e"
  shows "entry_at (put_entry lc t i e') t' i' = (if t' = t \<and> i' = i then Some e' else entry_at lc t' i')"
proof -
  obtain es where es: "t < length (local_tiers lc)" "local_tiers lc ! t = Some es" "i < length es"
    using assms unfolding entry_at_Some by blast
  have "tier_entries (put_entry lc t i e') t' = (if t' = t then Some (es[i := e']) else tier_entries lc t')"
    using es by (auto simp: tier_entries_def put_entry_def load_at_def)
  moreover have "tier_entries lc t = Some es" using es by (simp add: tier_entries_def)
  ultimately show ?thesis using es(3) by (simp add: entry_at_def load_at_def nth_list_update)
qed

lemma length_put_entry [simp]: "length (local_tiers (put_entry lc t i e)) = length (local_tiers lc)"
  by (simp add: put_entry_def)

lemma check_entry_eval:
  assumes "entry_at lc t i = Some e" "length (local_tiers lc) = 8"
  shows "check_entry lc t i = Some ()"
  using assms(1) by (rule entry_at_entries) (use assms(2) in \<open>simp add: check_entry_def\<close>)

lemma update_preferred_eval:
  assumes "entry_at lc t i = Some e" "fn (preferred e) = Some r"
  shows "update_preferred fn lc t i =
    Some (case r of None \<Rightarrow> (False, preferred e, lc)
          | Some (v, _) \<Rightarrow> (True, preferred e, put_entry lc t i (e\<lparr>preferred := v\<rparr>)))"
  using assms(1) by (rule entry_at_entries)
    (use assms in \<open>simp add: update_preferred_def set_entry_eval split: option.splits prod.splits\<close>)

text \<open>The reservation at a place.\<close>

definition res_at :: "local \<Rightarrow> nat \<Rightarrow> nat \<Rightarrow> reserved option" where
  "res_at lc t i = map_option preferred (entry_at lc t i)"

lemma res_at_put:
  assumes "entry_at lc t i = Some e"
  shows "res_at (put_entry lc t i e') = (res_at lc)(t := (res_at lc t)(i := Some (preferred e')))"
  by (intro ext) (simp add: res_at_def entry_at_put [OF assms])

lemma tier_locals_eval:
  assumes "length (local_tiers lc) = 8"
  shows "\<exists>n. ll_local_tier_locals lc t = Some n \<and>
    (n \<noteq> 0 \<longrightarrow> n \<noteq> LLFREE_LOCAL_NONE \<longrightarrow> (\<forall>i < n. \<exists>e. entry_at lc t i = Some e))"
proof (cases "t < 8")
  case True
  then show ?thesis using assms
    by (cases "local_tiers lc ! t") (auto simp: ll_local_tier_locals_def entry_at_Some)
qed (simp add: ll_local_tier_locals_def)

subsection \<open>Accounting\<close>

text \<open>
  \<open>F\<close> is the number of free frames of each tree, \<open>es\<close> the tree entries, \<open>A\<close> the reservations.
\<close>

definition accounts :: "nat \<Rightarrow> (nat \<Rightarrow> nat) \<Rightarrow> tree list \<Rightarrow> (nat \<Rightarrow> nat \<Rightarrow> reserved option) \<Rightarrow> bool" where
  "accounts n F es A \<longleftrightarrow> n \<le> length es \<and>
     (\<forall>t i r. A t i = Some r \<longrightarrow> res_present r \<longrightarrow> tree_from_row (res_row r) < n \<and>
        tree_reserved (es ! tree_from_row (res_row r)) \<and>
        tree_free (es ! tree_from_row (res_row r)) + res_free r = F (tree_from_row (res_row r))) \<and>
     (\<forall>tr < n. tree_reserved (es ! tr) \<longrightarrow>
        (\<exists>t i r. A t i = Some r \<and> res_present r \<and> tree_from_row (res_row r) = tr)) \<and>
     (\<forall>tr < n. \<not> tree_reserved (es ! tr) \<longrightarrow> tree_free (es ! tr) = F tr) \<and>
     (\<forall>t i r t' i' r'. A t i = Some r \<longrightarrow> A t' i' = Some r' \<longrightarrow> res_present r \<longrightarrow> res_present r' \<longrightarrow>
        tree_from_row (res_row r) = tree_from_row (res_row r') \<longrightarrow> t = t' \<and> i = i')"

abbreviation res_update ::
    "(nat \<Rightarrow> nat \<Rightarrow> reserved option) \<Rightarrow> nat \<Rightarrow> nat \<Rightarrow> reserved \<Rightarrow> (nat \<Rightarrow> nat \<Rightarrow> reserved option)" where
  "res_update A t i r \<equiv> A(t := (A t)(i := Some r))"

lemma accountsD:
  assumes "accounts n F es A"
  shows "n \<le> length es"
    "A t i = Some r \<Longrightarrow> res_present r \<Longrightarrow> tree_from_row (res_row r) < n"
    "A t i = Some r \<Longrightarrow> res_present r \<Longrightarrow> tree_reserved (es ! tree_from_row (res_row r))"
    "A t i = Some r \<Longrightarrow> res_present r \<Longrightarrow>
      tree_free (es ! tree_from_row (res_row r)) + res_free r = F (tree_from_row (res_row r))"
    "tr < n \<Longrightarrow> tree_reserved (es ! tr) \<Longrightarrow> \<exists>t i r. A t i = Some r \<and> res_present r \<and> tree_from_row (res_row r) = tr"
    "tr < n \<Longrightarrow> \<not> tree_reserved (es ! tr) \<Longrightarrow> tree_free (es ! tr) = F tr"
    "A t i = Some r \<Longrightarrow> A t' i' = Some r' \<Longrightarrow> res_present r \<Longrightarrow> res_present r' \<Longrightarrow>
      tree_from_row (res_row r) = tree_from_row (res_row r') \<Longrightarrow> t = t' \<and> i = i'"
  using assms unfolding accounts_def by blast+

lemma accounts_free_le:
  assumes "accounts n F es A" "tr < n"
  shows "tree_free (es ! tr) \<le> F tr"
proof (cases "tree_reserved (es ! tr)")
  case True
  from accountsD(5) [OF assms True] obtain t i r where "A t i = Some r" "res_present r" "tree_from_row (res_row r) = tr"
    by blast
  then show ?thesis using accountsD(4) [OF assms(1), of t i r] by simp
qed (simp add: accountsD(6) [OF assms])

text \<open>A change of a reservation and of its tree.\<close>

lemma accounts_holder:
  assumes acc: "accounts n F es A" and r: "A t i = Some r" "res_present r" "tree_from_row (res_row r) = tr"
    and r': "res_present r'" "tree_from_row (res_row r') = tr"
    and e': "tree_reserved e'" "tree_free e' + res_free r' = F' tr" and F': "\<And>x. x \<noteq> tr \<Longrightarrow> F' x = F x"
  shows "accounts n F' (es[tr := e']) (res_update A t i r')"
proof -
  note d = accountsD [OF acc]
  have tr: "tr < n" "tr < length es" using d(1) d(2) [OF r(1,2)] r(3) by auto
  have only: "t' = t \<and> i' = i" if "A t' i' = Some s" "res_present s" "tree_from_row (res_row s) = tr" for t' i' s
    using d(7) [OF that(1) r(1) that(2) r(2)] that(3) r(3) by simp
  show ?thesis unfolding accounts_def
  proof (intro conjI allI impI)
    fix t' i' s assume s: "res_update A t i r' t' i' = Some s" "res_present s"
    let ?x = "tree_from_row (res_row s)"
    have "?x < n \<and> tree_reserved (es[tr := e'] ! ?x) \<and> tree_free (es[tr := e'] ! ?x) + res_free s = F' ?x"
    proof (cases "t' = t \<and> i' = i")
      case True
      then show ?thesis using s r' e' tr by simp
    next
      case False
      then have s': "A t' i' = Some s" using s(1) by (auto simp: fun_upd_def split: if_splits)
      then have "?x \<noteq> tr" using only [OF s' s(2)] False by blast
      then show ?thesis using d(2-4) [OF s' s(2)] F' by simp
    qed
    then show "?x < n" "tree_reserved (es[tr := e'] ! ?x)" "tree_free (es[tr := e'] ! ?x) + res_free s = F' ?x" by auto
  next
    fix x assume x: "x < n" "tree_reserved (es[tr := e'] ! x)"
    show "\<exists>t' i' s. res_update A t i r' t' i' = Some s \<and> res_present s \<and> tree_from_row (res_row s) = x"
    proof (cases "x = tr")
      case True
      then show ?thesis using r' by (intro exI [of _ t] exI [of _ i] exI [of _ r']) simp
    next
      case False
      then obtain t' i' s where s: "A t' i' = Some s" "res_present s" "tree_from_row (res_row s) = x"
        using d(5) [OF x(1)] x(2) by auto
      then have "\<not> (t' = t \<and> i' = i)" using False r by auto
      then show ?thesis using s by (intro exI [of _ t'] exI [of _ i'] exI [of _ s]) (auto simp: fun_upd_def)
    qed
  next
    fix t1 i1 s1 t2 i2 s2
    assume a: "res_update A t i r' t1 i1 = Some s1" "res_update A t i r' t2 i2 = Some s2" "res_present s1" "res_present s2"
      "tree_from_row (res_row s1) = tree_from_row (res_row s2)"
    have old: "\<exists>r0. A t' i' = Some r0 \<and> res_present r0 \<and> tree_from_row (res_row r0) = tree_from_row (res_row s)"
      if "res_update A t i r' t' i' = Some s" "res_present s" for t' i' s
      using that r r' by (cases "t' = t \<and> i' = i") (auto simp: fun_upd_def split: if_splits)
    obtain u1 u2 where "A t1 i1 = Some u1" "res_present u1" "tree_from_row (res_row u1) = tree_from_row (res_row s1)"
      "A t2 i2 = Some u2" "res_present u2" "tree_from_row (res_row u2) = tree_from_row (res_row s2)"
      using old [OF a(1,3)] old [OF a(2,4)] by blast
    then have "t1 = t2 \<and> i1 = i2" using d(7) [of t1 i1 u1 t2 i2 u2] a(5) by simp
    then show "t1 = t2" "i1 = i2" by auto
  next
    show "tree_free (es[tr := e'] ! x) = F' x" if "x < n" "\<not> tree_reserved (es[tr := e'] ! x)" for x
      using that e'(1) d(6) F' tr by (cases "x = tr") auto
  qed (use d(1) in simp)
qed

lemma accounts_unreserved:
  assumes acc: "accounts n F es A" and tr: "tr < n" "\<not> tree_reserved (es ! tr)"
    and e': "\<not> tree_reserved e'" "tree_free e' = F' tr" and F': "\<And>x. x \<noteq> tr \<Longrightarrow> F' x = F x"
  shows "accounts n F' (es[tr := e']) A"
proof -
  note d = accountsD [OF acc]
  have no: "tree_from_row (res_row r) \<noteq> tr" if "A t i = Some r" "res_present r" for t i r
    using d(3) [OF that] tr(2) by auto
  show ?thesis unfolding accounts_def
  proof (intro conjI allI impI)
    fix t i r assume r: "A t i = Some r" "res_present r"
    show "tree_from_row (res_row r) < n" "tree_reserved (es[tr := e'] ! tree_from_row (res_row r))"
      "tree_free (es[tr := e'] ! tree_from_row (res_row r)) + res_free r = F' (tree_from_row (res_row r))"
      using d(2-4) [OF r] no [OF r] F' by simp_all
  next
    show "\<exists>t i r. A t i = Some r \<and> res_present r \<and> tree_from_row (res_row r) = x" if "x < n" "tree_reserved (es[tr := e'] ! x)" for x
      using that e'(1) d(1) d(5) [OF that(1)] by (cases "x = tr") auto
  next
    show "tree_free (es[tr := e'] ! x) = F' x" if "x < n" "\<not> tree_reserved (es[tr := e'] ! x)" for x
      using that e' d(1) d(6) [OF that(1)] F' by (cases "x = tr") auto
  qed (simp add: d(1), (use d(7) in blast)+)
qed

text \<open>A reservation given back, and one installed at an empty place.\<close>

lemma accounts_release:
  assumes acc: "accounts n F es A" and r: "A t i = Some r" "res_present r" "tree_from_row (res_row r) = tr"
    and r': "\<not> res_present r'" and e': "\<not> tree_reserved e'" "tree_free e' = F tr"
  shows "accounts n F (es[tr := e']) (res_update A t i r')"
proof -
  note d = accountsD [OF acc]
  have old: "A t' i' = Some s \<and> tree_from_row (res_row s) \<noteq> tr" if "res_update A t i r' t' i' = Some s" "res_present s" for t' i' s
  proof -
    have "\<not> (t' = t \<and> i' = i)" using that r' by auto
    moreover from this have s: "A t' i' = Some s" using that(1) by (auto simp: fun_upd_def split: if_splits)
    ultimately show ?thesis using d(7) [OF s r(1) that(2) r(2)] r(3) by auto
  qed
  show ?thesis unfolding accounts_def
  proof (intro conjI allI impI)
    fix t' i' s assume s: "res_update A t i r' t' i' = Some s" "res_present s"
    show "tree_from_row (res_row s) < n" "tree_reserved (es[tr := e'] ! tree_from_row (res_row s))"
      "tree_free (es[tr := e'] ! tree_from_row (res_row s)) + res_free s = F (tree_from_row (res_row s))"
      using d(2-4) [of t' i' s] old [OF s] s(2) by simp_all
  next
    fix x assume x: "x < n" "tree_reserved (es[tr := e'] ! x)"
    have ne: "x \<noteq> tr" using x d(1) e'(1) by auto
    then obtain t' i' s where s: "A t' i' = Some s" "res_present s" "tree_from_row (res_row s) = x"
      using d(5) [OF x(1)] x(2) by auto
    then have "\<not> (t' = t \<and> i' = i)" using ne r by auto
    then show "\<exists>t' i' s. res_update A t i r' t' i' = Some s \<and> res_present s \<and> tree_from_row (res_row s) = x"
      using s by (intro exI [of _ t'] exI [of _ i'] exI [of _ s]) (auto simp: fun_upd_def)
  next
    show "tree_free (es[tr := e'] ! x) = F x" if "x < n" "\<not> tree_reserved (es[tr := e'] ! x)" for x
      using that e' d(1) d(6) [OF that(1)] by (cases "x = tr") auto
  next
    fix t1 i1 s1 t2 i2 s2
    assume a: "res_update A t i r' t1 i1 = Some s1" "res_update A t i r' t2 i2 = Some s2" "res_present s1" "res_present s2"
      "tree_from_row (res_row s1) = tree_from_row (res_row s2)"
    have "t1 = t2 \<and> i1 = i2" by (rule d(7) [OF _ _ a(3-5)]) (use old [OF a(1,3)] old [OF a(2,4)] in blast)+
    then show "t1 = t2" "i1 = i2" by auto
  qed (simp add: d(1))
qed

lemma accounts_install:
  assumes acc: "accounts n F es A" and r: "A t i = Some r" "\<not> res_present r" and tr: "tr < n" "\<not> tree_reserved (es ! tr)"
    and r': "res_present r'" "tree_from_row (res_row r') = tr"
    and e': "tree_reserved e'" "tree_free e' + res_free r' = F' tr" and F': "\<And>x. x \<noteq> tr \<Longrightarrow> F' x = F x"
  shows "accounts n F' (es[tr := e']) (res_update A t i r')"
proof -
  note d = accountsD [OF acc]
  have trl: "tr < length es" using tr(1) d(1) by simp
  have other: "A t' i' = Some s \<and> tree_from_row (res_row s) \<noteq> tr"
    if "res_update A t i r' t' i' = Some s" "res_present s" "\<not> (t' = t \<and> i' = i)" for t' i' s
  proof -
    have s: "A t' i' = Some s" using that(1,3) by (auto simp: fun_upd_def split: if_splits)
    then show ?thesis using d(3) [OF s that(2)] tr(2) by auto
  qed
  show ?thesis unfolding accounts_def
  proof (intro conjI allI impI)
    fix t' i' s assume s: "res_update A t i r' t' i' = Some s" "res_present s"
    have "tree_from_row (res_row s) < n \<and> tree_reserved (es[tr := e'] ! tree_from_row (res_row s)) \<and>
      tree_free (es[tr := e'] ! tree_from_row (res_row s)) + res_free s = F' (tree_from_row (res_row s))"
      using s r' e' tr trl other [OF s] d(2-4) [of t' i' s] F' by (cases "t' = t \<and> i' = i") auto
    then show "tree_from_row (res_row s) < n" "tree_reserved (es[tr := e'] ! tree_from_row (res_row s))"
      "tree_free (es[tr := e'] ! tree_from_row (res_row s)) + res_free s = F' (tree_from_row (res_row s))" by auto
  next
    fix x assume x: "x < n" "tree_reserved (es[tr := e'] ! x)"
    show "\<exists>t' i' s. res_update A t i r' t' i' = Some s \<and> res_present s \<and> tree_from_row (res_row s) = x"
    proof (cases "x = tr")
      case True
      then show ?thesis using r' by (intro exI [of _ t] exI [of _ i] exI [of _ r']) simp
    next
      case False
      then obtain t' i' s where s: "A t' i' = Some s" "res_present s" "tree_from_row (res_row s) = x"
        using d(5) [OF x(1)] x(2) by auto
      then have "\<not> (t' = t \<and> i' = i)" using r by auto
      then show ?thesis using s by (intro exI [of _ t'] exI [of _ i'] exI [of _ s]) (auto simp: fun_upd_def)
    qed
  next
    show "tree_free (es[tr := e'] ! x) = F' x" if "x < n" "\<not> tree_reserved (es[tr := e'] ! x)" for x
      using that e' trl d(6) [OF that(1)] F' by (cases "x = tr") auto
  next
    fix t1 i1 s1 t2 i2 s2
    assume a: "res_update A t i r' t1 i1 = Some s1" "res_update A t i r' t2 i2 = Some s2" "res_present s1" "res_present s2"
      "tree_from_row (res_row s1) = tree_from_row (res_row s2)"
    have here: "tree_from_row (res_row s) = tr \<longleftrightarrow> t' = t \<and> i' = i"
      if "res_update A t i r' t' i' = Some s" "res_present s" for t' i' s
      using other [OF that] that(1) r'(2) by (cases "t' = t \<and> i' = i") auto
    have "t1 = t2 \<and> i1 = i2"
    proof (cases "(t1 = t \<and> i1 = i) \<or> (t2 = t \<and> i2 = i)")
      case True
      then show ?thesis using here [OF a(1,3)] here [OF a(2,4)] a(5) by auto
    next
      case False
      then show ?thesis by (intro d(7) [OF _ _ a(3-5)]) (use other [OF a(1,3)] other [OF a(2,4)] in blast)+
    qed
    then show "t1 = t2" "i1 = i2" by auto
  qed (simp add: d(1))
qed

subsection \<open>The invariant\<close>

definition llfree_inv :: "llfree \<Rightarrow> bool" where
  "llfree_inv S \<longleftrightarrow> lower_ok (ll_lower S) \<and>
     trees_len (ll_trees S) = div_ceil (frames (ll_lower S)) LLFREE_TREE_SIZE \<and>
     length (local_tiers (ll_local S)) = LLFREE_MAX_TIERS \<and>
     (\<forall>t i r. res_at (ll_local S) t i = Some r \<longrightarrow> res_present r \<longrightarrow> frame_from_row (res_row r) < frames (ll_lower S)) \<and>
     accounts (trees_len (ll_trees S)) (tree_count (ll_lower S)) (entries (ll_trees S)) (res_at (ll_local S))"

lemma llfree_invD:
  assumes "llfree_inv S"
  shows "lower_ok (ll_lower S)" "trees_len (ll_trees S) = div_ceil (frames (ll_lower S)) 4096"
    "length (local_tiers (ll_local S)) = 8"
    "\<And>t i r. res_at (ll_local S) t i = Some r \<Longrightarrow> res_present r \<Longrightarrow> frame_from_row (res_row r) < frames (ll_lower S)"
    "accounts (trees_len (ll_trees S)) (tree_count (ll_lower S)) (entries (ll_trees S)) (res_at (ll_local S))"
  using assms unfolding llfree_inv_def llfree_sizes by blast+

lemma tree_in_range: "tr < div_ceil n 4096 \<longleftrightarrow> tr * 4096 < n"
proof -
  have "tr < (n + 4095) div 4096 \<longleftrightarrow> Suc tr * 4096 \<le> n + 4095"
    by (simp add: less_eq_div_iff_mult_less_eq Suc_le_eq [symmetric])
  then show ?thesis by (simp add: div_ceil_def) linarith
qed

text \<open>What no operation changes.\<close>

definition local_shape :: "local \<Rightarrow> nat option list" where
  "local_shape lc = map (map_option length) (local_tiers lc)"

definition keeps :: "llfree \<Rightarrow> llfree \<Rightarrow> bool" where
  "keeps S S' \<longleftrightarrow> frames (ll_lower S') = frames (ll_lower S) \<and> ll_policy S' = ll_policy S \<and>
     trees_len (ll_trees S') = trees_len (ll_trees S) \<and> local_shape (ll_local S') = local_shape (ll_local S)"

lemma keeps_refl [simp]: "keeps S S"
  by (simp add: keeps_def)

lemma keeps_trans: "keeps S S' \<Longrightarrow> keeps S' S'' \<Longrightarrow> keeps S S''"
  by (simp add: keeps_def)

lemma local_shape_put [simp]:
  assumes "entry_at lc t i = Some e"
  shows "local_shape (put_entry lc t i e') = local_shape lc"
proof -
  obtain es where es: "t < length (local_tiers lc)" "local_tiers lc ! t = Some es" using assms unfolding entry_at_Some by blast
  then have "map (map_option length) (local_tiers lc) ! t = Some (length es)" by simp
  then show ?thesis using es(2) list_update_id [of "map (map_option length) (local_tiers lc)" t]
    by (simp add: local_shape_def put_entry_def map_update del: list_update_id)
qed

lemma local_shape_entry:
  assumes "local_shape lc' = local_shape lc"
  shows "(\<exists>e. entry_at lc' t i = Some e) \<longleftrightarrow> (\<exists>e. entry_at lc t i = Some e)"
    "ll_local_tier_locals lc' t = ll_local_tier_locals lc t"
proof -
  have l: "length (local_tiers lc') = length (local_tiers lc)"
    using assms by (metis local_shape_def length_map)
  have n: "map_option length (local_tiers lc' ! t) = map_option length (local_tiers lc ! t)" if "t < length (local_tiers lc)"
    using that l arg_cong [OF assms, of "\<lambda>xs. xs ! t"] by (simp add: local_shape_def)
  show "(\<exists>e. entry_at lc' t i = Some e) \<longleftrightarrow> (\<exists>e. entry_at lc t i = Some e)"
  proof (cases "t < length (local_tiers lc)")
    case True
    then show ?thesis using l n [OF True]
      by (cases "local_tiers lc' ! t"; cases "local_tiers lc ! t") (auto simp: entry_at_Some)
  qed (simp add: entry_at_Some l)
  show "ll_local_tier_locals lc' t = ll_local_tier_locals lc t"
  proof (cases "t < length (local_tiers lc)")
    case True
    then show ?thesis using l n [OF True]
      by (cases "local_tiers lc' ! t"; cases "local_tiers lc ! t") (auto simp: ll_local_tier_locals_def)
  qed (simp add: ll_local_tier_locals_def load_at_def l)
qed

subsection \<open>Trees\<close>

lemma trees_update_eval:
  assumes "idx < trees_len T" "trees_len T \<le> length (entries T)" "fn (entries T ! idx) = Some r"
  shows "trees_update fn T idx = Some (entries T ! idx, map_option snd r,
    case r of None \<Rightarrow> T | Some (v, _) \<Rightarrow> T\<lparr>entries := (entries T)[idx := v]\<rparr>)"
  using assms by (cases r) (auto simp: trees_update_def atom_update_eval split: prod.splits)

lemma tree_put_eval:
  assumes "tree_free e + n \<le> 4096"
  shows "\<exists>e'. tree_put n policy dt e = Some (Some (e', ())) \<and> tree_reserved e' = tree_reserved e \<and>
    tree_free e' = tree_free e + n"
  using assms by (simp add: tree_put_def Let_def)

lemma trees_put_eval:
  assumes "idx < trees_len T" "trees_len T \<le> length (entries T)" "tree_free (entries T ! idx) + n \<le> 4096"
  shows "\<exists>e'. trees_put T idx n policy = Some (T\<lparr>entries := (entries T)[idx := e']\<rparr>) \<and>
    tree_reserved e' = tree_reserved (entries T ! idx) \<and> tree_free e' = tree_free (entries T ! idx) + n"
proof -
  obtain e' where e: "tree_put n policy (trees_default_tier T) (entries T ! idx) = Some (Some (e', ()))"
    "tree_reserved e' = tree_reserved (entries T ! idx)" "tree_free e' = tree_free (entries T ! idx) + n"
    using tree_put_eval [OF assms(3)] by blast
  show ?thesis using trees_update_eval [OF assms(1,2), of "tree_put n policy (trees_default_tier T)"] e
    by (intro exI [of _ e']) (simp add: trees_put_def)
qed

lemma trees_unreserve_eval:
  assumes "idx < trees_len T" "trees_len T \<le> length (entries T)" "tree_reserved (entries T ! idx)"
    and "tree_free (entries T ! idx) + n \<le> 4096"
  shows "\<exists>e'. trees_unreserve T idx n t policy = Some (T\<lparr>entries := (entries T)[idx := e']\<rparr>) \<and>
    \<not> tree_reserved e' \<and> tree_free e' = tree_free (entries T ! idx) + n"
proof -
  let ?e1 = "(entries T ! idx)\<lparr>tree_reserved := False\<rparr>"
  let ?e = "if policy_type (policy t (tree_tier ?e1) n) = LLFREE_POLICY_DEMOTE then ?e1\<lparr>tree_tier := t mod 2 ^ 3\<rparr> else ?e1"
  have "\<exists>e'. tree_put n policy (trees_default_tier T) ?e = Some (Some (e', ())) \<and> tree_reserved e' = tree_reserved ?e \<and>
      tree_free e' = tree_free ?e + n"
    by (rule tree_put_eval) (use assms(4) in simp)
  then obtain e' where e: "tree_unreserve_add n t policy (trees_default_tier T) (entries T ! idx) = Some (Some (e', ()))"
    "\<not> tree_reserved e'" "tree_free e' = tree_free (entries T ! idx) + n"
    using assms(3) by (auto simp: tree_unreserve_add_def Let_def split: if_splits)
  show ?thesis using trees_update_eval [OF assms(1,2), of "tree_unreserve_add n t policy (trees_default_tier T)"] e
    by (intro exI [of _ e']) (simp add: trees_unreserve_def)
qed

lemma trees_reserve_eval:
  assumes "idx < trees_len T" "trees_len T \<le> length (entries T)"
  defines "e \<equiv> entries T ! idx"
  shows "trees_reserve T idx check =
    (if tree_reserved e \<or> check (tree_tier e) (tree_free e) = LLFREE_TIER_NONE then Some (None, T)
     else Some (Some (tree_free e, check (tree_tier e) (tree_free e)),
       T\<lparr>entries := (entries T)[idx := e\<lparr>tree_reserved := True,
          tree_tier := check (tree_tier e) (tree_free e) mod 2 ^ 3, tree_free := 0\<rparr>]\<rparr>))"
  using trees_update_eval [OF assms(1,2), of "tree_reserve check"]
  by (simp add: trees_reserve_def tree_reserve_def Let_def e_def)

end
