(* ===== verification/LLFree_Ops.thy ===== *)
theory LLFree_Ops
  imports LLFree_Inv
begin

text \<open>
  What allocation and release do to a consistent allocator: every step keeps the accounting,
  fails no assertion, and changes the set of free frames by the run it returns.
\<close>

subsection \<open>Reserving a tree\<close>

lemma row_tree: "tree_from_row (row_from_tree tr) = tr" "frame_from_row (row_from_tree tr) = tr * 4096"
  by (simp_all add: llfree_index)

lemma ll_local_swap_eval:
  assumes "entry_at lc t i = Some e" "length (local_tiers lc) = 8" "f \<le> 4096" "row_from_tree tr < 2 ^ 35"
  shows "ll_local_swap lc t i tr f = Some (make_result True t (preferred e),
    put_entry lc t i (e\<lparr>preferred := \<lparr>res_present = True, res_free = f, res_row = row_from_tree tr\<rparr>\<rparr>))"
  using assms check_entry_eval [OF assms(1,2)]
  by (simp add: ll_local_swap_def ll_reserved_new_def update_preferred_eval ll_reserved_swap_def)

text \<open>The place \<open>t\<close>, \<open>i\<close> takes over tree \<open>tr\<close>, just marked, and gives up the tree it held.\<close>

lemma swap_reserved_spec:
  assumes acc: "accounts (trees_len (ll_trees S)) F es (res_at (ll_local S))"
    and loc: "entry_at (ll_local S) t i = Some e" "length (local_tiers (ll_local S)) = 8"
    and tr: "tr < trees_len (ll_trees S)" "\<not> tree_reserved (es ! tr)" "row_from_tree tr < 2 ^ 35"
    and e1: "entries (ll_trees S) = es[tr := e1]" "tree_reserved e1" "tree_free e1 = 0"
    and f: "f \<le> 4096" "\<And>x. F x \<le> 4096"
  shows "\<exists>S'. swap_reserved S t i tr f = Some S' \<and> ll_lower S' = ll_lower S \<and> keeps S S' \<and>
    length (local_tiers (ll_local S')) = 8 \<and>
    accounts (trees_len (ll_trees S')) (F(tr := f)) (entries (ll_trees S')) (res_at (ll_local S')) \<and>
    (\<forall>t' i' r. res_at (ll_local S') t' i' = Some r \<longrightarrow> res_at (ll_local S) t' i' = Some r \<or> res_row r = row_from_tree tr)"
proof -
  let ?n = "trees_len (ll_trees S)" and ?r0 = "preferred e"
  let ?r1 = "\<lparr>res_present = True, res_free = f, res_row = row_from_tree tr\<rparr>"
  let ?lc = "put_entry (ll_local S) t i (e\<lparr>preferred := ?r1\<rparr>)"
  let ?A = "res_at (ll_local S)"
  note d = accountsD [OF acc]
  have at: "?A t i = Some ?r0" using loc(1) by (simp add: res_at_def)
  have lc: "res_at ?lc = res_update ?A t i ?r1" using res_at_put [OF loc(1)] by simp
  have sw: "ll_local_swap (ll_local S) t i tr f = Some (make_result True t ?r0, ?lc)"
    by (rule ll_local_swap_eval [OF loc f(1) tr(3)])
  have rows: "\<forall>t' i' r. res_at ?lc t' i' = Some r \<longrightarrow> ?A t' i' = Some r \<or> res_row r = row_from_tree tr"
    unfolding lc by (auto simp: fun_upd_def split: if_splits)
  show ?thesis
  proof (cases "res_present ?r0")
    case False
    have "accounts ?n (F(tr := f)) (es[tr := e1]) (res_update ?A t i ?r1)"
      by (rule accounts_install [OF acc at False tr(1,2)]) (simp_all add: row_tree e1)
    then show ?thesis using sw False rows loc
      by (simp add: swap_reserved_def make_result_def keeps_def lc e1(1))
  next
    case True
    let ?x = "tree_from_row (res_row ?r0)"
    have x: "?x < ?n" "tree_reserved (es ! ?x)" "tree_free (es ! ?x) + res_free ?r0 = F ?x"
      using d(2-4) [OF at True] by auto
    have ne: "?x \<noteq> tr" using x(2) tr(2) by auto
    have T: "?x < trees_len (ll_trees S)" "trees_len (ll_trees S) \<le> length (entries (ll_trees S))"
      "tree_reserved (entries (ll_trees S) ! ?x)" "tree_free (entries (ll_trees S) ! ?x) + res_free ?r0 \<le> 4096"
      using x ne d(1) f(2) [of ?x] by (simp_all add: e1(1))
    from trees_unreserve_eval [OF T] obtain e0 where
      e0: "trees_unreserve (ll_trees S) ?x (res_free ?r0) t (ll_policy S) =
          Some ((ll_trees S)\<lparr>entries := es[tr := e1, ?x := e0]\<rparr>)"
        "\<not> tree_reserved e0" "tree_free e0 = F ?x"
      using x(3) ne by (auto simp: e1(1))
    have "accounts ?n F (es[?x := e0]) (res_update ?A t i (?r0\<lparr>res_present := False\<rparr>))"
      by (rule accounts_release [OF acc at True]) (simp_all add: e0)
    then have "accounts ?n (F(tr := f)) (es[?x := e0, tr := e1])
        (res_update (res_update ?A t i (?r0\<lparr>res_present := False\<rparr>)) t i ?r1)"
      by (rule accounts_install [where r = "?r0\<lparr>res_present := False\<rparr>"]) (use tr ne in \<open>simp_all add: row_tree e1\<close>)
    moreover have "es[?x := e0, tr := e1] = es[tr := e1, ?x := e0]" using ne by (rule list_update_swap)
    ultimately have "accounts ?n (F(tr := f)) (es[tr := e1, ?x := e0]) (res_update ?A t i ?r1)" by simp
    then show ?thesis using sw True rows loc e0(1)
      by (simp add: swap_reserved_def make_result_def keeps_def lc)
  qed
qed

text \<open>Only the tier of a tree may differ.\<close>

definition same_but_tier :: "llfree \<Rightarrow> nat \<Rightarrow> llfree \<Rightarrow> bool" where
  "same_but_tier S idx S' \<longleftrightarrow> (\<exists>e'. S' = S\<lparr>ll_trees := (ll_trees S)\<lparr>entries := (entries (ll_trees S))[idx := e']\<rparr>\<rparr> \<and>
     tree_reserved e' = tree_reserved (entries (ll_trees S) ! idx) \<and> tree_free e' = tree_free (entries (ll_trees S) ! idx))"

lemma same_but_tier_refl: "same_but_tier S idx S"
  unfolding same_but_tier_def by (intro exI [of _ "entries (ll_trees S) ! idx"]) simp

lemma same_but_tier_inv:
  assumes "llfree_inv S" "same_but_tier S idx S'" "idx < trees_len (ll_trees S)" "\<not> tree_reserved (entries (ll_trees S) ! idx)"
  shows "llfree_inv S'" "keeps S S'"
proof -
  let ?T = "ll_trees S"
  note d = llfree_invD [OF assms(1)]
  obtain e' where e': "S' = S\<lparr>ll_trees := ?T\<lparr>entries := (entries ?T)[idx := e']\<rparr>\<rparr>" "\<not> tree_reserved e'"
    "tree_free e' = tree_free (entries ?T ! idx)" using assms(2,4) unfolding same_but_tier_def by blast
  have "accounts (trees_len ?T) (tree_count (ll_lower S)) ((entries ?T)[idx := e']) (res_at (ll_local S))"
    by (rule accounts_unreserved [OF d(5) assms(3,4) e'(2)]) (use e'(3) accountsD(6) [OF d(5) assms(3,4)] in simp_all)
  then show "llfree_inv S'" "keeps S S'" using assms(1) by (simp_all add: llfree_inv_def keeps_def e'(1))
qed

text \<open>A reservation taken back at once.\<close>

lemma unreserve_same:
  assumes "llfree_inv S" "idx < trees_len (ll_trees S)" "\<not> tree_reserved (entries (ll_trees S) ! idx)"
    and T1: "T1 = (ll_trees S)\<lparr>entries := (entries (ll_trees S))[idx := e1]\<rparr>" and e1: "tree_reserved e1" "tree_free e1 = 0"
  shows "\<exists>T2. trees_unreserve T1 idx (tree_free (entries (ll_trees S) ! idx)) t policy = Some T2 \<and>
    same_but_tier S idx (S\<lparr>ll_trees := T2\<rparr>)"
proof -
  note d = llfree_invD [OF assms(1)]
  have len: "idx < length (entries (ll_trees S))" using assms(2) accountsD(1) [OF d(5)] by simp
  have "tree_free (entries (ll_trees S) ! idx) \<le> 4096"
    using accountsD(6) [OF d(5) assms(2,3)] tree_count_le [of "ll_lower S" idx] by simp
  then have "\<exists>e'. trees_unreserve T1 idx (tree_free (entries (ll_trees S) ! idx)) t policy =
      Some (T1\<lparr>entries := (entries T1)[idx := e']\<rparr>) \<and> \<not> tree_reserved e' \<and>
      tree_free e' = tree_free (entries T1 ! idx) + tree_free (entries (ll_trees S) ! idx)"
    by (intro trees_unreserve_eval) (use assms(2) len accountsD(1) [OF d(5)] e1 in \<open>simp_all add: T1\<close>)
  then show ?thesis unfolding same_but_tier_def using len e1(2) assms(3) by (auto simp: T1)
qed

lemma inv_after_take:
  assumes "llfree_inv S" "lower_taken (ll_lower S) order q L'" "ll_lower S' = L'" "keeps S S'"
    and "length (local_tiers (ll_local S')) = 8"
    and "accounts (trees_len (ll_trees S')) (tree_count L') (entries (ll_trees S')) (res_at (ll_local S'))"
    and "\<And>t i r. res_at (ll_local S') t i = Some r \<Longrightarrow> res_present r \<Longrightarrow>
      res_at (ll_local S) t i = Some r \<or> frame_from_row (res_row r) < frames (ll_lower S)"
  shows "llfree_inv S'"
proof -
  note d = llfree_invD [OF assms(1)]
  have f: "frames (ll_lower S') = frames (ll_lower S)" "trees_len (ll_trees S') = trees_len (ll_trees S)"
    using assms(4) by (simp_all add: keeps_def)
  have "lower_ok (ll_lower S')" using assms(2,3) by (simp add: lower_taken_def)
  moreover have "frame_from_row (res_row r) < frames (ll_lower S')" if "res_at (ll_local S') t i = Some r" "res_present r" for t i r
    using assms(7) [OF that] d(4) [of t i r] that(2) f(1) by auto
  ultimately show ?thesis using assms(3,5,6) d(2) f unfolding llfree_inv_def by simp
qed

text \<open>The tree can be reserved for the request and has a run of the order.\<close>

definition tree_offers :: "llfree \<Rightarrow> nat \<Rightarrow> tree_check_fn \<Rightarrow> nat \<Rightarrow> bool" where
  "tree_offers S order check idx \<longleftrightarrow>
     (let e = entries (ll_trees S) ! idx; t = check (tree_tier e) (tree_free e) in
      \<not> tree_reserved e \<and> t \<noteq> LLFREE_TIER_NONE \<and>
      ll_local_tier_locals (ll_local S) t \<notin> {Some 0, Some LLFREE_LOCAL_NONE} \<and>
      (\<exists>q. tree_from_frame q = idx \<and> 2 ^ order dvd q \<and> block q order \<subseteq> lower_free (ll_lower S)))"

definition reserve_outcome :: "llfree \<Rightarrow> nat \<Rightarrow> tree_check_fn \<Rightarrow> nat \<Rightarrow> llfree_result \<Rightarrow> llfree \<Rightarrow> bool" where
  "reserve_outcome S order check idx res S' \<longleftrightarrow> llfree_inv S' \<and> keeps S S' \<and>
     (error res = LLFREE_ERR_OK \<and> lower_taken (ll_lower S) order (frame res) (ll_lower S') \<or>
      error res = LLFREE_ERR_MEMORY \<and> same_but_tier S idx S' \<and> \<not> tree_offers S order check idx)"

lemma taken_frame:
  assumes "lower_ok L" "lower_taken L order q L'"
  shows "q < 2 ^ 58" "q < frames L"
proof -
  have "q \<in> block q order" by simp
  then show "q < frames L" using assms(2) lower_okD(6) [OF assms(1)] unfolding lower_taken_def by blast
  then show "q < 2 ^ 58" using lower_okD(1) [OF assms(1)] by (rule order.strict_trans2 [OF order.strict_trans2]) simp
qed

lemma lower_get_start:
  assumes "lower_ok L" "order \<le> 10" "s < frames L" "order = 10 \<longrightarrow> even (child_count L)"
  shows "tree_search L order (tree_from_frame s) (lower_get L s order None)"
proof -
  have "s div 512 < child_count L" by (rule frame_child_bound [OF assms(3)])
  then have "order = 10 \<longrightarrow> s div 512 div 2 < child_count L div 2" using assms(4) by (auto elim!: evenE)
  then show ?thesis by (rule lower_get_spec [OF assms(1-3)])
qed

lemma get_reserve_take:
  assumes inv: "llfree_inv S" and idx: "idx < trees_len (ll_trees S)" "\<not> tree_reserved (entries (ll_trees S) ! idx)"
    and o: "order \<le> 10" and at: "entry_at (ll_local S) t i = Some e"
    and S2: "ll_lower S2 = L" "ll_local S2 = ll_local S" "ll_policy S2 = ll_policy S"
      "ll_trees S2 = (ll_trees S)\<lparr>entries := (entries (ll_trees S))[idx := e1]\<rparr>" and e1: "tree_reserved e1" "tree_free e1 = 0"
    and q: "lower_taken (ll_lower S) order q L" "tree_from_frame q = idx"
  defines "f \<equiv> (tree_free (entries (ll_trees S) ! idx) + 2 ^ 32 - 2 ^ order) mod 2 ^ 32"
  shows "\<exists>S3. swap_reserved S2 t i idx f = Some S3 \<and> llfree_inv S3 \<and> keeps S S3 \<and> ll_lower S3 = L"
proof -
  note d = llfree_invD [OF inv]
  have cnt: "tree_free (entries (ll_trees S) ! idx) = tree_count (ll_lower S) idx" by (rule accountsD(6) [OF d(5) idx])
  note tk = tree_count_taken [OF q(1) o]
  have le: "2 ^ order \<le> tree_count (ll_lower S) idx" using tk(2) q(2) by simp
  have "tree_count (ll_lower S) idx - 2 ^ order \<le> 4096" using tree_count_le [of "ll_lower S" idx] by linarith
  also have "\<dots> < 2 ^ 32" by simp
  finally have "(tree_count (ll_lower S) idx - 2 ^ order + 2 ^ 32) mod 2 ^ 32 = tree_count (ll_lower S) idx - 2 ^ order" by simp
  moreover have "tree_count (ll_lower S) idx + 2 ^ 32 - 2 ^ order = tree_count (ll_lower S) idx - 2 ^ order + 2 ^ 32"
    using le by linarith
  ultimately have f: "f = tree_count (ll_lower S) idx - 2 ^ order" unfolding f_def cnt by presburger
  have f4: "f \<le> 4096" using f tree_count_le [of "ll_lower S" idx] by linarith
  have F: "(tree_count (ll_lower S))(idx := f) = tree_count L" using tk(1) q(2) f by (intro ext) simp
  have fr: "idx * 4096 < frames (ll_lower S)" using idx(1) unfolding d(2) tree_in_range .
  have "frames (ll_lower S) \<le> 2 ^ 28" by (rule lower_okD(1) [OF d(1)])
  then have row: "row_from_tree idx < 2 ^ 35" using fr by (simp add: llfree_index)
  have acc: "accounts (trees_len (ll_trees S2)) (tree_count (ll_lower S)) (entries (ll_trees S)) (res_at (ll_local S2))"
    using d(5) S2 by simp
  have "\<exists>S3. swap_reserved S2 t i idx f = Some S3 \<and> ll_lower S3 = ll_lower S2 \<and> keeps S2 S3 \<and> length (local_tiers (ll_local S3)) = 8 \<and>
    accounts (trees_len (ll_trees S3)) ((tree_count (ll_lower S))(idx := f)) (entries (ll_trees S3)) (res_at (ll_local S3)) \<and>
    (\<forall>t' i' r. res_at (ll_local S3) t' i' = Some r \<longrightarrow> res_at (ll_local S2) t' i' = Some r \<or> res_row r = row_from_tree idx)"
    by (rule swap_reserved_spec [OF acc, where ?e1.0 = e1])
      (use at d(3) idx row e1 f4 tree_count_le in \<open>simp_all add: S2\<close>)
  then obtain S3 where S3: "swap_reserved S2 t i idx f = Some S3" "ll_lower S3 = L" "keeps S2 S3" "length (local_tiers (ll_local S3)) = 8"
    "accounts (trees_len (ll_trees S3)) (tree_count L) (entries (ll_trees S3)) (res_at (ll_local S3))"
    "\<And>t' i' r. res_at (ll_local S3) t' i' = Some r \<Longrightarrow> res_at (ll_local S) t' i' = Some r \<or> res_row r = row_from_tree idx"
    unfolding F S2(1,2) by blast
  have k: "keeps S S3" using S3(3) S2 q(1) by (simp add: keeps_def lower_taken_def)
  have "llfree_inv S3"
  proof (rule inv_after_take [OF inv q(1) S3(2) k S3(4,5)])
    fix t' i' r assume "res_at (ll_local S3) t' i' = Some r"
    from S3(6) [OF this] show "res_at (ll_local S) t' i' = Some r \<or> frame_from_row (res_row r) < frames (ll_lower S)"
      using fr row_tree(2) [of idx] by auto
  qed
  then show ?thesis using S3(1,2) k by blast
qed

lemma get_reserve_spec:
  assumes inv: "llfree_inv S" and idx: "idx < trees_len (ll_trees S)"
    and o: "order \<le> 10" "order = 10 \<longrightarrow> even (child_count (ll_lower S))"
  shows "\<exists>res S'. get_reserve order lcl check idx S = Some (res, S') \<and> reserve_outcome S order check idx res S'"
proof -
  note d = llfree_invD [OF inv]
  let ?T = "ll_trees S" and ?e = "entries (ll_trees S) ! idx"
  let ?t = "check (tree_tier ?e) (tree_free ?e)"
  let ?e1 = "?e\<lparr>tree_reserved := True, tree_tier := ?t mod 2 ^ 3, tree_free := 0\<rparr>"
  let ?T1 = "?T\<lparr>entries := (entries ?T)[idx := ?e1]\<rparr>"
  note re = trees_reserve_eval [OF idx accountsD(1) [OF d(5)], of check]
  show ?thesis
  proof (cases "tree_reserved ?e \<or> ?t = LLFREE_TIER_NONE")
    case True
    then have "reserve_outcome S order check idx (llfree_err LLFREE_ERR_MEMORY) S"
      using inv same_but_tier_refl by (auto simp: reserve_outcome_def tree_offers_def Let_def)
    then show ?thesis using re True by (simp add: get_reserve_def)
  next
    case False
    then have nr: "\<not> tree_reserved ?e" and re: "trees_reserve ?T idx check = Some (Some (tree_free ?e, ?t), ?T1)" using re by auto
    obtain n where n: "ll_local_tier_locals (ll_local S) ?t = Some n"
      "n \<noteq> 0 \<Longrightarrow> n \<noteq> LLFREE_LOCAL_NONE \<Longrightarrow> i < n \<Longrightarrow> \<exists>e. entry_at (ll_local S) ?t i = Some e" for i
      using tier_locals_eval [OF d(3)] by blast
    have "\<exists>T2. trees_unreserve ?T1 idx (tree_free ?e) ?t (ll_policy S) = Some T2 \<and> same_but_tier S idx (S\<lparr>ll_trees := T2\<rparr>)"
      by (rule unreserve_same [OF inv idx nr refl]) simp_all
    then obtain T2 where T2: "trees_unreserve ?T1 idx (tree_free ?e) ?t (ll_policy S) = Some T2"
      and sb: "same_but_tier S idx (S\<lparr>ll_trees := T2\<rparr>)" by blast
    have fail: "reserve_outcome S order check idx (llfree_err LLFREE_ERR_MEMORY) (S\<lparr>ll_trees := T2\<rparr>)"
      if "\<not> tree_offers S order check idx"
      using that same_but_tier_inv [OF inv sb idx nr] sb by (simp add: reserve_outcome_def)
    have "idx * 4096 < frames (ll_lower S)" using idx unfolding d(2) tree_in_range .
    then have search: "tree_search (ll_lower S) order idx (lower_get (ll_lower S) (frame_from_tree idx) order None)"
      using lower_get_start [OF d(1) o(1) _ o(2), of "frame_from_tree idx"] by (simp add: llfree_index)
    consider "n = 0 \<or> n = LLFREE_LOCAL_NONE"
      | (none) "n \<noteq> 0" "n \<noteq> LLFREE_LOCAL_NONE" "lower_get (ll_lower S) (frame_from_tree idx) order None = Some (llfree_err LLFREE_ERR_MEMORY, ll_lower S)"
        "\<forall>q. tree_from_frame q = idx \<longrightarrow> 2 ^ order dvd q \<longrightarrow> \<not> block q order \<subseteq> lower_free (ll_lower S)"
      | (hit) q L where "n \<noteq> 0" "n \<noteq> LLFREE_LOCAL_NONE" "lower_get (ll_lower S) (frame_from_tree idx) order None = Some (llfree_ok q 0, L)"
        "lower_taken (ll_lower S) order q L" "tree_from_frame q = idx"
      using search unfolding tree_search_def by blast
    then show ?thesis
    proof cases
      case 1
      then have "\<not> tree_offers S order check idx" using n(1) by (auto simp: tree_offers_def Let_def)
      from fail [OF this] show ?thesis using 1 re n(1) T2 by (auto simp: get_reserve_def)
    next
      case none
      then have "\<not> tree_offers S order check idx" by (auto simp: tree_offers_def Let_def simp del: block_mem)
      from fail [OF this] show ?thesis using none(1-3) re n(1) T2 by (simp add: get_reserve_def)
    next
      case hit
      have "lcl mod n < n" using hit(1) by simp
      then obtain e where e: "entry_at (ll_local S) ?t (lcl mod n) = Some e" using n(2) [OF hit(1,2)] by blast
      let ?S2 = "S\<lparr>ll_trees := ?T1, ll_lower := L\<rparr>"
      have "\<exists>S3. swap_reserved ?S2 ?t (lcl mod n) idx ((tree_free ?e + 2 ^ 32 - 2 ^ order) mod 2 ^ 32) = Some S3 \<and>
          llfree_inv S3 \<and> keeps S S3 \<and> ll_lower S3 = L"
        by (rule get_reserve_take [OF inv idx nr o(1) e _ _ _ _ _ _ hit(4,5), where ?e1.0 = ?e1]) simp_all
      then obtain S3 where S3: "swap_reserved ?S2 ?t (lcl mod n) idx ((tree_free ?e + 2 ^ 32 - 2 ^ order) mod 2 ^ 32) = Some S3"
        "llfree_inv S3" "keeps S S3" "ll_lower S3 = L" by blast
      have "reserve_outcome S order check idx ((llfree_ok q 0)\<lparr>tier := ?t mod 2 ^ 3\<rparr>) S3"
        using S3(2-4) hit(4) taken_frame(1) [OF d(1) hit(4)] by (simp add: reserve_outcome_def)
      then show ?thesis using hit(1-3) re n(1) S3(1) by (simp add: get_reserve_def)
    qed
  qed
qed

subsection \<open>Searching the trees\<close>

lemma search_offset_bounds: "i < n \<Longrightarrow> - int n < search_offset i \<and> 2 * search_offset i \<le> int i"
  by (auto simp: search_offset_def)

lemma search_offset_inj: "search_offset i = search_offset j \<Longrightarrow> i = j"
  unfolding search_offset_def by (auto split: if_splits; presburger)

lemma search_offset_diff:
  assumes "i < n" "j < n"
  shows "\<bar>search_offset i - search_offset j\<bar> < int n"
  using assms unfolding search_offset_def by (auto split: if_splits)

text \<open>The search starts within the array; then it visits every tree exactly once.\<close>

lemma search_index_eq:
  assumes "i < n" "start \<le> 2 ^ 40" "n \<le> 2 ^ 40"
  shows "int (search_index n start i) = (int (start + n) + search_offset i) mod int n"
proof -
  have "int start \<le> 1099511627776" "int n \<le> 1099511627776" using assms(2,3) by simp_all
  then have "0 \<le> int (start + n) + search_offset i" "int (start + n) + search_offset i < 18446744073709551616"
    using search_offset_bounds [OF assms(1)] assms(1) by linarith+
  then have "(int (start + n) + search_offset i) mod 2 ^ 64 = int (start + n) + search_offset i" by simp
  then show ?thesis using \<open>0 \<le> int (start + n) + search_offset i\<close>
    by (simp add: search_index_def zmod_int)
qed

lemma search_visits_all:
  assumes "start \<le> 2 ^ 40" "n \<le> 2 ^ 40"
  shows "distinct (map (search_index n start) [0..<n])" "set (map (search_index n start) [0..<n]) = {..<n}"
proof -
  have inj: "i = j" if "i < n" "j < n" "search_index n start i = search_index n start j" for i j
  proof -
    have "(int (start + n) + search_offset i) mod int n = (int (start + n) + search_offset j) mod int n"
      using that(3) search_index_eq [OF that(1) assms] search_index_eq [OF that(2) assms] by simp
    then have "int n dvd (int (start + n) + search_offset i) - (int (start + n) + search_offset j)"
      by (simp add: mod_eq_dvd_iff)
    then have "int n dvd search_offset i - search_offset j" by simp
    then have "search_offset i - search_offset j = 0"
      using search_offset_diff [OF that(1,2)] dvd_imp_le_int [of "search_offset i - search_offset j" "int n"] by fastforce
    then show ?thesis using search_offset_inj by simp
  qed
  then have i: "inj_on (search_index n start) {0..<n}" by (intro inj_onI) auto
  then show "distinct (map (search_index n start) [0..<n])" by (simp add: distinct_map)
  have "search_index n start ` {0..<n} = {..<n}"
  proof (rule card_subset_eq)
    show "search_index n start ` {0..<n} \<subseteq> {..<n}" by (auto simp: search_index_def)
    show "card (search_index n start ` {0..<n}) = card {..<n}" using card_image [OF i] by simp
  qed simp
  then show "set (map (search_index n start) [0..<n]) = {..<n}" by simp
qed

definition get_outcome :: "llfree \<Rightarrow> nat \<Rightarrow> bool \<Rightarrow> llfree_result \<Rightarrow> llfree \<Rightarrow> bool" where
  "get_outcome S order none res S' \<longleftrightarrow> llfree_inv S' \<and> keeps S S' \<and>
     (error res = LLFREE_ERR_OK \<and> lower_taken (ll_lower S) order (frame res) (ll_lower S') \<or>
      error res = LLFREE_ERR_MEMORY \<and> ll_lower S' = ll_lower S \<and> none)"

lemma tree_offers_other:
  assumes "same_but_tier S idx S'" "x \<noteq> idx"
  shows "tree_offers S' order check x \<longleftrightarrow> tree_offers S order check x"
  using assms by (auto simp: same_but_tier_def tree_offers_def)

lemma search_visit_spec:
  assumes "llfree_inv S" "set is \<subseteq> {..<trees_len (ll_trees S)}" "distinct is" "order \<le> 10"
    and "order = 10 \<longrightarrow> even (child_count (ll_lower S))"
  shows "\<exists>res S'. search_visit (get_reserve order lcl check) is S = Some (res, S') \<and>
    get_outcome S order (\<forall>idx \<in> set is. \<not> tree_offers S order check idx) res S'"
  using assms
proof (induction "is" arbitrary: S)
  case Nil
  then show ?case by (simp add: get_outcome_def)
next
  case (Cons idx "is")
  from Cons.prems have idx: "idx < trees_len (ll_trees S)" "idx \<notin> set is" by auto
  obtain res S1 where r: "get_reserve order lcl check idx S = Some (res, S1)" "reserve_outcome S order check idx res S1"
    using get_reserve_spec [OF Cons.prems(1) idx(1) Cons.prems(4,5)] by blast
  show ?case
  proof (cases "error res = LLFREE_ERR_MEMORY")
    case False
    then show ?thesis using r by (auto simp: reserve_outcome_def get_outcome_def)
  next
    case True
    then have s: "llfree_inv S1" "keeps S S1" "same_but_tier S idx S1" "\<not> tree_offers S order check idx"
      using r(2) by (auto simp: reserve_outcome_def)
    have l: "ll_lower S1 = ll_lower S" "trees_len (ll_trees S1) = trees_len (ll_trees S)" using s(3) by (auto simp: same_but_tier_def)
    obtain res' S' where r': "search_visit (get_reserve order lcl check) is S1 = Some (res', S')"
      "get_outcome S1 order (\<forall>idx \<in> set is. \<not> tree_offers S1 order check idx) res' S'"
      using Cons.IH [OF s(1)] Cons.prems l by auto
    have "tree_offers S1 order check x = tree_offers S order check x" if "x \<in> set is" for x
      by (rule tree_offers_other [OF s(3)]) (use that idx(2) in auto)
    then have "(\<forall>x \<in> set is. \<not> tree_offers S1 order check x) = (\<forall>x \<in> set (idx # is). \<not> tree_offers S order check x)"
      using s(4) by simp
    then have "get_outcome S order (\<forall>x \<in> set (idx # is). \<not> tree_offers S order check x) res' S'"
      using r'(2) l(1) keeps_trans [OF s(2)] by (auto simp: get_outcome_def)
    then show ?thesis using r(1) r'(1) True by simp
  qed
qed

lemma trees_len_bound:
  assumes "llfree_inv S"
  shows "trees_len (ll_trees S) \<le> 2 ^ 16"
proof (rule ccontr)
  note d = llfree_invD [OF assms]
  assume "\<not> trees_len (ll_trees S) \<le> 2 ^ 16"
  then have "2 ^ 16 * 4096 < frames (ll_lower S)" unfolding d(2) tree_in_range [symmetric] by simp
  then show False using lower_okD(1) [OF d(1)] by simp
qed

lemma trees_search_spec:
  assumes "llfree_inv S" "start \<le> 2 ^ 40" "order \<le> 10" "order = 10 \<longrightarrow> even (child_count (ll_lower S))"
  shows "\<exists>res S'. trees_search (ll_trees S) start 0 (trees_len (ll_trees S)) (get_reserve order lcl check) S = Some (res, S') \<and>
    get_outcome S order (\<forall>idx < trees_len (ll_trees S). \<not> tree_offers S order check idx) res S'"
proof -
  have "trees_len (ll_trees S) \<le> 2 ^ 40" using trees_len_bound [OF assms(1)] by (rule order_trans) simp
  note v = search_visits_all [OF assms(2) this]
  have "(\<forall>idx \<in> {..<trees_len (ll_trees S)}. P idx) = (\<forall>idx < trees_len (ll_trees S). P idx)" for P by auto
  then show ?thesis using search_visit_spec [OF assms(1) _ v(1) assms(3,4)] unfolding trees_search_def v(2) by simp
qed

subsection \<open>Serving from the local reservation\<close>

lemma put_entry_put [simp]:
  assumes "entry_at lc t i = Some e"
  shows "put_entry (put_entry lc t i e1) t i e2 = put_entry lc t i e2"
proof -
  obtain es where "t < length (local_tiers lc)" "local_tiers lc ! t = Some es" using assms unfolding entry_at_Some by blast
  then show ?thesis by (simp add: put_entry_def)
qed

lemma put_entry_id:
  assumes "entry_at lc t i = Some e"
  shows "put_entry lc t i e = lc"
proof -
  obtain es where es: "t < length (local_tiers lc)" "local_tiers lc ! t = Some es" "es ! i = e" using assms unfolding entry_at_Some by blast
  then have "es[i := e] = es" by (metis list_update_id)
  then have "(local_tiers lc)[t := Some ((the (local_tiers lc ! t))[i := e])] = local_tiers lc" using es by (metis list_update_id option.sel)
  then show ?thesis by (simp add: put_entry_def)
qed

lemma ll_local_get_eval:
  assumes "entry_at lc t i = Some e" "length (local_tiers lc) = 8"
  shows "ll_local_get lc t i None n = Some
    (if res_present (preferred e) \<and> n \<le> res_free (preferred e)
     then (make_result True t (preferred e),
           put_entry lc t i (e\<lparr>preferred := (preferred e)\<lparr>res_free := res_free (preferred e) - n\<rparr>\<rparr>))
     else (make_result False t (preferred e), lc))"
proof -
  note u = update_preferred_eval [OF assms(1), of "ll_reserved_dec None n"]
  show ?thesis using check_entry_eval [OF assms] u
    by (simp add: ll_local_get_def ll_reserved_dec_def not_le not_less)
qed

lemma ll_local_put_eval:
  assumes "entry_at lc t i = Some e" "length (local_tiers lc) = 8"
    and "res_present (preferred e) \<Longrightarrow> tree_from_row (res_row (preferred e)) = tr \<Longrightarrow> res_free (preferred e) + n \<le> 4096"
  shows "ll_local_put lc t i tr n = Some
    (if res_present (preferred e) \<and> tree_from_row (res_row (preferred e)) = tr
     then (True, put_entry lc t i (e\<lparr>preferred := (preferred e)\<lparr>res_free := res_free (preferred e) + n\<rparr>\<rparr>))
     else (False, lc))"
proof -
  note u = update_preferred_eval [OF assms(1), of "ll_reserved_inc tr n"]
  show ?thesis
  proof (cases "res_present (preferred e) \<and> tree_from_row (res_row (preferred e)) = tr")
    case True
    then show ?thesis using check_entry_eval [OF assms(1,2)] u assms(3) by (simp add: ll_local_put_def ll_reserved_inc_def)
  next
    case False
    then show ?thesis using check_entry_eval [OF assms(1,2)] u by (auto simp: ll_local_put_def ll_reserved_inc_def)
  qed
qed

lemma ll_local_set_start_eval:
  assumes "entry_at lc t i = Some e" "length (local_tiers lc) = 8" "res_present (preferred e)"
    and "tree_from_row (res_row (preferred e)) = tree_from_row row" "row < 2 ^ 35"
  shows "ll_local_set_start lc t i row = Some (make_result True t (preferred e),
    put_entry lc t i (e\<lparr>preferred := (preferred e)\<lparr>res_row := row\<rparr>\<rparr>))"
  using check_entry_eval [OF assms(1,2)] update_preferred_eval [OF assms(1), of "ll_reserved_set_start row"] assms(3-5)
  by (simp add: ll_local_set_start_def ll_reserved_set_start_def)

text \<open>The same runs can be taken from the trees nobody holds.\<close>

definition same_offers :: "llfree \<Rightarrow> llfree \<Rightarrow> bool" where
  "same_offers S S' \<longleftrightarrow> ll_lower S' = ll_lower S \<and>
     (\<forall>order check idx. tree_offers S' order check idx = tree_offers S order check idx)"

lemma same_offers_refl [simp]: "same_offers S S"
  by (simp add: same_offers_def)

lemma same_offers_trans: "same_offers S S' \<Longrightarrow> same_offers S' S'' \<Longrightarrow> same_offers S S''"
  by (simp add: same_offers_def)

definition local_outcome :: "llfree \<Rightarrow> nat \<Rightarrow> llfree_result \<Rightarrow> local_result \<Rightarrow> llfree \<Rightarrow> bool" where
  "local_outcome S order res old S' \<longleftrightarrow> llfree_inv S' \<and> keeps S S' \<and>
     (lr_present old \<longrightarrow> tree_from_row (lr_row old) < trees_len (ll_trees S)) \<and>
     (error res = LLFREE_ERR_OK \<and> lower_taken (ll_lower S) order (frame res) (ll_lower S') \<or>
      error res \<in> {LLFREE_ERR_MEMORY, LLFREE_ERR_RETRY} \<and> same_offers S S')"

lemma row_frame_tree: "tree_from_row (row_from_frame q) = tree_from_frame q"
proof -
  have "q div 64 * 64 div 4096 = q div 64 * 64 div 64 div 64" using div_mult2_eq [of "q div 64 * 64" 64 64] by simp
  moreover have "q div 4096 = q div 64 div 64" using div_mult2_eq [of q 64 64] by simp
  ultimately show ?thesis by (simp add: llfree_index)
qed

lemma local_take_inv:
  assumes inv: "llfree_inv S" and e: "entry_at (ll_local S) t i = Some e" "res_present (preferred e)" "2 ^ order \<le> res_free (preferred e)"
    and q: "lower_taken (ll_lower S) order q L" "tree_from_frame q = tree_from_row (res_row (preferred e))" and o: "order \<le> 10"
    and r': "r' = (preferred e)\<lparr>res_free := res_free (preferred e) - 2 ^ order, res_row := row_from_frame q\<rparr>"
    and S': "S' = S\<lparr>ll_lower := L, ll_local := put_entry (ll_local S) t i (e\<lparr>preferred := r'\<rparr>)\<rparr>"
  shows "llfree_inv S'" "keeps S S'"
proof -
  note d = llfree_invD [OF inv]
  let ?r = "preferred e" and ?tr = "tree_from_row (res_row (preferred e))" and ?es = "entries (ll_trees S)"
  have at: "res_at (ll_local S) t i = Some ?r" using e(1) by (simp add: res_at_def)
  note a = accountsD [OF d(5)]
  have row: "tree_from_row (row_from_frame q) = ?tr" unfolding q(2) [symmetric] by (rule row_frame_tree)
  have cnt: "tree_count L x = (if x = ?tr then tree_count (ll_lower S) x - 2 ^ order else tree_count (ll_lower S) x)" for x
    using tree_count_taken(1) [OF q(1) o] q(2) by simp
  have "accounts (trees_len (ll_trees S)) (tree_count L) (?es[?tr := ?es ! ?tr]) (res_update (res_at (ll_local S)) t i r')"
    by (rule accounts_holder [OF d(5) at e(2) refl]) (use e(2,3) row a(3,4) [OF at e(2)] cnt in \<open>auto simp: r'\<close>)
  then have acc: "accounts (trees_len (ll_trees S')) (tree_count L) (entries (ll_trees S')) (res_at (ll_local S'))"
    by (simp add: S' res_at_put [OF e(1)])
  show k: "keeps S S'" using q(1) e(1) by (simp add: keeps_def S' lower_taken_def)
  have "q div 64 * 64 \<le> q" by simp
  then have "frame_from_row (row_from_frame q) < frames (ll_lower S)"
    using taken_frame(2) [OF d(1) q(1)] by (simp add: llfree_index)
  then show "llfree_inv S'"
    by (intro inv_after_take [OF inv q(1) _ k _ acc])
      (use d(3) in \<open>auto simp: S' res_at_put [OF e(1)] fun_upd_def r' split: if_splits\<close>)
qed

lemma sync_with_global_spec:
  assumes inv: "llfree_inv S" and e: "entry_at (ll_local S) t i = Some e" "res_present (preferred e)"
  shows "\<exists>b S'. sync_with_global S t i n (make_result False t (preferred e)) = Some (b, S') \<and>
    llfree_inv S' \<and> keeps S S' \<and> same_offers S S'"
proof -
  note d = llfree_invD [OF inv]
  let ?r = "preferred e" and ?T = "ll_trees S"
  let ?tr = "tree_from_row (res_row ?r)"
  let ?e = "entries ?T ! ?tr"
  have at: "res_at (ll_local S) t i = Some ?r" using e(1) by (simp add: res_at_def)
  note a = accountsD [OF d(5)]
  note tr = a(2-4) [OF at e(2)]
  have st: "trees_sync_steal ?T ?tr m = Some (if tree_free ?e > m
      then (Some (tree_free ?e), ?T\<lparr>entries := (entries ?T)[?tr := ?e\<lparr>tree_free := 0\<rparr>]\<rparr>) else (None, ?T))" for m
    using trees_update_eval [OF tr(1) a(1), of "tree_sync_steal m"] tr(2) by (simp add: trees_sync_steal_def tree_sync_steal_def)
  show ?thesis
  proof (cases "n \<le> res_free ?r \<or> \<not> tree_free ?e > n - res_free ?r")
    case True
    then show ?thesis using inv st by (auto simp: sync_with_global_def make_result_def Let_def)
  next
    case False
    let ?r' = "?r\<lparr>res_free := res_free ?r + tree_free ?e\<rparr>"
    let ?lc = "put_entry (ll_local S) t i (e\<lparr>preferred := ?r'\<rparr>)"
    let ?S' = "S\<lparr>ll_trees := ?T\<lparr>entries := (entries ?T)[?tr := ?e\<lparr>tree_free := 0\<rparr>]\<rparr>, ll_local := ?lc\<rparr>"
    have "res_free ?r + tree_free ?e \<le> 4096" using tr(3) tree_count_le [of "ll_lower S" ?tr] by linarith
    then have "ll_local_put (ll_local S) t i ?tr (tree_free ?e) = Some (True, ?lc)"
      using ll_local_put_eval [OF e(1) d(3), of ?tr] e(2) by simp
    then have run: "sync_with_global S t i n (make_result False t ?r) = Some (True, ?S')"
      using False st by (simp add: sync_with_global_def make_result_def Let_def)
    have "accounts (trees_len ?T) (tree_count (ll_lower S)) ((entries ?T)[?tr := ?e\<lparr>tree_free := 0\<rparr>])
        (res_update (res_at (ll_local S)) t i ?r')"
      by (rule accounts_holder [OF d(5) at e(2) refl]) (use e(2) tr in simp_all)
    then have "llfree_inv ?S'" using d(1-4) at e(2)
      by (auto simp: llfree_inv_def res_at_put [OF e(1)] fun_upd_def split: if_splits)
    moreover have "keeps S ?S'" using e(1) by (simp add: keeps_def)
    moreover have "same_offers S ?S'" unfolding same_offers_def
    proof (intro conjI allI)
      fix order check idx
      show "tree_offers ?S' order check idx = tree_offers S order check idx"
        using tr(1,2) a(1) local_shape_entry(2) [OF local_shape_put [OF e(1)]]
        by (cases "idx = ?tr") (simp_all add: tree_offers_def)
    qed simp
    ultimately show ?thesis using run by (intro exI [of _ True] exI [of _ ?S']) simp
  qed
qed

lemma get_from_local_spec:
  assumes inv: "llfree_inv S" and e: "entry_at (ll_local S) t i = Some e"
    and o: "order \<le> 10" "order = 10 \<longrightarrow> even (child_count (ll_lower S))"
  shows "\<exists>res old S'. get_from_local S t i order (2 ^ order) = Some (res, old, S') \<and> local_outcome S order res old S'"
proof -
  note d = llfree_invD [OF inv]
  let ?r = "preferred e" and ?n = "2 ^ order :: nat"
  have at: "res_at (ll_local S) t i = Some ?r" using e by (simp add: res_at_def)
  have tr: "res_present ?r \<Longrightarrow> tree_from_row (res_row ?r) < trees_len (ll_trees S)" using accountsD(2) [OF d(5) at] .
  show ?thesis
  proof (cases "res_present ?r \<and> ?n \<le> res_free ?r")
    case False
    then have g: "ll_local_get (ll_local S) t i None ?n = Some (make_result False t ?r, ll_local S)"
      using ll_local_get_eval [OF e d(3)] by auto
    obtain b S' where b: "(if res_present ?r then sync_with_global S t i ?n (make_result False t ?r) else Some (False, S)) = Some (b, S')"
      "llfree_inv S'" "keeps S S'" "same_offers S S'"
      using sync_with_global_spec [OF inv e, of ?n] inv by (cases "res_present ?r") auto
    then show ?thesis using g tr
      by (auto simp: get_from_local_def local_outcome_def make_result_def [of False])
  next
    case True
    let ?e1 = "e\<lparr>preferred := ?r\<lparr>res_free := res_free ?r - ?n\<rparr>\<rparr>"
    let ?lc1 = "put_entry (ll_local S) t i ?e1"
    have g: "ll_local_get (ll_local S) t i None ?n = Some (make_result True t ?r, ?lc1)"
      using ll_local_get_eval [OF e d(3)] True by simp
    have e1: "entry_at ?lc1 t i = Some ?e1" using entry_at_put [OF e] by simp
    have l1: "length (local_tiers ?lc1) = 8" using d(3) by simp
    have fr: "frame_from_row (res_row ?r) < frames (ll_lower S)" using d(4) [OF at] True by simp
    have "tree_from_frame (frame_from_row (res_row ?r)) = tree_from_row (res_row ?r)" by (simp add: llfree_index)
    then have "tree_search (ll_lower S) order (tree_from_row (res_row ?r)) (lower_get (ll_lower S) (frame_from_row (res_row ?r)) order None)"
      using lower_get_start [OF d(1) o(1) fr o(2)] by simp
    then consider (hit) q L where "lower_get (ll_lower S) (frame_from_row (res_row ?r)) order None = Some (llfree_ok q 0, L)"
        "lower_taken (ll_lower S) order q L" "tree_from_frame q = tree_from_row (res_row ?r)"
      | (none) "lower_get (ll_lower S) (frame_from_row (res_row ?r)) order None = Some (llfree_err LLFREE_ERR_MEMORY, ll_lower S)"
      unfolding tree_search_def by blast
    then show ?thesis
    proof cases
      case none
      have "res_free ?r \<le> 4096" using accountsD(4) [OF d(5) at] True tree_count_le [of "ll_lower S" "tree_from_row (res_row ?r)"]
        by linarith
      then have "ll_local_put ?lc1 t i (tree_from_row (res_row ?r)) ?n = Some (True, put_entry ?lc1 t i e)"
        using ll_local_put_eval [OF e1 l1, of "tree_from_row (res_row ?r)" ?n] True by simp
      also have "put_entry ?lc1 t i e = ll_local S" using put_entry_put [OF e] put_entry_id [OF e] by simp
      finally show ?thesis using g none inv tr True
        by (simp add: get_from_local_def make_result_def local_outcome_def)
    next
      case hit
      let ?r' = "?r\<lparr>res_free := res_free ?r - ?n, res_row := row_from_frame q\<rparr>"
      let ?S' = "S\<lparr>ll_lower := L, ll_local := put_entry (ll_local S) t i (e\<lparr>preferred := ?r'\<rparr>)\<rparr>"
      have qf: "q < 2 ^ 58" "q < frames (ll_lower S)" by (rule taken_frame [OF d(1) hit(2)])+
      have "q \<le> 2 ^ 28" using qf(2) lower_okD(1) [OF d(1)] by linarith
      then have row: "row_from_frame q < 2 ^ 35" by (simp add: llfree_index)
      have "ll_local_set_start ?lc1 t i (row_from_frame q) = Some (make_result True t (preferred ?e1),
          put_entry (ll_local S) t i (e\<lparr>preferred := ?r'\<rparr>))"
        using ll_local_set_start_eval [OF e1 l1, of "row_from_frame q"] True row hit(3) row_frame_tree [of q] put_entry_put [OF e] by simp
      moreover have "?lc1 = put_entry (ll_local S) t i (e\<lparr>preferred := ?r'\<rparr>)" if "res_row ?r = row_from_frame q"
        using that by (metis reserved.surjective reserved.update_convs(2) reserved.update_convs(3))
      ultimately have "\<exists>old. get_from_local S t i order ?n = Some (llfree_ok q t, old, ?S') \<and> lr_present old \<and> lr_row old = res_row ?r"
        using g hit(1) qf(1) True by (cases "res_row ?r = row_from_frame q") (auto simp: get_from_local_def make_result_def)
      moreover have "llfree_inv ?S'" "keeps S ?S'"
        using local_take_inv [OF inv e _ _ hit(2,3) o(1) refl refl] True by auto
      ultimately show ?thesis using hit(2) qf(1) tr True by (auto simp: local_outcome_def)
    qed
  qed
qed

subsection \<open>Allocation\<close>

definition request_ok :: "llfree \<Rightarrow> llfree_request \<Rightarrow> bool" where
  "request_ok S req \<longleftrightarrow> req_order req \<le> LLFREE_MAX_ORDER \<and>
     (req_order req = LLFREE_MAX_ORDER \<longrightarrow> even (child_count (ll_lower S))) \<and>
     (req_local req \<noteq> LLFREE_LOCAL_NONE \<longrightarrow> (\<exists>e. entry_at (ll_local S) (req_tier req) (req_local req) = Some e))"

lemma request_ok_keeps:
  assumes "keeps S S'"
  shows "request_ok S' req \<longleftrightarrow> request_ok S req"
proof -
  have k: "frames (ll_lower S') = frames (ll_lower S)" "local_shape (ll_local S') = local_shape (ll_local S)"
    using assms by (simp_all add: keeps_def)
  have "child_count (ll_lower S') = child_count (ll_lower S)" unfolding child_count_def k(1) ..
  then show ?thesis unfolding request_ok_def local_shape_entry(1) [OF k(2)] by simp
qed

lemma local_rounds_spec:
  assumes "llfree_inv S" "request_ok S req" "req_local req \<noteq> LLFREE_LOCAL_NONE" "start \<le> 2 ^ 40"
  shows "\<exists>r start' S'. local_rounds k req (2 ^ req_order req) start S = Some (r, start', S') \<and> start' \<le> 2 ^ 40 \<and>
    llfree_inv S' \<and> keeps S S' \<and>
    (case r of None \<Rightarrow> same_offers S S'
     | Some res \<Rightarrow> error res = LLFREE_ERR_OK \<and> lower_taken (ll_lower S) (req_order req) (frame res) (ll_lower S'))"
  using assms
proof (induction k arbitrary: S start)
  case 0
  then show ?case by simp
next
  case (Suc k)
  obtain e where e: "entry_at (ll_local S) (req_tier req) (req_local req) = Some e"
    using Suc.prems(2,3) by (auto simp: request_ok_def)
  obtain res old S1 where g: "get_from_local S (req_tier req) (req_local req) (req_order req) (2 ^ req_order req) = Some (res, old, S1)"
    "local_outcome S (req_order req) res old S1"
    using get_from_local_spec [OF Suc.prems(1) e, of "req_order req"] Suc.prems(2) by (auto simp: request_ok_def)
  note l = g(2) [unfolded local_outcome_def]
  let ?start = "if lr_present old then tree_from_row (lr_row old) else start"
  have "trees_len (ll_trees S) \<le> 2 ^ 40" using trees_len_bound [OF Suc.prems(1)] by (rule order_trans) simp
  then have st: "?start \<le> 2 ^ 40" using l Suc.prems(4) by (cases "lr_present old") auto
  show ?case
  proof (cases "error res = LLFREE_ERR_RETRY")
    case True
    then have k: "llfree_inv S1" "keeps S S1" "same_offers S S1" using l by auto
    obtain r start' S' where r: "local_rounds k req (2 ^ req_order req) ?start S1 = Some (r, start', S')" "start' \<le> 2 ^ 40"
      "llfree_inv S'" "keeps S1 S'"
      "case r of None \<Rightarrow> same_offers S1 S'
       | Some res \<Rightarrow> error res = LLFREE_ERR_OK \<and> lower_taken (ll_lower S1) (req_order req) (frame res) (ll_lower S')"
      using Suc.IH [OF k(1) _ Suc.prems(3) st] request_ok_keeps [OF k(2)] Suc.prems(2) by blast
    have low: "ll_lower S1 = ll_lower S" using k(3) by (simp add: same_offers_def)
    have "case r of None \<Rightarrow> same_offers S S'
       | Some res \<Rightarrow> error res = LLFREE_ERR_OK \<and> lower_taken (ll_lower S) (req_order req) (frame res) (ll_lower S')"
      using r(5) same_offers_trans [OF k(3)] low by (cases r) simp_all
    then show ?thesis using g(1) True r(1-4) keeps_trans [OF k(2)] by (auto simp: Let_def)
  next
    case False
    then show ?thesis using g(1) l st by (cases "error res = LLFREE_ERR_MEMORY") (auto simp: Let_def)
  qed
qed

lemma get_outcome_offers:
  assumes "get_outcome S1 order P res S'" "keeps S S1" "same_offers S S1" "P \<Longrightarrow> Q"
  shows "get_outcome S order Q res S'"
  using assms keeps_trans [OF assms(2)] by (auto simp: get_outcome_def same_offers_def)

lemma get_matching_spec:
  assumes inv: "llfree_inv S" and req: "request_ok S req" and start: "start \<le> 2 ^ 40"
  shows "\<exists>res S'. get_matching S req start = Some (res, S') \<and> get_outcome S (req_order req)
    (\<forall>idx < trees_len (ll_trees S). \<not> tree_offers S (req_order req)
       (check_reserve_tree (req_tier req) (2 ^ req_order req) (ll_policy S)) idx) res S'"
proof -
  note d = llfree_invD [OF inv]
  have o: "req_order req \<le> 10" "req_order req = 10 \<longrightarrow> even (child_count (ll_lower S))" using req by (auto simp: request_ok_def)
  obtain n where n: "ll_local_tier_locals (ll_local S) (req_tier req) = Some n" using tier_locals_eval [OF d(3)] by blast
  show ?thesis
  proof (cases "req_local req \<noteq> LLFREE_LOCAL_NONE \<and> n \<noteq> LLFREE_LOCAL_NONE \<and> n > 0 \<and> n < trees_len (ll_trees S)")
    case False
    then have "get_matching S req start = trees_search (ll_trees S) start 0 (trees_len (ll_trees S))
        (get_reserve (req_order req) 0 (check_reserve_tree (req_tier req) (2 ^ req_order req) (ll_policy S))) S"
      using n by (simp only: get_matching_def Let_def bind.bind_lunit if_False)
    then show ?thesis using trees_search_spec [OF inv start o] by simp
  next
    case True
    obtain r start' S1 where r: "local_rounds 16 req (2 ^ req_order req) start S = Some (r, start', S1)" "start' \<le> 2 ^ 40"
      "llfree_inv S1" "keeps S S1"
      "case r of None \<Rightarrow> same_offers S S1
       | Some res \<Rightarrow> error res = LLFREE_ERR_OK \<and> lower_taken (ll_lower S) (req_order req) (frame res) (ll_lower S1)"
      using local_rounds_spec [OF inv req _ start] True by blast
    show ?thesis
    proof (cases r)
      case (Some res)
      then show ?thesis using r n True by (simp add: get_matching_def Let_def get_outcome_def)
    next
      case None
      then have so: "same_offers S S1" using r(5) by simp
      have k: "trees_len (ll_trees S1) = trees_len (ll_trees S)" "ll_policy S1 = ll_policy S" "child_count (ll_lower S1) = child_count (ll_lower S)"
        using r(4) by (simp_all add: keeps_def child_count_def)
      let ?check = "check_reserve_tree (req_tier req) (2 ^ req_order req) (ll_policy S)"
      have "\<exists>res S'. trees_search (ll_trees S1) start' 0 (trees_len (ll_trees S1)) (get_reserve (req_order req) (req_local req) ?check) S1 =
          Some (res, S') \<and> get_outcome S1 (req_order req) (\<forall>idx < trees_len (ll_trees S1). \<not> tree_offers S1 (req_order req) ?check idx) res S'"
        by (rule trees_search_spec [OF r(3,2) o(1)]) (use o(2) k(3) in simp)
      then obtain res S' where g: "get_matching_reserve S1 (req_tier req) (req_local req) (req_order req) start' = Some (res, S')"
        "get_outcome S1 (req_order req) (\<forall>idx < trees_len (ll_trees S1). \<not> tree_offers S1 (req_order req) ?check idx) res S'"
        by (auto simp: get_matching_reserve_def k(2))
      have "get_outcome S (req_order req) (\<forall>idx < trees_len (ll_trees S). \<not> tree_offers S (req_order req) ?check idx) res S'"
        by (rule get_outcome_offers [OF g(2) r(4) so]) (use so k(1) in \<open>simp add: same_offers_def\<close>)
      then show ?thesis using n True r(1) None g(1) by (simp add: get_matching_def Let_def)
    qed
  qed
qed

lemma start_bound:
  assumes "llfree_inv S" "request_ok S req" "ll_local_tier_locals (ll_local S) (req_tier req) = Some n" "req_local req \<noteq> LLFREE_LOCAL_NONE"
  shows "trees_len (ll_trees S) div n * req_local req \<le> 2 ^ 40"
proof -
  obtain e where "entry_at (ll_local S) (req_tier req) (req_local req) = Some e" using assms(2,4) by (auto simp: request_ok_def)
  then have "req_local req < n"
    by (rule entry_at_entries) (use assms(3) llfree_invD(3) [OF assms(1)] in \<open>simp add: ll_local_tier_locals_def\<close>)
  then have "trees_len (ll_trees S) div n * req_local req \<le> trees_len (ll_trees S) div n * n" by simp
  also have "\<dots> \<le> trees_len (ll_trees S)" by simp
  also have "\<dots> \<le> 2 ^ 16" by (rule trees_len_bound [OF assms(1)])
  finally show ?thesis by (rule order_trans) simp
qed

lemma llfree_get_spec:
  assumes inv: "llfree_inv S" and req: "request_ok S req"
  shows "\<exists>res S'. llfree_get S None req = Some (res, S') \<and> get_outcome S (req_order req)
    (\<forall>idx < trees_len (ll_trees S). \<not> tree_offers S (req_order req)
       (check_reserve_tree (req_tier req) (2 ^ req_order req) (ll_policy S)) idx) res S'"
proof -
  obtain n where n: "ll_local_tier_locals (ll_local S) (req_tier req) = Some n"
    using tier_locals_eval [OF llfree_invD(3) [OF inv]] by blast
  let ?start = "if n > 0 \<and> req_local req \<noteq> LLFREE_LOCAL_NONE
    then (trees_len (ll_trees S) div n * req_local req) mod 2 ^ 64 else 0"
  have "?start \<le> 2 ^ 40"
  proof (cases "n > 0 \<and> req_local req \<noteq> LLFREE_LOCAL_NONE")
    case True
    have "(trees_len (ll_trees S) div n * req_local req) mod 2 ^ 64 \<le> trees_len (ll_trees S) div n * req_local req" by (rule mod_less_eq_dividend)
    also have "\<dots> \<le> 2 ^ 40" using start_bound [OF inv req n] True by blast
    finally show ?thesis unfolding if_P [OF True] .
  next
    case False
    show ?thesis unfolding if_not_P [OF False] by simp
  qed
  then obtain res S' where g: "get_matching S req ?start = Some (res, S')" "get_outcome S (req_order req)
    (\<forall>idx < trees_len (ll_trees S). \<not> tree_offers S (req_order req)
       (check_reserve_tree (req_tier req) (2 ^ req_order req) (ll_policy S)) idx) res S'"
    using get_matching_spec [OF inv req] by blast
  have "llfree_get S None req = Some (if error res \<noteq> LLFREE_ERR_MEMORY then res else llfree_err LLFREE_ERR_MEMORY, S')"
    using g(1) n req by (simp add: llfree_get_def request_ok_def Let_def)
  moreover have "get_outcome S (req_order req) P (llfree_err LLFREE_ERR_MEMORY) S'"
    if "get_outcome S (req_order req) P res S'" "error res = LLFREE_ERR_MEMORY" for P
    using that by (simp add: get_outcome_def)
  ultimately show ?thesis using g(2) by auto
qed

subsection \<open>Release\<close>

lemma free_inc_eval:
  assumes "entry_at lc t i = Some e" "length (local_tiers lc) = 8"
  shows "\<exists>b h. ll_local_free_inc lc t i tr = Some (b, put_entry lc t i (e\<lparr>last_history := h\<rparr>))"
proof -
  obtain es where es: "tier_entries lc t = Some es" "i < length es" "es ! i = e" using assms(1) by (rule entry_at_entries)
  show ?thesis
  proof (cases "frees_inc tr (last_history e)")
    case None
    then have "ll_local_free_inc lc t i tr = Some (True, put_entry lc t i (e\<lparr>last_history := last_history e\<rparr>))"
      using es check_entry_eval [OF assms] put_entry_id [OF assms(1)] by (simp add: ll_local_free_inc_def)
    then show ?thesis by blast
  next
    case (Some h)
    then have "ll_local_free_inc lc t i tr = Some (False, put_entry lc t i (e\<lparr>last_history := h\<rparr>))"
      using es check_entry_eval [OF assms] set_entry_eval [OF assms(1)] by (simp add: ll_local_free_inc_def)
    then show ?thesis by blast
  qed
qed

lemma history_inv:
  assumes "llfree_inv S" "entry_at (ll_local S) t i = Some e"
  shows "llfree_inv (S\<lparr>ll_local := put_entry (ll_local S) t i (e\<lparr>last_history := h\<rparr>)\<rparr>)"
    "keeps S (S\<lparr>ll_local := put_entry (ll_local S) t i (e\<lparr>last_history := h\<rparr>)\<rparr>)"
proof -
  have "res_at (put_entry (ll_local S) t i (e\<lparr>last_history := h\<rparr>)) = res_at (ll_local S)"
    using res_at_put [OF assms(2)] assms(2) by (intro ext) (simp add: res_at_def)
  then show "llfree_inv (S\<lparr>ll_local := put_entry (ll_local S) t i (e\<lparr>last_history := h\<rparr>)\<rparr>)"
    using llfree_invD [OF assms(1)] by (simp add: llfree_inv_def)
  show "keeps S (S\<lparr>ll_local := put_entry (ll_local S) t i (e\<lparr>last_history := h\<rparr>)\<rparr>)" using assms(2) by (simp add: keeps_def)
qed

text \<open>The tree of a released run takes the frames, or the entry that holds the tree does.\<close>

lemma give_tree_inv:
  assumes inv: "llfree_inv S" and L: "lower_given (ll_lower S) order f L" "order \<le> 10" "2 ^ order dvd f" "f < frames (ll_lower S)"
  shows "\<exists>T. trees_put (ll_trees S) (tree_from_frame f) (2 ^ order) (ll_policy S) = Some T \<and>
    llfree_inv (S\<lparr>ll_lower := L, ll_trees := T\<rparr>) \<and> keeps S (S\<lparr>ll_lower := L, ll_trees := T\<rparr>)"
proof -
  note d = llfree_invD [OF inv]
  let ?T = "ll_trees S" and ?tr = "tree_from_frame f"
  let ?e = "entries ?T ! ?tr" and ?n = "2 ^ order"
  note a = accountsD [OF d(5)]
  have "?tr * 4096 \<le> f" by (simp add: tree_from_frame_def)
  then have tr: "?tr < trees_len ?T" unfolding d(2) tree_in_range using L(4) by linarith
  have c: "tree_count L x = (if x = ?tr then tree_count (ll_lower S) x + ?n else tree_count (ll_lower S) x)" for x
    by (rule tree_count_given [OF L(1-3)])
  have le: "tree_free ?e \<le> tree_count (ll_lower S) ?tr" by (rule accounts_free_le [OF d(5) tr])
  have "tree_free ?e + ?n \<le> 4096" using le c [of ?tr] tree_count_le [of L ?tr] by simp
  from trees_put_eval [OF tr a(1) this] obtain e' where
    p: "trees_put ?T ?tr ?n (ll_policy S) = Some (?T\<lparr>entries := (entries ?T)[?tr := e']\<rparr>)"
    "tree_reserved e' = tree_reserved ?e" "tree_free e' = tree_free ?e + ?n" by blast
  have acc: "accounts (trees_len ?T) (tree_count L) ((entries ?T)[?tr := e']) (res_at (ll_local S))"
  proof (cases "tree_reserved ?e")
    case False
    then show ?thesis using p(2,3) c a(6) [OF tr] by (intro accounts_unreserved [OF d(5) tr]) simp_all
  next
    case True
    from a(5) [OF tr True] obtain t i r where r: "res_at (ll_local S) t i = Some r" "res_present r" "tree_from_row (res_row r) = ?tr" by blast
    have "accounts (trees_len ?T) (tree_count L) ((entries ?T)[?tr := e']) (res_update (res_at (ll_local S)) t i r)"
      by (rule accounts_holder [OF d(5) r r(2,3)]) (use True p(2,3) c a(4) [OF r(1,2)] r(3) in simp_all)
    moreover have "res_update (res_at (ll_local S)) t i r = res_at (ll_local S)" using r(1) by (intro ext) simp
    ultimately show ?thesis by simp
  qed
  have "lower_ok L" "frames L = frames (ll_lower S)" using L(1) by (simp_all add: lower_given_def)
  then have "llfree_inv (S\<lparr>ll_lower := L, ll_trees := ?T\<lparr>entries := (entries ?T)[?tr := e']\<rparr>\<rparr>)"
    using acc d(2-4) by (simp add: llfree_inv_def)
  then show ?thesis using p(1) \<open>frames L = frames (ll_lower S)\<close> by (simp add: keeps_def)
qed

lemma give_local_inv:
  assumes inv: "llfree_inv S" and L: "lower_given (ll_lower S) order f L" "order \<le> 10" "2 ^ order dvd f"
    and e: "entry_at (ll_local S) t i = Some e" "res_present (preferred e)" "tree_from_row (res_row (preferred e)) = tree_from_frame f"
    and e': "preferred e' = (preferred e)\<lparr>res_free := res_free (preferred e) + 2 ^ order\<rparr>"
    and S': "S' = S\<lparr>ll_lower := L, ll_local := put_entry (ll_local S) t i e'\<rparr>"
  shows "llfree_inv S'" "keeps S S'" "res_free (preferred e) + 2 ^ order \<le> 4096"
proof -
  note d = llfree_invD [OF inv]
  let ?tr = "tree_from_frame f" and ?es = "entries (ll_trees S)"
  have at: "res_at (ll_local S) t i = Some (preferred e)" using e(1) by (simp add: res_at_def)
  note a = accountsD [OF d(5)]
  note h = a(3,4) [OF at e(2), unfolded e(3)]
  have c: "tree_count L x = (if x = ?tr then tree_count (ll_lower S) x + 2 ^ order else tree_count (ll_lower S) x)" for x
    by (rule tree_count_given [OF L])
  show "res_free (preferred e) + 2 ^ order \<le> 4096" using h(2) c [of ?tr] tree_count_le [of L ?tr] by simp
  have "accounts (trees_len (ll_trees S)) (tree_count L) (?es[?tr := ?es ! ?tr]) (res_update (res_at (ll_local S)) t i (preferred e'))"
    by (rule accounts_holder [OF d(5) at e(2,3)]) (use e h c in \<open>simp_all add: e'\<close>)
  moreover have L': "lower_ok L" "frames L = frames (ll_lower S)" using L(1) by (simp_all add: lower_given_def)
  ultimately show "llfree_inv S'" using d(2-4) at e(2)
    by (auto simp: llfree_inv_def S' res_at_put [OF e(1)] fun_upd_def e' split: if_splits)
  show "keeps S S'" using e(1) L'(2) by (simp add: keeps_def S')
qed

lemma llfree_put_spec:
  assumes inv: "llfree_inv S" and o: "req_order req \<le> 10"
    and loc: "req_local req \<noteq> LLFREE_LOCAL_NONE \<longrightarrow> (\<exists>e. entry_at (ll_local S) (req_tier req) (req_local req) = Some e)"
    and f: "2 ^ req_order req dvd f" "f + 2 ^ req_order req \<le> frames (ll_lower S)"
      "block f (req_order req) \<inter> lower_free (ll_lower S) = {}"
      "9 \<le> req_order req \<Longrightarrow> block_children f (req_order req) \<subseteq> huge_set (ll_lower S)"
  shows "\<exists>S'. llfree_put S f req = Some (llfree_ok 0 0, S') \<and> llfree_inv S' \<and> keeps S S' \<and>
    lower_given (ll_lower S) (req_order req) f (ll_lower S')"
proof -
  note d = llfree_invD [OF inv]
  let ?o = "req_order req" and ?t = "req_tier req" and ?i = "req_local req" and ?tr = "tree_from_frame f"
  obtain L where L: "lower_put (ll_lower S) f ?o = Some (llfree_err LLFREE_ERR_OK, L)" "lower_given (ll_lower S) ?o f L"
    using lower_put_spec [OF d(1) o f] by blast
  have "0 < (2 :: nat) ^ ?o" by simp
  then have fr: "f < frames (ll_lower S)" using f(2) by linarith
  show ?thesis
  proof (cases "?i = LLFREE_LOCAL_NONE")
    case True
    from give_tree_inv [OF inv L(2) o f(1) fr] obtain T where
      "trees_put (ll_trees S) ?tr (2 ^ ?o) (ll_policy S) = Some T" "llfree_inv (S\<lparr>ll_lower := L, ll_trees := T\<rparr>)"
      "keeps S (S\<lparr>ll_lower := L, ll_trees := T\<rparr>)" by blast
    then show ?thesis using True L fr o by (simp add: llfree_put_def Let_def)
  next
    case False
    then obtain e where e: "entry_at (ll_local S) ?t ?i = Some e" using loc by blast
    obtain b h where h: "ll_local_free_inc (ll_local S) ?t ?i ?tr = Some (b, put_entry (ll_local S) ?t ?i (e\<lparr>last_history := h\<rparr>))"
      using free_inc_eval [OF e d(3)] by blast
    let ?e1 = "e\<lparr>last_history := h\<rparr>"
    let ?lc = "put_entry (ll_local S) ?t ?i ?e1"
    let ?S1 = "S\<lparr>ll_local := ?lc\<rparr>"
    note s1 = history_inv [OF inv e, of h]
    have e1: "entry_at ?lc ?t ?i = Some ?e1" using entry_at_put [OF e] by simp
    have l1: "length (local_tiers ?lc) = 8" using d(3) by simp
    show ?thesis
    proof (cases "res_present (preferred e) \<and> tree_from_row (res_row (preferred e)) = ?tr")
      case True
      let ?e2 = "?e1\<lparr>preferred := (preferred e)\<lparr>res_free := res_free (preferred e) + 2 ^ ?o\<rparr>\<rparr>"
      let ?S' = "S\<lparr>ll_lower := L, ll_local := put_entry (ll_local S) ?t ?i ?e2\<rparr>"
      have g: "llfree_inv ?S'" "keeps S ?S'" "res_free (preferred e) + 2 ^ ?o \<le> 4096"
        by (rule give_local_inv [OF inv L(2) o f(1) e, where e' = ?e2]; use True in simp)+
      then have "ll_local_put ?lc ?t ?i ?tr (2 ^ ?o) = Some (True, put_entry (ll_local S) ?t ?i ?e2)"
        using ll_local_put_eval [OF e1 l1, of ?tr "2 ^ ?o"] True put_entry_put [OF e] by simp
      then show ?thesis using False L fr o h g(1,2) by (simp add: llfree_put_def Let_def)
    next
      case miss: False
      then have p: "ll_local_put ?lc ?t ?i ?tr (2 ^ ?o) = Some (False, ?lc)"
        using ll_local_put_eval [OF e1 l1, of ?tr "2 ^ ?o"] by auto
      from give_tree_inv [OF s1(1) _ o f(1), of L] L(2) fr obtain T where
        T: "trees_put (ll_trees S) ?tr (2 ^ ?o) (ll_policy S) = Some T" "llfree_inv (?S1\<lparr>ll_lower := L, ll_trees := T\<rparr>)"
        "keeps ?S1 (?S1\<lparr>ll_lower := L, ll_trees := T\<rparr>)" by auto
      from T(3) s1(2) have "keeps S (?S1\<lparr>ll_lower := L, ll_trees := T\<rparr>)" using keeps_trans by blast
      moreover have eq: "?S1\<lparr>ll_lower := L, ll_trees := T\<rparr> = S\<lparr>ll_lower := L, ll_local := ?lc, ll_trees := T\<rparr>"
        by (rule llfree.equality) simp_all
      ultimately show ?thesis using False L fr o h p T(1,2) unfolding eq by (simp add: llfree_put_def Let_def)
    qed
  qed
qed

end
