(* ===== verification/CXL_Inv.thy ===== *)
theory CXL_Inv
  imports CXL_Pages LLFree_Ops Buddy_Inv Page_Client
begin

text \<open>
  The invariant of the page allocator on llfree, for one pool. The chunks in use are those of
  the clients and the single pages in the caches of the CPUs; no two of them share a page, and
  no page of them is free in llfree.
\<close>

subsection \<open>Chunks held outside llfree\<close>

definition chunk_held :: "lower \<Rightarrow> nat \<times> nat \<Rightarrow> bool" where
  "chunk_held L x \<longleftrightarrow> (case x of (i, k) \<Rightarrow> k \<le> 10 \<and> 2 ^ k dvd i \<and> i + 2 ^ k \<le> frames L \<and>
     block i k \<inter> lower_free L = {} \<and> (9 \<le> k \<longrightarrow> block_children i k \<subseteq> huge_set L))"

abbreviation chunk_pages :: "nat \<times> nat \<Rightarrow> nat set" where
  "chunk_pages x \<equiv> block (fst x) (snd x)"

definition held :: "lower \<Rightarrow> (nat \<times> nat) set \<Rightarrow> bool" where
  "held L U \<longleftrightarrow> (\<forall>x \<in> U. chunk_held L x) \<and> (\<forall>x \<in> U. \<forall>y \<in> U. x \<noteq> y \<longrightarrow> chunk_pages x \<inter> chunk_pages y = {})"

lemma heldD:
  assumes "held L U" "x \<in> U"
  shows "chunk_held L x" "y \<in> U \<Longrightarrow> x \<noteq> y \<Longrightarrow> chunk_pages x \<inter> chunk_pages y = {}"
  using assms unfolding held_def by blast+

lemma block_end:
  assumes "lower_ok L" "block q k \<subseteq> lower_free L"
  shows "q + 2 ^ k \<le> frames L"
proof -
  have "0 < (2 :: nat) ^ k" by simp
  then have "q \<le> q + (2 ^ k - 1)" "q + (2 ^ k - 1) < q + 2 ^ k" by linarith+
  then have "q + (2 ^ k - 1) \<in> block q k" unfolding block_mem by blast
  then have "q + (2 ^ k - 1) < frames L" using assms lower_okD(6) by blast
  then show ?thesis using \<open>0 < 2 ^ k\<close> by linarith
qed

text \<open>A chunk of whole children contains every frame of the children it touches.\<close>

lemma huge_block_child:
  assumes "9 \<le> k" "2 ^ k dvd j" "x div 512 \<in> block_children j k"
  shows "x \<in> block j k"
proof -
  obtain n where n: "k = 9 + n" using le_Suc_ex [OF assms(1)] by blast
  define m where "m = (2 :: nat) ^ n"
  have p: "(2 :: nat) ^ k = 512 * m" unfolding m_def n power_add by simp
  obtain a where "j = 2 ^ k * a" using assms(2) by blast
  then have j: "j = 512 * (m * a)" using p by simp
  obtain y where y: "y \<in> block j k" "x div 512 = y div 512" using assms(3) unfolding block_children_def by auto
  have "512 * (m * a) \<le> y" "y < 512 * (m * a + m)" using y(1) unfolding block_mem j p by (simp_all add: distrib_left)
  then have "m * a \<le> y div 512" "y div 512 < m * a + m" by (simp_all add: less_eq_div_iff_mult_less_eq div_less_iff_less_mult mult.commute)
  then have "512 * (m * a) \<le> x" "x < 512 * (m * a + m)" unfolding y(2) [symmetric]
    by (simp_all add: less_eq_div_iff_mult_less_eq div_less_iff_less_mult mult.commute)
  then show ?thesis unfolding block_mem j p by (simp add: distrib_left)
qed

lemma held_take:
  assumes "lower_ok L" "held L U" "lower_taken L k q L'" "k \<le> 10"
  shows "held L' (insert (q, k) U)" "\<And>x. x \<in> U \<Longrightarrow> block q k \<inter> chunk_pages x = {}"
proof -
  note t = assms(3) [unfolded lower_taken_def]
  show dis: "block q k \<inter> chunk_pages x = {}" if "x \<in> U" for x
    using that assms(2) t unfolding held_def chunk_held_def by (cases x) (fastforce simp del: block_mem)
  have new: "chunk_held L' (q, k)"
    using t assms(4) block_end [OF assms(1)] by (auto simp: chunk_held_def simp del: block_mem)
  have old: "chunk_held L' x" if "x \<in> U" for x
    using that assms(2) t unfolding held_def chunk_held_def by (cases x) (fastforce simp del: block_mem)
  show "held L' (insert (q, k) U)" unfolding held_def
  proof (intro conjI ballI impI)
    show "chunk_held L' x" if "x \<in> insert (q, k) U" for x using that new old by blast
    show "chunk_pages x \<inter> chunk_pages y = {}" if "x \<in> insert (q, k) U" "y \<in> insert (q, k) U" "x \<noteq> y" for x y
      using that dis [of x] dis [of y] heldD(2) [OF assms(2), of x y] by (auto simp del: block_mem)
  qed
qed

lemma held_give:
  assumes "held L U" "lower_given L k q L'" "(q, k) \<in> U"
  shows "held L' (U - {(q, k)})"
proof -
  note t = assms(2) [unfolded lower_given_def]
  have "chunk_held L' x" if x: "x \<in> U - {(q, k)}" for x
  proof -
    obtain i m where im: "x = (i, m)" by fastforce
    have h: "chunk_held L (i, m)" using assms(1) x im by (auto simp: held_def)
    have dis: "block i m \<inter> block q k = {}" using heldD(2) [OF assms(1) _ assms(3), of "(i, m)"] x im by simp
    note h' = h [unfolded chunk_held_def prod.case]
    have bc: "block_children i m \<inter> block_children q k = {}" if m: "9 \<le> m"
    proof (rule ccontr)
      assume "block_children i m \<inter> block_children q k \<noteq> {}"
      then obtain c where c: "c \<in> block_children i m" "c \<in> block_children q k" by blast
      from c(2) obtain y where y: "c = y div 512" "y \<in> block q k" unfolding block_children_def by (rule imageE)
      have "y \<in> block i m" by (rule huge_block_child [OF m]) (use h' c(1) y(1) in simp_all)
      then show False using dis y(2) by blast
    qed
    have "lower_free L' = lower_free L \<union> block q k" "frames L' = frames L" "huge_set L' = huge_set L - block_children q k"
      using t by simp_all
    moreover from this(1) have "block i m \<inter> lower_free L' = {}" using h' dis by blast
    moreover have "block_children i m \<subseteq> huge_set L - block_children q k" if "9 \<le> m" using h' bc [OF that] that by blast
    ultimately show ?thesis unfolding im chunk_held_def prod.case using h' by metis
  qed
  moreover have "chunk_pages x \<inter> chunk_pages y = {}" if "x \<in> U - {(q, k)}" "y \<in> U - {(q, k)}" "x \<noteq> y" for x y
    using heldD(2) [OF assms(1), of x y] that by blast
  ultimately show ?thesis unfolding held_def by blast
qed

subsection \<open>The llfree instance of the pool\<close>

definition lf_inv :: "(nat \<times> nat) set \<Rightarrow> llfree \<Rightarrow> bool" where
  "lf_inv U l \<longleftrightarrow> llfree_inv l \<and> even (child_count (ll_lower l)) \<and> held (ll_lower l) U \<and>
     (\<forall>t < 2. \<forall>i < LF_TOTAL_CORES. \<exists>e. entry_at (ll_local l) t i = Some e)"

lemma lf_invD:
  assumes "lf_inv U l"
  shows "llfree_inv l" "even (child_count (ll_lower l))" "held (ll_lower l) U" "lower_ok (ll_lower l)"
    "\<And>t i. t < 2 \<Longrightarrow> i < 96 \<Longrightarrow> \<exists>e. entry_at (ll_local l) t i = Some e"
  using assms llfree_invD(1) by (auto simp: lf_inv_def cxl_consts)

lemma lf_inv_keeps:
  assumes "lf_inv U l" "llfree_inv l'" "keeps l l'" "held (ll_lower l') U'"
  shows "lf_inv U' l'"
proof -
  have k: "frames (ll_lower l') = frames (ll_lower l)" "local_shape (ll_local l') = local_shape (ll_local l)"
    using assms(3) by (simp_all add: keeps_def)
  have "child_count (ll_lower l') = child_count (ll_lower l)" unfolding child_count_def k(1) ..
  then show ?thesis using assms local_shape_entry(1) [OF k(2)] by (simp add: lf_inv_def)
qed

lemma simple_request:
  "llfree_simple_request 96 k core = Some \<lparr>req_order = k, req_tier = (if 9 \<le> k then 1 else 0), req_local = core mod 96\<rparr>"
  by (simp add: llfree_simple_request_def)

lemma simple_request_ok:
  assumes "lf_inv U l" "k \<le> 10"
  shows "request_ok l \<lparr>req_order = k, req_tier = (if 9 \<le> k then 1 else 0), req_local = core mod 96\<rparr>"
  using lf_invD(2) [OF assms(1)] lf_invD(5) [OF assms(1), of "if 9 \<le> k then 1 else 0" "core mod 96"] assms(2)
  by (simp add: request_ok_def)

lemma lf_get:
  assumes "lf_inv U l" "k \<le> 10"
  shows "\<exists>res l'. llfree_get l None \<lparr>req_order = k, req_tier = (if 9 \<le> k then 1 else 0), req_local = core mod 96\<rparr> = Some (res, l') \<and>
    frames (ll_lower l') = frames (ll_lower l) \<and>
    (if llfree_is_ok res then lf_inv (insert (frame res, k) U) l' \<and> (\<forall>x \<in> U. block (frame res) k \<inter> chunk_pages x = {})
     else lf_inv U l')"
proof -
  let ?r = "\<lparr>req_order = k, req_tier = (if 9 \<le> k then 1 else 0), req_local = core mod 96\<rparr>"
  note d = lf_invD [OF assms(1)]
  obtain res l' P where g: "llfree_get l None ?r = Some (res, l')" "get_outcome l k P res l'"
    using llfree_get_spec [OF d(1) simple_request_ok [OF assms, of core]] by auto
  note o = g(2) [unfolded get_outcome_def]
  have f: "frames (ll_lower l') = frames (ll_lower l)" using o by (simp add: keeps_def)
  show ?thesis
  proof (cases "llfree_is_ok res")
    case True
    then have t: "lower_taken (ll_lower l) k (frame res) (ll_lower l')" using o by (auto simp: llfree_is_ok_def)
    note h = held_take [OF d(4,3) t assms(2)]
    have "lf_inv (insert (frame res, k) U) l'" by (rule lf_inv_keeps [OF assms(1) _ _ h(1)]) (use o in auto)
    then show ?thesis using g(1) f True h(2) by (auto simp del: block_mem)
  next
    case False
    then have "ll_lower l' = ll_lower l" using o by (auto simp: llfree_is_ok_def)
    then have "lf_inv U l'" using d(3) by (intro lf_inv_keeps [OF assms(1)]) (use o in auto)
    then show ?thesis using g(1) f False by auto
  qed
qed

lemma lf_put:
  assumes "lf_inv U l" "(i, k) \<in> U"
  shows "\<exists>l'. llfree_put l i \<lparr>req_order = k, req_tier = (if 9 \<le> k then 1 else 0), req_local = core mod 96\<rparr> = Some (llfree_ok 0 0, l') \<and>
    frames (ll_lower l') = frames (ll_lower l) \<and> lf_inv (U - {(i, k)}) l'"
proof -
  let ?r = "\<lparr>req_order = k, req_tier = (if 9 \<le> k then 1 else 0), req_local = core mod 96\<rparr>"
  note d = lf_invD [OF assms(1)]
  note h = heldD(1) [OF d(3) assms(2), unfolded chunk_held_def prod.case]
  have "k \<le> 10" using h by simp
  note rq = simple_request_ok [OF assms(1) this, of core, unfolded request_ok_def]
  have "\<exists>l'. llfree_put l i ?r = Some (llfree_ok 0 0, l') \<and> llfree_inv l' \<and> keeps l l' \<and> lower_given (ll_lower l) (req_order ?r) i (ll_lower l')"
    by (rule llfree_put_spec [OF d(1)]) (use h rq in auto)
  then obtain l' where l: "llfree_put l i ?r = Some (llfree_ok 0 0, l')" "llfree_inv l'" "keeps l l'" "lower_given (ll_lower l) k i (ll_lower l')"
    by auto
  have "lf_inv (U - {(i, k)}) l'" by (rule lf_inv_keeps [OF assms(1) l(2,3) held_give [OF d(3) l(4) assms(2)]])
  then show ?thesis using l(1,3) by (simp add: keeps_def)
qed

subsection \<open>Page caches\<close>

type_synonym caches = "nat \<Rightarrow> page_ptr list list"

definition caches_ok :: "caches \<Rightarrow> bool" where
  "caches_ok pc \<longleftrightarrow> (\<forall>m. length (pc m) = PLAT_CPU_NUM) \<and>
     (\<forall>m. \<forall>c < PLAT_CPU_NUM. distinct (pc m ! c) \<and> length (pc m ! c) \<le> PCP_SIZE \<and> (\<forall>q \<in> set (pc m ! c). fst q = 0)) \<and>
     (\<forall>m m'. \<forall>c < PLAT_CPU_NUM. \<forall>c' < PLAT_CPU_NUM. (m, c) \<noteq> (m', c') \<longrightarrow> set (pc m ! c) \<inter> set (pc m' ! c') = {})"

definition cached_of :: "caches \<Rightarrow> nat set" where
  "cached_of pc = {i. \<exists>m. \<exists>c < PLAT_CPU_NUM. (0, i) \<in> set (pc m ! c)}"

definition set_cache :: "nat \<Rightarrow> nat \<Rightarrow> page_ptr list \<Rightarrow> caches \<Rightarrow> caches" where
  "set_cache m c st pc = pc(m := (pc m)[c := st])"

lemma caches_okD:
  assumes "caches_ok pc"
  shows "length (pc m) = 12" "c < 12 \<Longrightarrow> distinct (pc m ! c)" "c < 12 \<Longrightarrow> length (pc m ! c) \<le> 64"
    "c < 12 \<Longrightarrow> q \<in> set (pc m ! c) \<Longrightarrow> fst q = 0"
    "c < 12 \<Longrightarrow> c' < 12 \<Longrightarrow> (m, c) \<noteq> (m', c') \<Longrightarrow> set (pc m ! c) \<inter> set (pc m' ! c') = {}"
  using assms unfolding caches_ok_def cxl_consts by blast+

lemma set_cache_at:
  assumes "caches_ok pc" "c < 12" "c' < 12"
  shows "set_cache m c st pc m' ! c' = (if m' = m \<and> c' = c then st else pc m' ! c')"
  using assms caches_okD(1) [OF assms(1), of m] by (auto simp: set_cache_def nth_list_update)

lemma caches_change:
  assumes "caches_ok pc" "c < 12" "distinct st" "length st \<le> 64" "\<And>q. q \<in> set st \<Longrightarrow> fst q = 0"
    and "\<And>q. q \<in> set st \<Longrightarrow> q \<in> set (pc m ! c) \<or> snd q \<notin> cached_of pc"
  shows "caches_ok (set_cache m c st pc)"
proof -
  note d = caches_okD [OF assms(1)]
  note a = set_cache_at [OF assms(1,2)]
  have new: "set st \<inter> set (pc m' ! c') = {}" if "c' < 12" "(m, c) \<noteq> (m', c')" for m' c'
  proof (rule ccontr)
    assume "set st \<inter> set (pc m' ! c') \<noteq> {}"
    then obtain q where q: "q \<in> set st" "q \<in> set (pc m' ! c')" by blast
    from assms(5) [OF q(1)] have "q = (0, snd q)" by (cases q) simp
    then have "snd q \<in> cached_of pc" unfolding cached_of_def cxl_consts using q(2) that(1) by auto
    then have "q \<in> set (pc m ! c)" using assms(6) [OF q(1)] by blast
    then show False using d(5) [OF assms(2) that] q(2) by blast
  qed
  show ?thesis unfolding caches_ok_def cxl_consts
  proof (intro conjI allI impI ballI)
    show "length (set_cache m c st pc m') = 12" for m' using d(1) by (simp add: set_cache_def)
    fix m' c' assume c': "c' < (12 :: nat)"
    show "distinct (set_cache m c st pc m' ! c')" "length (set_cache m c st pc m' ! c') \<le> 64"
      unfolding a [OF c'] using assms(3,4) d(2,3) [OF c'] by simp_all
    show "fst q = 0" if "q \<in> set (set_cache m c st pc m' ! c')" for q
      using that assms(5) d(4) [OF c'] unfolding a [OF c'] by (auto split: if_splits)
    fix m2 c2 assume c2: "c2 < (12 :: nat)" and ne: "(m', c') \<noteq> (m2, c2)"
    show "set (set_cache m c st pc m' ! c') \<inter> set (set_cache m c st pc m2 ! c2) = {}"
    proof (cases "(m', c') = (m, c)")
      case True
      then show ?thesis using new [OF c2] ne unfolding a [OF c'] a [OF c2] by auto
    next
      case False
      then show ?thesis
      proof (cases "(m2, c2) = (m, c)")
        case True
        have "set st \<inter> set (pc m' ! c') = {}" by (rule new [OF c']) (use False in auto)
        then show ?thesis using True False unfolding a [OF c'] a [OF c2] by auto
      next
        case F2: False
        then show ?thesis using d(5) [OF c' c2 ne] False unfolding a [OF c'] a [OF c2] by auto
      qed
    qed
  qed
qed

lemma cached_change:
  assumes "caches_ok pc" "c < 12"
  shows "cached_of (set_cache m c st pc) =
    {i. (0, i) \<in> set st} \<union> {i. \<exists>m'. \<exists>c' < 12. (m', c') \<noteq> (m, c) \<and> (0, i) \<in> set (pc m' ! c')}"
proof (rule set_eqI)
  fix i :: nat
  note a = set_cache_at [OF assms]
  show "i \<in> cached_of (set_cache m c st pc) \<longleftrightarrow>
    i \<in> {i. (0, i) \<in> set st} \<union> {i. \<exists>m'. \<exists>c' < 12. (m', c') \<noteq> (m, c) \<and> (0, i) \<in> set (pc m' ! c')}" (is "_ \<longleftrightarrow> ?R")
  proof
    assume "i \<in> cached_of (set_cache m c st pc)"
    then obtain m' c' where x: "c' < 12" "(0, i) \<in> set (set_cache m c st pc m' ! c')" unfolding cached_of_def cxl_consts by auto
    then show ?R unfolding a [OF x(1)] by (auto split: if_splits)
  next
    assume ?R
    then consider "(0, i) \<in> set st" | m' c' where "c' < 12" "(m', c') \<noteq> (m, c)" "(0, i) \<in> set (pc m' ! c')" by auto
    then have "\<exists>m' c'. c' < 12 \<and> (0, i) \<in> set (set_cache m c st pc m' ! c')"
    proof cases
      case 1
      then show ?thesis using a [OF assms(2), of m st m] assms(2) by (intro exI [of _ m] exI [of _ c]) simp
    next
      case 2
      then show ?thesis using a [OF 2(1), of m st m'] by (intro exI [of _ m'] exI [of _ c']) auto
    qed
    then show "i \<in> cached_of (set_cache m c st pc)" unfolding cached_of_def cxl_consts by blast
  qed
qed

lemma cached_split:
  assumes "caches_ok pc" "c < 12"
  shows "cached_of pc = {i. (0, i) \<in> set (pc m ! c)} \<union> {i. \<exists>m'. \<exists>c' < 12. (m', c') \<noteq> (m, c) \<and> (0, i) \<in> set (pc m' ! c')}"
  using cached_change [OF assms, of m "pc m ! c"] by (simp add: set_cache_def)

lemma caches_push:
  assumes "caches_ok pc" "c < 12" "i \<notin> cached_of pc" "length (pc m ! c) < 64"
  shows "caches_ok (set_cache m c ((0, i) # pc m ! c) pc)"
    "cached_of (set_cache m c ((0, i) # pc m ! c) pc) = insert i (cached_of pc)"
proof -
  note d = caches_okD [OF assms(1)]
  have "(0, i) \<notin> set (pc m ! c)" using assms(2,3) unfolding cached_of_def cxl_consts by blast
  then show "caches_ok (set_cache m c ((0, i) # pc m ! c) pc)"
    using d(2) [OF assms(2)] d(4) [OF assms(2)] assms(3,4) by (intro caches_change [OF assms(1,2)]) auto
  show "cached_of (set_cache m c ((0, i) # pc m ! c) pc) = insert i (cached_of pc)"
    unfolding cached_change [OF assms(1,2)] cached_split [OF assms(1,2), of m] set_simps
      insert_iff prod.inject by blast
qed

lemma caches_pop:
  assumes "caches_ok pc" "c < 12" "pc m ! c = q # rest"
  shows "\<exists>i. q = (0, i) \<and> i \<in> cached_of pc \<and> caches_ok (set_cache m c rest pc) \<and>
    cached_of (set_cache m c rest pc) = cached_of pc - {i}"
proof -
  note d = caches_okD [OF assms(1)]
  have "fst q = 0" using d(4) [OF assms(2), of q m] assms(3) by simp
  then obtain i where q: "q = (0, i)" by (cases q) simp
  have at: "pc m ! c = (0, i) # rest" using assms(3) q by simp
  define Z where "Z = {i. \<exists>m'. \<exists>c' < 12. (m', c') \<noteq> (m, c) \<and> (0, i) \<in> set (pc m' ! c')}"
  have split: "cached_of pc = {j. (0, j) \<in> set (pc m ! c)} \<union> Z" "cached_of (set_cache m c rest pc) = {j. (0, j) \<in> set rest} \<union> Z"
    unfolding Z_def by (rule cached_split [OF assms(1,2)], rule cached_change [OF assms(1,2)])
  have dis: "distinct ((0, i) # rest)" "length ((0, i) # rest) \<le> 64" using d(2,3) [OF assms(2), of m] at by simp_all
  have "caches_ok (set_cache m c rest pc)"
  proof (rule caches_change [OF assms(1,2)])
    fix x assume x: "x \<in> set rest"
    then have x': "x \<in> set (pc m ! c)" using at by simp
    then show "fst x = 0" by (rule d(4) [OF assms(2)])
    from x' show "x \<in> set (pc m ! c) \<or> snd x \<notin> cached_of pc" ..
  qed (use dis in simp_all)
  moreover have nz: "i \<notin> Z"
  proof
    assume "i \<in> Z"
    then obtain m' c' where z: "c' < 12" "(m', c') \<noteq> (m, c)" "(0, i) \<in> set (pc m' ! c')" unfolding Z_def by (elim CollectE exE conjE)
    have "set (pc m ! c) \<inter> set (pc m' ! c') = {}" by (rule d(5) [OF assms(2) z(1)]) (use z(2) in auto)
    moreover have "(0, i) \<in> set (pc m ! c)" unfolding at by simp
    ultimately show False using z(3) by blast
  qed
  moreover have "cached_of (set_cache m c rest pc) = cached_of pc - {i}"
    unfolding split at using dis(1) nz by auto
  moreover have "i \<in> cached_of pc" unfolding split at by simp
  ultimately show ?thesis using q by blast
qed

end
