(* ===== verification/CXL_Ops.thy ===== *)
theory CXL_Ops
  imports CXL_Inv
begin

text \<open>
  The operations of the page allocator on llfree keep its invariant, and the allocator satisfies
  the contract of \<open>Page_Client\<close>.
\<close>

subsection \<open>Views of the state\<close>

definition pages_of :: "cxl_state \<Rightarrow> page list" where
  "pages_of s = page_metadata (cxl_pools s ! 0)"

definition llfree_of :: "cxl_state \<Rightarrow> llfree" where
  "llfree_of s = ctx_llfree (buddy_lf_cxl s ! 0)"

text \<open>One pool, with its context at place 0 and room for the entries of all CPUs.\<close>

definition cxl_shape :: "cxl_state \<Rightarrow> bool" where
  "cxl_shape s \<longleftrightarrow> cxl_pools s \<noteq> [] \<and> buddy_lf_cxl s \<noteq> [] \<and> cxlmem_map_num s = 1 \<and>
     ctx_pool (buddy_lf_cxl s ! 0) = Some 0 \<and> ctx_locals (buddy_lf_cxl s ! 0) = 96 \<and>
     ctx_frames (buddy_lf_cxl s ! 0) = length (pages_of s)"

definition upd_page :: "nat \<Rightarrow> page \<Rightarrow> cxl_state \<Rightarrow> cxl_state" where
  "upd_page i v s = s\<lparr>cxl_pools := (cxl_pools s)[0 := (cxl_pools s ! 0)\<lparr>page_metadata := (pages_of s)[i := v]\<rparr>]\<rparr>"

definition upd_llfree :: "llfree \<Rightarrow> cxl_state \<Rightarrow> cxl_state" where
  "upd_llfree l s = s\<lparr>buddy_lf_cxl := (buddy_lf_cxl s)[0 := (buddy_lf_cxl s ! 0)\<lparr>ctx_llfree := l\<rparr>]\<rparr>"

lemma shapeD:
  assumes "cxl_shape s"
  shows "0 < length (cxl_pools s)" "0 < length (buddy_lf_cxl s)" "cxl_pools s \<noteq> []" "buddy_lf_cxl s \<noteq> []"
    "ctx_locals (buddy_lf_cxl s ! 0) = 96" "ctx_frames (buddy_lf_cxl s ! 0) = length (pages_of s)"
    "lf_ctx_for_pool s 0 = Some (Some 0)"
  using assms by (simp_all add: cxl_shape_def lf_ctx_for_pool_def)

lemma view_simps [simp]:
  assumes "cxl_shape s"
  shows "pages_of (upd_page i v s) = (pages_of s)[i := v]" "llfree_of (upd_page i v s) = llfree_of s"
    "pages_of (upd_llfree l s) = pages_of s" "llfree_of (upd_llfree l s) = l"
    "cxl_shape (upd_page i v s)" "cxl_shape (upd_llfree l s)"
  using assms by (auto simp: cxl_shape_def pages_of_def llfree_of_def upd_page_def upd_llfree_def)

lemma pcp_simps [simp]:
  "pcp_caches (upd_page i v s) = pcp_caches s" "pcp_caches (upd_llfree l s) = pcp_caches s"
  "pages_of (set_pcp c st s) = pages_of s" "llfree_of (set_pcp c st s) = llfree_of s"
  "cxl_shape (set_pcp c st s) \<longleftrightarrow> cxl_shape s"
  "pcp_caches (set_pcp c st s) = set_cache (cpu_machine c) (cpu_local c) st (pcp_caches s)"
  by (simp_all add: upd_page_def upd_llfree_def set_pcp_def pages_of_def llfree_of_def cxl_shape_def set_cache_def)

lemma page_at_eval: "cxl_shape s \<Longrightarrow> i < length (pages_of s) \<Longrightarrow> page_at s (0, i) = Some (pages_of s ! i)"
  by (simp add: page_at_def shapeD(3) pages_of_def)

lemma put_page_eval: "cxl_shape s \<Longrightarrow> i < length (pages_of s) \<Longrightarrow> put_page (0, i) v s = Some (upd_page i v s)"
  by (simp add: put_page_def shapeD(3) pages_of_def upd_page_def)

lemma set_llfree_eval: "cxl_shape s \<Longrightarrow> set_llfree 0 l s = Some (upd_llfree l s)"
  by (simp add: set_llfree_def shapeD(4) upd_llfree_def)

definition cpu_ok :: "cpu_id \<Rightarrow> bool" where
  "cpu_ok c \<longleftrightarrow> cpu_local c < PLAT_CPU_NUM"

lemma pcp_of_eval:
  "cpu_ok c \<Longrightarrow> caches_ok (pcp_caches s) \<Longrightarrow> pcp_of c s = Some (pcp_caches s (cpu_machine c) ! cpu_local c)"
  using caches_okD(1) [of "pcp_caches s" "cpu_machine c"] by (simp add: pcp_of_def cpu_ok_def PLAT_CPU_NUM_def)

text \<open>Requests and releases of llfree, with \<open>U\<close> the chunks outside.\<close>

definition lf_pool :: "nat \<Rightarrow> (nat \<times> nat) set \<Rightarrow> cxl_state \<Rightarrow> bool" where
  "lf_pool N U s \<longleftrightarrow> cxl_shape s \<and> length (pages_of s) = N \<and> lf_inv U (llfree_of s) \<and> frames (ll_lower (llfree_of s)) = length (pages_of s)"

lemma lf_request_eval:
  assumes "lf_pool N U s" "k \<le> 10"
  shows "\<exists>res l. lf_request c 0 k s = Some (res, upd_llfree l s) \<and>
    (if llfree_is_ok res
     then lf_pool N (insert (frame res, k) U) (upd_llfree l s) \<and> (\<forall>x \<in> U. block (frame res) k \<inter> chunk_pages x = {}) \<and>
       frame res + 2 ^ k \<le> length (pages_of s)
     else lf_pool N U (upd_llfree l s))"
proof -
  have s: "cxl_shape s" "lf_inv U (llfree_of s)" "frames (ll_lower (llfree_of s)) = length (pages_of s)" "length (pages_of s) = N"
    using assms(1) by (simp_all add: lf_pool_def)
  obtain res l where l: "llfree_get (llfree_of s) None \<lparr>req_order = k, req_tier = (if 9 \<le> k then 1 else 0),
      req_local = lf_global_core c mod 96\<rparr> = Some (res, l)" "frames (ll_lower l) = frames (ll_lower (llfree_of s))"
    "if llfree_is_ok res then lf_inv (insert (frame res, k) U) l \<and> (\<forall>x \<in> U. block (frame res) k \<inter> chunk_pages x = {}) else lf_inv U l"
    using lf_get [OF s(2) assms(2), of "lf_global_core c"] by auto
  have "lf_request c 0 k s = Some (res, upd_llfree l s)"
    using l(1) set_llfree_eval [OF s(1)] shapeD(2,5) [OF s(1)]
    by (simp add: lf_request_def simple_request llfree_of_def)
  moreover have "frame res + 2 ^ k \<le> length (pages_of s)" if "lf_inv (insert (frame res, k) U) l"
    using heldD(1) [OF lf_invD(3) [OF that], of "(frame res, k)"] l(2) s(3) by (simp add: chunk_held_def)
  ultimately show ?thesis using l(2,3) s(1,3,4) by (cases "llfree_is_ok res") (auto simp: lf_pool_def simp del: block_mem)
qed

lemma lf_return_eval:
  assumes "lf_pool N U s" "(i, k) \<in> U"
  shows "\<exists>l. lf_return c 0 k i s = Some (upd_llfree l s) \<and> lf_pool N (U - {(i, k)}) (upd_llfree l s)"
proof -
  have s: "cxl_shape s" "lf_inv U (llfree_of s)" "frames (ll_lower (llfree_of s)) = length (pages_of s)" "length (pages_of s) = N"
    using assms(1) by (simp_all add: lf_pool_def)
  obtain l where l: "llfree_put (llfree_of s) i \<lparr>req_order = k, req_tier = (if 9 \<le> k then 1 else 0),
      req_local = lf_global_core c mod 96\<rparr> = Some (llfree_ok 0 0, l)" "frames (ll_lower l) = frames (ll_lower (llfree_of s))"
    "lf_inv (U - {(i, k)}) l"
    using lf_put [OF s(2) assms(2), of "lf_global_core c"] by auto
  have "lf_return c 0 k i s = Some (upd_llfree l s)"
    using l(1) set_llfree_eval [OF s(1)] shapeD(2,5) [OF s(1)]
    by (simp add: lf_return_def simple_request llfree_of_def)
  then show ?thesis using l(2,3) s(1,3,4) by (auto simp: lf_pool_def)
qed

subsection \<open>Invariant\<close>

text \<open>The flags and orders of the pages, for the chunks \<open>A\<close> of the clients.\<close>

definition marks :: "(nat \<times> nat) set \<Rightarrow> page list \<Rightarrow> bool" where
  "marks A ps \<longleftrightarrow> (\<forall>i < length ps. is_allocated (ps ! i) \<longleftrightarrow> (\<exists>x \<in> A. i \<in> chunk_pages x)) \<and>
     (\<forall>x \<in> A. fst x < length ps \<and> order (ps ! fst x) = int (snd x))"

definition cached_chunks :: "caches \<Rightarrow> (nat \<times> nat) set" where
  "cached_chunks pc = (\<lambda>i. (i, 0)) ` cached_of pc"

text \<open>\<open>X\<close> are chunks in the hands of a running operation.\<close>

definition cxl_running :: "nat \<Rightarrow> (nat \<times> nat) set \<Rightarrow> (nat \<times> nat) set \<Rightarrow> cxl_state \<Rightarrow> bool" where
  "cxl_running N A X s \<longleftrightarrow> lf_pool N (A \<union> X \<union> cached_chunks (pcp_caches s)) s \<and> caches_ok (pcp_caches s) \<and>
     (A \<union> X) \<inter> cached_chunks (pcp_caches s) = {} \<and> A \<inter> X = {} \<and> marks A (pages_of s)"

definition cxl_inv :: "nat \<Rightarrow> (nat \<times> nat) set \<Rightarrow> cxl_state \<Rightarrow> bool" where
  "cxl_inv N A s \<longleftrightarrow> cxl_running N A {} s"

lemma runningD:
  assumes "cxl_running N A X s"
  shows "lf_pool N (A \<union> X \<union> cached_chunks (pcp_caches s)) s" "caches_ok (pcp_caches s)"
    "(A \<union> X) \<inter> cached_chunks (pcp_caches s) = {}" "A \<inter> X = {}" "marks A (pages_of s)" "cxl_shape s"
  using assms by (auto simp: cxl_running_def lf_pool_def)

text \<open>Everything but the pages is the same.\<close>

definition same_but_pages :: "cxl_state \<Rightarrow> cxl_state \<Rightarrow> bool" where
  "same_but_pages s s' \<longleftrightarrow> cxl_shape s' \<and> llfree_of s' = llfree_of s \<and> pcp_caches s' = pcp_caches s \<and>
     length (pages_of s') = length (pages_of s)"

lemma same_but_pagesD:
  assumes "same_but_pages s s'" "lf_pool N U s"
  shows "lf_pool N U s'" "pcp_caches s' = pcp_caches s"
  using assms by (simp_all add: same_but_pages_def lf_pool_def)

lemma same_but_pages_upd: "cxl_shape s \<Longrightarrow> same_but_pages s (upd_page i v s)"
  by (simp add: same_but_pages_def)

lemma same_but_pages_trans: "same_but_pages s s' \<Longrightarrow> same_but_pages s' s'' \<Longrightarrow> same_but_pages s s''"
  by (simp add: same_but_pages_def)

lemma allocated_simps [simp]:
  "is_allocated (p\<lparr>flags := w OR 1\<rparr>)" "\<not> is_allocated (p\<lparr>flags := 0\<rparr>)" "\<not> is_allocated (p\<lparr>flags := w AND NOT 1\<rparr>)"
  "is_allocated (p\<lparr>page_pool := q\<rparr>) = is_allocated p" "is_allocated (p\<lparr>order := r\<rparr>) = is_allocated p"
  by (simp_all add: is_allocated_def bit_or_iff bit_and_iff bit_not_iff)

lemma chunk_first: "fst x \<in> chunk_pages x"
  by simp

lemma marks_off:
  assumes "marks A ps" "\<And>x. x \<in> A \<Longrightarrow> i \<notin> chunk_pages x" "\<not> is_allocated v"
  shows "marks A (ps[i := v])"
  unfolding marks_def
proof (intro conjI allI impI ballI)
  fix j assume j: "j < length (ps[i := v])"
  show "is_allocated (ps[i := v] ! j) \<longleftrightarrow> (\<exists>x \<in> A. j \<in> chunk_pages x)"
    using assms j unfolding marks_def by (cases "j = i") (auto simp del: block_mem)
next
  fix x assume x: "x \<in> A"
  then have "fst x \<noteq> i" using assms(2) [OF x] chunk_first [of x] by auto
  then show "fst x < length (ps[i := v])" "order (ps[i := v] ! fst x) = int (snd x)" using assms(1) x by (simp_all add: marks_def)
qed

lemma marks_take:
  assumes "marks A ps" "length qs = length ps" "i + 2 ^ k \<le> length ps" "\<And>x. x \<in> A \<Longrightarrow> block i k \<inter> chunk_pages x = {}"
    and "\<And>j. j < length ps \<Longrightarrow> j \<notin> block i k \<Longrightarrow> qs ! j = ps ! j"
    and "\<And>j. j \<in> block i k \<Longrightarrow> is_allocated (qs ! j)" "order (qs ! i) = int k"
  shows "marks (insert (i, k) A) qs"
  unfolding marks_def
proof (intro conjI allI impI ballI)
  fix j assume j: "j < length qs"
  show "is_allocated (qs ! j) \<longleftrightarrow> (\<exists>x \<in> insert (i, k) A. j \<in> chunk_pages x)"
    using assms(1,2,5,6) j unfolding marks_def by (cases "j \<in> block i k") (auto simp del: block_mem)
next
  fix x assume x: "x \<in> insert (i, k) A"
  have "fst x < length qs \<and> order (qs ! fst x) = int (snd x)"
  proof (cases "x = (i, k)")
    case True
    have "0 < (2 :: nat) ^ k" by simp
    then have "i < length ps" using assms(3) by linarith
    then show ?thesis using True assms(2,7) by simp
  next
    case False
    then have A: "x \<in> A" using x by simp
    have f: "fst x \<notin> block i k" using assms(4) [OF A] chunk_first [of x] by blast
    have l: "fst x < length ps" "order (ps ! fst x) = int (snd x)" using assms(1) A by (simp_all add: marks_def)
    then show ?thesis using assms(2) assms(5) [OF l(1) f] by simp
  qed
  then show "fst x < length qs" "order (qs ! fst x) = int (snd x)" by simp_all
qed

lemma marks_give:
  assumes "marks A ps" "length qs = length ps" "(i, k) \<in> A" "\<And>x. x \<in> A \<Longrightarrow> x \<noteq> (i, k) \<Longrightarrow> block i k \<inter> chunk_pages x = {}"
    and "\<And>j. j < length ps \<Longrightarrow> j \<notin> block i k \<Longrightarrow> qs ! j = ps ! j"
    and "\<And>j. j < length ps \<Longrightarrow> j \<in> block i k \<Longrightarrow> \<not> is_allocated (qs ! j)"
  shows "marks (A - {(i, k)}) qs"
  unfolding marks_def
proof (intro conjI allI impI ballI)
  fix j assume j: "j < length qs"
  then have l: "is_allocated (ps ! j) \<longleftrightarrow> (\<exists>x \<in> A. j \<in> chunk_pages x)" using assms(1,2) by (simp add: marks_def)
  show "is_allocated (qs ! j) \<longleftrightarrow> (\<exists>x \<in> A - {(i, k)}. j \<in> chunk_pages x)"
  proof (cases "j \<in> block i k")
    case True
    then have "\<not> is_allocated (qs ! j)" using assms(2,6) j by simp
    moreover have "j \<notin> chunk_pages x" if "x \<in> A - {(i, k)}" for x using assms(4) [of x] that True by blast
    ultimately show ?thesis by blast
  next
    case False
    then have "qs ! j = ps ! j" using assms(2,5) j by simp
    moreover have "(\<exists>x \<in> A. j \<in> chunk_pages x) \<longleftrightarrow> (\<exists>x \<in> A - {(i, k)}. j \<in> chunk_pages x)" using False by (metis Diff_iff fst_conv singletonD snd_conv)
    ultimately show ?thesis using l by simp
  qed
next
  fix x assume x: "x \<in> A - {(i, k)}"
  then have f: "fst x \<notin> block i k" using assms(4) [of x] chunk_first [of x] by blast
  have l: "fst x < length ps" "order (ps ! fst x) = int (snd x)" using assms(1) x by (simp_all add: marks_def)
  then show "fst x < length qs" "order (qs ! fst x) = int (snd x)" using assms(2) assms(5) [OF l(1) f] by simp_all
qed

subsection \<open>Pages of a chunk\<close>

lemma claim_pages_eval:
  assumes "cxl_shape s" "\<And>i. i \<in> set is \<Longrightarrow> i < length (pages_of s) \<and> \<not> is_allocated (pages_of s ! i)" "distinct is"
  shows "\<exists>s'. claim_pages 0 is s = Some s' \<and> same_but_pages s s' \<and>
    (\<forall>j. j \<notin> set is \<longrightarrow> pages_of s' ! j = pages_of s ! j) \<and> (\<forall>j \<in> set is. is_allocated (pages_of s' ! j))"
  using assms
proof (induction "is" arbitrary: s)
  case Nil
  then show ?case by (simp add: same_but_pages_def)
next
  case (Cons i "is")
  let ?p = "pages_of s ! i"
  have i: "i < length (pages_of s)" "\<not> is_allocated ?p" using Cons.prems(2) [of i] by simp_all
  let ?v = "?p\<lparr>flags := flags ?p OR 1, page_pool := Some 0\<rparr>"
  let ?s1 = "upd_page i ?v s"
  have step: "claim_pages 0 (i # is) s = claim_pages 0 is ?s1"
    using i page_at_eval [OF Cons.prems(1) i(1)] put_page_eval [OF Cons.prems(1) i(1)]
    by (simp add: check_allocated set_allocated)
  have "\<exists>s'. claim_pages 0 is ?s1 = Some s' \<and> same_but_pages ?s1 s' \<and>
    (\<forall>j. j \<notin> set is \<longrightarrow> pages_of s' ! j = pages_of ?s1 ! j) \<and> (\<forall>j \<in> set is. is_allocated (pages_of s' ! j))"
    by (rule Cons.IH) (use Cons.prems in \<open>auto simp: nth_list_update\<close>)
  then obtain s' where s': "claim_pages 0 is ?s1 = Some s'" "same_but_pages ?s1 s'"
    "\<And>j. j \<notin> set is \<Longrightarrow> pages_of s' ! j = pages_of ?s1 ! j" "\<And>j. j \<in> set is \<Longrightarrow> is_allocated (pages_of s' ! j)" by blast
  have "is_allocated (pages_of s' ! i)" using s'(3) [of i] Cons.prems(1,3) i(1) by simp
  moreover have "pages_of s' ! j = pages_of s ! j" if "j \<notin> set (i # is)" for j
    using s'(3) [of j] that Cons.prems(1) by simp
  moreover have "same_but_pages s s'" by (rule same_but_pages_trans [OF same_but_pages_upd [OF Cons.prems(1)] s'(2)])
  ultimately show ?case using step s'(1,4) by auto
qed

lemma unclaim_pages_eval:
  assumes "cxl_shape s" "\<And>i. i \<in> set is \<Longrightarrow> i < length (pages_of s) \<and> is_allocated (pages_of s ! i)" "distinct is"
  shows "\<exists>s'. unclaim_pages 0 is s = Some s' \<and> same_but_pages s s' \<and>
    (\<forall>j. j \<notin> set is \<longrightarrow> pages_of s' ! j = pages_of s ! j) \<and> (\<forall>j \<in> set is. \<not> is_allocated (pages_of s' ! j))"
  using assms
proof (induction "is" arbitrary: s)
  case Nil
  then show ?case by (simp add: same_but_pages_def)
next
  case (Cons i "is")
  let ?p = "pages_of s ! i"
  have i: "i < length (pages_of s)" "is_allocated ?p" using Cons.prems(2) [of i] by simp_all
  let ?s1 = "upd_page i (?p\<lparr>flags := 0\<rparr>) s"
  have step: "unclaim_pages 0 (i # is) s = unclaim_pages 0 is ?s1"
    using i page_at_eval [OF Cons.prems(1) i(1)] put_page_eval [OF Cons.prems(1) i(1)] by (simp add: check_allocated)
  have "\<exists>s'. unclaim_pages 0 is ?s1 = Some s' \<and> same_but_pages ?s1 s' \<and>
    (\<forall>j. j \<notin> set is \<longrightarrow> pages_of s' ! j = pages_of ?s1 ! j) \<and> (\<forall>j \<in> set is. \<not> is_allocated (pages_of s' ! j))"
    by (rule Cons.IH) (use Cons.prems in \<open>auto simp: nth_list_update\<close>)
  then obtain s' where s': "unclaim_pages 0 is ?s1 = Some s'" "same_but_pages ?s1 s'"
    "\<And>j. j \<notin> set is \<Longrightarrow> pages_of s' ! j = pages_of ?s1 ! j" "\<And>j. j \<in> set is \<Longrightarrow> \<not> is_allocated (pages_of s' ! j)" by blast
  have "\<not> is_allocated (pages_of s' ! i)" using s'(3) [of i] Cons.prems(1,3) i(1) by simp
  moreover have "pages_of s' ! j = pages_of s ! j" if "j \<notin> set (i # is)" for j
    using s'(3) [of j] that Cons.prems(1) by simp
  moreover have "same_but_pages s s'" by (rule same_but_pages_trans [OF same_but_pages_upd [OF Cons.prems(1)] s'(2)])
  ultimately show ?case using step s'(1,4) by auto
qed

subsection \<open>Filling and draining a cache\<close>

lemma unmarked:
  assumes "marks A ps" "i < length ps" "\<And>x. x \<in> A \<Longrightarrow> i \<notin> chunk_pages x"
  shows "\<not> is_allocated (ps ! i)"
  using assms unfolding marks_def by blast

lemma lf_get_one_page_spec:
  assumes "lf_pool N U s" "marks A (pages_of s)" "A \<subseteq> U"
  shows "(\<exists>l. lf_get_one_page c 0 0 s = Some (None, upd_llfree l s) \<and> lf_pool N U (upd_llfree l s)) \<or>
    (\<exists>l i v. lf_get_one_page c 0 0 s = Some (Some (0, i), upd_page i v (upd_llfree l s)) \<and>
      lf_pool N (insert (i, 0) U) (upd_llfree l s) \<and> (\<forall>x \<in> U. i \<notin> chunk_pages x) \<and> i < length (pages_of s))"
proof -
  have sh: "cxl_shape s" using assms(1) by (simp add: lf_pool_def)
  obtain res l where r: "lf_request c 0 0 s = Some (res, upd_llfree l s)"
    "if llfree_is_ok res then lf_pool N (insert (frame res, 0) U) (upd_llfree l s) \<and>
       (\<forall>x \<in> U. block (frame res) 0 \<inter> chunk_pages x = {}) \<and> frame res + 2 ^ 0 \<le> length (pages_of s)
     else lf_pool N U (upd_llfree l s)"
    using lf_request_eval [OF assms(1), of 0 c] by auto
  show ?thesis
  proof (cases "llfree_is_ok res")
    case False
    then have "lf_get_one_page c 0 0 s = Some (None, upd_llfree l s)" "lf_pool N U (upd_llfree l s)"
      using r by (simp_all add: lf_get_one_page_def)
    then show ?thesis by blast
  next
    case True
    let ?i = "frame res" and ?s1 = "upd_llfree l s"
    have p: "lf_pool N (insert (?i, 0) U) ?s1" "?i < length (pages_of s)" using r(2) True by simp_all
    have b: "block ?i 0 \<inter> chunk_pages x = {}" if "x \<in> U" for x using r(2) True that by simp
    have off: "?i \<notin> chunk_pages x" if "x \<in> U" for x using b [OF that] by auto
    have sh1: "cxl_shape ?s1" "?i < length (pages_of ?s1)" using sh p(2) by simp_all
    have "\<not> is_allocated (pages_of ?s1 ! ?i)"
      using unmarked [OF assms(2) p(2)] off assms(3) sh by auto
    then have "lf_get_one_page c 0 0 s = Some (Some (0, ?i), upd_page ?i ((pages_of ?s1 ! ?i)\<lparr>
        flags := flags (pages_of ?s1 ! ?i) OR 1, page_pool := Some 0, order := 0\<rparr>) ?s1)"
      using r(1) True sh1(2) page_at_eval [OF sh1] put_page_eval [OF sh1] shapeD(2,6) [OF sh1(1)]
      by (simp add: lf_get_one_page_def check_allocated set_allocated Let_def)
    then show ?thesis using p off by (intro disjI2) blast
  qed
qed

lemma cached_chunks_change: "cached_of pc' = insert i (cached_of pc) \<Longrightarrow> cached_chunks pc' = insert (i, 0) (cached_chunks pc)"
  by (simp add: cached_chunks_def)

lemma pcp_refill_rounds_spec:
  assumes "cxl_inv N A s" "cpu_ok c"
  shows "\<exists>s'. pcp_refill_rounds n c 0 0 s = Some s' \<and> cxl_inv N A s'"
  using assms(1)
proof (induction n arbitrary: s)
  case (Suc n)
  note d = runningD [OF Suc.prems [unfolded cxl_inv_def]]
  let ?pc = "pcp_caches s" and ?m = "cpu_machine c" and ?c = "cpu_local c"
  let ?U = "A \<union> cached_chunks ?pc"
  have c: "?c < 12" using assms(2) by (simp add: cpu_ok_def PLAT_CPU_NUM_def)
  have U: "lf_pool N ?U s" "A \<subseteq> ?U" using d(1) by auto
  have p: "pcp_of c s = Some (?pc ?m ! ?c)" by (rule pcp_of_eval [OF assms(2) d(2)])
  show ?case
  proof (cases "length (?pc ?m ! ?c) < 64")
    case False
    then show ?thesis using p Suc.prems by (simp add: PCP_SIZE_def)
  next
    case True
    from lf_get_one_page_spec [OF U(1) d(5) U(2), of c] consider
        (none) l where "lf_get_one_page c 0 0 s = Some (None, upd_llfree l s)" "lf_pool N ?U (upd_llfree l s)"
      | (one) l i v where "lf_get_one_page c 0 0 s = Some (Some (0, i), upd_page i v (upd_llfree l s))"
        "lf_pool N (insert (i, 0) ?U) (upd_llfree l s)" "\<forall>x \<in> ?U. i \<notin> chunk_pages x" "i < length (pages_of s)" by blast
    then show ?thesis
    proof cases
      case none
      have "cxl_inv N A (upd_llfree l s)" using d none(2) by (simp add: cxl_inv_def cxl_running_def)
      then show ?thesis using none(1) p True by (simp add: PCP_SIZE_def)
    next
      case one
      let ?s1 = "upd_page i v (upd_llfree l s)"
      let ?w = "v\<lparr>flags := flags v AND NOT 1\<rparr>"
      let ?s2 = "upd_page i ?w ?s1"
      let ?pc' = "set_cache ?m ?c ((0, i) # ?pc ?m ! ?c) ?pc"
      let ?s3 = "set_pcp c ((0, i) # ?pc ?m ! ?c) ?s2"
      have sh: "cxl_shape (upd_llfree l s)" "cxl_shape ?s1" "cxl_shape ?s2" "i < length (pages_of ?s1)" using d(6) one(4) by simp_all
      have at: "pages_of ?s1 ! i = v" using d(6) one(4) by simp
      have run: "pcp_refill_rounds (Suc n) c 0 0 s = pcp_refill_rounds n c 0 0 ?s3"
        using p True one(1) page_at_eval [OF sh(2,4)] put_page_eval [OF sh(2,4)] at by (simp add: PCP_SIZE_def clear_allocated)
      have ni: "(i, 0) \<notin> ?U"
      proof
        assume "(i, 0) \<in> ?U"
        from bspec [OF one(3) this] show False by simp
      qed
      then have nc: "i \<notin> cached_of ?pc" by (auto simp: cached_chunks_def)
      note push = caches_push [OF d(2) c nc True]
      have cc: "cached_chunks ?pc' = insert (i, 0) (cached_chunks ?pc)" by (rule cached_chunks_change [OF push(2)])
      have "marks A ((pages_of s)[i := ?w])" by (rule marks_off [OF d(5) _ allocated_simps(3)]) (use one(3) in blast)
      moreover have "pages_of ?s3 = (pages_of s)[i := ?w]" using d(6) by simp
      moreover have "lf_pool N (A \<union> cached_chunks ?pc') ?s3"
        using one(2) sh unfolding cc lf_pool_def by simp
      ultimately have "cxl_inv N A ?s3"
        unfolding cxl_inv_def cxl_running_def using push(1) cc d(3) ni by (simp add: sh)
      from Suc.IH [OF this] show ?thesis unfolding run .
    qed
  qed
qed simp

lemma cached_chunks_pop: "cached_of pc' = cached_of pc - {i} \<Longrightarrow> cached_chunks pc' = cached_chunks pc - {(i, 0)}"
  by (auto simp: cached_chunks_def)

lemma cached_chunks_mem: "(i, 0) \<in> cached_chunks pc \<longleftrightarrow> i \<in> cached_of pc"
  by (auto simp: cached_chunks_def)

lemma pcp_drain_rounds_spec:
  assumes "cxl_running N A X s" "cpu_ok c"
  shows "\<exists>s'. pcp_drain_rounds n c 0 0 s = Some s' \<and> cxl_running N A X s' \<and>
    length (pcp_caches s' (cpu_machine c) ! cpu_local c) = length (pcp_caches s (cpu_machine c) ! cpu_local c) - n"
  using assms(1)
proof (induction n arbitrary: s)
  case (Suc n)
  note d = runningD [OF Suc.prems]
  let ?pc = "pcp_caches s" and ?m = "cpu_machine c" and ?c = "cpu_local c"
  have c: "?c < 12" using assms(2) by (simp add: cpu_ok_def PLAT_CPU_NUM_def)
  have p: "pcp_of c s = Some (?pc ?m ! ?c)" by (rule pcp_of_eval [OF assms(2) d(2)])
  show ?case
  proof (cases "?pc ?m ! ?c")
    case Nil
    then show ?thesis using p Suc.prems by simp
  next
    case (Cons q rest)
    let ?pc' = "set_cache ?m ?c rest ?pc" and ?s1 = "set_pcp c rest s"
    obtain i where i: "q = (0, i)" "i \<in> cached_of ?pc" "caches_ok ?pc'" "cached_of ?pc' = cached_of ?pc - {i}"
      using caches_pop [OF d(2) c Cons] by blast
    have cc: "cached_chunks ?pc' = cached_chunks ?pc - {(i, 0)}" by (rule cached_chunks_pop [OF i(4)])
    have mem: "(i, 0) \<in> cached_chunks ?pc" using i(2) cached_chunks_mem by blast
    have "lf_pool N (A \<union> X \<union> cached_chunks ?pc) ?s1" using d(1) by (simp add: lf_pool_def)
    then obtain l where l: "lf_return c 0 0 i ?s1 = Some (upd_llfree l ?s1)"
      "lf_pool N (A \<union> X \<union> cached_chunks ?pc - {(i, 0)}) (upd_llfree l ?s1)"
      using lf_return_eval [of N "A \<union> X \<union> cached_chunks ?pc" ?s1 i 0 c] mem by blast
    let ?s2 = "upd_llfree l ?s1"
    have U: "A \<union> X \<union> cached_chunks ?pc - {(i, 0)} = A \<union> X \<union> cached_chunks ?pc'" unfolding cc using d(3) mem by blast
    have dis: "(A \<union> X) \<inter> cached_chunks ?pc' = {}" unfolding cc using d(3) by blast
    have "cxl_running N A X ?s2"
      unfolding cxl_running_def using l(2) [unfolded U] i(3) dis d(4,5,6) by simp
    from Suc.IH [OF this] obtain s' where s': "pcp_drain_rounds n c 0 0 ?s2 = Some s'" "cxl_running N A X s'"
      "length (pcp_caches s' ?m ! ?c) = length (pcp_caches ?s2 ?m ! ?c) - n" by blast
    have "pcp_caches ?s2 ?m ! ?c = rest" using set_cache_at [OF d(2) c c, of ?m rest ?m] by simp
    then have "length (pcp_caches s' ?m ! ?c) = length (?pc ?m ! ?c) - Suc n" using s'(3) Cons by simp
    moreover have "pcp_drain_rounds (Suc n) c 0 0 s = Some s'"
      using p Cons i(1) l(1) s'(1) by (simp add: page_index_def)
    ultimately show ?thesis using s'(2) by blast
  qed
qed simp

subsection \<open>A page from the cache, and a page to the cache\<close>

lemma block_page: "block i 0 = {i}"
  by auto

lemma pop_page:
  assumes "cxl_inv N A s" "cpu_ok c" "pcp_caches s (cpu_machine c) ! cpu_local c = q # rest"
  shows "\<exists>i s'. q = (0, i) \<and> (i, 0) \<notin> A \<and> cxl_inv N (insert (i, 0) A) s' \<and>
    (do { page \<leftarrow> page_at (set_pcp c rest s) q;
          page1 \<leftarrow> page_set_flag page PG_allocated;
          s3 \<leftarrow> put_page q (page1\<lparr>page_pool := Some 0, order := 0\<rparr>) (set_pcp c rest s);
          Some (Some q, s3) }) = Some (Some q, s')"
proof -
  note d = runningD [OF assms(1) [unfolded cxl_inv_def]]
  let ?pc = "pcp_caches s" and ?m = "cpu_machine c" and ?c = "cpu_local c"
  let ?pc' = "set_cache ?m ?c rest ?pc" and ?s1 = "set_pcp c rest s"
  let ?U = "A \<union> {} \<union> cached_chunks ?pc"
  have c: "?c < 12" using assms(2) by (simp add: cpu_ok_def PLAT_CPU_NUM_def)
  obtain i where i: "q = (0, i)" "i \<in> cached_of ?pc" "caches_ok ?pc'" "cached_of ?pc' = cached_of ?pc - {i}"
    using caches_pop [OF d(2) c assms(3)] by blast
  have cc: "cached_chunks ?pc' = cached_chunks ?pc - {(i, 0)}" by (rule cached_chunks_pop [OF i(4)])
  have mem: "(i, 0) \<in> ?U" "(i, 0) \<in> cached_chunks ?pc" using i(2) cached_chunks_mem by blast+
  have nA: "(i, 0) \<notin> A" using d(3) mem(2) by blast
  have h: "held (ll_lower (llfree_of s)) ?U" "frames (ll_lower (llfree_of s)) = length (pages_of s)"
    using d(1) lf_invD(3) by (simp_all add: lf_pool_def)
  have l: "i < length (pages_of s)" using heldD(1) [OF h(1) mem(1)] h(2) by (simp add: chunk_held_def)
  have off: "block i 0 \<inter> chunk_pages x = {}" if "x \<in> A" for x
    using heldD(2) [OF h(1) mem(1), of x] that nA by auto
  let ?v = "(pages_of s ! i)\<lparr>flags := flags (pages_of s ! i) OR 1, page_pool := Some 0, order := 0\<rparr>"
  have sh: "cxl_shape ?s1" "i < length (pages_of ?s1)" using d(6) l by simp_all
  have run: "(do { page \<leftarrow> page_at ?s1 q; page1 \<leftarrow> page_set_flag page PG_allocated;
      s3 \<leftarrow> put_page q (page1\<lparr>page_pool := Some 0, order := 0\<rparr>) ?s1; Some (Some q, s3) }) = Some (Some q, upd_page i ?v ?s1)"
    using page_at_eval [OF sh] put_page_eval [OF sh] i(1) by (simp add: set_allocated)
  have "marks (insert (i, 0) A) ((pages_of s)[i := ?v])"
    by (rule marks_take [OF d(5)]) (use l off in \<open>simp_all del: block_mem add: block_page\<close>)
  moreover have U: "?U = insert (i, 0) A \<union> {} \<union> cached_chunks ?pc'" unfolding cc using mem(2) by blast
  moreover have "(insert (i, 0) A \<union> {}) \<inter> cached_chunks ?pc' = {}" unfolding cc using d(3) by blast
  ultimately have "cxl_inv N (insert (i, 0) A) (upd_page i ?v ?s1)"
    unfolding cxl_inv_def cxl_running_def using d(1) [unfolded U] i(3) sh by (simp add: lf_pool_def d(6))
  then show ?thesis using run i(1) nA by blast
qed

lemma push_page:
  assumes "cxl_running N A {(i, 0)} s" "cpu_ok c" "length (pcp_caches s (cpu_machine c) ! cpu_local c) < 64"
  shows "cxl_inv N A (set_pcp c ((0, i) # pcp_caches s (cpu_machine c) ! cpu_local c) s)"
proof -
  note d = runningD [OF assms(1)]
  let ?pc = "pcp_caches s" and ?m = "cpu_machine c" and ?c = "cpu_local c"
  let ?pc' = "set_cache ?m ?c ((0, i) # ?pc ?m ! ?c) ?pc"
  have c: "?c < 12" using assms(2) by (simp add: cpu_ok_def PLAT_CPU_NUM_def)
  have "i \<notin> cached_of ?pc" using d(3) cached_chunks_mem by blast
  note push = caches_push [OF d(2) c this assms(3)]
  have cc: "cached_chunks ?pc' = insert (i, 0) (cached_chunks ?pc)" by (rule cached_chunks_change [OF push(2)])
  have "A \<union> {(i, 0)} \<union> cached_chunks ?pc = A \<union> {} \<union> cached_chunks ?pc'" unfolding cc by blast
  moreover have "(A \<union> {}) \<inter> cached_chunks ?pc' = {}" unfolding cc using d(3,4) by blast
  ultimately show ?thesis
    unfolding cxl_inv_def cxl_running_def using d(1,5,6) push(1) by (simp add: lf_pool_def)
qed

subsection \<open>Requests\<close>

text \<open>Pages are named by their index in pool 0.\<close>

definition lf_get_pages :: "cpu_id \<Rightarrow> int \<Rightarrow> cxl_state \<Rightarrow> (nat option \<times> cxl_state) option" where
  "lf_get_pages c ord s = map_option (\<lambda>(r, s'). (map_option snd r, s')) (buddy_lf_get_pages c 0 ord s)"

definition lf_free_pages :: "cpu_id \<Rightarrow> nat \<Rightarrow> cxl_state \<Rightarrow> cxl_state option" where
  "lf_free_pages c i s = buddy_lf_free_pages c 0 (0, i) s"

lemma lf_get_page_law:
  assumes "cxl_inv N A s" "cpu_ok c"
  shows "\<exists>r s'. lf_get_pages c 0 s = Some (r, s') \<and>
    (case r of None \<Rightarrow> cxl_inv N A s' | Some i \<Rightarrow> (i, 0) \<notin> A \<and> cxl_inv N (insert (i, 0) A) s')"
proof -
  note d = runningD [OF assms(1) [unfolded cxl_inv_def]]
  let ?m = "cpu_machine c" and ?c = "cpu_local c"
  have p: "pcp_of c s = Some (pcp_caches s ?m ! ?c)" by (rule pcp_of_eval [OF assms(2) d(2)])
  obtain s1 where s1: "(if pcp_caches s ?m ! ?c = [] then pcp_refill c 0 0 s else Some s) = Some s1" "cxl_inv N A s1"
    using pcp_refill_rounds_spec [OF assms, of PCP_BATCH] assms(1) unfolding pcp_refill_def by (cases "pcp_caches s ?m ! ?c = []") auto
  have p1: "pcp_of c s1 = Some (pcp_caches s1 ?m ! ?c)"
    by (rule pcp_of_eval [OF assms(2) runningD(2) [OF s1(2) [unfolded cxl_inv_def]]])
  note run = buddy_lf_get_pages_def shapeD(7) [OF d(6)] p s1(1) p1 lf_get_pages_def buddy_consts Let_def
  show ?thesis
  proof (cases "pcp_caches s1 ?m ! ?c")
    case Nil
    then show ?thesis using s1(2) by (simp add: run)
  next
    case (Cons q rest)
    from pop_page [OF s1(2) assms(2) Cons] obtain i s' where i: "q = (0, i)" "(i, 0) \<notin> A" "cxl_inv N (insert (i, 0) A) s'"
      "(do { page \<leftarrow> page_at (set_pcp c rest s1) q;
          page1 \<leftarrow> page_set_flag page PG_allocated;
          s3 \<leftarrow> put_page q (page1\<lparr>page_pool := Some 0, order := 0\<rparr>) (set_pcp c rest s1);
          Some (Some q, s3) }) = Some (Some q, s')" by blast
    then have "buddy_lf_get_pages c 0 0 s = Some (Some (0, i), s')" using Cons by (simp add: run)
    then show ?thesis using i(2,3) by (simp add: lf_get_pages_def)
  qed
qed

lemma lf_get_chunk_law:
  assumes "cxl_inv N A s" "cpu_ok c" "0 < k" "k \<le> 10"
  shows "\<exists>r s'. lf_get_pages c (int k) s = Some (r, s') \<and>
    (case r of None \<Rightarrow> cxl_inv N A s' | Some i \<Rightarrow> (i, k) \<notin> A \<and> cxl_inv N (insert (i, k) A) s')"
proof -
  note d = runningD [OF assms(1) [unfolded cxl_inv_def]]
  let ?U = "A \<union> {} \<union> cached_chunks (pcp_caches s)"
  obtain res l where r: "lf_request c 0 k s = Some (res, upd_llfree l s)"
    "if llfree_is_ok res then lf_pool N (insert (frame res, k) ?U) (upd_llfree l s) \<and>
       (\<forall>x \<in> ?U. block (frame res) k \<inter> chunk_pages x = {}) \<and> frame res + 2 ^ k \<le> length (pages_of s)
     else lf_pool N ?U (upd_llfree l s)" using lf_request_eval [OF d(1) assms(4), of c] by blast
  note run = buddy_lf_get_pages_def shapeD(7) [OF d(6)] lf_get_pages_def buddy_consts Let_def r(1) LLFREE_MAX_ORDER_def
  show ?thesis
  proof (cases "llfree_is_ok res")
    case False
    then have "cxl_inv N A (upd_llfree l s)" using r(2) d by (simp add: cxl_inv_def cxl_running_def)
    then show ?thesis using assms(3,4) False by (simp add: run)
  next
    case True
    let ?i = "frame res" and ?s1 = "upd_llfree l s"
    have l: "lf_pool N (insert (?i, k) ?U) ?s1" "?i + 2 ^ k \<le> length (pages_of s)" using r(2) True by simp_all
    have off: "block ?i k \<inter> chunk_pages x = {}" if "x \<in> ?U" for x using r(2) True that by simp
    have sh: "cxl_shape ?s1" "pages_of ?s1 = pages_of s" using d(6) by simp_all
    have i: "?i < length (pages_of s)" using l(2) by (rule less_le_trans [rotated]) simp
    have set: "j \<in> set [?i..<?i + 2 ^ k] \<longleftrightarrow> j \<in> block ?i k" for j by auto
    have "\<exists>s2. claim_pages 0 [?i..<?i + 2 ^ k] ?s1 = Some s2 \<and> same_but_pages ?s1 s2 \<and>
      (\<forall>j. j \<notin> set [?i..<?i + 2 ^ k] \<longrightarrow> pages_of s2 ! j = pages_of ?s1 ! j) \<and>
      (\<forall>j \<in> set [?i..<?i + 2 ^ k]. is_allocated (pages_of s2 ! j))"
    proof (rule claim_pages_eval [OF sh(1)])
      fix j assume j: "j \<in> set [?i..<?i + 2 ^ k]"
      then have "j < length (pages_of s)" using l(2) by simp
      moreover have "j \<notin> chunk_pages x" if "x \<in> A" for x using off [of x] that j [unfolded set] by blast
      ultimately show "j < length (pages_of ?s1) \<and> \<not> is_allocated (pages_of ?s1 ! j)"
        using unmarked [OF d(5), of j] unfolding sh(2) by blast
    qed simp
    then obtain s2 where s2: "claim_pages 0 [?i..<?i + 2 ^ k] ?s1 = Some s2" "same_but_pages ?s1 s2"
      "\<And>j. j \<notin> block ?i k \<Longrightarrow> pages_of s2 ! j = pages_of s ! j" "\<And>j. j \<in> block ?i k \<Longrightarrow> is_allocated (pages_of s2 ! j)"
      unfolding set Ball_def sh(2) by blast
    have sh2: "cxl_shape s2" "length (pages_of s2) = length (pages_of s)" "?i < length (pages_of s2)"
      using s2(2) sh(2) i by (simp_all add: same_but_pages_def)
    let ?v = "(pages_of s2 ! ?i)\<lparr>order := int k\<rparr>"
    let ?s3 = "upd_page ?i ?v s2"
    have "buddy_lf_get_pages c 0 (int k) s = Some (Some (0, ?i), ?s3)"
      using assms(3,4) True l(2) s2(1) page_at_eval [OF sh2(1,3)] put_page_eval [OF sh2(1,3)] shapeD(2,6) [OF sh(1)] sh(2)
      by (simp add: run)
    moreover have "(?i, k) \<notin> ?U"
    proof
      assume "(?i, k) \<in> ?U"
      from off [OF this] chunk_first [of "(?i, k)"] show False by auto
    qed
    moreover have "cxl_inv N (insert (?i, k) A) ?s3"
    proof -
      have "marks (insert (?i, k) A) ((pages_of s2)[?i := ?v])"
      proof (rule marks_take [OF d(5) _ l(2)])
        show "block ?i k \<inter> chunk_pages x = {}" if "x \<in> A" for x using off that by blast
        show "is_allocated ((pages_of s2)[?i := ?v] ! j)" if "j \<in> block ?i k" for j
          using s2(4) [OF that] s2(4) [of ?i] sh2(3) by (cases "j = ?i") simp_all
        show "(pages_of s2)[?i := ?v] ! j = pages_of s ! j" if "j \<notin> block ?i k" for j
          using s2(3) [OF that] that by (cases "j = ?i") simp_all
      qed (use sh2 in simp_all)
      moreover have "insert (?i, k) ?U = insert (?i, k) A \<union> {} \<union> cached_chunks (pcp_caches s)" by blast
      moreover have "(insert (?i, k) A \<union> {}) \<inter> cached_chunks (pcp_caches s) = {}"
        using d(3) assms(3) by (auto simp: cached_chunks_def)
      ultimately show ?thesis
        using same_but_pagesD [OF s2(2) l(1)] d(2) sh2(1)
        unfolding cxl_inv_def cxl_running_def by (simp add: lf_pool_def)
    qed
    ultimately show ?thesis by (simp add: lf_get_pages_def)
  qed
qed

lemma lf_get_law:
  assumes "cxl_inv N A s" "cpu_ok c"
  shows "\<exists>r s'. lf_get_pages c (int k) s = Some (r, s') \<and>
    (case r of None \<Rightarrow> cxl_inv N A s' | Some i \<Rightarrow> (i, k) \<notin> A \<and> cxl_inv N (insert (i, k) A) s')"
proof (cases "k \<le> 10")
  case True
  show ?thesis
  proof (cases "k = 0")
    case True
    have "int k = 0" using True by simp
    then show ?thesis using lf_get_page_law [OF assms] True by (simp only:)
  qed (use lf_get_chunk_law [OF assms, of k] True in simp)
next
  case False
  have "lf_ctx_for_pool s 0 = Some (Some 0)" by (rule shapeD(7) [OF runningD(6) [OF assms(1) [unfolded cxl_inv_def]]])
  then have "lf_get_pages c (int k) s = Some (None, s)"
    using False by (simp add: lf_get_pages_def buddy_lf_get_pages_def LLFREE_MAX_ORDER_def)
  then show ?thesis using assms(1) by simp
qed

subsection \<open>Releases\<close>

text \<open>What the invariant says about a chunk of the clients.\<close>

lemma inv_chunk:
  assumes "cxl_inv N A s" "(i, k) \<in> A"
  shows "i + 2 ^ k \<le> length (pages_of s)" "i < length (pages_of s)" "order (pages_of s ! i) = int k" "k \<le> 10" "2 ^ k dvd i"
    "\<And>j. j \<in> block i k \<Longrightarrow> is_allocated (pages_of s ! j)"
    "\<And>x. x \<in> A \<Longrightarrow> x \<noteq> (i, k) \<Longrightarrow> block i k \<inter> chunk_pages x = {}"
proof -
  note d = runningD [OF assms(1) [unfolded cxl_inv_def]]
  let ?U = "A \<union> {} \<union> cached_chunks (pcp_caches s)"
  have h: "held (ll_lower (llfree_of s)) ?U" "frames (ll_lower (llfree_of s)) = length (pages_of s)"
    using d(1) lf_invD(3) by (simp_all add: lf_pool_def)
  have mem: "(i, k) \<in> ?U" using assms(2) by blast
  show l: "i + 2 ^ k \<le> length (pages_of s)" and "k \<le> 10" "2 ^ k dvd i" using heldD(1) [OF h(1) mem] h(2) by (simp_all add: chunk_held_def)
  show "i < length (pages_of s)" using l by (rule less_le_trans [rotated]) simp
  show "order (pages_of s ! i) = int k" using d(5) assms(2) by (force simp: marks_def)
  show "is_allocated (pages_of s ! j)" if "j \<in> block i k" for j
  proof -
    have "j < length (pages_of s)" using that l by simp
    then show ?thesis using d(5) assms(2) that unfolding marks_def by fastforce
  qed
  show "block i k \<inter> chunk_pages x = {}" if "x \<in> A" "x \<noteq> (i, k)" for x
    using heldD(2) [OF h(1) mem, of x] that by simp
qed

lemma lf_free_page_law:
  assumes "cxl_inv N A s" "cpu_ok c" "(i, 0) \<in> A"
  shows "\<exists>s'. lf_free_pages c i s = Some s' \<and> cxl_inv N (A - {(i, 0)}) s'"
proof -
  note d = runningD [OF assms(1) [unfolded cxl_inv_def]]
  note i = inv_chunk [OF assms(1,3)]
  let ?m = "cpu_machine c" and ?c = "cpu_local c" and ?A = "A - {(i, 0)}"
  let ?v = "(pages_of s ! i)\<lparr>flags := 0\<rparr>"
  let ?s1 = "upd_page i ?v s"
  have al: "is_allocated (pages_of s ! i)" by (rule i(6)) simp
  have c: "?c < 12" using assms(2) by (simp add: cpu_ok_def PLAT_CPU_NUM_def)
  have marks: "marks ?A ((pages_of s)[i := ?v])"
    by (rule marks_give [OF d(5) _ assms(3) i(7)]) (use i(2) in \<open>simp_all del: block_mem add: block_page\<close>)
  have U: "A \<union> {} \<union> cached_chunks (pcp_caches s) = ?A \<union> {(i, 0)} \<union> cached_chunks (pcp_caches s)" using assms(3) by blast
  have r1: "cxl_running N ?A {(i, 0)} ?s1"
    unfolding cxl_running_def using d(1) [unfolded U] d(2) d(3) assms(3) marks by (auto simp: lf_pool_def)
  obtain s2 where s2: "(if length (pcp_caches s ?m ! ?c) \<ge> 64 then pcp_drain c 0 0 ?s1 else Some ?s1) = Some s2"
    "cxl_running N ?A {(i, 0)} s2" "length (pcp_caches s2 ?m ! ?c) < 64"
  proof (cases "length (pcp_caches s ?m ! ?c) \<ge> 64")
    case True
    from pcp_drain_rounds_spec [OF r1 assms(2), of 32] obtain s' where s': "pcp_drain_rounds 32 c 0 0 ?s1 = Some s'"
      "cxl_running N ?A {(i, 0)} s'" "length (pcp_caches s' ?m ! ?c) = length (pcp_caches ?s1 ?m ! ?c) - 32" by blast
    have "length (pcp_caches s' ?m ! ?c) < 64" using s'(3) caches_okD(3) [OF d(2) c, of ?m] by simp
    then show thesis using that [of s'] s'(1,2) True by (simp add: pcp_drain_def PCP_BATCH_def)
  qed (use that [of ?s1] r1 in simp)
  have p: "pcp_of c ?s1 = Some (pcp_caches s ?m ! ?c)" "pcp_of c s2 = Some (pcp_caches s2 ?m ! ?c)"
    using pcp_of_eval [OF assms(2) runningD(2) [OF r1]] pcp_of_eval [OF assms(2) runningD(2) [OF s2(2)]] by simp_all
  have "lf_free_pages c i s = Some (set_pcp c ((0, i) # pcp_caches s2 ?m ! ?c) s2)"
    using shapeD(7) [OF d(6)] page_at_eval [OF d(6) i(2)] put_page_eval [OF d(6) i(2)] i(3) al p s2(1,3)
    by (simp add: lf_free_pages_def buddy_lf_free_pages_def check_allocated PCP_SIZE_def)
  then show ?thesis using push_page [OF s2(2) assms(2) s2(3)] by simp
qed

lemma lf_free_chunk_law:
  assumes "cxl_inv N A s" "(i, k) \<in> A" "0 < k"
  shows "\<exists>s'. lf_free_pages c i s = Some s' \<and> cxl_inv N (A - {(i, k)}) s'"
proof -
  note d = runningD [OF assms(1) [unfolded cxl_inv_def]]
  note i = inv_chunk [OF assms(1,2)]
  let ?U = "A \<union> {} \<union> cached_chunks (pcp_caches s)"
  have set: "j \<in> set [i..<i + 2 ^ k] \<longleftrightarrow> j \<in> block i k" for j by auto
  have "\<exists>s1. unclaim_pages 0 [i..<i + 2 ^ k] s = Some s1 \<and> same_but_pages s s1 \<and>
    (\<forall>j. j \<notin> set [i..<i + 2 ^ k] \<longrightarrow> pages_of s1 ! j = pages_of s ! j) \<and>
    (\<forall>j \<in> set [i..<i + 2 ^ k]. \<not> is_allocated (pages_of s1 ! j))"
  proof (rule unclaim_pages_eval [OF d(6)])
    fix j assume j: "j \<in> set [i..<i + 2 ^ k]"
    then have "j < length (pages_of s)" using i(1) by simp
    then show "j < length (pages_of s) \<and> is_allocated (pages_of s ! j)" using i(6) [of j] j [unfolded set] by blast
  qed simp
  then obtain s1 where s1: "unclaim_pages 0 [i..<i + 2 ^ k] s = Some s1" "same_but_pages s s1"
    "\<And>j. j \<notin> block i k \<Longrightarrow> pages_of s1 ! j = pages_of s ! j" "\<And>j. j \<in> block i k \<Longrightarrow> \<not> is_allocated (pages_of s1 ! j)"
    unfolding set Ball_def by blast
  have len: "length (pages_of s1) = length (pages_of s)" "cxl_shape s1" using s1(2) by (simp_all add: same_but_pages_def)
  have marks: "marks (A - {(i, k)}) (pages_of s1)" by (rule marks_give [OF d(5) len(1) assms(2) i(7) s1(3,4)])
  note same = same_but_pagesD [OF s1(2) d(1)]
  have "(i, k) \<in> ?U" using assms(2) by blast
  from lf_return_eval [OF same(1) this, of c] obtain l where l: "lf_return c 0 k i s1 = Some (upd_llfree l s1)"
    "lf_pool N (?U - {(i, k)}) (upd_llfree l s1)" by blast
  have U: "?U - {(i, k)} = A - {(i, k)} \<union> {} \<union> cached_chunks (pcp_caches s)" using assms(2) d(3) by blast
  have "lf_free_pages c i s = Some (upd_llfree l s1)"
    using shapeD(7) [OF d(6)] page_at_eval [OF d(6) i(2)] shapeD(2,6) [OF d(6)] i(1,3,4) assms(3) s1(1) l(1)
    by (simp add: lf_free_pages_def buddy_lf_free_pages_def page_index_def)
  moreover have "cxl_inv N (A - {(i, k)}) (upd_llfree l s1)"
    unfolding cxl_inv_def cxl_running_def using l(2) [unfolded U] same(2) d(2,3) marks len(2) by auto
  ultimately show ?thesis by blast
qed

interpretation lfp: page_allocator "cxl_inv N" "\<lambda>x. cpu_ok (op_context x)" lf_get_pages lf_free_pages for N
proof unfold_locales
  fix A s c k assume "cxl_inv N A s" "cpu_ok (op_context (Acquire c k))"
  then have a: "cxl_inv N A s" "cpu_ok c" by simp_all
  then show "\<exists>r s'. lf_get_pages c (int k) s = Some (r, s') \<and>
    (case r of None \<Rightarrow> cxl_inv N A s' | Some i \<Rightarrow> (i, k) \<notin> A \<and> cxl_inv N (insert (i, k) A) s')" by (rule lf_get_law)
next
  fix A s c m i k assume "cxl_inv N A s" "cpu_ok (op_context (Release c m))" "(i, k) \<in> A"
  then have a: "cxl_inv N A s" "cpu_ok c" "(i, k) \<in> A" by simp_all
  show "\<exists>s'. lf_free_pages c i s = Some s' \<and> cxl_inv N (A - {(i, k)}) s'"
  proof (cases "k = 0")
    case True
    then show ?thesis using lf_free_page_law [OF a(1,2)] a(3) by simp
  qed (use lf_free_chunk_law [OF a(1,3)] in simp)
qed

end
