(* ===== verification/LLFree_Init.thy ===== *)
theory LLFree_Init
  imports LLFree_Ops LLFree_Lower_Init
begin

text \<open>
  Initialisation of the allocator: the counters of the trees are computed from the children,
  no entry holds a reservation, and the result satisfies the invariant.
\<close>

subsection \<open>Counters of the trees\<close>

lemma child_part_card:
  assumes "lower_ok L" "c < length (children L)"
  shows "card {x \<in> lower_free L. x div 512 = c} = child_free (children L ! c)"
proof (cases "c < child_count L")
  case True
  let ?F = "child_frames (children L ! c) (bitfields L ! c)"
  have ok: "child_ok (children L ! c) (bitfields L ! c)" by (rule lower_okD(4) [OF assms(1) True])
  have e: "{x \<in> lower_free L. x div 512 = c} = (\<lambda>y. 512 * c + y) ` ?F"
  proof (rule set_eqI)
    fix x :: nat
    have "x \<in> (\<lambda>y. 512 * c + y) ` ?F \<longleftrightarrow> x div 512 = c \<and> x mod 512 \<in> ?F"
    proof
      assume "x \<in> (\<lambda>y. 512 * c + y) ` ?F"
      then obtain y where y: "x = 512 * c + y" "y \<in> ?F" by blast
      then have "y < 512" using child_frames_card(2) [OF ok] by auto
      then show "x div 512 = c \<and> x mod 512 \<in> ?F" using y by simp
    next
      assume "x div 512 = c \<and> x mod 512 \<in> ?F"
      then show "x \<in> (\<lambda>y. 512 * c + y) ` ?F" using mult_div_mod_eq [of 512 x] by (intro image_eqI [of _ _ "x mod 512"]) auto
    qed
    then show "x \<in> {x \<in> lower_free L. x div 512 = c} \<longleftrightarrow> x \<in> (\<lambda>y. 512 * c + y) ` ?F"
      using True by (auto simp: lower_free_def)
  qed
  have "card ((\<lambda>y. 512 * c + y) ` ?F) = card ?F" by (rule card_image) simp
  then show ?thesis using e child_frames_card(1) [OF ok] by simp
next
  case False
  then have "{x \<in> lower_free L. x div 512 = c} = {}" by (auto simp: lower_free_def)
  moreover have "children L ! c = \<lparr>child_free = 0, child_huge = True\<rparr>"
    by (rule lower_okD(5) [OF assms(1)]) (use False assms(2) in simp_all)
  ultimately show ?thesis by (simp add: card_eq_0_iff)
qed

lemma sum_children_card:
  assumes "lower_ok L" "\<And>c. c \<in> set cs \<Longrightarrow> c < length (children L)" "distinct cs"
  shows "sum_children L cs = Some (card {x \<in> lower_free L. x div 512 \<in> set cs})"
  using assms(2,3)
proof (induction cs)
  case (Cons c cs)
  let ?A = "{x \<in> lower_free L. x div 512 = c}" and ?B = "{x \<in> lower_free L. x div 512 \<in> set cs}"
  have "lower_free L \<subseteq> {..<frames L}" using lower_okD(6) [OF assms(1)] by blast
  then have fin: "finite (lower_free L)" by (rule finite_subset) simp
  have c: "c < length (children L)" using Cons.prems(1) by simp
  have s: "{x \<in> lower_free L. x div 512 \<in> set (c # cs)} = ?A \<union> ?B" by auto
  have "?A \<inter> ?B = {}" using Cons.prems(2) by auto
  then have "card (?A \<union> ?B) = card ?A + card ?B" by (intro card_Un_disjoint) (simp_all add: fin)
  moreover have "sum_children L cs = Some (card ?B)" by (rule Cons.IH) (use Cons.prems in simp_all)
  then have "sum_children L (c # cs) = Some (child_free (children L ! c) + card ?B)" using c by simp
  ultimately show ?case unfolding s using child_part_card [OF assms(1) c] by simp
qed simp

lemma init_tree_cb_count:
  assumes "lower_ok L" "i * 4096 < frames L"
  shows "init_tree_cb L (i * LLFREE_TREE_SIZE) = Some (tree_count L i)"
proof -
  have "i * 4096 div 512 < child_count L" by (rule frame_child_bound [OF assms(2)])
  then have "i * 8 < child_count L" by simp
  then have "Suc i * 8 \<le> child_count L + 7" by simp
  then have "Suc i \<le> (child_count L + 7) div 8" by (simp only: less_eq_div_iff_mult_less_eq zero_less_numeral)
  from mult_le_mono1 [OF this, of 8] have "Suc i * 8 \<le> align_up (child_count L) 8" by (simp add: align_up_def add.commute)
  then have le: "i * 8 + 8 \<le> align_up (child_count L) 8" by simp
  have b: "c < length (children L)" if "c \<in> set [i * 8..<i * 8 + 8]" for c
  proof -
    have "c < i * 8 + 8" using that unfolding set_upt atLeastLessThan_iff by blast
    then show ?thesis unfolding lower_okD(3) [OF assms(1)] using le by (rule less_le_trans)
  qed
  have d8: "y div 8 = i \<longleftrightarrow> i * 8 \<le> y \<and> y < i * 8 + 8" for y :: nat
  proof
    assume "y div 8 = i"
    then show "i * 8 \<le> y \<and> y < i * 8 + 8" using mult_div_mod_eq [of 8 y] mod_less_divisor [of 8 y] by linarith
  next
    assume "i * 8 \<le> y \<and> y < i * 8 + 8"
    then show "y div 8 = i" by (intro div_nat_eqI) simp_all
  qed
  have "x div 512 \<in> set [i * 8..<i * 8 + 8] \<longleftrightarrow> tree_from_frame x = i" for x
  proof -
    have "x div 4096 = x div 512 div 8" using div_mult2_eq [of x 512 8] by simp
    moreover note d8 [of "x div 512"]
    ultimately show ?thesis unfolding tree_from_frame_def llfree_sizes set_upt atLeastLessThan_iff by simp
  qed
  then have "sum_children L [i * 8..<i * 8 + 8] = Some (tree_count L i)"
    unfolding tree_count_def using sum_children_card [OF assms(1) b distinct_upt] by simp
  then show ?thesis unfolding init_tree_cb_def Let_def llfree_sizes by simp
qed

subsection \<open>Trees and local entries\<close>

lemma trees_init_entries_spec:
  assumes "\<And>i. i \<in> set is \<Longrightarrow> i < length es \<and> (\<exists>c \<le> 4096. fn (i * LLFREE_TREE_SIZE) = Some c)" "dt < 8" "distinct is"
  shows "\<exists>es'. trees_init_entries fn dt is es = Some es' \<and> length es' = length es \<and>
    (\<forall>i. es' ! i = (if i \<in> set is then \<lparr>tree_reserved = False, tree_tier = dt, tree_free = the (fn (i * LLFREE_TREE_SIZE))\<rparr> else es ! i))"
  using assms(1,3)
proof (induction "is" arbitrary: es)
  case (Cons i "is")
  obtain c where c: "c \<le> 4096" "fn (i * LLFREE_TREE_SIZE) = Some c" "i < length es" using Cons.prems(1) [of i] by auto
  let ?t = "\<lparr>tree_reserved = False, tree_tier = dt, tree_free = c\<rparr>"
  have t: "tree_new False dt c = Some ?t" using c(1) assms(2) by (simp add: tree_new_def)
  have "\<exists>es'. trees_init_entries fn dt is (es[i := ?t]) = Some es' \<and> length es' = length (es[i := ?t]) \<and>
    (\<forall>j. es' ! j = (if j \<in> set is then \<lparr>tree_reserved = False, tree_tier = dt, tree_free = the (fn (j * LLFREE_TREE_SIZE))\<rparr>
       else (es[i := ?t]) ! j))"
    by (rule Cons.IH) (use Cons.prems in simp_all)
  then obtain es' where e: "trees_init_entries fn dt is (es[i := ?t]) = Some es'" "length es' = length es"
    "\<And>j. es' ! j = (if j \<in> set is then \<lparr>tree_reserved = False, tree_tier = dt, tree_free = the (fn (j * LLFREE_TREE_SIZE))\<rparr>
       else (es[i := ?t]) ! j)" by auto
  have "trees_init_entries fn dt (i # is) es = Some es'" using c t e(1) unfolding trees_init_entries.simps by simp
  moreover have "es' ! j = (if j \<in> set (i # is) then \<lparr>tree_reserved = False, tree_tier = dt, tree_free = the (fn (j * LLFREE_TREE_SIZE))\<rparr>
       else es ! j)" for j
    unfolding e(3) using c Cons.prems(2) by (cases "j = i") auto
  ultimately show ?case using e(2) by blast
qed simp

lemma trees_init_spec:
  assumes "lower_ok L" "frames L = n" "div_ceil n 4096 \<le> length es" "dt < 8"
  shows "\<exists>T. trees_init n es (Some (init_tree_cb L)) dt = Some T \<and> trees_len T = div_ceil n 4096 \<and>
    trees_len T \<le> length (entries T) \<and>
    (\<forall>tr < trees_len T. \<not> tree_reserved (entries T ! tr) \<and> tree_free (entries T ! tr) = tree_count L tr)"
proof -
  have c: "init_tree_cb L (i * LLFREE_TREE_SIZE) = Some (tree_count L i)" if "i < div_ceil n 4096" for i
    by (rule init_tree_cb_count [OF assms(1)]) (use that tree_in_range assms(2) in simp)
  have "\<exists>es'. trees_init_entries (init_tree_cb L) dt [0..<div_ceil n 4096] es = Some es' \<and> length es' = length es \<and>
    (\<forall>i. es' ! i = (if i \<in> set [0..<div_ceil n 4096] then \<lparr>tree_reserved = False, tree_tier = dt,
       tree_free = the (init_tree_cb L (i * LLFREE_TREE_SIZE))\<rparr> else es ! i))"
  proof (rule trees_init_entries_spec [OF _ assms(4) distinct_upt])
    fix i assume "i \<in> set [0..<div_ceil n 4096]"
    then have i: "i < div_ceil n 4096" by simp
    then show "i < length es \<and> (\<exists>c \<le> 4096. init_tree_cb L (i * LLFREE_TREE_SIZE) = Some c)"
      unfolding c [OF i] using assms(3) tree_count_le by auto
  qed
  then obtain es' where e: "trees_init_entries (init_tree_cb L) dt [0..<div_ceil n 4096] es = Some es'" "length es' = length es"
    "\<And>i. i < div_ceil n 4096 \<Longrightarrow> es' ! i = \<lparr>tree_reserved = False, tree_tier = dt, tree_free = tree_count L i\<rparr>"
    using c by auto
  then show ?thesis using assms(3) by (simp add: trees_init_def)
qed

lemma init_tiers_spec:
  assumes "\<And>i. i \<in> set is \<Longrightarrow> i < length ts \<and> fst (ts ! i) < length lts"
    and "\<And>t es e. t < length lts \<Longrightarrow> lts ! t = Some es \<Longrightarrow> e \<in> set es \<Longrightarrow> \<not> res_present (preferred e)"
  shows "\<exists>lts'. init_tiers ts is lts = Some lts' \<and> length lts' = length lts \<and>
    (\<forall>t < length lts'. \<forall>es e. lts' ! t = Some es \<longrightarrow> e \<in> set es \<longrightarrow> \<not> res_present (preferred e))"
  using assms
proof (induction "is" arbitrary: lts)
  case (Cons i "is")
  obtain t count where tc: "ts ! i = (t, count)" by fastforce
  have i: "i < length ts" "t < length lts" using Cons.prems(1) [of i] tc by auto
  let ?e = "\<lparr>preferred = \<lparr>res_present = False, res_free = 0, res_row = 0\<rparr>, last_history = \<lparr>history_idx = 0, history_frees = 0\<rparr>\<rparr>"
  have e: "new_entry = Some ?e" by (simp add: new_entry_def ll_reserved_new_def)
  have "\<exists>lts'. init_tiers ts is (lts[t := Some (replicate count ?e)]) = Some lts' \<and>
      length lts' = length (lts[t := Some (replicate count ?e)]) \<and>
      (\<forall>t < length lts'. \<forall>es e. lts' ! t = Some es \<longrightarrow> e \<in> set es \<longrightarrow> \<not> res_present (preferred e))"
  proof (rule Cons.IH)
    show "j < length ts \<and> fst (ts ! j) < length (lts[t := Some (replicate count ?e)])" if "j \<in> set is" for j
      using Cons.prems(1) [of j] that by simp
    show "\<not> res_present (preferred e)" if "t' < length (lts[t := Some (replicate count ?e)])"
      "lts[t := Some (replicate count ?e)] ! t' = Some es" "e \<in> set es" for t' es e
      using that Cons.prems(2) [of t' es e] i(2) by (cases "t' = t") auto
  qed
  moreover have "init_tiers ts (i # is) lts = init_tiers ts is (lts[t := Some (replicate count ?e)])"
    unfolding init_tiers.simps e using tc i by simp
  ultimately show ?case by simp
qed simp

subsection \<open>The whole structure\<close>

text \<open>A tiering whose tiers exist.\<close>

definition tiering_ok :: "llfree_tiering \<Rightarrow> bool" where
  "tiering_ok c \<longleftrightarrow> 1 \<le> num_tiers c \<and> num_tiers c \<le> LLFREE_MAX_TIERS \<and> num_tiers c \<le> length (tiers c) \<and>
     (\<forall>i < num_tiers c. fst (tiers c ! i) < LLFREE_MAX_TIERS) \<and> default_tier c < LLFREE_MAX_TIERS"

lemma tiering_simple_ok: "tiering_ok (llfree_tiering_simple cores)"
  by (auto simp: tiering_ok_def llfree_tiering_simple_def less_Suc_eq numeral_2_eq_2)

lemma tier_total_ok: "(\<And>i. i \<in> set is \<Longrightarrow> i < length ts) \<Longrightarrow> \<exists>n. tier_total ts is = Some n"
proof (induction "is")
  case (Cons i "is")
  obtain t count where "ts ! i = (t, count)" by fastforce
  then show ?case using Cons by auto
qed simp

lemma ll_local_init_spec:
  assumes "tiering_ok c" "a \<noteq> 0" "a mod 64 = 0"
  shows "\<exists>lc. ll_local_init a c = Some lc \<and> length (local_tiers lc) = 8 \<and>
    (\<forall>t i r. res_at lc t i = Some r \<longrightarrow> \<not> res_present r)"
proof -
  let ?is = "[0..<num_tiers c]"
  have at: "i < length (tiers c) \<and> fst (tiers c ! i) < 8" if "i \<in> set ?is" for i
    using that assms(1) by (auto simp: tiering_ok_def)
  obtain n where n: "tier_total (tiers c) ?is = Some n" using tier_total_ok [of ?is "tiers c"] at by blast
  have "\<exists>lts. init_tiers (tiers c) ?is (replicate 8 None) = Some lts \<and> length lts = length (replicate 8 (None :: entry list option)) \<and>
    (\<forall>t < length lts. \<forall>es e. lts ! t = Some es \<longrightarrow> e \<in> set es \<longrightarrow> \<not> res_present (preferred e))"
    by (rule init_tiers_spec) (use at in \<open>auto simp: nth_replicate simp del: replicate.simps\<close>)
  then obtain lts where l: "init_tiers (tiers c) ?is (replicate 8 None) = Some lts" "length lts = 8"
    "\<And>t es e. t < 8 \<Longrightarrow> lts ! t = Some es \<Longrightarrow> e \<in> set es \<Longrightarrow> \<not> res_present (preferred e)" by auto
  let ?lc = "\<lparr>local_len = n, local_num_tiers = num_tiers c mod 2 ^ 8, local_tiers = lts\<rparr>"
  have "ll_local_init a c = Some ?lc" unfolding ll_local_init_def llfree_sizes using assms(2,3) n l(1) by simp
  moreover have "\<not> res_present r" if "res_at ?lc t i = Some r" for t i r
    using that l(2,3) by (auto simp: res_at_def entry_at_Some)
  ultimately show ?thesis using l(2) by auto
qed

lemma llfree_init_spec:
  assumes c: "tiering_ok c" and meta: "check_meta meta sizes" "llfree_metadata_size c n = Some sizes" "meta_local meta \<noteq> 0"
    and n: "4096 \<le> n" "n \<le> 2 ^ 28" and buf: "div_ceil n 4096 \<le> length (mem_trees mem)"
    and init: "init < LLFREE_INIT_MAX" "init \<noteq> LLFREE_INIT_NONE"
    and low: "lower_init (mem_fields mem) (mem_children mem) n init = Some (llfree_err LLFREE_ERR_OK, L)" "lower_ok L" "frames L = n"
  shows "\<exists>S. llfree_init S0 n init meta mem c = Some (llfree_ok 0 0, S) \<and> llfree_inv S \<and> ll_lower S = L \<and>
    ll_policy S = tiering_policy c \<and> Some (ll_local S) = ll_local_init (meta_local meta) c"
proof -
  obtain T where T: "trees_init n (mem_trees mem) (Some (init_tree_cb L)) (default_tier c) = Some T" "trees_len T = div_ceil n 4096"
    "trees_len T \<le> length (entries T)"
    "\<And>tr. tr < trees_len T \<Longrightarrow> \<not> tree_reserved (entries T ! tr) \<and> tree_free (entries T ! tr) = tree_count L tr"
    using trees_init_spec [OF low(2,3) buf, of "default_tier c"] c by (auto simp: tiering_ok_def)
  have "meta_local meta mod 64 = 0" using meta(1) by (auto simp: check_meta_def split: if_splits)
  from ll_local_init_spec [OF c meta(3) this] obtain lc where lc: "ll_local_init (meta_local meta) c = Some lc"
    "length (local_tiers lc) = 8" "\<And>t i r. res_at lc t i = Some r \<Longrightarrow> \<not> res_present r" by auto
  let ?S = "S0\<lparr>ll_lower := L, ll_trees := T, ll_local := lc, ll_policy := tiering_policy c, ll_num_tiers := num_tiers c mod 2 ^ 8\<rparr>"
  have "accounts (trees_len T) (tree_count L) (entries T) (res_at lc)"
    unfolding accounts_def using T(3,4) lc(3) by blast
  then have "llfree_inv ?S" using low(2,3) T(2) lc(2,3) by (auto simp: llfree_inv_def)
  moreover have "llfree_init S0 n init meta mem c = Some (llfree_ok 0 0, ?S)"
    using c meta(1,2) n init low(1) T(1) lc(1) by (simp add: llfree_init_def tiering_ok_def)
  ultimately show ?thesis using lc(1) by simp
qed

end
