(* ===== verification/Layout_Fix.thy ===== *)
theory Layout_Fix
  imports CXL_Layout
begin

text \<open>
  The search for the number of frames. The room left for data shrinks as the number of frames
  grows, by at most one page for a few frames and by a sixteenth of the difference in general, so
  the estimates close in on the number that fits itself, if there is one.
\<close>

subsection \<open>Growth of the metadata\<close>

lemma align_up_mono: "x \<le> y \<Longrightarrow> align_up x a \<le> align_up y a"
  by (simp add: align_up_def div_le_mono)

lemma div_ceil_mono: "x \<le> y \<Longrightarrow> div_ceil x a \<le> div_ceil y a"
  by (simp add: div_ceil_def div_le_mono)

lemma div_ceil_mult_bounds: "0 < a \<Longrightarrow> x \<le> div_ceil x a * a" "0 < a \<Longrightarrow> div_ceil x a * a < x + a"
  using align_up_bounds [of a x] by (simp_all add: align_up_def div_ceil_def)

lemma sizes_mono:
  assumes "n \<le> m"
  shows "trees_metadata_size n \<le> trees_metadata_size m" "lower_metadata_size n \<le> lower_metadata_size m"
  unfolding trees_metadata_size_def lower_metadata_size_def Let_def
  by (intro align_up_mono div_ceil_mono add_mono mult_le_mono1 mult_le_mono2 assms)+

lemma sizes_grow:
  "trees_metadata_size (n + d) + lower_metadata_size (n + d) \<le> trees_metadata_size n + lower_metadata_size n + d + 280"
proof -
  let ?c = "div_ceil n 512" and ?c' = "div_ceil (n + d) 512"
  have t: "trees_metadata_size (n + d) \<le> trees_metadata_size n + 4 * div_ceil (n + d) 4096 - 4 * div_ceil n 4096 + 64"
    using align_up_bounds [of 64 "4 * div_ceil n 4096"] align_up_bounds [of 64 "4 * div_ceil (n + d) 4096"]
    by (simp add: trees_metadata_size_def)
  have a: "align_up (x * 64) 64 = x * 64" for x :: nat by (simp add: align_up_def)
  have l: "lower_metadata_size k = div_ceil k 512 * 64 + div_ceil (div_ceil k 512) 8 * 64" for k
    by (simp add: lower_metadata_size_def Let_def a)
  note b = div_ceil_mult_bounds [of 4096 n] div_ceil_mult_bounds [of 4096 "n + d"] div_ceil_mult_bounds [of 512 n]
    div_ceil_mult_bounds [of 512 "n + d"] div_ceil_mult_bounds [of 8 ?c] div_ceil_mult_bounds [of 8 ?c']
  show ?thesis using t b unfolding l by simp
qed

subsection \<open>The room for data\<close>

text \<open>The frames that fit behind the metadata for \<open>n\<close> frames.\<close>

definition fit_of :: "nat \<Rightarrow> nat \<Rightarrow> nat \<Rightarrow> nat \<Rightarrow> nat" where
  "fit_of s locals e n = fit_frames_of (data_phys (layout_at s locals n)) e"

lemma data_phys_at:
  "data_phys (layout_at s locals n) =
     align_up (align_up (s + 128 + (192 + 256 * locals) + trees_metadata_size n + lower_metadata_size n) 16 + n * 152) 4096"
  by (simp add: layout_at_def Let_def)

lemma data_mono: "n \<le> m \<Longrightarrow> data_phys (layout_at s locals n) \<le> data_phys (layout_at s locals m)"
  unfolding data_phys_at by (intro align_up_mono add_mono mult_le_mono1 sizes_mono order_refl)

lemma align_up_add: "0 < a \<Longrightarrow> align_up (x + q * a) a = align_up x a + q * a"
proof -
  assume a: "0 < a"
  then have e: "x + q * a + a - 1 = x + a - 1 + q * a" by linarith
  have "(x + a - 1 + q * a) div a = q + (x + a - 1) div a" using a by (intro div_mult_self1) simp
  then show ?thesis unfolding align_up_def e by (simp add: add_mult_distrib)
qed

lemma data_grow:
  "data_phys (layout_at s locals (n + d)) \<le> data_phys (layout_at s locals n) + div_ceil (153 * d + 300) 4096 * 4096"
proof -
  let ?x = "\<lambda>k. s + 128 + (192 + 256 * locals) + trees_metadata_size k + lower_metadata_size k"
  have "align_up (?x (n + d)) 16 \<le> align_up (?x n) 16 + d + 300"
    using align_up_bounds [of 16 "?x n"] align_up_bounds [of 16 "?x (n + d)"] sizes_grow [of n d] by simp
  then have "align_up (?x (n + d)) 16 + (n + d) * 152 \<le> align_up (?x n) 16 + n * 152 + div_ceil (153 * d + 300) 4096 * 4096"
    using div_ceil_mult_bounds(1) [of 4096 "153 * d + 300"] by simp
  from align_up_mono [OF this, of 4096] show ?thesis unfolding data_phys_at align_up_add [OF zero_less_numeral] .
qed

lemma fit_antimono: "n \<le> m \<Longrightarrow> fit_of s locals e m \<le> fit_of s locals e n"
  unfolding fit_of_def fit_frames_of_def by (intro min.mono order_refl div_le_mono diff_le_mono2 data_mono)

lemma fit_close: "fit_of s locals e n \<le> fit_of s locals e (n + d) + d div 16 + 1"
proof -
  let ?q = "div_ceil (153 * d + 300) 4096"
  let ?a = "data_phys (layout_at s locals n)" and ?b = "data_phys (layout_at s locals (n + d))"
  have "e - ?a \<le> e - ?b + ?q * 4096" using data_grow [of s locals n d] by linarith
  from div_le_mono [OF this, of 4096] have "(e - ?a) div 4096 \<le> (e - ?b) div 4096 + ?q" by simp
  moreover have "?q \<le> d div 16 + 1"
  proof -
    define a b where ab: "a = d div 16" "b = d mod 16"
    have "d = a * 16 + b" "b < 16" unfolding ab by simp_all
    then have "153 * d + 300 + 4096 - 1 < (d div 16 + 2) * 4096" unfolding ab(1) [symmetric] by simp
    then have "?q < d div 16 + 2" unfolding div_ceil_def by (simp add: div_less_iff_less_mult)
    then show ?thesis by simp
  qed
  ultimately show ?thesis unfolding fit_of_def fit_frames_of_def by linarith
qed

lemma fit_bound: "fit_of s locals e n \<le> fit_frames_of s e"
proof -
  have "s \<le> data_phys (layout_at s locals n)"
    unfolding data_phys_at using align_up_bounds(1) [of 16] align_up_bounds(1) [of 4096] by (meson le_add1 order_trans zero_less_numeral)
  then show ?thesis unfolding fit_of_def fit_frames_of_def by (intro min.mono order_refl div_le_mono diff_le_mono2)
qed

subsection \<open>Convergence\<close>

lemma fit_nearer:
  assumes "fit_of s locals e p = p" "n \<le> p + r" "p \<le> n + r"
  shows "fit_of s locals e n \<le> p + (r div 16 + 1)" "p \<le> fit_of s locals e n + (r div 16 + 1)"
proof -
  have "fit_of s locals e n \<le> p + (r div 16 + 1) \<and> p \<le> fit_of s locals e n + (r div 16 + 1)"
  proof (cases "n \<le> p")
    case True
    then obtain d where d: "p = n + d" using le_Suc_ex by blast
    have "d div 16 \<le> r div 16" using assms(3) d by (intro div_le_mono) simp
    then show ?thesis using fit_close [of s locals e n d] fit_antimono [OF True, of s locals e] assms(1) d by simp
  next
    case False
    then obtain d where d: "n = p + d" using le_Suc_ex [of p n] by auto
    have "d div 16 \<le> r div 16" using assms(2) d by (intro div_le_mono) simp
    then show ?thesis using fit_close [of s locals e p d] fit_antimono [of p n s locals e] False assms(1) d by simp
  qed
  then show "fit_of s locals e n \<le> p + (r div 16 + 1)" "p \<le> fit_of s locals e n + (r div 16 + 1)" by blast+
qed

lemma fit_twice:
  assumes "fit_of s locals e p = p" "n \<le> p + 1" "p \<le> n + 1"
  shows "fit_of s locals e (fit_of s locals e n) = p"
proof -
  let ?f = "fit_of s locals e"
  note f = fit_nearer [OF assms]
  have near: "?f n = p \<or> ?f n = p + 1 \<or> ?f n + 1 = p" using f by (simp, linarith)
  have two: "?f (p - 1) \<le> ?f (p + 1) + 1" using fit_close [of s locals e "p - 1" "p + 1 - (p - 1)"] by (cases p) simp_all
  have hi: "?f (p + 1) \<le> p" and lo: "p \<le> ?f (p - 1)" using fit_antimono [of p "p + 1" s locals e] fit_antimono [of "p - 1" p s locals e] assms(1) by simp_all
  consider "n = p" | "n = p + 1" | "n = p - 1" using assms(2,3) by linarith
  then show ?thesis
  proof cases
    case 1
    then show ?thesis using assms(1) by simp
  next
    case 2
    then consider "?f n = p" | "?f n = p - 1" "?f (p + 1) = p - 1" "0 < p" using near hi by fastforce
    then show ?thesis using assms(1) two lo by cases auto
  next
    case 3
    then consider "?f n = p" | "?f n = p + 1" "?f (p - 1) = p + 1" using near lo by fastforce
    then show ?thesis using assms(1) two hi by cases auto
  qed
qed

lemma fit_unique:
  assumes "fit_of s locals e p = p" "fit_of s locals e n = n"
  shows "n = p"
  using fit_antimono [of n p s locals e] fit_antimono [of p n s locals e] assms by linarith

lemma loop_step:
  assumes "s \<le> 2 ^ 52" "locals \<le> 2 ^ 32" "4096 \<le> fit_of s locals e (fit_frames_of s e)" "n \<le> fit_frames_of s e"
  shows "layout_loop (Suc k) s e (llfree_tiering_simple locals) n =
    (if fit_of s locals e n = n then Some (Some (layout_at s locals n))
     else layout_loop k s e (llfree_tiering_simple locals) (fit_of s locals e n))"
proof -
  have n: "n \<le> 2 ^ 28" using assms(4) by (simp add: fit_frames_of_def)
  have "\<not> fit_of s locals e n < 4096" using fit_antimono [OF assms(4), of s locals e] assms(3) by linarith
  then show ?thesis using layout_round_exact [OF assms(1,2) n, of e] by (simp add: Let_def fit_of_def)
qed

lemma loop_near:
  assumes "s \<le> 2 ^ 52" "locals \<le> 2 ^ 32" "4096 \<le> fit_of s locals e (fit_frames_of s e)" "n \<le> fit_frames_of s e"
    and "fit_of s locals e p = p" "n \<le> p + 1" "p \<le> n + 1"
  shows "layout_loop (k + 3) s e (llfree_tiering_simple locals) n = Some (Some (layout_at s locals p))"
proof -
  let ?f = "fit_of s locals e"
  note step = loop_step [OF assms(1-3)]
  have two: "?f (?f n) = p" by (rule fit_twice [OF assms(5-7)])
  have le: "?f n \<le> fit_frames_of s e" "p \<le> fit_frames_of s e" using fit_bound [of s locals e] assms(5) by (metis, metis)
  have last: "layout_loop (Suc k) s e (llfree_tiering_simple locals) p = Some (Some (layout_at s locals p))"
    using step [OF le(2), of k] assms(5) by simp
  have "layout_loop (Suc (Suc k)) s e (llfree_tiering_simple locals) (?f n) = Some (Some (layout_at s locals p))"
    using step [OF le(1), of "Suc k"] two last by (auto split: if_splits simp del: layout_loop.simps)
  moreover have "n = p" if "?f n = n" using that two by simp
  ultimately have "layout_loop (Suc (Suc (Suc k))) s e (llfree_tiering_simple locals) n = Some (Some (layout_at s locals p))"
    using step [OF assms(4), of "Suc (Suc k)"] by (auto simp del: layout_loop.simps)
  then show ?thesis by (simp add: numeral_3_eq_3)
qed

lemma loop_converges:
  assumes "s \<le> 2 ^ 52" "locals \<le> 2 ^ 32" "4096 \<le> fit_of s locals e (fit_frames_of s e)" "n \<le> fit_frames_of s e"
    and "fit_of s locals e p = p" "n \<le> p + (16 ^ j + 1)" "p \<le> n + (16 ^ j + 1)"
  shows "layout_loop (k + 3 + Suc j) s e (llfree_tiering_simple locals) n = Some (Some (layout_at s locals p))"
  using assms(4,6,7)
proof (induction j arbitrary: n)
  case 0
  let ?m = "fit_of s locals e n"
  have "?m \<le> p + 1" "p \<le> ?m + 1" using fit_nearer [OF assms(5), of n 2] 0 by simp_all
  from loop_near [OF assms(1-3) fit_bound assms(5) this, of k] show ?case
    using loop_step [OF assms(1-3) 0(1), of "k + 3"] fit_unique [OF assms(5), of n] by (auto simp del: layout_loop.simps)
next
  case (Suc j)
  let ?m = "fit_of s locals e n"
  have d: "(16 ^ Suc j + 1) div 16 = (16 :: nat) ^ j" by simp
  have "?m \<le> p + (16 ^ j + 1)" "p \<le> ?m + (16 ^ j + 1)" using fit_nearer [OF assms(5) Suc.prems(2,3)] unfolding d by simp_all
  from Suc.IH [OF fit_bound this] show ?case
    using loop_step [OF assms(1-3) Suc.prems(1), of "k + 3 + Suc j"] fit_unique [OF assms(5), of n]
    by (auto simp del: layout_loop.simps)
qed

subsection \<open>The layout\<close>

lemma compute_layout_loop:
  assumes "b \<le> 2 ^ 52" "4096 \<le> fit_frames_of (align_up a 64) b"
  shows "compute_llfree_layout a b locals =
    layout_loop 64 (align_up a 64) b (llfree_tiering_simple locals) (fit_frames_of (align_up a 64) b)"
    "align_up a 64 < b"
proof -
  let ?s = "align_up a 64"
  have "?s + 4096 * 4096 \<le> b" using fit_frames_end [OF refl, of ?s b] assms(2) by simp
  then have s: "?s < b" "a < b" using align_up_bounds(1) [of 64 a] by simp_all
  have "a + 64 \<le> 2 ^ 64" using s(2) assms(1) by simp
  then have e: "align_up_u64 a 64 = ?s" by (rule align_up_u64_eq) simp
  have "\<not> (b - ?s) div 4096 < 4096" using assms(2) by (simp add: fit_frames_of_def)
  then show "compute_llfree_layout a b locals =
      layout_loop 64 ?s b (llfree_tiering_simple locals) (fit_frames_of ?s b)"
    using s unfolding compute_llfree_layout_def llfree_sizes e
    by (simp add: Let_def PAGE_BYTES_def LLFREE_MIN_PAGES_def LLFREE_MAX_PAGES_def fit_frames_of_def min_def del: layout_loop.simps)
  show "?s < b" by (rule s(1))
qed

lemma layout_sound:
  assumes "compute_llfree_layout a b locals = Some (Some out)" "b \<le> 2 ^ 52" "locals \<le> 2 ^ 32"
  shows "\<exists>m. 4096 \<le> m \<and> m \<le> 2 ^ 28 \<and> out = layout_at (align_up a 64) locals m \<and> fit_of (align_up a 64) locals b m = m"
proof -
  let ?s = "align_up a 64"
  have ab: "a < b" "align_up_u64 a 64 < b" using assms(1) by (auto simp: compute_llfree_layout_def Let_def split: if_splits)
  have "a + 64 \<le> 2 ^ 64" using ab(1) assms(2) by simp
  then have e: "align_up_u64 a 64 = ?s" by (rule align_up_u64_eq) simp
  have s: "?s \<le> 2 ^ 52" using ab(2) assms(2) unfolding e by simp
  let ?n = "fit_frames_of ?s b"
  have n: "?n \<le> 2 ^ 28" "layout_loop 64 ?s b (llfree_tiering_simple locals) ?n = Some (Some out)"
    using assms(1) unfolding compute_llfree_layout_def llfree_sizes e fit_frames_of_def
    by (auto simp: Let_def PAGE_BYTES_def LLFREE_MIN_PAGES_def LLFREE_MAX_PAGES_def min_def split: if_splits simp del: layout_loop.simps)
  from layout_loop_result [OF s assms(3) n(1), of 64 b] n(2) show ?thesis unfolding fit_of_def by auto
qed

lemma layout_found:
  assumes "b \<le> 2 ^ 52" "locals \<le> 2 ^ 32" "4096 \<le> fit_of (align_up a 64) locals b (fit_frames_of (align_up a 64) b)"
    and "fit_of (align_up a 64) locals b m = m"
  shows "compute_llfree_layout a b locals = Some (Some (layout_at (align_up a 64) locals m))"
proof -
  let ?s = "align_up a 64"
  have n: "4096 \<le> fit_frames_of ?s b" using assms(3) fit_bound [of ?s locals b] order_trans by blast
  note c = compute_layout_loop [OF assms(1) n]
  have s: "?s \<le> 2 ^ 52" using c(2) assms(1) by simp
  have m: "m \<le> fit_frames_of ?s b" "fit_frames_of ?s b \<le> 2 ^ 28" using fit_bound [of ?s locals b m] assms(4) by (simp_all add: fit_frames_of_def)
  have "layout_loop (53 + 3 + Suc 7) ?s b (llfree_tiering_simple locals) (fit_frames_of ?s b) = Some (Some (layout_at ?s locals m))"
    by (rule loop_converges [OF s assms(2,3) order_refl assms(4)]) (use m in simp_all)
  then show ?thesis unfolding c(1) by (simp del: layout_loop.simps)
qed

end
