(* ===== verification/CXL_Boot.thy ===== *)
theory CXL_Boot
  imports CXL_Ops LLFree_Init Layout_Fix
begin

text \<open>
  The initialisation of the page allocator on llfree establishes its invariant: the layout gives
  llfree disjoint and aligned metadata, and llfree starts with all frames free.
\<close>

lemma phys_to_virt_exact: "x < 2 ^ 40 \<Longrightarrow> phys_to_virt x = x + KBASE"
  by (simp add: phys_to_virt_def KBASE_def)

lemma kbase_dvd: "64 dvd KBASE"
  by (simp add: KBASE_def)

lemma layout_meta_ok:
  assumes "layout_parts lo hi l" "hi \<le> 2 ^ 40" "layout_frames l \<noteq> 0"
  defines "meta \<equiv> \<lparr>meta_local = phys_to_virt (local_phys l), meta_trees = phys_to_virt (trees_phys l),
     meta_lower = phys_to_virt (lower_phys l)\<rparr>"
  shows "check_meta meta (layout_meta l)" "meta_local meta \<noteq> 0"
proof -
  note p = assms(1) [unfolded layout_parts_def Let_def PAGE_BYTES_def]
  have lt: "local_phys l < 2 ^ 40" "trees_phys l < 2 ^ 40" "lower_phys l < 2 ^ 40" using p assms(2,3) by linarith+
  note v = phys_to_virt_exact [OF lt(1)] phys_to_virt_exact [OF lt(2)] phys_to_virt_exact [OF lt(3)]
  have d: "64 dvd local_phys l + KBASE" "64 dvd trees_phys l + KBASE" "64 dvd lower_phys l + KBASE"
    using p kbase_dvd by (simp_all add: dvd_add)
  have "local_phys l + size_local (layout_meta l) \<le> trees_phys l" "trees_phys l + size_trees (layout_meta l) \<le> lower_phys l" using p by simp_all
  then show "check_meta meta (layout_meta l)"
    using d unfolding meta_def check_meta_def dvd_eq_mod_eq_0 by (simp add: v)
  show "meta_local meta \<noteq> 0" unfolding meta_def by (simp add: v KBASE_def)
qed

lemma simple_entries:
  assumes "ll_local_init a (llfree_tiering_simple 96) = Some lc" "t < 2" "i < 96"
  shows "\<exists>e. entry_at lc t i = Some e"
proof -
  have two: "[0..<2] = [0, Suc 0]" by (simp add: upt_rec)
  obtain e where e: "new_entry = Some e" by (simp add: new_entry_def ll_reserved_new_def)
  have t: "t = 0 \<or> t = 1" using assms(2) by linarith
  have "local_tiers lc = (replicate 8 None)[0 := Some (replicate 96 e), Suc 0 := Some (replicate 96 e)]"
    using assms(1) by (auto simp: ll_local_init_def llfree_tiering_simple_def two e split: if_splits)
  then show ?thesis using t assms(3) by (auto simp: entry_at_def tier_entries_def)
qed

lemma caches_empty: "caches_ok (\<lambda>_. replicate 12 [])" "cached_of (\<lambda>_. replicate 12 []) = {}"
  by (auto simp: caches_ok_def cached_of_def cxl_consts)

lemma lf_init_free:
  assumes lay: "compute_llfree_layout a b 96 = Some (Some l)" "b \<le> 2 ^ 40" "even (div_ceil (layout_frames l) 512)"
    and mem: "div_ceil (layout_frames l) 4096 \<le> length (mem_trees mem)"
      "length (mem_fields mem) = div_ceil (layout_frames l) 512"
      "length (mem_children mem) = align_up (div_ceil (layout_frames l) 512) 8"
  defines "meta \<equiv> \<lparr>meta_local = phys_to_virt (local_phys l), meta_trees = phys_to_virt (trees_phys l),
     meta_lower = phys_to_virt (lower_phys l)\<rparr>"
  shows "\<exists>S. llfree_init S0 (layout_frames l) LLFREE_INIT_FREE meta mem (llfree_tiering_simple 96) = Some (llfree_ok 0 0, S) \<and>
    lf_inv {} S \<and> frames (ll_lower S) = layout_frames l \<and> lower_free (ll_lower S) = {..<layout_frames l}"
proof -
  have b: "b \<le> 2 ^ 52" using lay(2) by simp
  obtain m where m: "4096 \<le> m" "m \<le> 2 ^ 28" "l = layout_at (align_up a 64) 96 m" "fit_of (align_up a 64) 96 b m = m"
    using layout_sound [OF lay(1) b] by auto
  have n: "layout_frames l = m" "layout_meta l = simple_sizes 96 m" unfolding m(3) by (simp_all add: layout_at_def Let_def)
  have parts: "layout_parts a b l" unfolding m(3)
    by (rule layout_at_parts) (use align_up_bounds [of 64 a] m in \<open>simp_all add: fit_of_def\<close>)
  let ?M = "\<lparr>frames = m, bitfields = mem_fields mem, children = mem_children mem\<rparr>"
  have "shaped ?M" "frames ?M \<le> MAX_PAGES" using mem m(2) by (simp_all add: shaped_def child_count_def n)
  from lower_clear_spec [OF this, of True] obtain L where L: "lower_clear ?M True = Some L" "lower_ok L" "frames L = m" "lower_free L = {..<m}" by auto
  have low: "lower_init (mem_fields mem) (mem_children mem) m LLFREE_INIT_FREE = Some (llfree_err LLFREE_ERR_OK, L)"
    using L(1) by (simp add: lower_init_def)
  note meta = layout_meta_ok [OF parts lay(2), folded meta_def, unfolded n]
  have "\<exists>S. llfree_init S0 m LLFREE_INIT_FREE meta mem (llfree_tiering_simple 96) = Some (llfree_ok 0 0, S) \<and> llfree_inv S \<and> ll_lower S = L \<and>
    ll_policy S = tiering_policy (llfree_tiering_simple 96) \<and> Some (ll_local S) = ll_local_init (meta_local meta) (llfree_tiering_simple 96)"
    by (rule llfree_init_spec [OF tiering_simple_ok _ simple_metadata_size _ m(1,2)])
      (use meta m(1) mem(1) low L in \<open>simp_all add: n llfree_init_defs\<close>)
  then obtain S where S: "llfree_init S0 m LLFREE_INIT_FREE meta mem (llfree_tiering_simple 96) = Some (llfree_ok 0 0, S)" "llfree_inv S"
    "ll_lower S = L" "ll_local_init (meta_local meta) (llfree_tiering_simple 96) = Some (ll_local S)" by auto
  have "lf_inv {} S"
    using S(2,3) simple_entries [OF S(4)] L(3) lay(3) by (simp add: lf_inv_def held_def cxl_consts child_count_def n)
  then show ?thesis using S(1,3) L(3,4) n by simp
qed

lemma init_buddy_lf_spec:
  assumes lay: "compute_llfree_layout a b 96 = Some (Some l)" "b \<le> 2 ^ 40" "even (div_ceil (layout_frames l) 512)"
    and mem: "div_ceil (layout_frames l) 4096 \<le> length (mem_trees mem)"
      "length (mem_fields mem) = div_ceil (layout_frames l) 512"
      "length (mem_children mem) = align_up (div_ceil (layout_frames l) 512) 8"
    and s: "cxl_pools s \<noteq> []" "buddy_lf_cxl s \<noteq> []" "cxlmem_map_num s = 1" "pcp_caches s = (\<lambda>_. replicate 12 [])"
  shows "\<exists>s'. init_buddy_lf 0 0 CXL_MEM_PAGE a b self mem ps s = Some s' \<and> cxl_inv (layout_frames l) {} s'"
proof -
  let ?meta = "\<lparr>meta_local = phys_to_virt (local_phys l), meta_trees = phys_to_virt (trees_phys l), meta_lower = phys_to_virt (lower_phys l)\<rparr>"
  obtain S where S: "llfree_init self (layout_frames l) LLFREE_INIT_FREE ?meta mem (llfree_tiering_simple 96) = Some (llfree_ok 0 0, S)"
    "lf_inv {} S" "frames (ll_lower S) = layout_frames l" using lf_init_free [OF lay mem, of self] by blast
  have b: "b \<le> 2 ^ 52" using lay(2) by simp
  obtain m where m: "4096 \<le> m" "m \<le> 2 ^ 28" "l = layout_at (align_up a 64) 96 m" "fit_of (align_up a 64) 96 b m = m"
    using layout_sound [OF lay(1) b] by auto
  have "layout_parts a b l" unfolding m(3)
    by (rule layout_at_parts) (use align_up_bounds [of 64 a] m in \<open>simp_all add: fit_of_def\<close>)
  note p = this [unfolded layout_parts_def Let_def PAGE_BYTES_def SIZEOF_PAGE_def]
  have "layout_frames l = m" unfolding m(3) by (simp add: layout_at_def Let_def)
  then have g: "\<not> llfree_phys l < a" "\<not> data_phys l < a" "\<not> b \<le> data_phys l" using p m(1) by linarith+
  let ?ps = "replicate (layout_frames l) \<lparr>flags = 0, order = 0, page_pool = Some 0\<rparr>"
  obtain s' where s': "init_buddy_lf 0 0 CXL_MEM_PAGE a b self mem ps s = Some s'"
    "pages_of s' = ?ps" "llfree_of s' = S" "cxl_shape s'" "pcp_caches s' = pcp_caches s"
    using S(1) g s lay(1) by (auto simp: init_buddy_lf_def init_buddy_lf_common_def cxl_consts Let_def llfree_ok_def llfree_is_ok_def
      init_page_meta_shared_def pages_of_def llfree_of_def cxl_shape_def)
  have "marks {} ?ps" by (simp add: marks_def is_allocated_def)
  moreover have "cached_chunks (pcp_caches s') = {}" "caches_ok (pcp_caches s')" using caches_empty s(4) s'(5) by (simp_all add: cached_chunks_def)
  ultimately have "cxl_inv (layout_frames l) {} s'" using s' S(2,3) by (simp add: cxl_inv_def cxl_running_def lf_pool_def)
  then show ?thesis using s'(1,2) by simp
qed

end
