(* ===== verification/CXL_Props.thy ===== *)
theory CXL_Props
  imports CXL_Boot
begin

text \<open>
  The properties of llfree and of the page allocator for CXL memory built on it.
\<close>

subsection \<open>A concrete machine\<close>

text \<open>A range of 32 MiB at address 0, for which the layout has 7892 frames in 16 children and two trees.\<close>

definition demo_mem :: llfree_memory where
  "demo_mem = \<lparr>mem_fields = replicate 16 (replicate 8 0), mem_children = replicate 16 \<lparr>child_free = 0, child_huge = False\<rparr>,
     mem_trees = replicate 2 \<lparr>tree_reserved = False, tree_tier = 0, tree_free = 0\<rparr>,
     mem_local = \<lparr>local_len = 0, local_num_tiers = 0, local_tiers = []\<rparr>\<rparr>"

definition demo_self :: llfree where
  "demo_self = \<lparr>ll_lower = \<lparr>frames = 0, bitfields = [], children = []\<rparr>,
     ll_local = \<lparr>local_len = 0, local_num_tiers = 0, local_tiers = []\<rparr>,
     ll_trees = \<lparr>entries = [], trees_len = 0, trees_default_tier = 0\<rparr>, ll_policy = llfree_simple_policy, ll_num_tiers = 0\<rparr>"

definition demo_boot :: cxl_state where
  "demo_boot = \<lparr>cxl_pools = [\<lparr>pool_id = 0, pool_start_addr = 0, pool_mem_size = 0, page_metadata = [], nr_free = [],
       free_heap = \<lparr>prev_of = id, next_of = id\<rparr>, pool_phys_page_num = 0, pool_type = CXL_MEM_PAGE\<rparr>],
     buddy_lf_cxl = [\<lparr>ctx_pool = None, ctx_llfree = demo_self, ctx_frames = 0, ctx_locals = 0\<rparr>],
     cxlmem_map_num = 1, pcp_caches = (\<lambda>_. replicate 12 [])\<rparr>"

definition demo_layout :: buddy_llfree_layout where
  "demo_layout = layout_at 0 96 7892"

definition demo_meta :: llfree_meta where
  "demo_meta = \<lparr>meta_local = phys_to_virt (local_phys demo_layout), meta_trees = phys_to_virt (trees_phys demo_layout),
     meta_lower = phys_to_virt (lower_phys demo_layout)\<rparr>"

lemma align_zero: "align_up 0 64 = 0"
  by (simp add: align_up_def)

lemmas fit_eval = fit_of_def data_phys_at fit_frames_of_def trees_metadata_size_def lower_metadata_size_def Let_def
  align_up_def div_ceil_def

lemma demo_fit: "fit_of 0 96 33554432 7892 = 7892" "4096 \<le> fit_of 0 96 33554432 (fit_frames_of 0 33554432)"
  by (simp_all add: fit_eval)

lemma demo_layout_found: "compute_llfree_layout 0 33554432 96 = Some (Some demo_layout)"
  using layout_found [of 33554432 96 0 7892] demo_fit unfolding align_zero demo_layout_def by simp

lemma demo_sizes: "layout_frames demo_layout = 7892" "div_ceil 7892 4096 = 2" "div_ceil 7892 512 = 16" "align_up 16 8 = 16"
  by (simp_all add: demo_layout_def layout_at_def Let_def div_ceil_def align_up_def)

lemma demo_init:
  "\<exists>S. llfree_init demo_self 7892 LLFREE_INIT_FREE demo_meta demo_mem (llfree_tiering_simple 96) = Some (llfree_ok 0 0, S) \<and>
    lf_inv {} S \<and> frames (ll_lower S) = 7892"
  using lf_init_free [OF demo_layout_found, of demo_mem demo_self]
  by (simp add: demo_sizes demo_mem_def demo_meta_def) blast

subsection \<open>llfree\<close>

text \<open>What llfree takes it can give back.\<close>

lemma llfree_put_back:
  assumes "request_ok S req" "llfree_inv S" "llfree_inv S'" "keeps S S'" "lower_taken (ll_lower S) (req_order req) q (ll_lower S')"
  shows "\<exists>S''. llfree_put S' q req = Some (llfree_ok 0 0, S'') \<and> llfree_inv S'' \<and> lower_free (ll_lower S'') = lower_free (ll_lower S)"
proof -
  note t = assms(5) [unfolded lower_taken_def]
  have o: "req_order req \<le> 10" using assms(1) by (simp add: request_ok_def)
  have e: "q + 2 ^ req_order req \<le> frames (ll_lower S')"
    using block_end [of "ll_lower S" q "req_order req"] t llfree_invD(1) [OF assms(2)] by simp
  have l: "req_local req \<noteq> LLFREE_LOCAL_NONE \<longrightarrow> (\<exists>e. entry_at (ll_local S') (req_tier req) (req_local req) = Some e)"
    using assms(1,4) local_shape_entry [of "ll_local S'" "ll_local S"] by (auto simp: request_ok_def keeps_def)
  have "\<exists>S''. llfree_put S' q req = Some (llfree_ok 0 0, S'') \<and> llfree_inv S'' \<and> keeps S' S'' \<and>
    lower_given (ll_lower S') (req_order req) q (ll_lower S'')"
    by (rule llfree_put_spec [OF assms(3) o l _ e]) (use t in auto)
  moreover have "lower_free (ll_lower S') \<union> block q (req_order req) = lower_free (ll_lower S)" using t by blast
  ultimately show ?thesis unfolding lower_given_def by auto
qed

text \<open>
  C36: Allocation with llfree is correct and complete up to its policy. In every state that
  satisfies the invariant, for an order up to 10 (an even number of children for order 10) and
  a local entry that exists, \<open>llfree_get\<close> without a given frame returns and keeps the invariant.
  It either takes an aligned run of free frames, exactly these are then no longer free, and
  \<open>llfree_put\<close> of the run restores the free frames. Or it reports \<open>LLFREE_ERR_MEMORY\<close> and leaves
  the free frames as they are, and this only if no tree without a reservation both holds such a
  run and is accepted by the policy of the allocator for the tier of the request.
\<close>

theorem llfree_get_correct:
  assumes "llfree_inv S" "request_ok S req"
  shows "\<exists>res S'. llfree_get S None req = Some (res, S') \<and> llfree_inv S' \<and>
    (error res = LLFREE_ERR_OK \<and> 2 ^ req_order req dvd frame res \<and>
       block (frame res) (req_order req) \<subseteq> lower_free (ll_lower S) \<and>
       lower_free (ll_lower S') = lower_free (ll_lower S) - block (frame res) (req_order req) \<and>
       (\<exists>S''. llfree_put S' (frame res) req = Some (llfree_ok 0 0, S'') \<and> llfree_inv S'' \<and>
          lower_free (ll_lower S'') = lower_free (ll_lower S)) \<or>
     error res = LLFREE_ERR_MEMORY \<and> lower_free (ll_lower S') = lower_free (ll_lower S) \<and>
       (\<forall>idx < trees_len (ll_trees S). \<not> tree_offers S (req_order req)
          (check_reserve_tree (req_tier req) (2 ^ req_order req) (ll_policy S)) idx))"
proof -
  obtain res S' where g: "llfree_get S None req = Some (res, S')" "get_outcome S (req_order req)
    (\<forall>idx < trees_len (ll_trees S). \<not> tree_offers S (req_order req)
       (check_reserve_tree (req_tier req) (2 ^ req_order req) (ll_policy S)) idx) res S'"
    using llfree_get_spec [OF assms] by blast
  note o = g(2) [unfolded get_outcome_def]
  have i: "llfree_inv S'" using o by blast
  from o consider (ok) "error res = LLFREE_ERR_OK" "lower_taken (ll_lower S) (req_order req) (frame res) (ll_lower S')"
    | (no) "error res = LLFREE_ERR_MEMORY" "ll_lower S' = ll_lower S" "\<forall>idx < trees_len (ll_trees S). \<not> tree_offers S (req_order req)
       (check_reserve_tree (req_tier req) (2 ^ req_order req) (ll_policy S)) idx" by blast
  then show ?thesis
  proof cases
    case ok
    from llfree_put_back [OF assms(2,1) i _ ok(2)] o have "\<exists>S''. llfree_put S' (frame res) req = Some (llfree_ok 0 0, S'') \<and>
      llfree_inv S'' \<and> lower_free (ll_lower S'') = lower_free (ll_lower S)" by blast
    then show ?thesis using g(1) i ok(1) ok(2) [unfolded lower_taken_def] by blast
  next
    case no
    then show ?thesis using g(1) i by metis
  qed
qed

theorem llfree_get_correct_witness:
  "\<exists>S res S'. llfree_init demo_self 7892 LLFREE_INIT_FREE demo_meta demo_mem (llfree_tiering_simple 96) = Some (llfree_ok 0 0, S) \<and>
     llfree_get S None \<lparr>req_order = 3, req_tier = 0, req_local = 5\<rparr> = Some (res, S') \<and> llfree_inv S'"
proof -
  obtain S where S: "llfree_init demo_self 7892 LLFREE_INIT_FREE demo_meta demo_mem (llfree_tiering_simple 96) = Some (llfree_ok 0 0, S)"
    "lf_inv {} S" using demo_init by blast
  have "request_ok S \<lparr>req_order = 3, req_tier = 0, req_local = 5\<rparr>" using simple_request_ok [OF S(2), of 3 5] by simp
  from llfree_get_correct [OF lf_invD(1) [OF S(2)] this] S(1) show ?thesis by blast
qed

text \<open>The counters and rows against the widths of their bit fields.\<close>

definition packed_ok :: "llfree \<Rightarrow> bool" where
  "packed_ok S \<longleftrightarrow>
     (\<forall>i < child_count (ll_lower S). child_free (children (ll_lower S) ! i) < 2 ^ 31) \<and>
     (\<forall>tr < trees_len (ll_trees S). tree_free (entries (ll_trees S) ! tr) < 2 ^ 28) \<and>
     (\<forall>t i r. res_at (ll_local S) t i = Some r \<longrightarrow> res_present r \<longrightarrow> res_free r < 2 ^ 28 \<and> res_row r < 2 ^ 35)"

lemma inv_packed:
  assumes "llfree_inv S"
  shows "packed_ok S"
proof -
  note d = assms [unfolded llfree_inv_def]
  note acc = conjunct2 [OF conjunct2 [OF conjunct2 [OF conjunct2 [OF d]]], unfolded accounts_def]
  have L: "lower_ok (ll_lower S)" using d by blast
  have child: "child_free (children (ll_lower S) ! i) < 2 ^ 31" if "i < child_count (ll_lower S)" for i
  proof -
    have "child_ok (children (ll_lower S) ! i) (bitfields (ll_lower S) ! i)" using L that by (simp add: lower_ok_def)
    then show ?thesis by (auto simp: child_ok_def split: if_splits)
  qed
  have res: "res_free r < 2 ^ 28 \<and> res_row r < 2 ^ 35 \<and> tree_free (entries (ll_trees S) ! tree_from_row (res_row r)) < 2 ^ 28"
    if r: "res_at (ll_local S) t i = Some r" "res_present r" for t i r
  proof -
    let ?tr = "tree_from_row (res_row r)"
    have "tree_free (entries (ll_trees S) ! ?tr) + res_free r = tree_count (ll_lower S) ?tr" using acc r by blast
    then have "tree_free (entries (ll_trees S) ! ?tr) + res_free r \<le> 4096" using tree_count_le [of "ll_lower S" ?tr] by simp
    moreover have "frame_from_row (res_row r) < frames (ll_lower S)" using d r by blast
    moreover have "frames (ll_lower S) \<le> 2 ^ 28" using L by (simp add: lower_ok_def)
    ultimately show ?thesis by (simp add: frame_from_row_def)
  qed
  have tree: "tree_free (entries (ll_trees S) ! tr) < 2 ^ 28" if tr: "tr < trees_len (ll_trees S)" for tr
  proof (cases "tree_reserved (entries (ll_trees S) ! tr)")
    case True
    then obtain t i r where "res_at (ll_local S) t i = Some r" "res_present r" "tree_from_row (res_row r) = tr" using acc tr by blast
    then show ?thesis using res by blast
  next
    case False
    then have "tree_free (entries (ll_trees S) ! tr) = tree_count (ll_lower S) tr" using acc tr by blast
    then show ?thesis using tree_count_le [of "ll_lower S" tr] by simp
  qed
  show ?thesis unfolding packed_ok_def using child tree res by blast
qed



subsection \<open>The page allocator\<close>

text \<open>
  C38: The page allocator on llfree is safe from the boot on. Let the layout of a range below
  1 TiB be found, with an even number of children and metadata buffers of the computed sizes.
  Then the initialisation returns, and any sequence of requests of any orders and releases of
  held chunks, from any CPUs of any machines, runs to its end without failing an assertion. The
  chunks held then are aligned, inside the range and pairwise disjoint, and a page is marked
  allocated exactly if it belongs to one of them.
\<close>

theorem lf_sequence_safe:
  assumes "compute_llfree_layout a b 96 = Some (Some l)" "b \<le> 2 ^ 40" "even (div_ceil (layout_frames l) 512)"
    and "div_ceil (layout_frames l) 4096 \<le> length (mem_trees mem)"
      "length (mem_fields mem) = div_ceil (layout_frames l) 512"
      "length (mem_children mem) = align_up (div_ceil (layout_frames l) 512) 8"
    and "cxl_pools s \<noteq> []" "buddy_lf_cxl s \<noteq> []" "cxlmem_map_num s = 1" "pcp_caches s = (\<lambda>_. replicate 12 [])"
    and "\<forall>x \<in> set ops. cpu_ok (op_context x)"
  shows "\<exists>s1 hs s2. init_buddy_lf 0 0 CXL_MEM_PAGE a b self mem ps s = Some s1 \<and>
    run_pages lf_get_pages lf_free_pages ops [] s1 = Some (hs, s2) \<and>
    distinct hs \<and>
    (\<forall>(i, k) \<in> set hs. k \<le> 10 \<and> 2 ^ k dvd i \<and> i + 2 ^ k \<le> layout_frames l) \<and>
    (\<forall>x \<in> set hs. \<forall>y \<in> set hs. x \<noteq> y \<longrightarrow> block (fst x) (snd x) \<inter> block (fst y) (snd y) = {}) \<and>
    (\<forall>j < layout_frames l. is_allocated (pages_of s2 ! j) \<longleftrightarrow> (\<exists>x \<in> set hs. j \<in> block (fst x) (snd x)))"
proof -
  obtain s1 where s1: "init_buddy_lf 0 0 CXL_MEM_PAGE a b self mem ps s = Some s1" "cxl_inv (layout_frames l) {} s1"
    using init_buddy_lf_spec [OF assms(1-10), of self ps] by blast
  obtain hs s2 where r: "run_pages lf_get_pages lf_free_pages ops [] s1 = Some (hs, s2)" "cxl_inv (layout_frames l) (set hs) s2" "distinct hs"
    using lfp.run_pages_inv [of "layout_frames l" "[]" s1 ops] s1(2) assms(11) by auto
  note d = runningD [OF r(2) [unfolded cxl_inv_def]]
  have n: "length (pages_of s2) = layout_frames l" using d(1) by (simp add: lf_pool_def)
  show ?thesis
  proof (intro exI conjI)
    show "\<forall>(i, k) \<in> set hs. k \<le> 10 \<and> 2 ^ k dvd i \<and> i + 2 ^ k \<le> layout_frames l"
      using inv_chunk(1,4,5) [OF r(2)] unfolding n by blast
    show "\<forall>x \<in> set hs. \<forall>y \<in> set hs. x \<noteq> y \<longrightarrow> block (fst x) (snd x) \<inter> block (fst y) (snd y) = {}"
      using inv_chunk(7) [OF r(2)] by (metis prod.collapse)
    show "\<forall>j < layout_frames l. is_allocated (pages_of s2 ! j) \<longleftrightarrow> (\<exists>x \<in> set hs. j \<in> block (fst x) (snd x))"
      using d(5) unfolding marks_def n by (rule conjunct1)
  qed (rule s1(1) r(1,3))+
qed

theorem lf_sequence_safe_witness:
  "\<exists>s1 hs s2. init_buddy_lf 0 0 CXL_MEM_PAGE 0 33554432 demo_self demo_mem [] demo_boot = Some s1 \<and>
     run_pages lf_get_pages lf_free_pages
       [Acquire \<lparr>cpu_machine = 0, cpu_local = 3\<rparr> 0, Acquire \<lparr>cpu_machine = 1, cpu_local = 3\<rparr> 10,
        Release \<lparr>cpu_machine = 1, cpu_local = 0\<rparr> 0, Acquire \<lparr>cpu_machine = 0, cpu_local = 0\<rparr> 4] [] s1 = Some (hs, s2) \<and> distinct hs"
proof -
  let ?ops = "[Acquire \<lparr>cpu_machine = 0, cpu_local = 3\<rparr> 0, Acquire \<lparr>cpu_machine = 1, cpu_local = 3\<rparr> 10,
    Release \<lparr>cpu_machine = 1, cpu_local = 0\<rparr> 0, Acquire \<lparr>cpu_machine = 0, cpu_local = 0\<rparr> 4]"
  let ?n = "layout_frames demo_layout"
  have ops: "\<forall>x \<in> set ?ops. cpu_ok (op_context x)" by (simp add: cpu_ok_def PLAT_CPU_NUM_def)
  have mem: "(33554432 :: nat) \<le> 2 ^ 40" "even (div_ceil ?n 512)" "div_ceil ?n 4096 \<le> length (mem_trees demo_mem)"
    "length (mem_fields demo_mem) = div_ceil ?n 512" "length (mem_children demo_mem) = align_up (div_ceil ?n 512) 8"
    by (simp_all add: demo_sizes demo_mem_def)
  have s: "cxl_pools demo_boot \<noteq> []" "buddy_lf_cxl demo_boot \<noteq> []" "cxlmem_map_num demo_boot = 1"
    "pcp_caches demo_boot = (\<lambda>_. replicate 12 [])" by (simp_all add: demo_boot_def)
  from lf_sequence_safe [OF demo_layout_found mem s ops, of demo_self "[]"] show ?thesis
    by (elim exE conjE) (intro exI conjI)
qed

subsection \<open>The layout of a range\<close>

text \<open>
  C39: The search for the layout ends with the right number of frames. For a range below 4 PiB in
  which the first, largest estimate leaves room for at least 4096 frames, the loop, limited to 64
  rounds, returns a layout exactly if there is a number of frames for which the metadata leaves
  room for that many frames and no more; this number is unique and the layout is the one for it.
  The parts of every layout returned are aligned, in order and disjoint, and lie in the range.
\<close>

theorem compute_llfree_layout_finds:
  assumes "b \<le> 2 ^ 52" "locals \<le> 2 ^ 32"
    and "4096 \<le> fit_of (align_up a 64) locals b (fit_frames_of (align_up a 64) b)"
  shows "(\<forall>l. compute_llfree_layout a b locals = Some (Some l) \<longleftrightarrow>
      (\<exists>n. fit_of (align_up a 64) locals b n = n \<and> l = layout_at (align_up a 64) locals n)) \<and>
    (\<forall>n m. fit_of (align_up a 64) locals b n = n \<and> fit_of (align_up a 64) locals b m = m \<longrightarrow> n = m) \<and>
    (\<forall>l. compute_llfree_layout a b locals = Some (Some l) \<longrightarrow> layout_parts a b l)"
proof (intro conjI allI)
  let ?s = "align_up a 64"
  fix l
  show "compute_llfree_layout a b locals = Some (Some l) \<longleftrightarrow> (\<exists>n. fit_of ?s locals b n = n \<and> l = layout_at ?s locals n)"
    using layout_sound [OF _ assms(1,2), of a l] layout_found [OF assms] by blast
  show "compute_llfree_layout a b locals = Some (Some l) \<longrightarrow> layout_parts a b l"
  proof
    assume "compute_llfree_layout a b locals = Some (Some l)"
    from layout_sound [OF this assms(1,2)] obtain m where
      m: "4096 \<le> m" "m \<le> 2 ^ 28" "l = layout_at ?s locals m" "fit_of ?s locals b m = m" by blast
    then show "layout_parts a b l" unfolding m(3)
      by (intro layout_at_parts) (use align_up_bounds [of 64 a] in \<open>simp_all add: fit_of_def\<close>)
  qed
  fix n m
  show "fit_of ?s locals b n = n \<and> fit_of ?s locals b m = m \<longrightarrow> n = m" using fit_unique [of ?s locals b m n] by blast
qed

theorem compute_llfree_layout_finds_witness:
  "fit_of 0 96 33554432 7892 = 7892 \<and> compute_llfree_layout 0 33554432 96 = Some (Some (layout_at 0 96 7892)) \<and>
   layout_parts 0 33554432 (layout_at 0 96 7892)"
proof -
  have b: "(33554432 :: nat) \<le> 2 ^ 52" "(96 :: nat) \<le> 2 ^ 32" by simp_all
  note c = compute_llfree_layout_finds [of 33554432 96 0, unfolded align_zero, OF b demo_fit(2)]
  have "compute_llfree_layout 0 33554432 96 = Some (Some (layout_at 0 96 7892))" using c demo_fit(1) by blast
  then show ?thesis using c demo_fit(1) by blast
qed

lemma stuck_fit: "fit_of 0 96 75497472 17765 = 17766" "fit_of 0 96 75497472 17766 = 17765" "fit_frames_of 0 75497472 = 18432"
  "fit_of 0 96 75497472 18432 = 17741" "fit_of 0 96 75497472 17741 = 17766"
  by (simp_all add: fit_eval)

lemma stuck_step: "n \<le> 18432 \<Longrightarrow> layout_loop (Suc k) 0 75497472 (llfree_tiering_simple 96) n =
    (if fit_of 0 96 75497472 n = n then Some (Some (layout_at 0 96 n))
     else layout_loop k 0 75497472 (llfree_tiering_simple 96) (fit_of 0 96 75497472 n))"
  by (rule loop_step) (simp_all only: stuck_fit, simp_all)

lemma stuck_loop:
  "layout_loop k 0 75497472 (llfree_tiering_simple 96) 17765 = Some None \<and>
   layout_loop k 0 75497472 (llfree_tiering_simple 96) 17766 = Some None"
proof (induction k)
  case (Suc k)
  then show ?case using stuck_step [of 17765 k] stuck_step [of 17766 k] by (simp add: stuck_fit del: layout_loop.simps)
qed simp

text \<open>
  C40: The search for the layout can fail on memory that has room for thousands of frames. For
  the range of 72 MiB at address 0 the metadata for 17765 frames leaves room for 17766 and the
  metadata for 17766 leaves room for 17765, so the loop alternates between the two numbers until
  its rounds are used up. The initialisation of the allocator then stops the kernel, whatever
  the state of the memory.
\<close>

theorem compute_llfree_layout_oscillates:
  "fit_of 0 96 75497472 17765 = 17766 \<and> fit_of 0 96 75497472 17766 = 17765 \<and>
   compute_llfree_layout 0 75497472 96 = Some None \<and>
   init_buddy_lf ci pool ty 0 75497472 self mem ps s = None"
proof -
  have n: "4096 \<le> fit_frames_of (align_up 0 64) 75497472" unfolding align_zero stuck_fit by simp
  have b: "(75497472 :: nat) \<le> 2 ^ 52" by simp
  have "compute_llfree_layout 0 75497472 96 = layout_loop 64 0 75497472 (llfree_tiering_simple 96) 18432"
    by (rule compute_layout_loop(1) [OF b n, of 96, unfolded align_zero stuck_fit])
  then have c: "compute_llfree_layout 0 75497472 96 = Some None"
    using stuck_step [of 18432 63] stuck_step [of 17741 62] stuck_loop [of 62] by (simp add: stuck_fit del: layout_loop.simps)
  have "init_buddy_lf ci pool ty 0 75497472 self mem ps s = None"
    by (simp add: init_buddy_lf_def init_buddy_lf_common_def cxl_consts c)
  then show ?thesis using c stuck_fit by simp
qed

end
