(* ===== verification/Remote_Free.thy ===== *)
theory Remote_Free
  imports Prelude
begin

text \<open>
  Pages of another machine, \<^verbatim>\<open>kernel/mm/remote_free.c\<close>: their physical addresses are collected in
  batches, which lie in CXL memory, and pushed onto the stack of the machine that owns them; the
  owner frees them from its own allocation path. A machine runs one operation at a time here;
  the pushes of different machines interleave in \<open>Remote_Stack\<close>.

  A batch is named by its address, 0 is \<^verbatim>\<open>NULL\<close>, and \<open>batches\<close> is the CXL memory that holds
  them. The arrays of \<open>CLUSTER_MAX_MACHINE_NUM\<close> entries are functions of the machine number. The field \<open>count\<close>
  of a batch is the length of its list of addresses. The messages are left out.
\<close>

subsection \<open>State\<close>

definition DRAM_PAGE_FREE_BATCH_MAX :: nat where "DRAM_PAGE_FREE_BATCH_MAX = 254"

record dram_page_free_batch =
  bnext :: u64
  bowner :: nat
  bpas :: "u64 list"

text \<open>What all machines share: the heads of the stacks and the batches.\<close>

record rpf_shared =
  rpf_head :: "nat \<Rightarrow> u64"
  batches :: "u64 \<rightharpoonup> dram_page_free_batch"

text \<open>The variables of one machine.\<close>

record rpf_local =
  rpf_pending :: "nat \<Rightarrow> u64"
  rpf_has_pending :: bool
  rpf_draining :: bool
  rpf_ready :: bool
  rpf_queued :: u64
  rpf_drained :: u64
  rpf_dropped :: u64
  rpf_alloc_ticks :: u64

text \<open>
  The fields of \<open>dsm_meta\<close> that are set up at boot: its own address, the shared range, the
  range of each machine, the number of machines; and the number of this machine.
\<close>

record dsm_env =
  dsm_meta :: u64
  shm_paddr :: u64
  shm_size :: u64
  local_mem :: "(u64 \<times> u64) list"
  cur_machine :: nat

definition CLUSTER_MACHINE_NUM :: "dsm_env \<Rightarrow> nat" where
  "CLUSTER_MACHINE_NUM env = length (local_mem env)"

definition MACHINE_ID_SHARED_MEMORY :: int where "MACHINE_ID_SHARED_MEMORY = -1"
definition MACHINE_ID_INVALID :: int where "MACHINE_ID_INVALID = -2"

definition IS_SHM_PADDR :: "dsm_env \<Rightarrow> u64 \<Rightarrow> bool" where
  "IS_SHM_PADDR env pa \<longleftrightarrow> pa \<ge> shm_paddr env \<and> pa < shm_paddr env + shm_size env"

definition IS_LOCAL_PADDR :: "dsm_env \<Rightarrow> u64 \<Rightarrow> nat \<Rightarrow> bool" where
  "IS_LOCAL_PADDR env pa m \<longleftrightarrow>
     pa \<ge> fst (local_mem env ! m) \<and> pa < fst (local_mem env ! m) + snd (local_mem env ! m)"

definition get_paddr_machine_id :: "dsm_env \<Rightarrow> u64 \<Rightarrow> int" where
  "get_paddr_machine_id env pa =
     (if IS_SHM_PADDR env pa then MACHINE_ID_SHARED_MEMORY
      else case find (IS_LOCAL_PADDR env pa) [0..<CLUSTER_MACHINE_NUM env] of
        Some m \<Rightarrow> int m
      | None \<Rightarrow> MACHINE_ID_INVALID)"

subsection \<open>Heads of the stacks\<close>

definition RPF_POLL_INTERVAL :: u64 where "RPF_POLL_INTERVAL = 64"
definition RPF_OFF_BITS :: nat where "RPF_OFF_BITS = 40"
definition RPF_OFF_MASK :: u64 where "RPF_OFF_MASK = push_bit RPF_OFF_BITS 1 - 1"
definition RPF_GEN_BITS :: nat where "RPF_GEN_BITS = 64 - RPF_OFF_BITS"
definition RPF_GEN_MASK :: u64 where "RPF_GEN_MASK = push_bit RPF_GEN_BITS 1 - 1"

definition rpf_encode :: "dsm_env \<Rightarrow> u64 \<Rightarrow> u64 \<Rightarrow> u64 option" where
  "rpf_encode env generation batch =
     (let off = batch - dsm_meta env in
      do { bug_on (off = 0 \<or> off > RPF_OFF_MASK);
           Some (push_bit RPF_OFF_BITS (generation AND RPF_GEN_MASK) OR off) })"

definition rpf_decode :: "dsm_env \<Rightarrow> u64 \<Rightarrow> u64" where
  "rpf_decode env head =
     (let off = head AND RPF_OFF_MASK in if off = 0 then 0 else dsm_meta env + off)"

definition rpf_next_generation :: "u64 \<Rightarrow> u64" where
  "rpf_next_generation head = drop_bit RPF_OFF_BITS head + 1"

text \<open>One round of the loop of \<open>rpf_push\<close>, with the head that was read; the flag tells if the swap took place.\<close>

definition rpf_push_try :: "dsm_env \<Rightarrow> nat \<Rightarrow> u64 \<Rightarrow> u64 \<Rightarrow> rpf_shared \<Rightarrow> (bool \<times> rpf_shared) option" where
  "rpf_push_try env owner batch old sh =
     do { b \<leftarrow> batches sh batch;
          let sh1 = sh\<lparr>batches := (batches sh)(batch \<mapsto> b\<lparr>bnext := rpf_decode env old\<rparr>)\<rparr>;
          desired \<leftarrow> rpf_encode env (rpf_next_generation old) batch;
          if rpf_head sh1 owner = old then Some (True, sh1\<lparr>rpf_head := (rpf_head sh1)(owner := desired)\<rparr>)
          else Some (False, sh1) }"

text \<open>One round of the loop of \<open>rpf_pop_all\<close> on a stack that was read as not empty.\<close>

definition rpf_pop_try :: "nat \<Rightarrow> u64 \<Rightarrow> rpf_shared \<Rightarrow> bool \<times> rpf_shared" where
  "rpf_pop_try owner old sh =
     (let desired = push_bit RPF_OFF_BITS (rpf_next_generation old AND RPF_GEN_MASK) in
      if rpf_head sh owner = old then (True, sh\<lparr>rpf_head := (rpf_head sh)(owner := desired)\<rparr>) else (False, sh))"

text \<open>The loops without interference: the first round succeeds.\<close>

definition rpf_push :: "dsm_env \<Rightarrow> nat \<Rightarrow> u64 \<Rightarrow> rpf_shared \<Rightarrow> rpf_shared option" where
  "rpf_push env owner batch sh =
     do { (done, sh1) \<leftarrow> rpf_push_try env owner batch (rpf_head sh owner) sh; Some sh1 }"

definition rpf_pop_all :: "dsm_env \<Rightarrow> nat \<Rightarrow> rpf_shared \<Rightarrow> u64 \<times> rpf_shared" where
  "rpf_pop_all env owner sh =
     (let old = rpf_head sh owner in
      if old AND RPF_OFF_MASK = 0 then (0, sh)
      else (rpf_decode env old, snd (rpf_pop_try owner old sh)))"

definition rpf_discard_all :: "nat \<Rightarrow> rpf_shared \<Rightarrow> rpf_shared" where
  "rpf_discard_all owner sh = snd (rpf_pop_try owner (rpf_head sh owner) sh)"

subsection \<open>Queueing a page for its owner\<close>

definition rpf_any_pending :: "rpf_local \<Rightarrow> bool" where
  "rpf_any_pending lo \<longleftrightarrow> (\<exists>m \<in> set [0..<CLUSTER_MAX_MACHINE_NUM]. rpf_pending lo m \<noteq> 0)"

text \<open>The part of \<open>remote_page_free\<close> after a batch is found.\<close>

definition rpf_queue :: "dsm_env \<Rightarrow> nat \<Rightarrow> u64 \<Rightarrow> u64 \<Rightarrow> rpf_shared \<Rightarrow> rpf_local \<Rightarrow> (rpf_shared \<times> rpf_local) option" where
  "rpf_queue env owner batch pa sh lo =
     do { b \<leftarrow> batches sh batch;
          bug_on (length (bpas b) \<ge> DRAM_PAGE_FREE_BATCH_MAX);
          let b1 = b\<lparr>bpas := bpas b @ [pa]\<rparr>;
          let sh1 = sh\<lparr>batches := (batches sh)(batch \<mapsto> b1)\<rparr>;
          let lo1 = lo\<lparr>rpf_queued := rpf_queued lo + 1\<rparr>;
          if length (bpas b1) = DRAM_PAGE_FREE_BATCH_MAX
          then do { let lo2 = lo1\<lparr>rpf_pending := (rpf_pending lo1)(owner := 0)\<rparr>;
                    sh2 \<leftarrow> rpf_push env owner batch sh1;
                    Some (sh2, lo2\<lparr>rpf_has_pending := rpf_any_pending lo2\<rparr>) }
          else Some (sh1, lo1) }"

text \<open>\<open>spare\<close> is what the allocation in CXL memory yields, if it is made.\<close>

definition remote_page_free ::
    "dsm_env \<Rightarrow> u64 \<Rightarrow> int \<Rightarrow> u64 \<Rightarrow> rpf_shared \<Rightarrow> rpf_local \<Rightarrow> (rpf_shared \<times> rpf_local) option" where
  "remote_page_free env spare owner pa sh lo =
     (if owner < 0 \<or> owner \<ge> int (CLUSTER_MACHINE_NUM env) \<or> owner = int (cur_machine env)
      then Some (sh, lo\<lparr>rpf_dropped := rpf_dropped lo + 1\<rparr>)
      else let m = nat owner in
        if rpf_pending lo m \<noteq> 0 then rpf_queue env m (rpf_pending lo m) pa sh lo
        else if spare = 0 then Some (sh, lo\<lparr>rpf_dropped := rpf_dropped lo + 1\<rparr>)
        else rpf_queue env m spare pa
          (sh\<lparr>batches := (batches sh)(spare \<mapsto> \<lparr>bnext = 0, bowner = m, bpas = []\<rparr>)\<rparr>)
          (lo\<lparr>rpf_pending := (rpf_pending lo)(m := spare), rpf_has_pending := True\<rparr>))"

fun flush_pending :: "dsm_env \<Rightarrow> nat list \<Rightarrow> rpf_shared \<Rightarrow> rpf_local \<Rightarrow> (rpf_shared \<times> rpf_local) option" where
  "flush_pending env [] sh lo = Some (sh, lo)"
| "flush_pending env (i # is) sh lo =
     (if rpf_pending lo i = 0 then flush_pending env is sh lo
      else do { sh1 \<leftarrow> rpf_push env i (rpf_pending lo i) sh;
                flush_pending env is sh1 (lo\<lparr>rpf_pending := (rpf_pending lo)(i := 0)\<rparr>) })"

definition remote_page_free_flush :: "dsm_env \<Rightarrow> rpf_shared \<Rightarrow> rpf_local \<Rightarrow> (rpf_shared \<times> rpf_local) option" where
  "remote_page_free_flush env sh lo =
     do { (sh1, lo1) \<leftarrow> flush_pending env [0..<CLUSTER_MAX_MACHINE_NUM] sh lo;
          Some (sh1, lo1\<lparr>rpf_has_pending := False\<rparr>) }"

subsection \<open>Reclaiming pages\<close>

text \<open>\<open>free_page\<close> is \<open>kfree\<close> on a page of this machine, with its state.\<close>

fun drain_pas ::
    "dsm_env \<Rightarrow> (nat \<Rightarrow> 'k \<Rightarrow> 'k option) \<Rightarrow> u64 list \<Rightarrow> rpf_local \<Rightarrow> 'k \<Rightarrow> (rpf_local \<times> 'k) option" where
  "drain_pas env free_page [] lo k = Some (lo, k)"
| "drain_pas env free_page (pa # pas) lo k =
     (if get_paddr_machine_id env pa \<noteq> int (cur_machine env)
      then drain_pas env free_page pas (lo\<lparr>rpf_dropped := rpf_dropped lo + 1\<rparr>) k
      else do { k1 \<leftarrow> free_page (phys_to_virt (unat pa)) k;
                drain_pas env free_page pas (lo\<lparr>rpf_drained := rpf_drained lo + 1\<rparr>) k1 })"

text \<open>The walk along the popped batches; each goes back to CXL memory once it is read.\<close>

partial_function (option) drain_batches ::
    "dsm_env \<Rightarrow> (nat \<Rightarrow> 'k \<Rightarrow> 'k option) \<Rightarrow> u64 \<Rightarrow> rpf_shared \<Rightarrow> rpf_local \<Rightarrow> 'k \<Rightarrow> (rpf_shared \<times> rpf_local \<times> 'k) option" where
  "drain_batches env free_page batch sh lo k =
     (if batch = 0 then Some (sh, lo, k)
      else do { b \<leftarrow> batches sh batch;
                (lo1, k1) \<leftarrow> drain_pas env free_page (bpas b) lo k;
                drain_batches env free_page (bnext b) (sh\<lparr>batches := (batches sh)(batch := None)\<rparr>) lo1 k1 })"

definition drain_remote_page_free ::
    "dsm_env \<Rightarrow> (nat \<Rightarrow> 'k \<Rightarrow> 'k option) \<Rightarrow> rpf_shared \<Rightarrow> rpf_local \<Rightarrow> 'k \<Rightarrow> (bool \<times> rpf_shared \<times> rpf_local \<times> 'k) option" where
  "drain_remote_page_free env free_page sh lo k =
     (if \<not> rpf_ready lo \<or> rpf_head sh (cur_machine env) AND RPF_OFF_MASK = 0 \<or> rpf_draining lo
      then Some (False, sh, lo, k)
      else do { let before = rpf_drained lo;
                let (batch, sh1) = rpf_pop_all env (cur_machine env) sh;
                (sh2, lo2, k2) \<leftarrow> drain_batches env free_page batch sh1 (lo\<lparr>rpf_draining := True\<rparr>) k;
                Some (rpf_drained lo2 \<noteq> before, sh2, lo2\<lparr>rpf_draining := False\<rparr>, k2) })"

definition remote_page_free_poll ::
    "dsm_env \<Rightarrow> (nat \<Rightarrow> 'k \<Rightarrow> 'k option) \<Rightarrow> rpf_shared \<Rightarrow> rpf_local \<Rightarrow> 'k \<Rightarrow> (rpf_shared \<times> rpf_local \<times> 'k) option" where
  "remote_page_free_poll env free_page sh lo k =
     (let lo1 = lo\<lparr>rpf_alloc_ticks := rpf_alloc_ticks lo + 1\<rparr> in
      if rpf_alloc_ticks lo1 < RPF_POLL_INTERVAL then Some (sh, lo1, k)
      else let lo2 = lo1\<lparr>rpf_alloc_ticks := 0\<rparr> in
        if \<not> rpf_ready lo2 then Some (sh, lo2, k)
        else do {
          (sh1, lo3) \<leftarrow> (if rpf_has_pending lo2 then remote_page_free_flush env sh lo2 else Some (sh, lo2));
          (drained, r) \<leftarrow> drain_remote_page_free env free_page sh1 lo3 k;
          Some r })"

definition remote_page_free_init :: "dsm_env \<Rightarrow> rpf_shared \<Rightarrow> rpf_local \<Rightarrow> (rpf_shared \<times> rpf_local) option" where
  "remote_page_free_init env sh lo =
     do { bug_on (dsm_meta env = 0);
          Some (rpf_discard_all (cur_machine env) sh, lo\<lparr>rpf_ready := True\<rparr>) }"

text \<open>\<open>free_machine_page\<close>; pages of this machine and of the shared memory are freed at once.\<close>

definition free_machine_page ::
    "dsm_env \<Rightarrow> (nat \<Rightarrow> 'k \<Rightarrow> 'k option) \<Rightarrow> u64 \<Rightarrow> u64 \<Rightarrow> rpf_shared \<Rightarrow> rpf_local \<Rightarrow> 'k \<Rightarrow>
     (rpf_shared \<times> rpf_local \<times> 'k) option" where
  "free_machine_page env free_page spare pa sh lo k =
     (let owner = get_paddr_machine_id env pa in
      if owner \<noteq> MACHINE_ID_SHARED_MEMORY \<and> owner \<noteq> int (cur_machine env)
      then do { (sh1, lo1) \<leftarrow> remote_page_free env spare owner pa sh lo; Some (sh1, lo1, k) }
      else do { k1 \<leftarrow> free_page (phys_to_virt (unat pa)) k; Some (sh, lo, k1) })"

end
