(* ===== verification/Slab.thy ===== *)
theory Slab
  imports Buddy Page_Client Remote_Free
begin

text \<open>
  The slab allocator for DRAM, \<^verbatim>\<open>kernel/mm/dram_slab.c\<close> with \<^verbatim>\<open>kernel/mm/slab.c\<close> and
  \<^verbatim>\<open>kernel/include/mm/slab.h\<close>, and the allocation front end for DRAM, \<^verbatim>\<open>kernel/mm/dram_alloc.c\<close> and
  \<^verbatim>\<open>kernel/mm/kmalloc.c\<close>, on top of the buddy allocator and of the queues of
  \<open>Remote_Free\<close>. There is one DRAM pool. Addresses are numbers, 0 is \<^verbatim>\<open>NULL\<close>. The first word of a
  free slot and the header at the start of a slab are maps from addresses; the list node of a
  slab has the address of the slab. A header is gone once its pages are given back. The
  detection of double frees is switched off in the build.
\<close>

subsection \<open>Sizes\<close>

definition SLAB_MIN_ORDER :: nat where "SLAB_MIN_ORDER = 5"
definition SLAB_MAX_ORDER :: nat where "SLAB_MAX_ORDER = 11"
definition SIZE_OF_ONE_SLAB :: nat where "SIZE_OF_ONE_SLAB = 2 * 1024 * 1024"

text \<open>\<open>sizeof(struct slab_header)\<close>\<close>

definition SIZEOF_SLAB_HEADER :: nat where "SIZEOF_SLAB_HEADER = 40"

definition ROUND_UP :: "nat \<Rightarrow> nat \<Rightarrow> nat" where
  "ROUND_UP x n = (x + n - 1) div n * n"

fun shift_count :: "nat \<Rightarrow> nat" where
  "shift_count tmp = (if tmp > 1 then Suc (shift_count (tmp div 2)) else 0)"

declare shift_count.simps [simp del]

definition size_to_order :: "nat \<Rightarrow> nat" where
  "size_to_order sz = (let ord = shift_count sz in if sz > 2 ^ ord then ord + 1 else ord)"

definition order_to_size :: "nat \<Rightarrow> nat" where
  "order_to_size k = 2 ^ k"

definition size_to_page_order :: "nat \<Rightarrow> nat" where
  "size_to_page_order sz =
     (let pg_num = ROUND_UP sz 4096 div 4096; ord = shift_count pg_num in
      if pg_num > 2 ^ ord then ord + 1 else ord)"

subsection \<open>State\<close>

record slab_header =
  free_list_head :: nat
  slab_order :: nat
  owner_cpu :: nat
  total_free_cnt :: u16
  current_free_cnt :: u16

text \<open>The fields \<open>slab\<close> and \<open>ref_cnt\<close> of the pages of the pool are \<open>page_slab\<close> and \<open>page_ref\<close>.\<close>

record slab_state =
  dram_pool :: phys_mem_pool
  page_slab :: "nat list"
  page_ref :: "int list"
  slab_headers :: "nat \<rightharpoonup> slab_header"
  next_free :: "nat \<Rightarrow> nat"
  slab_lists :: list_heap
  current_slab :: "nat \<Rightarrow> nat \<Rightarrow> nat"
  rpf_mem :: rpf_shared
  rpf_vars :: rpf_local

text \<open>The list heads of the pools, below every slab.\<close>

definition partial_head :: "nat \<Rightarrow> nat \<Rightarrow> nat" where
  "partial_head cpu k = cpu * (SLAB_MAX_ORDER + 1) + k"

definition set_header :: "nat \<Rightarrow> slab_header option \<Rightarrow> slab_state \<Rightarrow> slab_state" where
  "set_header a h s = s\<lparr>slab_headers := (slab_headers s)(a := h)\<rparr>"

definition set_current :: "nat \<Rightarrow> nat \<Rightarrow> nat \<Rightarrow> slab_state \<Rightarrow> slab_state" where
  "set_current cpu k a s =
     s\<lparr>current_slab := (current_slab s)(cpu := (current_slab s cpu)(k := a))\<rparr>"

subsection \<open>Pages\<close>

text \<open>\<open>free_pages\<close>, for a page of DRAM.\<close>

definition free_dram_pages :: "ranges \<Rightarrow> nat \<Rightarrow> slab_state \<Rightarrow> slab_state option" where
  "free_dram_pages rg addr s =
     do { i \<leftarrow> virt_to_page rg (dram_pool s) (of_nat addr);
          P \<leftarrow> buddy_free_pages rg i (dram_pool s);
          Some (s\<lparr>dram_pool := P\<rparr>) }"

fun mark_pages :: "ranges \<Rightarrow> nat \<Rightarrow> nat \<Rightarrow> nat list \<Rightarrow> slab_state \<Rightarrow> slab_state option" where
  "mark_pages rg v addr [] s = Some s"
| "mark_pages rg v addr (i # is) s =
     do { j \<leftarrow> virt_to_page rg (dram_pool s) (of_nat (addr + i * 4096));
          ps \<leftarrow> store_at (page_slab s) j v;
          mark_pages rg v addr is (s\<lparr>page_slab := ps\<rparr>) }"

definition set_or_clear_slab_in_page :: "ranges \<Rightarrow> nat \<Rightarrow> nat \<Rightarrow> bool \<Rightarrow> slab_state \<Rightarrow> slab_state option" where
  "set_or_clear_slab_in_page rg addr sz b s =
     mark_pages rg (if b then addr else 0) addr [0..<order_to_size (size_to_order (sz div 4096))] s"

subsection \<open>Slabs\<close>

definition choose_new_current_slab :: "nat \<Rightarrow> nat \<Rightarrow> slab_state \<Rightarrow> slab_state" where
  "choose_new_current_slab cpu k s =
     (let head = partial_head cpu k in
      if list_empty head (slab_lists s) then set_current cpu k 0 s
      else let slab = next_of (slab_lists s) head in
        set_current cpu k slab (s\<lparr>slab_lists := list_del slab (slab_lists s)\<rparr>))"

definition try_insert_full_slab_to_partial :: "nat \<Rightarrow> slab_header \<Rightarrow> slab_state \<Rightarrow> slab_state option" where
  "try_insert_full_slab_to_partial slab h s =
     (if current_free_cnt h \<noteq> 0 then Some s
      else do { bug_on (owner_cpu h \<ge> PLAT_CPU_NUM);
                Some (s\<lparr>slab_lists := list_append slab (partial_head (owner_cpu h) (slab_order h)) (slab_lists s)\<rparr>) })"

definition try_return_slab_to_buddy :: "ranges \<Rightarrow> nat \<Rightarrow> slab_header \<Rightarrow> nat \<Rightarrow> slab_state \<Rightarrow> slab_state option" where
  "try_return_slab_to_buddy rg slab h k s =
     do { bug_on (owner_cpu h \<ge> PLAT_CPU_NUM);
          if current_free_cnt h \<noteq> total_free_cnt h then Some s
          else do {
            let s1 = (if slab = current_slab s (owner_cpu h) k then choose_new_current_slab (owner_cpu h) k s
                      else s\<lparr>slab_lists := list_del slab (slab_lists s)\<rparr>);
            s2 \<leftarrow> set_or_clear_slab_in_page rg slab SIZE_OF_ONE_SLAB False s1;
            free_dram_pages rg slab (set_header slab None s2) } }"

definition free_in_dram_slab :: "ranges \<Rightarrow> nat \<Rightarrow> slab_state \<Rightarrow> slab_state option" where
  "free_in_dram_slab rg addr s =
     do { i \<leftarrow> virt_to_page rg (dram_pool s) (of_nat addr);
          slab \<leftarrow> load_at (page_slab s) i;
          h \<leftarrow> slab_headers s slab;
          bug_on (owner_cpu h \<ge> PLAT_CPU_NUM);
          s1 \<leftarrow> try_insert_full_slab_to_partial slab h s;
          let h1 = h\<lparr>free_list_head := addr, current_free_cnt := current_free_cnt h + 1\<rparr>;
          try_return_slab_to_buddy rg slab h1 (slab_order h)
            (set_header slab (Some h1) (s1\<lparr>next_free := (next_free s1)(addr := free_list_head h)\<rparr>)) }"

definition SLAB_MAX_SIZE :: nat where "SLAB_MAX_SIZE = 2 ^ SLAB_MAX_ORDER"
definition ZERO_SIZE_PTR :: nat where "ZERO_SIZE_PTR = 2 ^ 64 - 1"

text \<open>\<open>kfree\<close>, for an address in DRAM.\<close>

definition kfree :: "ranges \<Rightarrow> nat \<Rightarrow> slab_state \<Rightarrow> slab_state option" where
  "kfree rg ptr s =
     (if ptr = ZERO_SIZE_PTR then Some s
      else do {
        i \<leftarrow> virt_to_page rg (dram_pool s) (of_nat ptr);
        slab \<leftarrow> load_at (page_slab s) i;
        if slab \<noteq> 0 then free_in_dram_slab rg ptr s
        else do {
          old_refcnt \<leftarrow> load_at (page_ref s) i;
          refs \<leftarrow> store_at (page_ref s) i (old_refcnt - 1);
          let s1 = s\<lparr>page_ref := refs\<rparr>;
          if old_refcnt = 1
          then do { P \<leftarrow> buddy_free_pages rg i (dram_pool s1); Some (s1\<lparr>dram_pool := P\<rparr>) }
          else Some s1 } })"

subsection \<open>Pages for new slabs and objects\<close>

text \<open>The calls of \<open>remote_free.c\<close> on the allocation path, with \<open>kfree\<close> for the pages that come back.\<close>

definition poll_remote :: "ranges \<Rightarrow> dsm_env \<Rightarrow> slab_state \<Rightarrow> slab_state option" where
  "poll_remote rg env s =
     do { (sh, lo, s1) \<leftarrow> remote_page_free_poll env (kfree rg) (rpf_mem s) (rpf_vars s) s;
          Some (s1\<lparr>rpf_mem := sh, rpf_vars := lo\<rparr>) }"

definition drain_remote :: "ranges \<Rightarrow> dsm_env \<Rightarrow> slab_state \<Rightarrow> (bool \<times> slab_state) option" where
  "drain_remote rg env s =
     do { (d, sh, lo, s1) \<leftarrow> drain_remote_page_free env (kfree rg) (rpf_mem s) (rpf_vars s) s;
          Some (d, s1\<lparr>rpf_mem := sh, rpf_vars := lo\<rparr>) }"

text \<open>The loop over the pools; there is one.\<close>

definition take_pages :: "ranges \<Rightarrow> nat \<Rightarrow> slab_state \<Rightarrow> (nat option \<times> slab_state) option" where
  "take_pages rg k s =
     do { (r, P) \<leftarrow> buddy_get_pages rg (int k) (dram_pool s); Some (r, s\<lparr>dram_pool := P\<rparr>) }"

definition get_dram_pages :: "ranges \<Rightarrow> dsm_env \<Rightarrow> nat \<Rightarrow> slab_state \<Rightarrow> (nat \<times> slab_state) option" where
  "get_dram_pages rg env k s =
     do { s0 \<leftarrow> poll_remote rg env s;
          (r, s1) \<leftarrow> take_pages rg k s0;
          (r, s2) \<leftarrow> (if r \<noteq> None then Some (r, s1)
            else do { (d, s') \<leftarrow> drain_remote rg env s1; if d then take_pages rg k s' else Some (None, s') });
          case r of
            None \<Rightarrow> Some (0, s2)
          | Some i \<Rightarrow>
              do { refs \<leftarrow> store_at (page_ref s2) i 1;
                   a \<leftarrow> page_to_virt (dram_pool s2) i;
                   Some (unat a, s2\<lparr>page_ref := refs\<rparr>) } }"

subsection \<open>New slabs and slots\<close>

definition alloc_slab_memory :: "ranges \<Rightarrow> dsm_env \<Rightarrow> nat \<Rightarrow> slab_state \<Rightarrow> (nat \<times> slab_state) option" where
  "alloc_slab_memory rg env sz s =
     do { (addr, s1) \<leftarrow> get_dram_pages rg env (size_to_order (sz div 4096)) s;
          if addr = 0 then Some (0, s1)
          else do { s2 \<leftarrow> set_or_clear_slab_in_page rg addr sz True s1; Some (addr, s2) } }"

fun link_slots :: "nat \<Rightarrow> nat \<Rightarrow> nat \<Rightarrow> (nat \<Rightarrow> nat) \<Rightarrow> nat \<Rightarrow> nat" where
  "link_slots obj_size 0 slot nf = nf(slot := 0)"
| "link_slots obj_size (Suc i) slot nf = link_slots obj_size i (slot + obj_size) (nf(slot := slot + obj_size))"

definition init_slab_cache :: "ranges \<Rightarrow> dsm_env \<Rightarrow> nat \<Rightarrow> nat \<Rightarrow> nat \<Rightarrow> slab_state \<Rightarrow> (nat \<times> slab_state) option" where
  "init_slab_cache rg env k sz cpu s =
     do { (addr, s1) \<leftarrow> alloc_slab_memory rg env sz s;
          if addr = 0 then Some (0, s1)
          else do {
            let obj_size = order_to_size k;
            let total_slots = sz div obj_size;
            let meta_slots = ROUND_UP SIZEOF_SLAB_HEADER obj_size div obj_size;
            bug_on (meta_slots = 0 \<or> meta_slots \<ge> total_slots);
            let cnt = total_slots - meta_slots;
            let slot = addr + meta_slots * obj_size;
            let h = \<lparr>free_list_head = slot, slab_order = k, owner_cpu = cpu,
               total_free_cnt = of_nat cnt, current_free_cnt = of_nat cnt\<rparr>;
            Some (addr, set_header addr (Some h) (s1\<lparr>next_free := link_slots obj_size (cnt - 1) slot (next_free s1)\<rparr>)) } }"

definition alloc_in_dram_slab_impl :: "ranges \<Rightarrow> dsm_env \<Rightarrow> nat \<Rightarrow> nat \<Rightarrow> slab_state \<Rightarrow> (nat \<times> slab_state) option" where
  "alloc_in_dram_slab_impl rg env cpu k s =
     do { bug_on (cpu \<ge> PLAT_CPU_NUM);
          (cur, s1) \<leftarrow> (if current_slab s cpu k = 0
            then do { (a, s') \<leftarrow> init_slab_cache rg env k SIZE_OF_ONE_SLAB cpu s;
                      Some (a, if a = 0 then s' else set_current cpu k a s') }
            else Some (current_slab s cpu k, s));
          if cur = 0 then Some (0, s1)
          else do {
            h \<leftarrow> slab_headers s1 cur;
            let free_list = free_list_head h;
            bug_on (free_list = 0);
            let h1 = h\<lparr>free_list_head := next_free s1 free_list, current_free_cnt := current_free_cnt h - 1\<rparr>;
            let s2 = set_header cur (Some h1) s1;
            Some (free_list, if current_free_cnt h1 = 0 then choose_new_current_slab cpu k s2 else s2) } }"

subsection \<open>Interface\<close>

fun init_pools :: "(nat \<times> nat) list \<Rightarrow> slab_state \<Rightarrow> slab_state" where
  "init_pools [] s = s"
| "init_pools ((cpu, k) # ps) s =
     init_pools ps ((set_current cpu k 0 s)\<lparr>slab_lists := init_list_head (partial_head cpu k) (slab_lists s)\<rparr>)"

definition init_dram_slab :: "slab_state \<Rightarrow> slab_state" where
  "init_dram_slab s =
     init_pools (List.product [0..<PLAT_CPU_NUM] [SLAB_MIN_ORDER..<Suc SLAB_MAX_ORDER]) s"

definition alloc_in_dram_slab :: "ranges \<Rightarrow> dsm_env \<Rightarrow> nat \<Rightarrow> nat \<Rightarrow> slab_state \<Rightarrow> (nat \<times> slab_state) option" where
  "alloc_in_dram_slab rg env cpu sz s =
     do { bug_on (sz > order_to_size SLAB_MAX_ORDER);
          let k = size_to_order sz;
          alloc_in_dram_slab_impl rg env cpu (if k < SLAB_MIN_ORDER then SLAB_MIN_ORDER else k) s }"

text \<open>The address \<open>dram_kmalloc\<close> obtains, \<^verbatim>\<open>NULL\<close> when there is no memory.\<close>

definition kmalloc_addr :: "ranges \<Rightarrow> dsm_env \<Rightarrow> nat \<Rightarrow> nat \<Rightarrow> slab_state \<Rightarrow> (nat \<times> slab_state) option" where
  "kmalloc_addr rg env cpu sz s =
     (if sz \<le> SLAB_MAX_SIZE then alloc_in_dram_slab rg env cpu sz s
      else get_dram_pages rg env (if sz \<le> 4096 then 0 else size_to_page_order sz) s)"

definition dram_kmalloc :: "ranges \<Rightarrow> dsm_env \<Rightarrow> nat \<Rightarrow> nat \<Rightarrow> slab_state \<Rightarrow> (nat \<times> slab_state) option" where
  "dram_kmalloc rg env cpu sz s =
     (if sz = 0 then Some (ZERO_SIZE_PTR, s)
      else do { (addr, s1) \<leftarrow> kmalloc_addr rg env cpu sz s;
                bug_on (addr = 0);
                Some (addr, s1) })"

text \<open>The counting of free slots; a list of slots without an end would be walked forever.\<close>

partial_function (option) count_slots :: "(nat \<Rightarrow> nat) \<Rightarrow> nat \<Rightarrow> nat option" where
  "count_slots nf slot = (if slot = 0 then Some 0 else do { n \<leftarrow> count_slots nf (nf slot); Some (Suc n) })"

fun count_slabs :: "slab_state \<Rightarrow> nat list \<Rightarrow> (nat \<times> nat) option" where
  "count_slabs s [] = Some (0, 0)"
| "count_slabs s (a # as) =
     do { h \<leftarrow> slab_headers s a;
          m \<leftarrow> count_slots (next_free s) (free_list_head h);
          (n, c) \<leftarrow> count_slabs s as;
          Some (m + n, unat (current_free_cnt h) + c) }"

text \<open>\<open>fuel\<close> bounds the steps along a list of slabs.\<close>

fun count_cpus :: "nat \<Rightarrow> nat \<Rightarrow> slab_state \<Rightarrow> nat list \<Rightarrow> (nat \<times> nat) option" where
  "count_cpus fuel k s [] = Some (0, 0)"
| "count_cpus fuel k s (cpu # cpus) =
     do { let cur = current_slab s cpu k;
          slabs \<leftarrow> for_each_in_list fuel (partial_head cpu k) (slab_lists s);
          (m, c) \<leftarrow> count_slabs s (if cur = 0 then slabs else cur # slabs);
          (n, d) \<leftarrow> count_cpus fuel k s cpus;
          Some (m + n, c + d) }"

definition dram_get_free_slot_number :: "nat \<Rightarrow> nat \<Rightarrow> slab_state \<Rightarrow> nat option" where
  "dram_get_free_slot_number fuel k s =
     do { (n, c) \<leftarrow> count_cpus fuel k s [0..<PLAT_CPU_NUM];
          bug_on (c \<noteq> n);
          Some n }"

fun total_slot_size :: "nat \<Rightarrow> nat list \<Rightarrow> slab_state \<Rightarrow> nat option" where
  "total_slot_size fuel [] s = Some 0"
| "total_slot_size fuel (k # ks) s =
     do { n \<leftarrow> dram_get_free_slot_number fuel k s;
          m \<leftarrow> total_slot_size fuel ks s;
          Some (order_to_size k * n + m) }"

definition dram_get_free_mem_size_from_slab :: "nat \<Rightarrow> slab_state \<Rightarrow> nat option" where
  "dram_get_free_mem_size_from_slab fuel s = total_slot_size fuel [SLAB_MIN_ORDER..<Suc SLAB_MAX_ORDER] s"

end
