(* ===== verification/Slab_Inv.thy ===== *)
theory Slab_Inv
  imports Slab Buddy_Props
begin

text \<open>
  The invariant of the slab allocator. Every slab is a chunk of 512 pages of the buddy allocator
  and has a list of free slots; the slabs with free slots are the current slab of their CPU and
  size and the members of one list.
\<close>

subsection \<open>Sizes\<close>

lemma shift_count_bounds:
  "0 < z \<Longrightarrow> 2 ^ shift_count z \<le> z \<and> z < 2 ^ Suc (shift_count z)"
proof (induction z rule: shift_count.induct)
  case (1 z)
  show ?case
  proof (cases "1 < z")
    case True
    then have "0 < z div 2" by simp
    from 1(1) [OF True this] show ?thesis using True by (subst (1 2) shift_count.simps) auto
  next
    case False
    then have "z = 1" using 1(2) by simp
    then show ?thesis by (simp add: shift_count.simps)
  qed
qed

lemma size_to_order_fits: "z \<le> 2 ^ size_to_order z"
proof (cases "0 < z")
  case True
  from shift_count_bounds [OF this] show ?thesis by (simp add: size_to_order_def Let_def)
qed simp

lemma size_to_order_le:
  assumes "z \<le> 2 ^ m"
  shows "size_to_order z \<le> m"
proof (cases "0 < z")
  case True
  note b = shift_count_bounds [OF this]
  show ?thesis
  proof (cases "2 ^ shift_count z < z")
    case True
    then have "(2 :: nat) ^ shift_count z < 2 ^ m" using assms by (rule less_le_trans)
    then have "shift_count z < m" by simp
    then show ?thesis using True by (simp add: size_to_order_def Let_def)
  next
    case False
    have "(2 :: nat) ^ shift_count z \<le> 2 ^ m" using b assms by (meson order_trans)
    then have "shift_count z \<le> m" by simp
    then show ?thesis using False by (simp add: size_to_order_def Let_def)
  qed
next
  case False
  then show ?thesis by (simp add: size_to_order_def Let_def shift_count.simps)
qed

lemma slab_page_order: "size_to_order 512 = 9"
  by (simp add: size_to_order_def Let_def shift_count.simps)

text \<open>The order of the slots for a size.\<close>

definition slot_order :: "nat \<Rightarrow> nat" where
  "slot_order z = (if size_to_order z < SLAB_MIN_ORDER then SLAB_MIN_ORDER else size_to_order z)"

lemma slot_order_bounds:
  assumes "z \<le> 2048"
  shows "5 \<le> slot_order z" "slot_order z \<le> 11" "z \<le> 2 ^ slot_order z"
proof -
  have "size_to_order z \<le> 11" by (rule size_to_order_le) (use assms in simp)
  then show "5 \<le> slot_order z" "slot_order z \<le> 11" by (simp_all add: slot_order_def SLAB_MIN_ORDER_def)
  have "z \<le> 2 ^ size_to_order z" by (rule size_to_order_fits)
  moreover have "(2 :: nat) ^ size_to_order z \<le> 2 ^ slot_order z" by (simp add: slot_order_def)
  ultimately show "z \<le> 2 ^ slot_order z" by linarith
qed

subsection \<open>Slots of a slab\<close>

definition meta_slots :: "nat \<Rightarrow> nat" where
  "meta_slots k = ROUND_UP SIZEOF_SLAB_HEADER (order_to_size k) div order_to_size k"

definition slab_slots :: "nat \<Rightarrow> nat" where
  "slab_slots k = SIZE_OF_ONE_SLAB div order_to_size k"

definition slot_list :: "nat \<Rightarrow> nat \<Rightarrow> nat list" where
  "slot_list a k = map (\<lambda>m. a + m * 2 ^ k) [meta_slots k..<slab_slots k]"

definition slots :: "nat \<Rightarrow> nat \<Rightarrow> nat set" where
  "slots a k = set (slot_list a k)"

lemma order_cases:
  assumes "5 \<le> (k :: nat)" "k \<le> 11"
  shows "k = 5 \<or> k = 6 \<or> k = 7 \<or> k = 8 \<or> k = 9 \<or> k = 10 \<or> k = 11"
  using assms by linarith

lemma slab_sizes:
  assumes "5 \<le> k" "k \<le> 11"
  shows "slab_slots k * 2 ^ k = 2097152" "0 < meta_slots k" "meta_slots k < slab_slots k" "40 \<le> meta_slots k * 2 ^ k"
    "slab_slots k - meta_slots k < 65536"
  using order_cases [OF assms]
  by (auto simp: slab_slots_def meta_slots_def SIZE_OF_ONE_SLAB_def order_to_size_def ROUND_UP_def SIZEOF_SLAB_HEADER_def)

lemma slots_mem: "x \<in> slots a k \<longleftrightarrow> (\<exists>m. meta_slots k \<le> m \<and> m < slab_slots k \<and> x = a + m * 2 ^ k)"
  by (auto simp: slots_def slot_list_def)

lemma slot_list_facts:
  "distinct (slot_list a k)" "length (slot_list a k) = slab_slots k - meta_slots k" "finite (slots a k)"
  "card (slots a k) = slab_slots k - meta_slots k"
proof -
  show d: "distinct (slot_list a k)" by (auto simp: slot_list_def distinct_map inj_on_def)
  show l: "length (slot_list a k) = slab_slots k - meta_slots k" by (simp add: slot_list_def)
  show "finite (slots a k)" by (simp add: slots_def)
  show "card (slots a k) = slab_slots k - meta_slots k" unfolding slots_def using distinct_card [OF d] l by simp
qed

lemma slots_range:
  assumes "x \<in> slots a k" "5 \<le> k" "k \<le> 11"
  shows "a + 40 \<le> x" "x + 2 ^ k \<le> a + 2097152" "2 ^ k dvd x - a"
proof -
  obtain m where m: "meta_slots k \<le> m" "m < slab_slots k" "x = a + m * 2 ^ k" using assms(1) slots_mem by blast
  have "meta_slots k * 2 ^ k \<le> m * 2 ^ k" using m(1) by simp
  then show "a + 40 \<le> x" using slab_sizes(4) [OF assms(2,3)] m(3) by linarith
  have "Suc m * 2 ^ k \<le> slab_slots k * 2 ^ k" using m(2) by (intro mult_le_mono1) simp
  then show "x + 2 ^ k \<le> a + 2097152" using slab_sizes(1) [OF assms(2,3)] m(3) by simp
  show "2 ^ k dvd x - a" using m(3) by simp
qed

lemma slots_apart:
  assumes "x \<in> slots a k" "y \<in> slots a k" "x \<noteq> y"
  shows "x + 2 ^ k \<le> y \<or> y + 2 ^ k \<le> x"
proof -
  obtain m l where m: "x = a + m * 2 ^ k" "y = a + l * 2 ^ k" using assms(1,2) slots_mem by blast
  then consider "Suc m \<le> l" | "Suc l \<le> m" using assms(3) by fastforce
  then show ?thesis
  proof cases
    case 1
    then have "Suc m * 2 ^ k \<le> l * 2 ^ k" by (rule mult_le_mono1)
    then show ?thesis using m by simp
  next
    case 2
    then have "Suc l * 2 ^ k \<le> m * 2 ^ k" by (rule mult_le_mono1)
    then show ?thesis using m by simp
  qed
qed

subsection \<open>Lists of free slots\<close>

fun chain :: "(nat \<Rightarrow> nat) \<Rightarrow> nat \<Rightarrow> nat list \<Rightarrow> bool" where
  "chain nf p [] \<longleftrightarrow> p = 0"
| "chain nf p (x # xs) \<longleftrightarrow> p = x \<and> x \<noteq> 0 \<and> chain nf (nf x) xs"

lemma chain_cong: "(\<And>x. x \<in> set xs \<Longrightarrow> nf' x = nf x) \<Longrightarrow> chain nf' p xs \<longleftrightarrow> chain nf p xs"
  by (induction xs arbitrary: p) auto

lemma chain_head: "chain nf p xs \<Longrightarrow> p = 0 \<longleftrightarrow> xs = []"
  by (cases xs) auto

lemma link_slots_other: "(\<And>m. m \<le> i \<Longrightarrow> x \<noteq> slot + m * d) \<Longrightarrow> link_slots d i slot nf x = nf x"
proof (induction i arbitrary: slot nf)
  case 0
  then show ?case by force
next
  case (Suc i)
  have "x \<noteq> slot + d + m * d" if "m \<le> i" for m using Suc.prems [of "Suc m"] that by (simp add: add.assoc)
  from Suc.IH [OF this] show ?case using Suc.prems [of 0] by simp
qed

lemma link_slots_chain:
  assumes "0 < d" "0 < slot"
  shows "chain (link_slots d i slot nf) slot (map (\<lambda>m. slot + m * d) [0..<Suc i])"
  using assms(2)
proof (induction i arbitrary: slot nf)
  case (Suc i)
  have e: "map (\<lambda>m. slot + m * d) [0..<Suc (Suc i)] = slot # map (\<lambda>m. (slot + d) + m * d) [0..<Suc i]"
    by (simp only: upt_conv_Cons [OF zero_less_Suc] map_Suc_upt [symmetric] list.map map_map o_def) (simp add: algebra_simps del: upt_Suc)
  have "link_slots d (Suc i) slot nf slot = slot + d"
    using assms(1) by (simp add: link_slots_other)
  then show ?case using Suc.IH [of "slot + d" "nf(slot := slot + d)"] Suc.prems unfolding e by (simp del: upt_Suc fun_upd_apply)
qed simp

text \<open>A slab with the free slots \<open>xs\<close>.\<close>

definition slab_ok :: "(nat \<Rightarrow> nat) \<Rightarrow> nat \<Rightarrow> slab_header \<Rightarrow> nat list \<Rightarrow> bool" where
  "slab_ok nf a h xs \<longleftrightarrow> chain nf (free_list_head h) xs \<and> distinct xs \<and> set xs \<subseteq> slots a (slab_order h) \<and>
     unat (current_free_cnt h) = length xs \<and>
     unat (total_free_cnt h) = slab_slots (slab_order h) - meta_slots (slab_order h) \<and>
     5 \<le> slab_order h \<and> slab_order h \<le> 11 \<and> owner_cpu h < 12"

lemma slab_okD:
  assumes "slab_ok nf a h xs"
  shows "chain nf (free_list_head h) xs" "distinct xs" "set xs \<subseteq> slots a (slab_order h)"
    "unat (current_free_cnt h) = length xs" "5 \<le> slab_order h" "slab_order h \<le> 11" "owner_cpu h < 12"
    "unat (total_free_cnt h) = slab_slots (slab_order h) - meta_slots (slab_order h)"
  using assms by (simp_all add: slab_ok_def)

lemma slab_ok_length:
  assumes "slab_ok nf a h xs"
  shows "length xs \<le> slab_slots (slab_order h) - meta_slots (slab_order h)" "length xs < 65536"
    "length xs = slab_slots (slab_order h) - meta_slots (slab_order h) \<longleftrightarrow> set xs = slots a (slab_order h)"
proof -
  note d = slab_okD [OF assms]
  have c: "card (set xs) = length xs" using d(2) by (rule distinct_card)
  note s = slot_list_facts(3,4) [of a "slab_order h"]
  show l: "length xs \<le> slab_slots (slab_order h) - meta_slots (slab_order h)" using card_mono [OF s(1) d(3)] c s(2) by simp
  then show "length xs < 65536" using slab_sizes(5) [OF d(5,6)] by simp
  show "length xs = slab_slots (slab_order h) - meta_slots (slab_order h) \<longleftrightarrow> set xs = slots a (slab_order h)"
    using card_subset_eq [OF s(1) d(3)] c s(2) by auto
qed

lemma slab_ok_other:
  assumes "slab_ok nf a h xs" "\<And>x. x \<in> slots a (slab_order h) \<Longrightarrow> nf' x = nf x"
  shows "slab_ok nf' a h xs"
  using assms chain_cong [of xs nf' nf "free_list_head h"] by (auto simp: slab_ok_def)

lemma slab_pop:
  assumes "slab_ok nf a h (x # xs)"
  shows "slab_ok nf a (h\<lparr>free_list_head := nf x, current_free_cnt := current_free_cnt h - 1\<rparr>) xs" "free_list_head h = x" "x \<noteq> 0"
    "current_free_cnt h - 1 = 0 \<longleftrightarrow> xs = []" "x \<in> slots a (slab_order h)"
proof -
  note d = slab_okD [OF assms]
  have n: "unat (current_free_cnt h) = Suc (length xs)" using d(4) by simp
  have "1 \<le> current_free_cnt h" using n by (simp add: word_le_nat_alt)
  then have c: "unat (current_free_cnt h - 1) = length xs" using n by (simp add: unat_sub)
  then show "slab_ok nf a (h\<lparr>free_list_head := nf x, current_free_cnt := current_free_cnt h - 1\<rparr>) xs"
    using d by (simp add: slab_ok_def)
  show "free_list_head h = x" "x \<noteq> 0" "x \<in> slots a (slab_order h)" using d by simp_all
  show "current_free_cnt h - 1 = 0 \<longleftrightarrow> xs = []" using c by (simp add: unat_eq_0 [symmetric] del: unat_eq_0)
qed

lemma slab_push:
  assumes "slab_ok nf a h xs" "x \<in> slots a (slab_order h)" "x \<notin> set xs" "x \<noteq> 0"
  shows "slab_ok (nf(x := free_list_head h)) a (h\<lparr>free_list_head := x, current_free_cnt := current_free_cnt h + 1\<rparr>) (x # xs)"
    "current_free_cnt h + 1 = total_free_cnt h \<longleftrightarrow> set (x # xs) = slots a (slab_order h)"
proof -
  note d = slab_okD [OF assms(1)]
  let ?h = "h\<lparr>free_list_head := x, current_free_cnt := current_free_cnt h + 1\<rparr>"
  have "card (set (x # xs)) \<le> card (slots a (slab_order h))" by (rule card_mono [OF slot_list_facts(3)]) (use assms(2) d(3) in auto)
  moreover have "card (set (x # xs)) = Suc (length xs)" using assms(3) d(2) distinct_card [of "x # xs"] by simp
  ultimately have "Suc (length xs) \<le> slab_slots (slab_order h) - meta_slots (slab_order h)" using slot_list_facts(4) by simp
  then have lt: "Suc (length xs) < 65536" using slab_sizes(5) [OF d(5,6)] by simp
  have c: "unat (current_free_cnt h + 1) = Suc (length xs)" using lt d(4) by (simp add: unat_word_ariths)
  have ch: "chain (nf(x := free_list_head h)) (free_list_head h) xs" using d(1) assms(3) chain_cong [of xs "nf(x := free_list_head h)" nf] by force
  show ok: "slab_ok (nf(x := free_list_head h)) a ?h (x # xs)"
    using d assms c ch by (simp add: slab_ok_def)
  show "current_free_cnt h + 1 = total_free_cnt h \<longleftrightarrow> set (x # xs) = slots a (slab_order h)"
    using slab_ok_length(3) [OF ok] c d(8) by (simp add: word_unat_eq_iff)
qed

subsection \<open>Pages\<close>

lemma pool_inv_geo: "pool_inv rg S n A P \<Longrightarrow> pool_geo rg S n P"
  by (auto simp: pool_inv_def dest: binvD(1))

lemma virt_to_page_in:
  assumes g: "pool_geo rg S n P" and i: "i < n" and x: "4096 * (S + i) \<le> x" "x < 4096 * (S + i) + 4096"
  shows "virt_to_page rg P (of_nat x) = Some i"
proof -
  let ?a = "of_nat x :: u64"
  have st: "unat (pool_start_addr P) = 4096 * S" using g by (simp add: pool_geo_def)
  have "x < 2 ^ 64" using g i x(2) by (simp add: pool_geo_def)
  then have a: "unat ?a = x" by (simp add: unsigned_of_nat take_bit_nat_eq_self)
  have le: "pool_start_addr P \<le> ?a" "?a < pool_start_addr P + pool_mem_size P"
    using st a x i pool_end [OF g] by (auto simp: word_le_nat_alt word_less_nat_alt)
  have "(x - 4096 * S) div 4096 = i" using x by (intro div_nat_eqI) simp_all
  then have "unat ((?a - pool_start_addr P) div BUDDY_PAGE_SIZE) = i"
    using le(1) st a by (simp add: unat_div unat_sub BUDDY_PAGE_SIZE_def)
  with g i le show ?thesis by (simp add: virt_to_page_def pool_geo_def Let_def)
qed

lemma mark_pages_eval:
  assumes "pool_geo rg S n (dram_pool s)" "length (page_slab s) = n" "\<And>j. j \<in> set js \<Longrightarrow> i + j < n"
  shows "\<exists>ps. mark_pages rg v (4096 * (S + i)) js s = Some (s\<lparr>page_slab := ps\<rparr>) \<and> length ps = n \<and>
    (\<forall>j < n. ps ! j = (if \<exists>m \<in> set js. j = i + m then v else page_slab s ! j))"
  using assms
proof (induction js arbitrary: s)
  case (Cons m js)
  have m: "i + m < n" using Cons.prems(3) by simp
  let ?ps = "(page_slab s)[i + m := v]"
  let ?s = "s\<lparr>page_slab := ?ps\<rparr>"
  have "virt_to_page rg (dram_pool s) (of_nat (4096 * (S + i) + m * 4096)) = Some (i + m)"
    by (rule virt_to_page_in [OF Cons.prems(1) m]) simp_all
  then have run: "mark_pages rg v (4096 * (S + i)) (m # js) s = mark_pages rg v (4096 * (S + i)) js ?s"
    using m Cons.prems(2) by simp
  have "\<exists>ps. mark_pages rg v (4096 * (S + i)) js ?s = Some (?s\<lparr>page_slab := ps\<rparr>) \<and> length ps = n \<and>
    (\<forall>j < n. ps ! j = (if \<exists>m \<in> set js. j = i + m then v else page_slab ?s ! j))"
    by (rule Cons.IH) (use Cons.prems in auto)
  then obtain ps where ps: "mark_pages rg v (4096 * (S + i)) js ?s = Some (s\<lparr>page_slab := ps\<rparr>)" "length ps = n"
    "\<And>j. j < n \<Longrightarrow> ps ! j = (if \<exists>m \<in> set js. j = i + m then v else ?ps ! j)" by auto
  then show ?case unfolding run using Cons.prems(2) by (auto simp: nth_list_update)
next
  case Nil
  have "s\<lparr>page_slab := page_slab s\<rparr> = s" by simp
  then show ?case using Nil.prems(2) by (intro exI [of _ "page_slab s"]) simp
qed

lemma slab_mark_eval:
  assumes "pool_geo rg S n (dram_pool s)" "length (page_slab s) = n" "i + 512 \<le> n"
  shows "\<exists>ps. set_or_clear_slab_in_page rg (4096 * (S + i)) SIZE_OF_ONE_SLAB b s = Some (s\<lparr>page_slab := ps\<rparr>) \<and> length ps = n \<and>
    (\<forall>j < n. ps ! j = (if i \<le> j \<and> j < i + 512 then (if b then 4096 * (S + i) else 0) else page_slab s ! j))"
proof -
  have e: "order_to_size (size_to_order (SIZE_OF_ONE_SLAB div 4096)) = 512"
    by (simp add: SIZE_OF_ONE_SLAB_def slab_page_order order_to_size_def)
  have m: "(\<exists>m \<in> set [0..<512]. j = i + m) \<longleftrightarrow> i \<le> j \<and> j < i + 512" for j
    by (auto intro!: bexI [of _ "j - i"])
  show ?thesis
    using mark_pages_eval [OF assms(1,2), of "[0..<512]" i "if b then 4096 * (S + i) else 0"] assms(3)
    unfolding set_or_clear_slab_in_page_def e m by simp
qed

text \<open>A request of pages without the pages other machines give back.\<close>

definition get_pool_pages :: "ranges \<Rightarrow> nat \<Rightarrow> slab_state \<Rightarrow> (nat \<times> slab_state) option" where
  "get_pool_pages rg k s =
     do { (r, s1) \<leftarrow> take_pages rg k s;
          case r of
            None \<Rightarrow> Some (0, s1)
          | Some i \<Rightarrow>
              do { refs \<leftarrow> store_at (page_ref s1) i 1;
                   a \<leftarrow> page_to_virt (dram_pool s1) i;
                   Some (unat a, s1\<lparr>page_ref := refs\<rparr>) } }"

lemma get_pool_pages_eval:
  assumes "pool_inv rg S n A (dram_pool s)" "length (page_ref s) = n"
  shows "(\<exists>P. get_pool_pages rg k s = Some (0, s\<lparr>dram_pool := P\<rparr>) \<and> pool_inv rg S n A P) \<or>
    (\<exists>i P. get_pool_pages rg k s = Some (4096 * (S + i), s\<lparr>dram_pool := P, page_ref := (page_ref s)[i := 1]\<rparr>) \<and> (i, k) \<notin> A \<and>
      pool_inv rg S n (insert (i, k) A) P)"
proof -
  obtain r P where g: "buddy_get_pages rg (int k) (dram_pool s) = Some (r, P)"
    "case r of None \<Rightarrow> pool_inv rg S n A P | Some i \<Rightarrow> (i, k) \<notin> A \<and> pool_inv rg S n (insert (i, k) A) P"
    using bp.get_law [OF assms(1), where k = k] by auto
  show ?thesis
  proof (cases r)
    case None
    then have "get_pool_pages rg k s = Some (0, s\<lparr>dram_pool := P\<rparr>)" "pool_inv rg S n A P" using g by (simp_all add: get_pool_pages_def take_pages_def)
    then show ?thesis by blast
  next
    case (Some i)
    then have p: "(i, k) \<notin> A" "pool_inv rg S n (insert (i, k) A) P" using g(2) by simp_all
    have "chunk_ok S n (i, k)" by (rule pool_inv_disjoint(1) [OF p(2)]) simp
    then have "i + 2 ^ k \<le> n" by (simp add: chunk_ok_def)
    then have i: "i < n" by (rule less_le_trans [rotated]) simp
    obtain a where a: "page_to_virt P i = Some a" "unat a = 4096 * (S + i)" using page_to_virt_ok [OF pool_inv_geo [OF p(2)] i] by blast
    then have "get_pool_pages rg k s = Some (4096 * (S + i), s\<lparr>dram_pool := P, page_ref := (page_ref s)[i := 1]\<rparr>)"
      using g(1) Some i assms(2) by (simp add: get_pool_pages_def take_pages_def)
    then show ?thesis using p by blast
  qed
qed

lemma free_dram_pages_eval:
  assumes "pool_inv rg S n A (dram_pool s)" "(i, k) \<in> A"
  shows "\<exists>P. free_dram_pages rg (4096 * (S + i)) s = Some (s\<lparr>dram_pool := P\<rparr>) \<and> pool_inv rg S n (A - {(i, k)}) P"
proof -
  have "chunk_ok S n (i, k)" by (rule pool_inv_disjoint(1) [OF assms])
  then have "i + 2 ^ k \<le> n" by (simp add: chunk_ok_def)
  then have i: "i < n" by (rule less_le_trans [rotated]) simp
  have "virt_to_page rg (dram_pool s) (of_nat (4096 * (S + i))) = Some i"
    by (rule virt_to_page_in [OF pool_inv_geo [OF assms(1)] i]) simp_all
  moreover obtain P where "buddy_free_pages rg i (dram_pool s) = Some P" "pool_inv rg S n (A - {(i, k)}) P"
    using bp.free_law [OF assms(1) _ assms(2)] by blast
  ultimately have "free_dram_pages rg (4096 * (S + i)) s = Some (s\<lparr>dram_pool := P\<rparr>)" "pool_inv rg S n (A - {(i, k)}) P"
    by (simp_all add: free_dram_pages_def)
  then show ?thesis by blast
qed

subsection \<open>Slabs of a CPU and a size\<close>

definition class_heads :: "nat set" where
  "class_heads = {partial_head cpu k | cpu k. cpu < 12 \<and> 5 \<le> k \<and> k \<le> 11}"

definition class_slabs :: "(nat \<rightharpoonup> slab_header) \<Rightarrow> (nat \<Rightarrow> nat list) \<Rightarrow> nat \<Rightarrow> nat \<Rightarrow> nat set" where
  "class_slabs H fl cpu k = {a. \<exists>h. H a = Some h \<and> owner_cpu h = cpu \<and> slab_order h = k \<and> fl a \<noteq> []}"

text \<open>The list \<open>xs\<close> and the current slab \<open>c\<close> of a class hold its slabs with free slots.\<close>

definition class_ok :: "nat set \<Rightarrow> nat list \<Rightarrow> nat \<Rightarrow> bool" where
  "class_ok A xs c \<longleftrightarrow> set xs = A - {c} \<and> (c = 0 \<or> c \<in> A)"

definition classes :: "(nat \<rightharpoonup> slab_header) \<Rightarrow> (nat \<Rightarrow> nat list) \<Rightarrow> list_heap \<Rightarrow> (nat \<Rightarrow> nat \<Rightarrow> nat) \<Rightarrow> bool" where
  "classes H fl l cur \<longleftrightarrow> (\<exists>F. dl.family l class_heads F \<and>
     (\<forall>cpu k. cpu < 12 \<longrightarrow> 5 \<le> k \<longrightarrow> k \<le> 11 \<longrightarrow> class_ok (class_slabs H fl cpu k) (F (partial_head cpu k)) (cur cpu k)))"

text \<open>The same while a class has no current slab.\<close>

definition classes_but :: "nat \<Rightarrow> nat \<Rightarrow> (nat \<rightharpoonup> slab_header) \<Rightarrow> (nat \<Rightarrow> nat list) \<Rightarrow> list_heap \<Rightarrow> (nat \<Rightarrow> nat \<Rightarrow> nat) \<Rightarrow> bool" where
  "classes_but c j H fl l cur \<longleftrightarrow> classes H fl l (cur(c := (cur c)(j := 0)))"

lemma partial_head_inj:
  "k \<le> 11 \<Longrightarrow> k' \<le> 11 \<Longrightarrow> partial_head cpu k = partial_head cpu' k' \<longleftrightarrow> cpu = cpu' \<and> k = k'"
proof
  assume k: "k \<le> 11" "k' \<le> 11" and "partial_head cpu k = partial_head cpu' k'"
  then have e: "cpu * 12 + k = cpu' * 12 + k'" by (simp add: partial_head_def SLAB_MAX_ORDER_def)
  have "(cpu * 12 + k) div 12 = cpu" "(cpu' * 12 + k') div 12 = cpu'" using k by simp_all
  then show "cpu = cpu' \<and> k = k'" using e by simp
qed simp

lemma class_heads_lt: "l \<in> class_heads \<Longrightarrow> l < 4096"
  by (auto simp: class_heads_def partial_head_def SLAB_MAX_ORDER_def)

lemma class_headI [intro]: "cpu < 12 \<Longrightarrow> 5 \<le> k \<Longrightarrow> k \<le> 11 \<Longrightarrow> partial_head cpu k \<in> class_heads"
  by (auto simp: class_heads_def)

lemma class_slabs_dom: "class_slabs H fl cpu k \<subseteq> dom H"
  by (auto simp: class_slabs_def)

lemma classes_cong:
  assumes "classes H fl l cur" "\<And>cpu k. class_slabs H' fl' cpu k = class_slabs H fl cpu k"
  shows "classes H' fl' l cur"
  using assms by (simp add: classes_def)

lemma classes_current:
  assumes "classes H fl l cur" "cpu < 12" "5 \<le> k" "k \<le> 11" "cur cpu k \<noteq> 0"
  shows "\<exists>h. H (cur cpu k) = Some h \<and> owner_cpu h = cpu \<and> slab_order h = k \<and> fl (cur cpu k) \<noteq> []"
proof -
  obtain F where "class_ok (class_slabs H fl cpu k) (F (partial_head cpu k)) (cur cpu k)"
    using assms(1-4) unfolding classes_def by auto
  then show ?thesis using assms(5) by (simp add: class_ok_def class_slabs_def)
qed

lemma list_member_class:
  assumes "\<And>cpu k. cpu < 12 \<Longrightarrow> 5 \<le> k \<Longrightarrow> k \<le> 11 \<Longrightarrow> class_ok (class_slabs H fl cpu k) (F (partial_head cpu k)) (cur cpu k)"
    and "l \<in> class_heads" "a \<in> set (F l)"
  shows "\<exists>h. H a = Some h \<and> l = partial_head (owner_cpu h) (slab_order h) \<and> fl a \<noteq> []"
proof -
  obtain cpu k where l: "l = partial_head cpu k" "cpu < 12" "5 \<le> k" "k \<le> 11" using assms(2) by (auto simp: class_heads_def)
  then have "a \<in> class_slabs H fl cpu k" using assms(1) [OF l(2-4)] assms(3) by (auto simp: class_ok_def)
  then show ?thesis using l(1) by (auto simp: class_slabs_def)
qed

lemma classes_append:
  assumes c: "classes H fl l cur" and a: "H a = Some h" "fl a = []" "4096 \<le> a" "owner_cpu h < 12" "5 \<le> slab_order h" "slab_order h \<le> 11"
    and new: "\<And>cpu k. class_slabs H' fl' cpu k =
      (if cpu = owner_cpu h \<and> k = slab_order h then insert a (class_slabs H fl cpu k) else class_slabs H fl cpu k)"
  shows "classes H' fl' (list_append a (partial_head (owner_cpu h) (slab_order h)) l) cur"
proof -
  let ?hd = "partial_head (owner_cpu h) (slab_order h)"
  obtain F where F: "dl.family l class_heads F" "\<And>cpu k. cpu < 12 \<Longrightarrow> 5 \<le> k \<Longrightarrow> k \<le> 11 \<Longrightarrow>
    class_ok (class_slabs H fl cpu k) (F (partial_head cpu k)) (cur cpu k)" using c unfolding classes_def by auto
  have no: "a \<notin> set (F l')" if "l' \<in> class_heads" for l' using list_member_class [OF F(2) that] a(2) by blast
  have cur: "a \<noteq> cur cpu k" if "cpu < 12" "5 \<le> k" "k \<le> 11" for cpu k
    using F(2) [OF that] a(2,3) by (auto simp: class_ok_def class_slabs_def)
  have hd: "?hd \<in> class_heads" using a(4-6) by (rule class_headI)
  have "a \<notin> class_heads" using class_heads_lt [of a] a(3) by linarith
  from dl.family_append [OF F(1) hd this no] have "dl.family (list_append a ?hd l) class_heads (F(?hd := F ?hd @ [a]))" .
  moreover have "class_ok (class_slabs H' fl' cpu k) ((F(?hd := F ?hd @ [a])) (partial_head cpu k)) (cur cpu k)"
    if "cpu < 12" "5 \<le> k" "k \<le> 11" for cpu k
  proof (cases "cpu = owner_cpu h \<and> k = slab_order h")
    case True
    then show ?thesis using F(2) [OF that] cur [OF that] unfolding new class_ok_def by auto
  next
    case False
    then have "partial_head cpu k \<noteq> ?hd" using partial_head_inj [OF that(3) a(6)] by blast
    then show ?thesis using F(2) [OF that] False unfolding new by auto
  qed
  ultimately show ?thesis unfolding classes_def by blast
qed

lemma classesI:
  assumes "dl.family l class_heads F" "\<And>cpu k. cpu < 12 \<Longrightarrow> 5 \<le> k \<Longrightarrow> k \<le> 11 \<Longrightarrow>
    class_ok (class_slabs H fl cpu k) (F (partial_head cpu k)) (cur cpu k)"
  shows "classes H fl l cur"
  using assms unfolding classes_def by auto

lemma classes_delete:
  assumes c: "classes H fl l cur" and a: "H a = Some h" "fl a \<noteq> []" "a \<noteq> cur (owner_cpu h) (slab_order h)"
      "owner_cpu h < 12" "5 \<le> slab_order h" "slab_order h \<le> 11" "4096 \<le> a"
    and new: "\<And>cpu k. class_slabs H' fl' cpu k = class_slabs H fl cpu k - {a}"
  shows "classes H' fl' (list_del a l) cur"
proof -
  let ?hd = "partial_head (owner_cpu h) (slab_order h)"
  obtain F where F: "dl.family l class_heads F" "\<And>cpu k. cpu < 12 \<Longrightarrow> 5 \<le> k \<Longrightarrow> k \<le> 11 \<Longrightarrow>
    class_ok (class_slabs H fl cpu k) (F (partial_head cpu k)) (cur cpu k)" using c unfolding classes_def by auto
  have hd: "?hd \<in> class_heads" using a(4-6) by (rule class_headI)
  have mem: "a \<in> set (F ?hd)" using F(2) [OF a(4-6)] a(1-3) by (auto simp: class_ok_def class_slabs_def)
  have dist: "distinct (F ?hd)" by (rule dl.family_distinct [OF F(1) hd])
  from dl.family_del [OF F(1) hd mem] have "dl.family (list_del a l) class_heads (F(?hd := remove1 a (F ?hd)))" .
  then show ?thesis
  proof (rule classesI)
    fix cpu k :: nat assume r: "cpu < 12" "5 \<le> k" "k \<le> 11"
    show "class_ok (class_slabs H' fl' cpu k) ((F(?hd := remove1 a (F ?hd))) (partial_head cpu k)) (cur cpu k)"
    proof (cases "cpu = owner_cpu h \<and> k = slab_order h")
      case True
      then show ?thesis using F(2) [OF r] a(3) dist unfolding new class_ok_def by auto
    next
      case False
      then have "partial_head cpu k \<noteq> ?hd" using partial_head_inj [OF r(3) a(6)] by blast
      moreover have "a \<notin> class_slabs H fl cpu k" using False a(1) by (auto simp: class_slabs_def)
      ultimately show ?thesis using F(2) [OF r] unfolding new by simp
    qed
  qed
qed

lemma classes_vacate:
  assumes c: "classes H fl l cur" and a: "H (cur c j) = Some h" "owner_cpu h = c" "slab_order h = j" "cur c j \<noteq> 0" "0 \<notin> dom H"
    and new: "\<And>cpu k. class_slabs H' fl' cpu k = class_slabs H fl cpu k - {cur c j}"
  shows "classes_but c j H' fl' l cur"
proof -
  obtain F where F: "dl.family l class_heads F" "\<And>cpu k. cpu < 12 \<Longrightarrow> 5 \<le> k \<Longrightarrow> k \<le> 11 \<Longrightarrow>
    class_ok (class_slabs H fl cpu k) (F (partial_head cpu k)) (cur cpu k)" using c unfolding classes_def by auto
  show ?thesis unfolding classes_but_def
  proof (rule classesI [OF F(1)])
    fix cpu k :: nat assume r: "cpu < 12" "5 \<le> k" "k \<le> 11"
    have z: "0 \<notin> class_slabs H fl cpu k" using a(5) class_slabs_dom by blast
    show "class_ok (class_slabs H' fl' cpu k) (F (partial_head cpu k)) ((cur(c := (cur c)(j := 0))) cpu k)"
    proof (cases "cpu = c \<and> k = j")
      case True
      then show ?thesis using F(2) [OF r] z unfolding new class_ok_def by auto
    next
      case False
      then have n: "cur c j \<notin> class_slabs H fl cpu k" using a(1-3) by (auto simp: class_slabs_def)
      have e: "(cur(c := (cur c)(j := 0))) cpu k = cur cpu k" using False by auto
      show ?thesis using F(2) [OF r] n unfolding new class_ok_def e by auto
    qed
  qed
qed

lemma classes_new:
  assumes c: "classes H fl l cur" and a: "cur c j = 0" "a \<notin> dom H" "a \<noteq> 0"
    and new: "\<And>cpu k. class_slabs H' fl' cpu k =
      (if cpu = c \<and> k = j then insert a (class_slabs H fl cpu k) else class_slabs H fl cpu k)" and z: "0 \<notin> dom H"
  shows "classes H' fl' l (cur(c := (cur c)(j := a)))"
proof -
  obtain F where F: "dl.family l class_heads F" "\<And>cpu k. cpu < 12 \<Longrightarrow> 5 \<le> k \<Longrightarrow> k \<le> 11 \<Longrightarrow>
    class_ok (class_slabs H fl cpu k) (F (partial_head cpu k)) (cur cpu k)" using c unfolding classes_def by auto
  show ?thesis
  proof (rule classesI [OF F(1)])
    fix cpu k :: nat assume r: "cpu < 12" "5 \<le> k" "k \<le> 11"
    have n: "a \<notin> class_slabs H fl cpu k" "0 \<notin> class_slabs H fl cpu k" using a(2) z class_slabs_dom by blast+
    show "class_ok (class_slabs H' fl' cpu k) (F (partial_head cpu k)) ((cur(c := (cur c)(j := a))) cpu k)"
    proof (cases "cpu = c \<and> k = j")
      case True
      then show ?thesis using F(2) [OF r] n a(1) unfolding new class_ok_def by auto
    next
      case False
      then have e: "(cur(c := (cur c)(j := a))) cpu k = cur cpu k" by auto
      show ?thesis using F(2) [OF r] False unfolding new class_ok_def e by auto
    qed
  qed
qed

lemma choose_new_eval:
  assumes c: "classes_but c j H fl (slab_lists s) (current_slab s)" and r: "c < 12" "5 \<le> j" "j \<le> 11"
    and H: "\<And>a. a \<in> dom H \<Longrightarrow> 4096 \<le> a"
  shows "\<exists>l cur. choose_new_current_slab c j s = s\<lparr>slab_lists := l, current_slab := cur\<rparr> \<and> classes H fl l cur"
proof -
  let ?hd = "partial_head c j" and ?cur = "(current_slab s)(c := (current_slab s c)(j := 0))"
  obtain F where F: "dl.family (slab_lists s) class_heads F" "\<And>cpu k. cpu < 12 \<Longrightarrow> 5 \<le> k \<Longrightarrow> k \<le> 11 \<Longrightarrow>
    class_ok (class_slabs H fl cpu k) (F (partial_head cpu k)) (?cur cpu k)" using c unfolding classes_but_def classes_def by auto
  have hd: "?hd \<in> class_heads" using r by (rule class_headI)
  note e = dl.family_empty [OF F(1) hd]
  show ?thesis
  proof (cases "F ?hd")
    case Nil
    then have "choose_new_current_slab c j s = s\<lparr>slab_lists := slab_lists s, current_slab := ?cur\<rparr>"
      using e by (simp add: choose_new_current_slab_def set_current_def)
    then show ?thesis using c unfolding classes_but_def by blast
  next
    case (Cons b bs)
    have nx: "next_of (slab_lists s) ?hd = b" using family_next [OF F(1) hd] Cons by simp
    let ?cur' = "(current_slab s)(c := (current_slab s c)(j := b))"
    have run: "choose_new_current_slab c j s = s\<lparr>slab_lists := list_del b (slab_lists s), current_slab := ?cur'\<rparr>"
      using e Cons nx by (simp add: choose_new_current_slab_def set_current_def Let_def)
    have b: "b \<in> class_slabs H fl c j" "0 \<notin> class_slabs H fl c j"
      using F(2) [OF r] Cons H [of 0] class_slabs_dom [of H fl c j] by (auto simp: class_ok_def)
    have dist: "distinct (F ?hd)" by (rule dl.family_distinct [OF F(1) hd])
    have "b \<in> set (F ?hd)" using Cons by simp
    from dl.family_del [OF F(1) hd this] have "dl.family (list_del b (slab_lists s)) class_heads (F(?hd := bs))" using Cons by simp
    then have "classes H fl (list_del b (slab_lists s)) ?cur'"
    proof (rule classesI)
      fix cpu k :: nat assume q: "cpu < 12" "5 \<le> k" "k \<le> 11"
      show "class_ok (class_slabs H fl cpu k) ((F(?hd := bs)) (partial_head cpu k)) (?cur' cpu k)"
      proof (cases "cpu = c \<and> k = j")
        case True
        then show ?thesis using F(2) [OF r] b dist Cons by (auto simp: class_ok_def)
      next
        case False
        then have "partial_head cpu k \<noteq> ?hd" using partial_head_inj [OF q(3) r(3)] by blast
        moreover have "?cur' cpu k = ?cur cpu k" using False by auto
        ultimately show ?thesis using F(2) [OF q] by simp
      qed
    qed
    then show ?thesis using run by blast
  qed
qed

end
