(* ===== verification/Slab_Ops.thy ===== *)
theory Slab_Ops
  imports Slab_Inv
begin

text \<open>
  Every operation of the slab allocator keeps its invariant, and the allocator satisfies the
  contract of \<open>Page_Client\<close> for objects of up to 2048 bytes.
\<close>

subsection \<open>Invariant\<close>

definition slab_chunks :: "nat \<Rightarrow> nat set \<Rightarrow> chunk set" where
  "slab_chunks S D = {(i, k). k = 9 \<and> 4096 * (S + i) \<in> D}"

text \<open>The page \<open>j\<close> belongs to the slab \<open>a\<close>.\<close>

definition in_slab :: "nat \<Rightarrow> nat \<Rightarrow> nat \<Rightarrow> bool" where
  "in_slab S a j \<longleftrightarrow> a \<le> 4096 * (S + j) \<and> 4096 * (S + j) < a + 2097152"

definition pages_marked :: "nat \<Rightarrow> nat \<Rightarrow> nat set \<Rightarrow> nat list \<Rightarrow> bool" where
  "pages_marked S n D ps \<longleftrightarrow> length ps = n \<and>
     (\<forall>j < n. (\<forall>a \<in> D. in_slab S a j \<longrightarrow> ps ! j = a) \<and> ((\<forall>a \<in> D. \<not> in_slab S a j) \<longrightarrow> ps ! j = 0))"

text \<open>\<open>B\<close> are the chunks of pages in use outside slabs, each with one reference, \<open>fl\<close> the free slots of each slab.\<close>

definition slab_core :: "ranges \<Rightarrow> nat \<Rightarrow> nat \<Rightarrow> chunk set \<Rightarrow> (nat \<Rightarrow> nat list) \<Rightarrow> slab_state \<Rightarrow> bool" where
  "slab_core rg S n B fl s \<longleftrightarrow> 0 < S \<and> (\<forall>a \<in> dom (slab_headers s). \<exists>i. a = 4096 * (S + i)) \<and>
     pool_inv rg S n (B \<union> slab_chunks S (dom (slab_headers s))) (dram_pool s) \<and>
     B \<inter> slab_chunks S (dom (slab_headers s)) = {} \<and> length (page_ref s) = n \<and> (\<forall>c \<in> B. page_ref s ! fst c = 1) \<and>
     pages_marked S n (dom (slab_headers s)) (page_slab s) \<and>
     (\<forall>a h. slab_headers s a = Some h \<longrightarrow> slab_ok (next_free s) a h (fl a)) \<and>
     classes (slab_headers s) fl (slab_lists s) (current_slab s)"

definition used :: "(nat \<rightharpoonup> slab_header) \<Rightarrow> (nat \<Rightarrow> nat list) \<Rightarrow> nat set" where
  "used H fl = {x. \<exists>a h. H a = Some h \<and> x \<in> slots a (slab_order h) \<and> x \<notin> set (fl a)}"

lemma coreD:
  assumes "slab_core rg S n B fl s"
  shows "0 < S" "pool_inv rg S n (B \<union> slab_chunks S (dom (slab_headers s))) (dram_pool s)"
    "B \<inter> slab_chunks S (dom (slab_headers s)) = {}" "length (page_ref s) = n"
    "pages_marked S n (dom (slab_headers s)) (page_slab s)" "classes (slab_headers s) fl (slab_lists s) (current_slab s)"
    "\<And>a h. slab_headers s a = Some h \<Longrightarrow> slab_ok (next_free s) a h (fl a)"
    "\<And>a. a \<in> dom (slab_headers s) \<Longrightarrow> \<exists>i. a = 4096 * (S + i)" "pool_geo rg S n (dram_pool s)"
    "\<And>c. c \<in> B \<Longrightarrow> page_ref s ! fst c = 1"
  using assms pool_inv_geo by (auto simp: slab_core_def)

lemma core_slab:
  assumes "slab_core rg S n B fl s" "a \<in> dom (slab_headers s)"
  shows "\<exists>i. a = 4096 * (S + i) \<and> (i, 9) \<in> slab_chunks S (dom (slab_headers s)) \<and> i + 512 \<le> n" "4096 \<le> a"
proof -
  note d = coreD [OF assms(1)]
  obtain i where i: "a = 4096 * (S + i)" using d(8) assms(2) by blast
  have m: "(i, 9) \<in> slab_chunks S (dom (slab_headers s))" using assms(2) unfolding i slab_chunks_def by simp
  then have "chunk_ok S n (i, 9)" by (intro pool_inv_disjoint(1) [OF d(2)]) blast
  then have "i + 512 \<le> n" by (simp add: chunk_ok_def)
  then show "\<exists>i. a = 4096 * (S + i) \<and> (i, 9) \<in> slab_chunks S (dom (slab_headers s)) \<and> i + 512 \<le> n" using i m by blast
  show "4096 \<le> a" using i d(1) by simp
qed

lemma chunk_apart:
  assumes "pool_inv rg S n A P" "(i, 9) \<in> A" "(j, 9) \<in> A" "i \<noteq> j"
  shows "4096 * (S + i) + 2097152 \<le> 4096 * (S + j) \<or> 4096 * (S + j) + 2097152 \<le> 4096 * (S + i)"
proof -
  have "blk (i, 9) \<inter> blk (j, 9) = {}" using pool_inv_disjoint(2) [OF assms(1,2,3)] assms(4) by simp
  then have "i \<notin> blk (j, 9)" "j \<notin> blk (i, 9)" using head_in_blk by blast+
  then show ?thesis by (auto simp: blk_def)
qed

lemma slabs_apart:
  assumes "slab_core rg S n B fl s" "a \<in> dom (slab_headers s)" "b \<in> dom (slab_headers s)" "a \<noteq> b"
  shows "a + 2097152 \<le> b \<or> b + 2097152 \<le> a"
proof -
  obtain i j where "a = 4096 * (S + i)" "b = 4096 * (S + j)"
    "(i, 9) \<in> slab_chunks S (dom (slab_headers s))" "(j, 9) \<in> slab_chunks S (dom (slab_headers s))"
    using core_slab(1) [OF assms(1,2)] core_slab(1) [OF assms(1,3)] by blast
  then show ?thesis using chunk_apart [OF coreD(2) [OF assms(1)], of i j] assms(4) by auto
qed

lemma slots_disjoint:
  assumes "a + 2097152 \<le> b \<or> b + 2097152 \<le> a" "5 \<le> k" "k \<le> 11" "5 \<le> j" "j \<le> 11" "x \<in> slots a k"
  shows "x \<notin> slots b j"
proof
  assume y: "x \<in> slots b j"
  have "0 < (2 :: nat) ^ k" "0 < (2 :: nat) ^ j" by simp_all
  then show False using slots_range(1,2) [OF assms(6,2,3)] slots_range(1,2) [OF y assms(4,5)] assms(1) by linarith
qed

lemma core_slots_disjoint:
  assumes "slab_core rg S n B fl s" "slab_headers s a = Some h" "slab_headers s b = Some h'" "a \<noteq> b" "x \<in> slots a (slab_order h)"
  shows "x \<notin> slots b (slab_order h')"
proof (rule slots_disjoint [OF slabs_apart [OF assms(1) _ _ assms(4)] _ _ _ _ assms(5)])
  note d = slab_okD(5,6) [OF coreD(7) [OF assms(1,2)]] slab_okD(5,6) [OF coreD(7) [OF assms(1,3)]]
  show "5 \<le> slab_order h" "slab_order h \<le> 11" "5 \<le> slab_order h'" "slab_order h' \<le> 11" using d by simp_all
qed (use assms(2,3) in auto)

subsection \<open>Marks of the pages\<close>

lemma in_slab_start: "in_slab S (4096 * (S + i)) j \<longleftrightarrow> i \<le> j \<and> j < i + 512"
  by (auto simp: in_slab_def)

lemma in_slab_unique:
  assumes "in_slab S a j" "in_slab S b j"
  shows "\<not> (a + 2097152 \<le> b \<or> b + 2097152 \<le> a)"
  using assms by (auto simp: in_slab_def)

lemma marked_insert:
  assumes "pages_marked S n D ps" "length ps' = n" "\<And>b. b \<in> D \<Longrightarrow> 4096 * (S + i) + 2097152 \<le> b \<or> b + 2097152 \<le> 4096 * (S + i)"
    and "\<And>j. j < n \<Longrightarrow> ps' ! j = (if i \<le> j \<and> j < i + 512 then 4096 * (S + i) else ps ! j)"
  shows "pages_marked S n (insert (4096 * (S + i)) D) ps'"
  unfolding pages_marked_def
proof (intro conjI allI impI)
  show "length ps' = n" by (rule assms(2))
  fix j assume j: "j < n"
  note m = assms(1) [unfolded pages_marked_def]
  show "\<forall>b \<in> insert (4096 * (S + i)) D. in_slab S b j \<longrightarrow> ps' ! j = b"
  proof (intro ballI impI)
    fix b assume b: "b \<in> insert (4096 * (S + i)) D" "in_slab S b j"
    show "ps' ! j = b"
    proof (cases "in_slab S (4096 * (S + i)) j")
      case True
      then have "b = 4096 * (S + i)" using in_slab_unique [OF True b(2)] assms(3) b(1) by auto
      then show ?thesis using True assms(4) [OF j] unfolding in_slab_start by simp
    next
      case False
      then have "b \<in> D" using b by auto
      then show ?thesis using False m j b(2) assms(4) [OF j] unfolding in_slab_start by auto
    qed
  qed
  assume "\<forall>b \<in> insert (4096 * (S + i)) D. \<not> in_slab S b j"
  then have "\<not> in_slab S (4096 * (S + i)) j" "\<forall>b \<in> D. \<not> in_slab S b j" by simp_all
  then show "ps' ! j = 0" using m j assms(4) [OF j] unfolding in_slab_start by auto
qed

lemma marked_remove:
  assumes "pages_marked S n D ps" "length ps' = n" "4096 * (S + i) \<in> D"
    and "\<And>b. b \<in> D \<Longrightarrow> b \<noteq> 4096 * (S + i) \<Longrightarrow> 4096 * (S + i) + 2097152 \<le> b \<or> b + 2097152 \<le> 4096 * (S + i)"
    and "\<And>j. j < n \<Longrightarrow> ps' ! j = (if i \<le> j \<and> j < i + 512 then 0 else ps ! j)"
  shows "pages_marked S n (D - {4096 * (S + i)}) ps'"
  unfolding pages_marked_def
proof (intro conjI allI impI)
  show "length ps' = n" by (rule assms(2))
  fix j assume j: "j < n"
  note m = assms(1) [unfolded pages_marked_def]
  show "\<forall>b \<in> D - {4096 * (S + i)}. in_slab S b j \<longrightarrow> ps' ! j = b"
  proof (intro ballI impI)
    fix b assume b: "b \<in> D - {4096 * (S + i)}" "in_slab S b j"
    then have "\<not> in_slab S (4096 * (S + i)) j" using in_slab_unique [OF _ b(2), of "4096 * (S + i)"] assms(4) [of b] by auto
    then show "ps' ! j = b" using b m j assms(5) [OF j] unfolding in_slab_start by auto
  qed
  assume a: "\<forall>b \<in> D - {4096 * (S + i)}. \<not> in_slab S b j"
  show "ps' ! j = 0"
  proof (cases "in_slab S (4096 * (S + i)) j")
    case True
    then show ?thesis using assms(5) [OF j] unfolding in_slab_start by simp
  next
    case False
    then have "\<forall>b \<in> D. \<not> in_slab S b j" using a by blast
    then have "ps ! j = 0" using m j by blast
    then show ?thesis using assms(5) [OF j] by simp
  qed
qed

subsection \<open>A new slab\<close>

definition fresh_header :: "nat \<Rightarrow> nat \<Rightarrow> nat \<Rightarrow> slab_header" where
  "fresh_header a k c = \<lparr>free_list_head = a + meta_slots k * 2 ^ k, slab_order = k, owner_cpu = c,
     total_free_cnt = of_nat (slab_slots k - meta_slots k), current_free_cnt = of_nat (slab_slots k - meta_slots k)\<rparr>"

lemma fresh_slab_ok:
  assumes "5 \<le> k" "k \<le> 11" "c < 12" "0 < a"
  shows "slab_ok (link_slots (2 ^ k) (slab_slots k - meta_slots k - 1) (a + meta_slots k * 2 ^ k) nf) a (fresh_header a k c) (slot_list a k)"
    "slot_list a k \<noteq> []"
    "x \<notin> slots a k \<Longrightarrow> link_slots (2 ^ k) (slab_slots k - meta_slots k - 1) (a + meta_slots k * 2 ^ k) nf x = nf x"
proof -
  note z = slab_sizes [OF assms(1,2)]
  let ?cnt = "slab_slots k - meta_slots k" and ?slot = "a + meta_slots k * 2 ^ k"
  have e: "Suc (?cnt - 1) = ?cnt" using z(3) by simp
  have "slot_list a k = map (\<lambda>m. a + m * 2 ^ k) (map (\<lambda>i. i + meta_slots k) [0..<?cnt])"
    unfolding slot_list_def map_add_upt using z(3) by simp
  then have l: "slot_list a k = map (\<lambda>m. ?slot + m * 2 ^ k) [0..<?cnt]" by (simp add: o_def algebra_simps)
  have "chain (link_slots (2 ^ k) (?cnt - 1) ?slot nf) ?slot (slot_list a k)"
    using link_slots_chain [of "2 ^ k" ?slot "?cnt - 1" nf] assms(4) unfolding l e by simp
  moreover have "unat (of_nat ?cnt :: u16) = ?cnt" using z(5) by (simp add: unsigned_of_nat take_bit_nat_eq_self)
  ultimately show "slab_ok (link_slots (2 ^ k) (?cnt - 1) ?slot nf) a (fresh_header a k c) (slot_list a k)"
    using slot_list_facts(1,2) [of a k] assms by (simp add: slab_ok_def fresh_header_def slots_def)
  show "slot_list a k \<noteq> []" using slot_list_facts(2) [of a k] z(3) by auto
  assume x: "x \<notin> slots a k"
  show "link_slots (2 ^ k) (?cnt - 1) ?slot nf x = nf x"
  proof (rule link_slots_other)
    fix m assume m: "m \<le> ?cnt - 1"
    show "x \<noteq> ?slot + m * 2 ^ k"
    proof
      assume "x = ?slot + m * 2 ^ k"
      then have "x = a + (meta_slots k + m) * 2 ^ k" by (simp add: algebra_simps)
      then show False using x m z(3) unfolding slots_mem by auto
    qed
  qed
qed

lemma used_new:
  assumes "a \<notin> dom H" "slab_order h = k"
  shows "used (H(a \<mapsto> h)) (fl(a := slot_list a k)) = used H fl"
  unfolding used_def
proof (intro Collect_cong)
  fix x
  have "x \<notin> slots a k \<or> x \<in> set (slot_list a k)" by (auto simp: slots_def)
  then show "(\<exists>b h'. (H(a \<mapsto> h)) b = Some h' \<and> x \<in> slots b (slab_order h') \<and> x \<notin> set ((fl(a := slot_list a k)) b)) \<longleftrightarrow>
    (\<exists>b h'. H b = Some h' \<and> x \<in> slots b (slab_order h') \<and> x \<notin> set (fl b))"
    using assms by (auto split: if_splits)
qed

lemma init_slab_cache_eval:
  assumes core: "slab_core rg S n B fl s" and r: "c < 12" "5 \<le> k" "k \<le> 11"
    and get: "get_dram_pages rg env 9 s0 = get_pool_pages rg 9 s \<or> get_dram_pages rg env 9 s0 = Some (0, s)"
  shows "(\<exists>P. init_slab_cache rg env k SIZE_OF_ONE_SLAB c s0 = Some (0, s\<lparr>dram_pool := P\<rparr>) \<and> slab_core rg S n B fl (s\<lparr>dram_pool := P\<rparr>)) \<or>
    (\<exists>i P ps. init_slab_cache rg env k SIZE_OF_ONE_SLAB c s0 = Some (4096 * (S + i),
        s\<lparr>dram_pool := P, page_ref := (page_ref s)[i := 1], page_slab := ps,
          next_free := link_slots (2 ^ k) (slab_slots k - meta_slots k - 1) (4096 * (S + i) + meta_slots k * 2 ^ k) (next_free s),
          slab_headers := (slab_headers s)(4096 * (S + i) \<mapsto> fresh_header (4096 * (S + i)) k c)\<rparr>) \<and>
      (i, 9) \<notin> B \<union> slab_chunks S (dom (slab_headers s)) \<and>
      pool_inv rg S n (insert (i, 9) (B \<union> slab_chunks S (dom (slab_headers s)))) P \<and> length ps = n \<and>
      (\<forall>j < n. ps ! j = (if i \<le> j \<and> j < i + 512 then 4096 * (S + i) else page_slab s ! j)))"
proof -
  note d = coreD [OF core]
  have o: "size_to_order (SIZE_OF_ONE_SLAB div 4096) = 9" by (simp add: SIZE_OF_ONE_SLAB_def slab_page_order)
  have id: "s\<lparr>dram_pool := dram_pool s\<rparr> = s" by simp
  from get get_pool_pages_eval [OF d(2,4), of 9] consider
      (none) P where "get_dram_pages rg env 9 s0 = Some (0, s\<lparr>dram_pool := P\<rparr>)" "pool_inv rg S n (B \<union> slab_chunks S (dom (slab_headers s))) P"
    | (some) i P where "get_dram_pages rg env 9 s0 = Some (4096 * (S + i), s\<lparr>dram_pool := P, page_ref := (page_ref s)[i := 1]\<rparr>)"
      "(i, 9) \<notin> B \<union> slab_chunks S (dom (slab_headers s))" "pool_inv rg S n (insert (i, 9) (B \<union> slab_chunks S (dom (slab_headers s)))) P"
    using d(2) id by metis
  then show ?thesis
  proof cases
    case none
    let ?s = "s\<lparr>dram_pool := P\<rparr>"
    have "init_slab_cache rg env k SIZE_OF_ONE_SLAB c s0 = Some (0, ?s)" using none(1) by (simp add: init_slab_cache_def alloc_slab_memory_def o)
    moreover have "slab_core rg S n B fl ?s" using core none(2) by (simp add: slab_core_def)
    ultimately show ?thesis by auto
  next
    case some
    let ?a = "4096 * (S + i)"
    let ?s1 = "s\<lparr>dram_pool := P, page_ref := (page_ref s)[i := 1]\<rparr>"
    have "chunk_ok S n (i, 9)" by (rule pool_inv_disjoint(1) [OF some(3)]) simp
    then have "i + 512 \<le> n" by (simp add: chunk_ok_def)
    moreover have "pool_geo rg S n (dram_pool ?s1)" using pool_inv_geo [OF some(3)] by simp
    moreover have "length (page_slab ?s1) = n" using d(5) by (simp add: pages_marked_def)
    ultimately obtain ps where ps: "set_or_clear_slab_in_page rg ?a SIZE_OF_ONE_SLAB True ?s1 = Some (?s1\<lparr>page_slab := ps\<rparr>)" "length ps = n"
      "\<forall>j < n. ps ! j = (if i \<le> j \<and> j < i + 512 then ?a else page_slab s ! j)"
      using slab_mark_eval [of rg S n ?s1 i True] by auto
    have a: "?a \<noteq> 0" using d(1) by simp
    have "alloc_slab_memory rg env SIZE_OF_ONE_SLAB s0 = Some (?a, ?s1\<lparr>page_slab := ps\<rparr>)"
      unfolding alloc_slab_memory_def o some(1) using d(1) ps(1) by simp
    moreover have "\<not> (meta_slots k = 0 \<or> slab_slots k \<le> meta_slots k)" using slab_sizes(2,3) [OF r(2,3)] by simp
    ultimately have "init_slab_cache rg env k SIZE_OF_ONE_SLAB c s0 = Some (?a,
        s\<lparr>dram_pool := P, page_ref := (page_ref s)[i := 1], page_slab := ps,
          next_free := link_slots (2 ^ k) (slab_slots k - meta_slots k - 1) (?a + meta_slots k * 2 ^ k) (next_free s),
          slab_headers := (slab_headers s)(?a \<mapsto> fresh_header ?a k c)\<rparr>)"
      unfolding init_slab_cache_def using d(1)
      by (simp add: Let_def set_header_def fresh_header_def meta_slots_def [symmetric] slab_slots_def [symmetric] order_to_size_def [symmetric])
    then show ?thesis using some(2,3) ps(2,3) by blast
  qed
qed

lemma slab_chunks_insert: "slab_chunks S (insert (4096 * (S + i)) D) = insert (i, 9) (slab_chunks S D)"
  by (auto simp: slab_chunks_def)

lemma slab_chunks_remove: "slab_chunks S (D - {4096 * (S + i)}) = slab_chunks S D - {(i, 9)}"
  by (auto simp: slab_chunks_def)

lemma update_same: "xs ! j = v \<Longrightarrow> xs[i := v] ! j = v"
  by (cases "i < length xs"; cases "i = j") (simp_all add: list_update_beyond)

lemma new_slab_core:
  assumes core: "slab_core rg S n B fl s" and r: "c < 12" "5 \<le> k" "k \<le> 11" and cur: "current_slab s c k = 0"
    and i: "(i, 9) \<notin> B \<union> slab_chunks S (dom (slab_headers s))"
      "pool_inv rg S n (insert (i, 9) (B \<union> slab_chunks S (dom (slab_headers s)))) P"
    and ps: "length ps = n" "\<forall>j < n. ps ! j = (if i \<le> j \<and> j < i + 512 then 4096 * (S + i) else page_slab s ! j)"
  defines "a \<equiv> 4096 * (S + i)"
  defines "s' \<equiv> s\<lparr>dram_pool := P, page_ref := (page_ref s)[i := 1], page_slab := ps,
     next_free := link_slots (2 ^ k) (slab_slots k - meta_slots k - 1) (a + meta_slots k * 2 ^ k) (next_free s),
     slab_headers := (slab_headers s)(a \<mapsto> fresh_header a k c)\<rparr>"
  shows "slab_core rg S n B (fl(a := slot_list a k)) (set_current c k a s')" "a \<notin> dom (slab_headers s)"
proof -
  note d = coreD [OF core]
  let ?H = "slab_headers s" and ?fl = "fl(a := slot_list a k)"
  let ?H' = "?H(a \<mapsto> fresh_header a k c)"
  have a0: "0 < a" "4096 \<le> a" using d(1) by (simp_all add: a_def)
  show n: "a \<notin> dom ?H" using i(1) by (auto simp: slab_chunks_def a_def)
  have dom: "dom ?H' = insert a (dom ?H)" by auto
  have ch: "slab_chunks S (dom ?H') = insert (i, 9) (slab_chunks S (dom ?H))" unfolding dom unfolding a_def by (rule slab_chunks_insert)
  have apart: "a + 2097152 \<le> b \<or> b + 2097152 \<le> a" if "b \<in> dom ?H" for b
  proof -
    obtain j where j: "b = 4096 * (S + j)" "(j, 9) \<in> slab_chunks S (dom ?H)" using core_slab(1) [OF core \<open>b \<in> dom ?H\<close>] by blast
    then have "i \<noteq> j" using i(1) by blast
    then show ?thesis using chunk_apart [OF i(2), of i j] j unfolding a_def by blast
  qed
  have marked: "pages_marked S n (dom ?H') ps"
    unfolding dom unfolding a_def by (rule marked_insert [OF d(5) ps(1)]) (use apart ps(2) in \<open>auto simp: a_def\<close>)
  have ok: "slab_ok (next_free s') b h (?fl b)" if "?H' b = Some h" for b h
  proof (cases "b = a")
    case True
    then show ?thesis using fresh_slab_ok(1) [OF r(2,3,1) a0(1)] that by (simp add: s'_def)
  next
    case False
    then have h: "?H b = Some h" using that by simp
    note o = d(7) [OF h]
    have "next_free s' x = next_free s x" if x: "x \<in> slots b (slab_order h)" for x
    proof -
      have "b + 2097152 \<le> a \<or> a + 2097152 \<le> b" using apart [of b] h by blast
      from slots_disjoint [OF this slab_okD(5,6) [OF o] r(2,3) x] have "x \<notin> slots a k" .
      from fresh_slab_ok(3) [OF r(2,3,1) a0(1) this] show ?thesis by (simp add: s'_def)
    qed
    from slab_ok_other [OF o this] show ?thesis using False by simp
  qed
  have z: "0 \<notin> dom ?H" using core_slab(2) [OF core, of 0] by auto
  have cls: "classes ?H' ?fl (slab_lists s) ((current_slab s)(c := (current_slab s c)(k := a)))"
  proof (rule classes_new [OF d(6) cur n _ _ z])
    show "class_slabs ?H' ?fl cpu j = (if cpu = c \<and> j = k then insert a (class_slabs ?H fl cpu j) else class_slabs ?H fl cpu j)" for cpu j
      using n fresh_slab_ok(2) [OF r(2,3,1) a0(1)] by (auto simp: class_slabs_def fresh_header_def)
  qed (use a0 in simp)
  have form: "\<exists>j. b = 4096 * (S + j)" if "b \<in> dom ?H'" for b using that d(8) unfolding dom unfolding a_def by blast
  show "slab_core rg S n B ?fl (set_current c k a s')"
    unfolding slab_core_def using d(1,3,4) update_same [OF d(10)] i marked ok cls form ch
    by (simp add: set_current_def s'_def)
qed

subsection \<open>Allocation of a slot\<close>

lemma core_change:
  assumes core: "slab_core rg S n B fl s" and H: "dom H = dom (slab_headers s)"
    and ok: "\<And>a h. H a = Some h \<Longrightarrow> slab_ok nf a h (fl' a)" and cls: "classes H fl' l cur"
  shows "slab_core rg S n B fl' (s\<lparr>slab_headers := H, next_free := nf, slab_lists := l, current_slab := cur\<rparr>)"
  using core ok cls by (simp add: slab_core_def H)

lemma used_at:
  assumes "H a = Some h"
  shows "y \<in> used H fl \<longleftrightarrow> (y \<in> slots a (slab_order h) \<and> y \<notin> set (fl a)) \<or>
      (\<exists>b g. b \<noteq> a \<and> H b = Some g \<and> y \<in> slots b (slab_order g) \<and> y \<notin> set (fl b))"
proof
  assume "y \<in> used H fl"
  then obtain b g where b: "H b = Some g" "y \<in> slots b (slab_order g)" "y \<notin> set (fl b)" by (auto simp: used_def)
  then show "(y \<in> slots a (slab_order h) \<and> y \<notin> set (fl a)) \<or>
      (\<exists>b g. b \<noteq> a \<and> H b = Some g \<and> y \<in> slots b (slab_order g) \<and> y \<notin> set (fl b))"
    using assms by (cases "b = a") auto
next
  assume "(y \<in> slots a (slab_order h) \<and> y \<notin> set (fl a)) \<or>
      (\<exists>b g. b \<noteq> a \<and> H b = Some g \<and> y \<in> slots b (slab_order g) \<and> y \<notin> set (fl b))"
  then show "y \<in> used H fl" using assms unfolding used_def by blast
qed

lemma used_take:
  assumes core: "slab_core rg S n B fl s" and h: "slab_headers s a = Some h" "fl a = x # xs" and h': "slab_order h' = slab_order h"
  shows "used ((slab_headers s)(a \<mapsto> h')) (fl(a := xs)) = insert x (used (slab_headers s) fl)" "x \<notin> used (slab_headers s) fl"
proof -
  let ?H = "slab_headers s"
  have d: "distinct (x # xs)" "x \<in> slots a (slab_order h)" using slab_okD(2,3) [OF coreD(7) [OF core h(1)]] h(2) by auto
  have u: "y \<in> used (?H(a \<mapsto> h')) (fl(a := xs)) \<longleftrightarrow> (y \<in> slots a (slab_order h) \<and> y \<notin> set xs) \<or>
      (\<exists>b g. b \<noteq> a \<and> ?H b = Some g \<and> y \<in> slots b (slab_order g) \<and> y \<notin> set (fl b))" for y
    using used_at [of "?H(a \<mapsto> h')" a h' y "fl(a := xs)"] h' by auto
  have v: "y \<in> used ?H fl \<longleftrightarrow> (y \<in> slots a (slab_order h) \<and> y \<notin> set (x # xs)) \<or>
      (\<exists>b g. b \<noteq> a \<and> ?H b = Some g \<and> y \<in> slots b (slab_order g) \<and> y \<notin> set (fl b))" for y
    using used_at [of ?H a h y fl] h by simp
  show "x \<notin> used ?H fl" unfolding v using core_slots_disjoint [OF core h(1) _ _ d(2)] by auto
  show "used (?H(a \<mapsto> h')) (fl(a := xs)) = insert x (used ?H fl)"
    using d by (intro set_eqI) (unfold insert_iff u v, auto)
qed

text \<open>\<open>s'\<close> has the slabs of \<open>s\<close> with their orders.\<close>

definition keeps_slabs :: "slab_state \<Rightarrow> slab_state \<Rightarrow> bool" where
  "keeps_slabs s s' \<longleftrightarrow> (\<forall>a h. slab_headers s a = Some h \<longrightarrow> (\<exists>h'. slab_headers s' a = Some h' \<and> slab_order h' = slab_order h))"

text \<open>What a request for a slot of order \<open>k\<close> leads to.\<close>

definition slot_outcome :: "ranges \<Rightarrow> nat \<Rightarrow> nat \<Rightarrow> chunk set \<Rightarrow> (nat \<Rightarrow> nat list) \<Rightarrow> nat \<Rightarrow> slab_state \<Rightarrow> nat \<Rightarrow> slab_state \<Rightarrow> bool" where
  "slot_outcome rg S n B fl k s x s' \<longleftrightarrow> keeps_slabs s s' \<and> rpf_mem s' = rpf_mem s \<and> rpf_vars s' = rpf_vars s \<and>
     (\<exists>fl'. slab_core rg S n B fl' s' \<and>
       (if x = 0 then used (slab_headers s') fl' = used (slab_headers s) fl
        else x \<notin> used (slab_headers s) fl \<and> used (slab_headers s') fl' = insert x (used (slab_headers s) fl) \<and>
          (\<exists>a h. slab_headers s' a = Some h \<and> x \<in> slots a k \<and> slab_order h = k)))"

lemma take_slot:
  assumes core: "slab_core rg S n B fl s" and r: "c < 12" "5 \<le> k" "k \<le> 11" and cur: "current_slab s c k \<noteq> 0"
  shows "\<exists>x s'. (do {
      h \<leftarrow> slab_headers s (current_slab s c k);
      let free_list = free_list_head h;
      bug_on (free_list = 0);
      let h1 = h\<lparr>free_list_head := next_free s free_list, current_free_cnt := current_free_cnt h - 1\<rparr>;
      let s2 = set_header (current_slab s c k) (Some h1) s;
      Some (free_list, if current_free_cnt h1 = 0 then choose_new_current_slab c k s2 else s2) }) = Some (x, s') \<and>
    slot_outcome rg S n B fl k s x s' \<and> x \<noteq> 0"
proof -
  note d = coreD [OF core]
  let ?a = "current_slab s c k" and ?H = "slab_headers s"
  obtain h where h: "?H ?a = Some h" "owner_cpu h = c" "slab_order h = k" "fl ?a \<noteq> []" using classes_current [OF d(6) r cur] by blast
  obtain x xs where x: "fl ?a = x # xs" using h(4) by (cases "fl ?a") auto
  have ok: "slab_ok (next_free s) ?a h (x # xs)" using d(7) [OF h(1)] x by simp
  note p = slab_pop [OF ok]
  let ?h = "h\<lparr>free_list_head := next_free s x, current_free_cnt := current_free_cnt h - 1\<rparr>"
  let ?H' = "?H(?a \<mapsto> ?h)" and ?fl = "fl(?a := xs)" and ?s2 = "set_header ?a (Some ?h) s"
  have dom: "dom ?H' = dom ?H" using h(1) by auto
  have z: "0 \<notin> dom ?H" "\<And>b. b \<in> dom ?H \<Longrightarrow> 4096 \<le> b" using core_slab(2) [OF core] by force+
  have oks: "slab_ok (next_free s) b g (?fl b)" if "?H' b = Some g" for b g
    using that d(7) p(1) by (auto split: if_splits)
  note u = used_take [OF core h(1) x, of ?h]
  obtain l q where lq: "(if xs = [] then choose_new_current_slab c k ?s2 else ?s2) = ?s2\<lparr>slab_lists := l, current_slab := q\<rparr>" "classes ?H' ?fl l q"
  proof (cases "xs = []")
    case True
    have l: "slab_lists ?s2 = slab_lists s" "current_slab ?s2 = current_slab s" by (simp_all add: set_header_def)
    have "classes_but c k ?H' ?fl (slab_lists s) (current_slab s)"
    proof (rule classes_vacate [OF d(6) h(1-3) cur z(1)])
      show "class_slabs ?H' ?fl cpu j = class_slabs ?H fl cpu j - {?a}" for cpu j
        using True h(1) by (auto simp: class_slabs_def)
    qed
    moreover have "4096 \<le> b" if "b \<in> dom ?H'" for b using z(2) that unfolding dom .
    ultimately obtain l q where "choose_new_current_slab c k ?s2 = ?s2\<lparr>slab_lists := l, current_slab := q\<rparr>" "classes ?H' ?fl l q"
      using choose_new_eval [of c k ?H' ?fl ?s2, unfolded l] r by blast
    then show thesis using that True by simp
  next
    case False
    have "classes ?H' ?fl (slab_lists s) (current_slab s)"
    proof (rule classes_cong [OF d(6)])
      show "class_slabs ?H' ?fl cpu j = class_slabs ?H fl cpu j" for cpu j
        using False h x by (auto simp: class_slabs_def)
    qed
    moreover have "?s2\<lparr>slab_lists := slab_lists s, current_slab := current_slab s\<rparr> = ?s2" by (simp add: set_header_def)
    ultimately show thesis using that [of "current_slab s" "slab_lists s"] False by simp
  qed
  let ?s' = "?s2\<lparr>slab_lists := l, current_slab := q\<rparr>"
  have e: "?s' = s\<lparr>slab_headers := ?H', next_free := next_free s, slab_lists := l, current_slab := q\<rparr>" by (simp add: set_header_def)
  have "slab_core rg S n B ?fl ?s'" unfolding e by (rule core_change [OF core dom oks lq(2)])
  moreover have "slab_headers ?s' = ?H'" by (simp add: set_header_def)
  moreover have "keeps_slabs s ?s'" using h(1) by (auto simp: keeps_slabs_def set_header_def)
  ultimately have "slot_outcome rg S n B fl k s x ?s'"
    unfolding slot_outcome_def using u p(3,5) h by (auto simp: set_header_def)
  then have "slot_outcome rg S n B fl k s x (if xs = [] then choose_new_current_slab c k ?s2 else ?s2)" unfolding lq(1) .
  then show ?thesis using h(1) p(2-4) by (cases "xs = []") (simp_all add: Let_def)
qed

lemma alloc_impl_hit:
  assumes "slab_core rg S n B fl s" "c < 12" "5 \<le> k" "k \<le> 11" "current_slab s c k \<noteq> 0"
  shows "\<exists>x s'. alloc_in_dram_slab_impl rg env c k s = Some (x, s') \<and> slot_outcome rg S n B fl k s x s'"
  using take_slot [OF assms] assms(2,5) by (auto simp: alloc_in_dram_slab_impl_def PLAT_CPU_NUM_def)

text \<open>\<open>s\<close> is the state after pages of other machines came back.\<close>

lemma alloc_impl_miss:
  assumes core: "slab_core rg S n B fl s" and r: "c < 12" "5 \<le> k" "k \<le> 11"
    and get: "get_dram_pages rg env 9 s0 = get_pool_pages rg 9 s \<or> get_dram_pages rg env 9 s0 = Some (0, s)"
    and cur0: "current_slab s0 c k = 0" "current_slab s c k = 0"
  shows "\<exists>x s'. alloc_in_dram_slab_impl rg env c k s0 = Some (x, s') \<and> slot_outcome rg S n B fl k s x s'"
proof -
  note run = alloc_in_dram_slab_impl_def PLAT_CPU_NUM_def
  from init_slab_cache_eval [OF core r get] consider
      (none) P where "init_slab_cache rg env k SIZE_OF_ONE_SLAB c s0 = Some (0, s\<lparr>dram_pool := P\<rparr>)" "slab_core rg S n B fl (s\<lparr>dram_pool := P\<rparr>)"
    | (new) i P ps where "init_slab_cache rg env k SIZE_OF_ONE_SLAB c s0 = Some (4096 * (S + i),
        s\<lparr>dram_pool := P, page_ref := (page_ref s)[i := 1], page_slab := ps,
          next_free := link_slots (2 ^ k) (slab_slots k - meta_slots k - 1) (4096 * (S + i) + meta_slots k * 2 ^ k) (next_free s),
          slab_headers := (slab_headers s)(4096 * (S + i) \<mapsto> fresh_header (4096 * (S + i)) k c)\<rparr>)"
      "(i, 9) \<notin> B \<union> slab_chunks S (dom (slab_headers s))"
      "pool_inv rg S n (insert (i, 9) (B \<union> slab_chunks S (dom (slab_headers s)))) P" "length ps = n"
      "\<forall>j < n. ps ! j = (if i \<le> j \<and> j < i + 512 then 4096 * (S + i) else page_slab s ! j)" by blast
  then show ?thesis
  proof cases
    case none
    have "alloc_in_dram_slab_impl rg env c k s0 = Some (0, s\<lparr>dram_pool := P\<rparr>)" using none(1) cur0(1) r(1) by (simp add: run)
    moreover have "slot_outcome rg S n B fl k s 0 (s\<lparr>dram_pool := P\<rparr>)"
      unfolding slot_outcome_def keeps_slabs_def using none(2) by auto
    ultimately show ?thesis by blast
  next
    case new
    define a where "a = 4096 * (S + i)"
    define t0 where "t0 = s\<lparr>dram_pool := P, page_ref := (page_ref s)[i := 1], page_slab := ps,
          next_free := link_slots (2 ^ k) (slab_slots k - meta_slots k - 1) (a + meta_slots k * 2 ^ k) (next_free s),
          slab_headers := (slab_headers s)(a \<mapsto> fresh_header a k c)\<rparr>"
    define s1 where "s1 = set_current c k a t0"
    note c = new_slab_core [OF core r cur0(2) new(2-5), folded a_def, folded t0_def, folded s1_def]
    have init: "init_slab_cache rg env k SIZE_OF_ONE_SLAB c s0 = Some (a, t0)" using new(1) unfolding a_def [symmetric] t0_def [symmetric] .
    have a0: "a \<noteq> 0" using coreD(1) [OF core] by (simp add: a_def)
    have cur: "current_slab s1 c k = a" by (simp add: s1_def set_current_def)
    have H: "slab_headers s1 = (slab_headers s)(a \<mapsto> fresh_header a k c)" by (simp add: s1_def set_current_def t0_def)
    have u: "used (slab_headers s1) (fl(a := slot_list a k)) = used (slab_headers s) fl"
      unfolding H by (rule used_new [OF c(2)]) (simp add: fresh_header_def)
    from take_slot [OF c(1) r] cur a0 obtain x s' where x: "(do {
      h \<leftarrow> slab_headers s1 a;
      let free_list = free_list_head h;
      bug_on (free_list = 0);
      let h1 = h\<lparr>free_list_head := next_free s1 free_list, current_free_cnt := current_free_cnt h - 1\<rparr>;
      let s2 = set_header a (Some h1) s1;
      Some (free_list, if current_free_cnt h1 = 0 then choose_new_current_slab c k s2 else s2) }) = Some (x, s')"
      "slot_outcome rg S n B (fl(a := slot_list a k)) k s1 x s'" by auto
    have "alloc_in_dram_slab_impl rg env c k s0 = Some (x, s')"
      using init cur0(1) r(1) a0 x(1) unfolding run by (simp add: s1_def [symmetric])
    moreover have "slot_outcome rg S n B fl k s x s'"
    proof -
      have k: "keeps_slabs s1 s'" using x(2) by (simp add: slot_outcome_def)
      have "keeps_slabs s s'" unfolding keeps_slabs_def
      proof (intro allI impI)
        fix b h assume b: "slab_headers s b = Some h"
        then have "slab_headers s1 b = Some h" using c(2) by (auto simp: H)
        then show "\<exists>h'. slab_headers s' b = Some h' \<and> slab_order h' = slab_order h" using k unfolding keeps_slabs_def by blast
      qed
      moreover have "rpf_mem s1 = rpf_mem s" "rpf_vars s1 = rpf_vars s" by (simp_all add: s1_def set_current_def t0_def)
      ultimately show ?thesis using x(2) unfolding slot_outcome_def u by auto
    qed
    ultimately show ?thesis by blast
  qed
qed

subsection \<open>Release of a slot\<close>

lemma used_give:
  assumes core: "slab_core rg S n B fl s" and h: "slab_headers s a = Some h" "x \<in> slots a (slab_order h)" and h': "slab_order h' = slab_order h"
  shows "used ((slab_headers s)(a \<mapsto> h')) (fl(a := x # fl a)) = used (slab_headers s) fl - {x}"
proof -
  let ?H = "slab_headers s"
  have u: "y \<in> used (?H(a \<mapsto> h')) (fl(a := x # fl a)) \<longleftrightarrow> (y \<in> slots a (slab_order h) \<and> y \<noteq> x \<and> y \<notin> set (fl a)) \<or>
      (\<exists>b g. b \<noteq> a \<and> ?H b = Some g \<and> y \<in> slots b (slab_order g) \<and> y \<notin> set (fl b))" for y
    using used_at [of "?H(a \<mapsto> h')" a h' y "fl(a := x # fl a)"] h' by auto
  have v: "y \<in> used ?H fl \<longleftrightarrow> (y \<in> slots a (slab_order h) \<and> y \<notin> set (fl a)) \<or>
      (\<exists>b g. b \<noteq> a \<and> ?H b = Some g \<and> y \<in> slots b (slab_order g) \<and> y \<notin> set (fl b))" for y
    using used_at [of ?H a h y fl] h by simp
  have o: "x \<notin> slots b (slab_order g)" if "b \<noteq> a" "?H b = Some g" for b g
    using core_slots_disjoint [OF core h(1) that(2) _ h(2)] that(1) by blast
  show ?thesis
    by (intro set_eqI) (unfold Diff_iff singleton_iff u v, use o in blast)
qed

lemma used_remove:
  assumes "H a = Some h" "set (fl a) = slots a (slab_order h)"
  shows "used (H(a := None)) fl = used H fl"
proof (intro set_eqI)
  fix y
  have "y \<in> used (H(a := None)) fl \<longleftrightarrow> (\<exists>b g. b \<noteq> a \<and> H b = Some g \<and> y \<in> slots b (slab_order g) \<and> y \<notin> set (fl b))"
    by (auto simp: used_def)
  then show "y \<in> used (H(a := None)) fl \<longleftrightarrow> y \<in> used H fl" using used_at [of H a h y fl] assms by simp
qed

text \<open>The page of a slot belongs to its slab.\<close>

lemma slot_page:
  assumes core: "slab_core rg S n B fl s" and h: "slab_headers s a = Some h" "x \<in> slots a (slab_order h)"
  shows "\<exists>j. virt_to_page rg (dram_pool s) (of_nat x) = Some j \<and> load_at (page_slab s) j = Some a" "0 < x"
proof -
  note d = coreD [OF core]
  have dom: "a \<in> dom (slab_headers s)" using h(1) by blast
  obtain i where i: "a = 4096 * (S + i)" "i + 512 \<le> n" using core_slab(1) [OF core dom] by blast
  note k = slab_okD(5,6) [OF d(7) [OF h(1)]]
  have "0 < (2 :: nat) ^ slab_order h" by simp
  then have x: "a + 40 \<le> x" "x < a + 2097152" using slots_range(1,2) [OF h(2) k] by linarith+
  then show "0 < x" by simp
  define j where "j = x div 4096 - S"
  have xd: "S + i \<le> x div 4096" "x div 4096 < S + i + 512"
    using x unfolding i(1) by (simp_all add: less_eq_div_iff_mult_less_eq div_less_iff_less_mult)
  then have j: "i \<le> j" "j < i + 512" "S + j = x div 4096" by (simp_all add: j_def)
  have "j < n" using j(2) i(2) by simp
  moreover have "4096 * (S + j) \<le> x" "x < 4096 * (S + j) + 4096" unfolding j(3) by simp_all
  ultimately have "virt_to_page rg (dram_pool s) (of_nat x) = Some j" by (rule virt_to_page_in [OF d(9)])
  moreover have "load_at (page_slab s) j = Some a"
    using d(5) dom \<open>j < n\<close> in_slab_start [of S i j] j(1,2) i(1) unfolding pages_marked_def by (auto simp: load_at_def)
  ultimately show "\<exists>j. virt_to_page rg (dram_pool s) (of_nat x) = Some j \<and> load_at (page_slab s) j = Some a" by blast
qed

text \<open>The slot goes to the list of its slab.\<close>

lemma give_slot:
  assumes core: "slab_core rg S n B fl s" and h: "slab_headers s a = Some h" "x \<in> slots a (slab_order h)" "x \<notin> set (fl a)"
  defines "h1 \<equiv> h\<lparr>free_list_head := x, current_free_cnt := current_free_cnt h + 1\<rparr>"
  shows "\<exists>l s1. try_insert_full_slab_to_partial a h s = Some s1 \<and>
    set_header a (Some h1) (s1\<lparr>next_free := (next_free s1)(x := free_list_head h)\<rparr>) =
      s\<lparr>slab_headers := (slab_headers s)(a \<mapsto> h1), next_free := (next_free s)(x := free_list_head h), slab_lists := l,
        current_slab := current_slab s\<rparr> \<and>
    slab_core rg S n B (fl(a := x # fl a)) (s\<lparr>slab_headers := (slab_headers s)(a \<mapsto> h1),
        next_free := (next_free s)(x := free_list_head h), slab_lists := l, current_slab := current_slab s\<rparr>)"
proof -
  note d = coreD [OF core]
  note o = d(7) [OF h(1)]
  note r = slab_okD(7,5,6) [OF o]
  let ?H = "slab_headers s" and ?nf = "(next_free s)(x := free_list_head h)"
  let ?H' = "?H(a \<mapsto> h1)" and ?fl = "fl(a := x # fl a)"
  note push = slab_push [OF o h(2,3)] slot_page(2) [OF core h(1,2)]
  have dom: "dom ?H' = dom ?H" using h(1) by auto
  have ok: "slab_ok ?nf b g (?fl b)" if b: "?H' b = Some g" for b g
  proof (cases "b = a")
    case True
    then show ?thesis using b push(1,3) by (simp add: h1_def)
  next
    case False
    then have g: "?H b = Some g" using b by simp
    have "?nf y = next_free s y" if "y \<in> slots b (slab_order g)" for y
      using core_slots_disjoint [OF core h(1) g _ h(2)] False that by auto
    then have "slab_ok ?nf b g (fl b)" by (rule slab_ok_other [OF d(7) [OF g]])
    then show ?thesis using False by simp
  qed
  have cnt: "current_free_cnt h = 0 \<longleftrightarrow> fl a = []" using slab_okD(4) [OF o] by (metis length_0_conv unat_0 unat_eq_zero)
  obtain l where l: "try_insert_full_slab_to_partial a h s = Some (s\<lparr>slab_lists := l\<rparr>)" "classes ?H' ?fl l (current_slab s)"
  proof (cases "fl a = []")
    case True
    have cs: "class_slabs ?H' ?fl cpu k = (if cpu = owner_cpu h \<and> k = slab_order h then insert a (class_slabs ?H fl cpu k) else class_slabs ?H fl cpu k)" for cpu k
      using h(1) True by (auto simp: class_slabs_def h1_def)
    have a: "4096 \<le> a" using core_slab(2) [OF core, of a] h(1) by blast
    show thesis
      using that [of "list_append a (partial_head (owner_cpu h) (slab_order h)) (slab_lists s)"]
        classes_append [OF d(6) h(1) True a r cs] True cnt r(1) by (simp add: try_insert_full_slab_to_partial_def PLAT_CPU_NUM_def)
  next
    case False
    have "classes ?H' ?fl (slab_lists s) (current_slab s)"
    proof (rule classes_cong [OF d(6)])
      show "class_slabs ?H' ?fl cpu k = class_slabs ?H fl cpu k" for cpu k using h(1) False by (auto simp: class_slabs_def h1_def)
    qed
    then show thesis using that [of "slab_lists s"] False cnt by (simp add: try_insert_full_slab_to_partial_def)
  qed
  have "slab_core rg S n B ?fl (s\<lparr>slab_headers := ?H', next_free := ?nf, slab_lists := l, current_slab := current_slab s\<rparr>)"
    by (rule core_change [OF core dom ok l(2)])
  moreover have "set_header a (Some h1) ((s\<lparr>slab_lists := l\<rparr>)\<lparr>next_free := (next_free (s\<lparr>slab_lists := l\<rparr>))(x := free_list_head h)\<rparr>) =
      s\<lparr>slab_headers := ?H', next_free := ?nf, slab_lists := l, current_slab := current_slab s\<rparr>" by (simp add: set_header_def)
  ultimately show ?thesis using l(1) by blast
qed

text \<open>A slab leaves the lists of its class.\<close>

lemma unlink_slab:
  assumes core: "slab_core rg S n B fl s" and h: "slab_headers s a = Some h" "fl a \<noteq> []"
  shows "\<exists>l cur. (if a = current_slab s (owner_cpu h) (slab_order h) then choose_new_current_slab (owner_cpu h) (slab_order h) s
        else s\<lparr>slab_lists := list_del a (slab_lists s)\<rparr>) = s\<lparr>slab_lists := l, current_slab := cur\<rparr> \<and>
      classes ((slab_headers s)(a := None)) fl l cur"
proof -
  note d = coreD [OF core]
  note r = slab_okD(7,5,6) [OF d(7) [OF h(1)]]
  let ?H = "slab_headers s" and ?c = "owner_cpu h" and ?k = "slab_order h"
  have ge: "4096 \<le> b" if "b \<in> dom ?H" for b using core_slab(2) [OF core that] .
  have a: "4096 \<le> a" "0 \<notin> dom ?H" using ge [of a] ge [of 0] h(1) by auto
  have cs: "class_slabs (?H(a := None)) fl cpu k = class_slabs ?H fl cpu k - {a}" for cpu k by (auto simp: class_slabs_def)
  show ?thesis
  proof (cases "a = current_slab s ?c ?k")
    case True
    have "classes_but ?c ?k (?H(a := None)) fl (slab_lists s) (current_slab s)"
      by (rule classes_vacate [OF d(6) h(1) [unfolded True] refl refl _ a(2) cs [unfolded True], folded True]) (use a(1) in simp)
    from choose_new_eval [OF this r] have "\<exists>l cur. choose_new_current_slab ?c ?k s = s\<lparr>slab_lists := l, current_slab := cur\<rparr> \<and>
      classes (?H(a := None)) fl l cur" using ge by (auto split: if_splits)
    then show ?thesis unfolding if_P [OF True] .
  next
    case False
    have "classes (?H(a := None)) fl (list_del a (slab_lists s)) (current_slab s)" by (rule classes_delete [OF d(6) h False r a(1) cs])
    moreover have "s\<lparr>slab_lists := list_del a (slab_lists s)\<rparr> = s\<lparr>slab_lists := list_del a (slab_lists s), current_slab := current_slab s\<rparr>" by simp
    ultimately show ?thesis unfolding if_not_P [OF False] by blast
  qed
qed

text \<open>A slab without slots in use goes back to the pool.\<close>

lemma return_slab:
  assumes core: "slab_core rg S n B fl s" and h: "slab_headers s a = Some h" "fl a \<noteq> []"
    and full: "current_free_cnt h = total_free_cnt h"
  shows "\<exists>s'. try_return_slab_to_buddy rg a h (slab_order h) s = Some s' \<and> slab_core rg S n B fl s' \<and>
    slab_headers s' = (slab_headers s)(a := None) \<and> rpf_mem s' = rpf_mem s \<and> rpf_vars s' = rpf_vars s"
proof -
  note d = coreD [OF core]
  note r = slab_okD(7) [OF d(7) [OF h(1)]]
  let ?H = "slab_headers s"
  let ?H' = "?H(a := None)"
  have dom: "a \<in> dom ?H" "dom ?H' = dom ?H - {a}" using h(1) by auto
  obtain i where i: "a = 4096 * (S + i)" "(i, 9) \<in> slab_chunks S (dom ?H)" "i + 512 \<le> n" using core_slab(1) [OF core dom(1)] by blast
  obtain l cur where u: "(if a = current_slab s (owner_cpu h) (slab_order h) then choose_new_current_slab (owner_cpu h) (slab_order h) s
      else s\<lparr>slab_lists := list_del a (slab_lists s)\<rparr>) = s\<lparr>slab_lists := l, current_slab := cur\<rparr>" "classes ?H' fl l cur"
    using unlink_slab [OF core h] by blast
  let ?s1 = "s\<lparr>slab_lists := l, current_slab := cur\<rparr>"
  obtain ps where ps: "set_or_clear_slab_in_page rg a SIZE_OF_ONE_SLAB False ?s1 = Some (?s1\<lparr>page_slab := ps\<rparr>)" "length ps = n"
      "\<forall>j < n. ps ! j = (if i \<le> j \<and> j < i + 512 then 0 else page_slab s ! j)"
    using slab_mark_eval [of rg S n ?s1 i False] d(5,9) i(3) unfolding i(1) pages_marked_def by auto
  have marked: "pages_marked S n (dom ?H') ps"
    unfolding dom(2) unfolding i(1)
    by (rule marked_remove [OF d(5) ps(2)]) (use dom(1) slabs_apart [OF core dom(1)] ps(3) i(1) in \<open>auto simp: i(1)\<close>)
  let ?s2 = "set_header a None (?s1\<lparr>page_slab := ps\<rparr>)"
  obtain P where P: "free_dram_pages rg a ?s2 = Some (?s2\<lparr>dram_pool := P\<rparr>)" "pool_inv rg S n (B \<union> slab_chunks S (dom ?H) - {(i, 9)}) P"
    using free_dram_pages_eval [of rg S n "B \<union> slab_chunks S (dom ?H)" ?s2 i 9] d(2) i(2) unfolding i(1) set_header_def by auto
  have ch: "slab_chunks S (dom ?H') = slab_chunks S (dom ?H) - {(i, 9)}" unfolding dom(2) unfolding i(1) by (rule slab_chunks_remove)
  then have "B \<union> slab_chunks S (dom ?H) - {(i, 9)} = B \<union> slab_chunks S (dom ?H')" "B \<inter> slab_chunks S (dom ?H') = {}"
    using d(3) i(2) by blast+
  then have core': "slab_core rg S n B fl (?s2\<lparr>dram_pool := P\<rparr>)"
    unfolding slab_core_def using d(1,4,7,8,10) P(2) marked u(2) by (auto simp: set_header_def split: if_splits)
  have "try_return_slab_to_buddy rg a h (slab_order h) s = Some (?s2\<lparr>dram_pool := P\<rparr>)"
    unfolding try_return_slab_to_buddy_def Let_def u(1) using r ps(1) P(1) full by (simp add: PLAT_CPU_NUM_def)
  then show ?thesis using core' by (intro exI [of _ "?s2\<lparr>dram_pool := P\<rparr>"]) (simp add: set_header_def)
qed

text \<open>Every slab left has a slab of the same order before.\<close>

lemma free_spec:
  assumes core: "slab_core rg S n B fl s" and x: "x \<in> used (slab_headers s) fl"
  shows "\<exists>s' fl'. free_in_dram_slab rg x s = Some s' \<and> slab_core rg S n B fl' s' \<and>
    used (slab_headers s') fl' = used (slab_headers s) fl - {x} \<and> keeps_slabs s' s \<and>
    rpf_mem s' = rpf_mem s \<and> rpf_vars s' = rpf_vars s"
proof -
  note d = coreD [OF core]
  let ?H = "slab_headers s"
  obtain a h where h: "?H a = Some h" "x \<in> slots a (slab_order h)" "x \<notin> set (fl a)" using x unfolding used_def by blast
  define h1 where "h1 = h\<lparr>free_list_head := x, current_free_cnt := current_free_cnt h + 1\<rparr>"
  let ?fl = "fl(a := x # fl a)"
  obtain l s1 where g: "try_insert_full_slab_to_partial a h s = Some s1"
    "set_header a (Some h1) (s1\<lparr>next_free := (next_free s1)(x := free_list_head h)\<rparr>) =
      s\<lparr>slab_headers := ?H(a \<mapsto> h1), next_free := (next_free s)(x := free_list_head h), slab_lists := l, current_slab := current_slab s\<rparr>"
    "slab_core rg S n B ?fl (s\<lparr>slab_headers := ?H(a \<mapsto> h1), next_free := (next_free s)(x := free_list_head h), slab_lists := l, current_slab := current_slab s\<rparr>)"
    using give_slot [OF core h] unfolding h1_def by blast
  define s2 where "s2 = s\<lparr>slab_headers := ?H(a \<mapsto> h1), next_free := (next_free s)(x := free_list_head h), slab_lists := l, current_slab := current_slab s\<rparr>"
  note g' = g(2,3) [folded s2_def]
  have H2: "slab_headers s2 = ?H(a \<mapsto> h1)" by (simp add: s2_def)
  have o: "slab_order h1 = slab_order h" "owner_cpu h1 = owner_cpu h" by (simp_all add: h1_def)
  have us: "used (slab_headers s2) ?fl = used ?H fl - {x}" unfolding H2 by (rule used_give [OF core h(1,2) o(1)])
  have cpu: "owner_cpu h < 12" by (rule slab_okD(7) [OF d(7) [OF h(1)]])
  have e: "free_in_dram_slab rg x s = try_return_slab_to_buddy rg a h1 (slab_order h1) s2"
    unfolding free_in_dram_slab_def using slot_page(1) [OF core h(1,2)] h(1) cpu g(1) g'(1)
    by (auto simp: PLAT_CPU_NUM_def h1_def Let_def)
  show ?thesis
  proof (cases "current_free_cnt h1 = total_free_cnt h1")
    case True
    have all: "set (?fl a) = slots a (slab_order h1)"
      using slab_push(2) [OF d(7) [OF h(1)] h(2,3)] slot_page(2) [OF core h(1,2)] True by (simp add: h1_def)
    obtain s' where s': "try_return_slab_to_buddy rg a h1 (slab_order h1) s2 = Some s'" "slab_core rg S n B ?fl s'"
      "slab_headers s' = (slab_headers s2)(a := None)" "rpf_mem s' = rpf_mem s2" "rpf_vars s' = rpf_vars s2"
      using return_slab [OF g'(2) _ _ True, of a] H2 by auto
    have "used (slab_headers s') ?fl = used ?H fl - {x}"
      unfolding s'(3) us [symmetric] using all by (intro used_remove [of _ _ h1]) (simp_all add: H2)
    moreover have "keeps_slabs s' s" unfolding keeps_slabs_def s'(3) H2 by simp
    ultimately show ?thesis using e s'(1,2,4,5) by (auto simp: s2_def)
  next
    case False
    have "keeps_slabs s2 s" unfolding keeps_slabs_def H2 using h(1) o(1) by simp
    moreover have "try_return_slab_to_buddy rg a h1 (slab_order h1) s2 = Some s2"
      using False cpu o(2) by (simp add: try_return_slab_to_buddy_def PLAT_CPU_NUM_def)
    ultimately show ?thesis using e g'(2) us by (auto simp: s2_def)
  qed
qed

end
