(* ===== verification/Spec2Isabelle.thy ===== *)
theory Spec2Isabelle
  imports Cap_Trace Radix_Props Ring_Buffer Buddy_Props Locks RW_Lock LLFree_Lower_Props CXL_Props Slab_Ops
begin

text \<open>
  A verification library for the StarfishOS kernel, \<^verbatim>\<open>src/kernel\<close>: a microkernel that runs as
  one system over several machines with shared CXL memory. Modelled are the kernel's object
  system, its containers, its locks and its page allocators, in the configuration of the
  single-system image (\<^verbatim>\<open>DSM_ENABLED\<close>) without checkpointing and without the reverse map.

  \<^bold>\<open>Conventions.\<close> An operation is a function on an explicit state. It returns \<open>None\<close> where the
  code stops the kernel (\<^verbatim>\<open>BUG\<close>, \<^verbatim>\<open>BUG_ON\<close>, a failed assertion), leaves an array or an object, or
  does not return; so a theorem that an operation is \<open>Some\<close> says that it returns and fails no
  assertion. Negative results are the error numbers of \<^verbatim>\<open>errno.h\<close>. Machine words are \<open>u64\<close>,
  \<open>u32\<close> where wrap-around matters and numbers where a theorem bounds them. Outcomes of memory
  allocation in the object code are a list of booleans consumed by the operation.

  \<^bold>\<open>Foundations.\<close> \<open>Prelude\<close> has the types, error numbers and shared lemmas. \<open>Kernel_List\<close>
  models \<^verbatim>\<open>include/common/list.h\<close> over a heap of links, states the contract of an intrusive list
  (locale \<open>intrusive_list\<close>, with families of disjoint lists) and proves it for the code's lists.
  \<open>Bitops\<close> models \<^verbatim>\<open>include/common/bitops.h\<close> with the contract \<open>bitmap\<close>.

  \<^bold>\<open>Capabilities\<close> (\<^verbatim>\<open>object/cap_group.c\<close>, \<^verbatim>\<open>object/capability.c\<close>). \<open>Slot_Table\<close> has the two-level
  bitmap of slot identifiers and their allocation. \<open>Capability\<close> has objects with reference
  counts, slots linked in the list of copies of their object, and allocation, copy, move,
  release and revocation. \<open>Cap_Syscalls\<close> has the system calls and the creation of processes with
  their failure paths. \<open>Cap_Ops\<close> states the invariant (counts equal the slots and the
  references, every copies list is the set of slots of its object) and that each operation keeps
  it; \<open>Cap_Trace\<close> has the step relation over all operations, reachability, and the properties.

  \<^bold>\<open>Containers.\<close> \<open>Radix\<close> and \<open>Radix_Props\<close> (\<^verbatim>\<open>lib/radix.c\<close>): insertion, lookup, traversal,
  release, checksum and deep copy, with the contract \<open>kv_map\<close>. \<open>Ring_Buffer\<close>
  (\<^verbatim>\<open>lib/ring_buffer.c\<close>): the ring in its block of bytes refines a bounded queue (\<open>bounded_fifo\<close>);
  checkpoint and restoration.

  \<^bold>\<open>Locks\<close> (\<^verbatim>\<open>arch/x86_64/sync\<close>). \<open>Locks\<close> and \<open>RW_Lock\<close> are step relations in which every atomic
  access of a thread is one step, over any number of threads below the bounds in the theorems;
  invariants by rule induction.

  \<^bold>\<open>Page allocators.\<close> \<open>Page_Client\<close> states what a client may rely on (locale \<open>page_allocator\<close>):
  every request and release returns, and chunks held at the same time are distinct chunks of the
  provider's invariant. Two providers are proved to satisfy it. \<open>Buddy\<close>, \<open>Buddy_Inv\<close> and
  \<open>Buddy_Props\<close> model \<^verbatim>\<open>mm/buddy.c\<close>: free lists over page metadata, splitting and merging; the
  invariant is a tiling of the pool by chunks. The other provider is the stack of \<^verbatim>\<open>mm/llfree\<close>
  with \<^verbatim>\<open>mm/buddy-lock-free.c\<close> on top of it:
  \<^item> \<open>LLFree_Bits\<close>, \<open>LLFree_Field\<close> (\<^verbatim>\<open>bitops.h\<close>, \<^verbatim>\<open>bitfield.c\<close>): bit tricks on rows of 64 bits
    against reference searches, and fields of 512 bits;
  \<^item> \<open>LLFree_Lower\<close>, \<open>LLFree_Lower_Inv\<close>, \<open>LLFree_Lower_Init\<close>, \<open>LLFree_Lower_Props\<close> (\<^verbatim>\<open>lower.c\<close>,
    \<^verbatim>\<open>child.c\<close>): children of 512 frames, abstracted to the set of free frames;
  \<^item> \<open>LLFree_Trees\<close>, \<open>LLFree_Local\<close>, \<open>LLFree\<close> (\<^verbatim>\<open>tree.c\<close>, \<^verbatim>\<open>trees.c\<close>, \<^verbatim>\<open>local.c\<close>, \<^verbatim>\<open>llfree.c\<close>): counters
    of trees of 4096 frames, reservations of trees by cores, and the allocator;
  \<^item> \<open>LLFree_Inv\<close>, \<open>LLFree_Ops\<close>, \<open>LLFree_Init\<close>: the accounting invariant (a free frame is counted
    once in the tree or in the reservation that holds it), that every operation keeps it, and
    that the initialisation establishes it;
  \<^item> \<open>CXL_Layout\<close>, \<open>Layout_Fix\<close>: the placement of the metadata in a range and the convergence of
    its search; \<open>CXL_Pages\<close>: initialisation, per-CPU page caches, allocation and release;
  \<^item> \<open>CXL_Inv\<close>, \<open>CXL_Ops\<close>, \<open>CXL_Boot\<close>, \<open>CXL_Props\<close>: the invariant with the chunks of the clients and
    the cached pages, its preservation, the boot, and the properties.

  \<^bold>\<open>Bounds and fuel.\<close> Loops of the code are structural recursion or have a termination proof; a
  loop over a list that may be cyclic takes the number of steps as an argument, and the theorems
  state that the length of the list is enough. The 64 rounds of \<open>compute_llfree_layout\<close> and the
  16 rounds of \<open>get_matching\<close> are those of the code. The bounds on the number of threads are the
  widths of the counters of the locks; \<open>2 ^ 28\<close> frames is the limit of llfree, \<open>2 ^ 40\<close> the size
  of the kernel's direct mapping.

  \<^bold>\<open>Sequential execution.\<close> Outside the two lock theories an operation runs alone: the kernel runs
  the object code and the buddy allocator under locks; llfree is lock-free, and its model covers
  the executions in which no atomic update fails.

  \<^bold>\<open>Not modelled.\<close> Page tables, interrupts, context switches and device drivers, whose meaning is
  that of the hardware; address spaces and page-fault handling, which need them; checkpointing
  and the reverse map, which the modelled configuration leaves out; migration of objects between
  machines; scheduling and inter-process calls, which act on register contexts; user-level
  servers and libraries.
\<close>

end
